(* ===== verification/Prelude.thy ===== *)
theory Prelude
  imports Main "HOL-Library.Word"
begin

text \<open>
  What every component theory shares: the machine integer types of the Rust code, results with
  errors as values, reads and writes of byte ranges (\<open>b[o..o+n]\<close> and \<open>copy_from_slice\<close>), and the
  little-endian conversions \<open>to_le_bytes\<close> and \<open>from_le_bytes\<close> that every on-disk format of the
  repository is built from. A float is kept as its IEEE bit pattern wherever the code only stores,
  loads or compares it.
\<close>

unbundle bit_operations_syntax

named_theorems codec_simps \<open>facts that evaluate reads of encoded byte ranges\<close>

section \<open>Machine types\<close>

type_synonym u8 = "8 word"
type_synonym u16 = "16 word"
type_synonym u32 = "32 word"
type_synonym u64 = "64 word"
type_synonym i16 = "16 word"  \<comment> \<open>two's complement, read with \<open>sint\<close>\<close>
type_synonym i32 = "32 word"
type_synonym i64 = "64 word"
type_synonym f32_bits = "32 word"  \<comment> \<open>\<open>f32::to_bits\<close>\<close>
type_synonym f64_bits = "64 word"  \<comment> \<open>\<open>f64::to_bits\<close>\<close>
type_synonym bytes = "u8 list"

text \<open>Rust's \<open>a..b\<close> ranges and \<open>usize\<close> values are \<open>nat\<close>; a \<open>usize\<close> is 64 bits wide.\<close>

definition usize_max :: nat where
  "usize_max = 2 ^ 64 - 1"

definition u32_max :: nat where
  "u32_max = 2 ^ 32 - 1"

section \<open>Results\<close>

text \<open>A Rust \<open>Result<T, E>\<close> is \<open>'e + 'a\<close>, \<open>Inl\<close> the error; \<open>bind_r\<close> is the \<open>?\<close> operator.\<close>

definition bind_r :: "'e + 'a \<Rightarrow> ('a \<Rightarrow> 'e + 'b) \<Rightarrow> 'e + 'b" where
  "bind_r m f = (case m of Inl e \<Rightarrow> Inl e | Inr x \<Rightarrow> f x)"

lemma bind_r_simps [simp]:
  "bind_r (Inl e) f = Inl e"
  "bind_r (Inr x) f = f x"
  by (simp_all add: bind_r_def)

lemma bind_r_Inr_iff: "bind_r m f = Inr y \<longleftrightarrow> (\<exists>x. m = Inr x \<and> f x = Inr y)"
  by (cases m) simp_all

lemma bind_r_cong [fundef_cong]:
  "m = m' \<Longrightarrow> (\<And>x. m' = Inr x \<Longrightarrow> f x = f' x) \<Longrightarrow> bind_r m f = bind_r m' f'"
  by (cases m') simp_all

definition is_ok :: "'e + 'a \<Rightarrow> bool" where
  "is_ok r = (case r of Inl _ \<Rightarrow> False | Inr _ \<Rightarrow> True)"

lemma is_ok_simps [simp]: "is_ok (Inl e) = False" "is_ok (Inr x) = True"
  by (simp_all add: is_ok_def)

lemma is_ok_iff: "is_ok r \<longleftrightarrow> (\<exists>x. r = Inr x)"
  by (cases r) simp_all

section \<open>Byte ranges\<close>

text \<open>\<open>slice_at o n b\<close> is \<open>b[o..o+n]\<close> and \<open>put_at o xs b\<close> is \<open>b[o..o+xs.len()].copy_from_slice(xs)\<close>,
  for ranges inside \<open>b\<close>.\<close>

definition slice_at :: "nat \<Rightarrow> nat \<Rightarrow> 'a list \<Rightarrow> 'a list" where
  "slice_at off n b = take n (drop off b)"

definition put_at :: "nat \<Rightarrow> 'a list \<Rightarrow> 'a list \<Rightarrow> 'a list" where
  "put_at off xs b = take off b @ xs @ drop (off + length xs) b"

lemma length_slice_at [simp]: "off + n \<le> length b \<Longrightarrow> length (slice_at off n b) = n"
  by (simp add: slice_at_def)

lemma length_put_at [simp]: "off + length xs \<le> length b \<Longrightarrow> length (put_at off xs b) = length b"
  by (simp add: put_at_def)

lemma nth_put_at:
  "off + length xs \<le> length b \<Longrightarrow> i < length b \<Longrightarrow>
   put_at off xs b ! i = (if off \<le> i \<and> i < off + length xs then xs ! (i - off) else b ! i)"
  by (auto simp: put_at_def nth_append)

lemma nth_put_at_outside [codec_simps]:
  "off + length xs \<le> length b \<Longrightarrow> i < off \<or> off + length xs \<le> i \<Longrightarrow> i < length b \<Longrightarrow>
   put_at off xs b ! i = b ! i"
  by (auto simp: nth_put_at)

lemma slice_at_put_same [codec_simps]:
  "off + length xs \<le> length b \<Longrightarrow> n = length xs \<Longrightarrow> slice_at off n (put_at off xs b) = xs"
  by (simp add: slice_at_def put_at_def)

lemma slice_at_eqI:
  "length xs = n \<Longrightarrow> off + n \<le> length b \<Longrightarrow> (\<And>i. i < n \<Longrightarrow> b ! (off + i) = xs ! i) \<Longrightarrow> slice_at off n b = xs"
  by (rule nth_equalityI) (simp_all add: slice_at_def)

lemma slice_at_put_disjoint [codec_simps]:
  assumes "off' + length xs \<le> length b" and "off + n \<le> off' \<or> off' + length xs \<le> off"
    and "off + n \<le> length b"
  shows "slice_at off n (put_at off' xs b) = slice_at off n b"
proof (rule slice_at_eqI)
  show "length (slice_at off n b) = n" using assms(3) by simp
  show "off + n \<le> length (put_at off' xs b)" using assms(1,3) by simp
  show "put_at off' xs b ! (off + i) = slice_at off n b ! i" if "i < n" for i
    using that assms by (auto simp: nth_put_at slice_at_def)
qed

lemma slice_at_list_update [codec_simps]:
  assumes "i < off \<or> off + n \<le> i"
  shows "slice_at off n (b[i := x]) = slice_at off n b"
proof (cases "i < off")
  case True
  then show ?thesis by (simp add: slice_at_def)
next
  case False
  with assms have "length (take n (drop off b)) \<le> i - off" by simp
  with False show ?thesis by (simp add: slice_at_def drop_update_swap take_update_swap list_update_beyond)
qed

lemma drop_put_at_same [codec_simps]:
  "off + length xs = length b \<Longrightarrow> drop off (put_at off xs b) = xs"
  by (simp add: put_at_def)

lemma drop_put_at_before [codec_simps]:
  assumes "off' + length xs \<le> length b" and "off' + length xs \<le> off"
  shows "drop off (put_at off' xs b) = drop off b"
proof -
  have "drop off (put_at off' xs b) = drop (off - off') (xs @ drop (off' + length xs) b)"
    using assms by (simp add: put_at_def)
  also have "\<dots> = drop off b" using assms by simp
  finally show ?thesis .
qed

lemma drop_list_update_before [codec_simps]: "i < off \<Longrightarrow> drop off (b[i := x]) = drop off b"
  by (simp add: drop_update_cancel)

lemma put_at_Nil [simp]: "put_at off [] b = b"
  by (simp add: put_at_def)

lemma slice_at_append_left [codec_simps]: "off + n \<le> length b \<Longrightarrow> slice_at off n (b @ c) = slice_at off n b"
  by (simp add: slice_at_def)

lemma slice_at_append_right [codec_simps]:
  "length b \<le> off \<Longrightarrow> slice_at off n (b @ c) = slice_at (off - length b) n c"
  by (simp add: slice_at_def)

lemma slice_at_all [simp]: "length b = n \<Longrightarrow> slice_at 0 n b = b"
  by (simp add: slice_at_def)

lemma slice_at_split: "slice_at off (m + n) b = slice_at off m b @ slice_at (off + m) n b"
  by (simp add: slice_at_def take_add add.commute)

section \<open>Little-endian integers\<close>

fun le_of_nat :: "nat \<Rightarrow> nat \<Rightarrow> bytes" where
  "le_of_nat 0 x = []"
| "le_of_nat (Suc k) x = of_nat x # le_of_nat k (x div 256)"

fun nat_of_le :: "bytes \<Rightarrow> nat" where
  "nat_of_le [] = 0"
| "nat_of_le (b # bs) = unat b + 256 * nat_of_le bs"

lemma length_le_of_nat [simp]: "length (le_of_nat k x) = k"
  by (induction k arbitrary: x) simp_all

lemma nat_of_le_bound: "nat_of_le bs < 256 ^ length bs"
proof (induction bs)
  case Nil
  then show ?case by simp
next
  case (Cons b bs)
  have "unat b < 256" using unsigned_less [of b] by simp
  then have "unat b + 256 * nat_of_le bs < 256 + 256 * nat_of_le bs" by simp
  also have "\<dots> \<le> 256 * 256 ^ length bs" using Cons by (metis Suc_leI add.commute mult_Suc_right mult_le_mono2)
  finally show ?case by simp
qed

lemma nat_of_le_le_of_nat: "nat_of_le (le_of_nat k x) = x mod 256 ^ k"
proof (induction k arbitrary: x)
  case 0
  then show ?case by simp
next
  case (Suc k)
  have "unat (of_nat x :: u8) = x mod 256" by (simp add: unat_of_nat)
  then show ?case using Suc [of "x div 256"] by (simp add: mod_mult2_eq)
qed

lemma le_of_nat_nat_of_le: "le_of_nat (length bs) (nat_of_le bs) = bs"
proof (induction bs)
  case Nil
  then show ?case by simp
next
  case (Cons b bs)
  have lt: "unat b < 256" using unsigned_less [of b] by simp
  have "(of_nat (unat b + 256 * nat_of_le bs) :: u8) = b"
    by (rule word_unat_eq_iff [THEN iffD2]) (use lt in \<open>simp add: unat_of_nat del: of_nat_add of_nat_mult\<close>)
  moreover have "(unat b + 256 * nat_of_le bs) div 256 = nat_of_le bs" using lt by simp
  ultimately show ?case using Cons by simp
qed

text \<open>\<open>to_le w\<close> is \<open>w.to_le_bytes()\<close> and \<open>from_le bs\<close> is \<open>from_le_bytes(bs)\<close> at the type of the result.\<close>

definition to_le :: "'a::len word \<Rightarrow> bytes" where
  "to_le w = le_of_nat (LENGTH('a) div 8) (unat w)"

definition from_le :: "bytes \<Rightarrow> 'a::len word" where
  "from_le bs = of_nat (nat_of_le bs)"

lemma length_to_le [simp]: "length (to_le (w :: 'a::len word)) = LENGTH('a) div 8"
  by (simp add: to_le_def)

lemma to_le_not_Nil [simp]:
  "to_le (w16 :: u16) \<noteq> []" "to_le (w32 :: u32) \<noteq> []" "to_le (w64 :: u64) \<noteq> []"
  by (simp_all flip: length_greater_0_conv)

lemma from_le_to_le_gen: "8 dvd LENGTH('a) \<Longrightarrow> from_le (to_le w) = (w :: 'a::len word)"
proof -
  assume d: "8 dvd LENGTH('a)"
  then have "(256::nat) ^ (LENGTH('a) div 8) = 2 ^ LENGTH('a)"
    using power_mult [of "2::nat" 8 "LENGTH('a) div 8"] by simp
  then show ?thesis by (simp add: from_le_def to_le_def nat_of_le_le_of_nat)
qed

lemma from_le_to_le [simp]:
  "from_le (to_le w8) = (w8 :: u8)" "from_le (to_le w16) = (w16 :: u16)"
  "from_le (to_le w32) = (w32 :: u32)" "from_le (to_le w64) = (w64 :: u64)"
  by (simp_all add: from_le_to_le_gen)

lemma to_le_from_le_gen:
  assumes "length bs * 8 = LENGTH('a)"
  shows "to_le (from_le bs :: 'a::len word) = bs"
proof -
  have "(256::nat) ^ length bs = 2 ^ LENGTH('a)"
    using assms power_mult [of "2::nat" 8 "length bs"] by (simp add: mult.commute)
  then have "unat (from_le bs :: 'a word) = nat_of_le bs"
    using nat_of_le_bound [of bs] by (simp add: from_le_def unat_of_nat)
  moreover have "LENGTH('a) div 8 = length bs" using assms by simp
  ultimately show ?thesis by (simp add: to_le_def le_of_nat_nat_of_le)
qed

lemma to_le_from_le [simp]:
  "length b = 2 \<Longrightarrow> to_le (from_le b :: u16) = b"
  "length b = 4 \<Longrightarrow> to_le (from_le b :: u32) = b"
  "length b = 8 \<Longrightarrow> to_le (from_le b :: u64) = b"
  by (simp_all add: to_le_from_le_gen)

lemma unat_of_nat_u32 [simp]: "n < 2 ^ 32 \<Longrightarrow> unat (of_nat n :: u32) = n"
  by (simp add: unat_of_nat)

lemma unat_of_nat_u16 [simp]: "n < 2 ^ 16 \<Longrightarrow> unat (of_nat n :: u16) = n"
  by (simp add: unat_of_nat)

lemma unat_of_nat_u8 [simp]: "n < 2 ^ 8 \<Longrightarrow> unat (of_nat n :: u8) = n"
  by (simp add: unat_of_nat)

lemma unat_of_nat_u64: "n < 2 ^ 64 \<Longrightarrow> unat (of_nat n :: u64) = n"
  by (simp add: unat_of_nat)

end
