(* ===== verification/FloatBits.thy ===== *)
theory FloatBits
  imports Prelude
begin

text \<open>
  The part of IEEE 754 the modelled code observes: it compares floats, tests for NaN and widens
  \<open>f32\<close> to \<open>f64\<close>. Floats are bit patterns. A finite or infinite float is ordered by its sign and
  magnitude bits, so the comparisons are exact integer comparisons; \<open>f64_total_key\<close> is the integer
  that \<open>f64::total_cmp\<close> compares. No arithmetic is modelled here.
\<close>

section \<open>f64\<close>

definition f64_mag :: "f64_bits \<Rightarrow> nat" where
  "f64_mag b = unat b mod 2 ^ 63"

definition f64_neg :: "f64_bits \<Rightarrow> bool" where
  "f64_neg b \<longleftrightarrow> 2 ^ 63 \<le> unat b"

definition f64_inf_mag :: nat where
  "f64_inf_mag = 2047 * 2 ^ 52"

definition f64_infinity :: f64_bits where
  "f64_infinity = of_nat f64_inf_mag"

definition f64_is_nan :: "f64_bits \<Rightarrow> bool" where
  "f64_is_nan b \<longleftrightarrow> f64_inf_mag < f64_mag b"

text \<open>The rank of a non-NaN float among the reals: equal exactly when the floats are equal (\<open>-0 = 0\<close>).\<close>

definition f64_rank :: "f64_bits \<Rightarrow> int" where
  "f64_rank b = (if f64_neg b then - int (f64_mag b) else int (f64_mag b))"

definition f64_lt :: "f64_bits \<Rightarrow> f64_bits \<Rightarrow> bool" where
  "f64_lt a b \<longleftrightarrow> \<not> f64_is_nan a \<and> \<not> f64_is_nan b \<and> f64_rank a < f64_rank b"

definition f64_le :: "f64_bits \<Rightarrow> f64_bits \<Rightarrow> bool" where
  "f64_le a b \<longleftrightarrow> \<not> f64_is_nan a \<and> \<not> f64_is_nan b \<and> f64_rank a \<le> f64_rank b"

definition f64_eq :: "f64_bits \<Rightarrow> f64_bits \<Rightarrow> bool" where
  "f64_eq a b \<longleftrightarrow> \<not> f64_is_nan a \<and> \<not> f64_is_nan b \<and> f64_rank a = f64_rank b"

text \<open>\<open>f64::min\<close>/\<open>f64::max\<close>: a NaN operand is ignored; of two equal operands the first is returned.\<close>

definition f64_min :: "f64_bits \<Rightarrow> f64_bits \<Rightarrow> f64_bits" where
  "f64_min a b = (if f64_is_nan a then b else if f64_is_nan b then a
     else if f64_rank a \<le> f64_rank b then a else b)"

definition f64_max :: "f64_bits \<Rightarrow> f64_bits \<Rightarrow> f64_bits" where
  "f64_max a b = (if f64_is_nan a then b else if f64_is_nan b then a
     else if f64_rank b \<le> f64_rank a then a else b)"

text \<open>\<open>f64::total_cmp\<close> compares the bits as an \<open>i64\<close> after flipping the magnitude bits of negatives.\<close>

definition f64_total_key :: "f64_bits \<Rightarrow> int" where
  "f64_total_key b = (if f64_neg b then - int (f64_mag b) - 1 else int (f64_mag b))"

lemma f64_bits_split: "unat b = f64_mag b + (if f64_neg b then 2 ^ 63 else 0)"
proof -
  have "unat b < 2 ^ 64" using unsigned_less [of b] by simp
  then have "unat b div 2 ^ 63 = (if f64_neg b then 1 else 0)"
    by (auto simp: f64_neg_def div_nat_eqI not_le)
  moreover have "unat b = unat b div 2 ^ 63 * 2 ^ 63 + unat b mod 2 ^ 63"
    by (rule div_mult_mod_eq [symmetric])
  ultimately show ?thesis by (simp add: f64_mag_def split: if_splits)
qed

lemma f64_total_key_inj: "f64_total_key a = f64_total_key b \<longleftrightarrow> a = b"
proof
  assume "f64_total_key a = f64_total_key b"
  then have "f64_mag a = f64_mag b \<and> f64_neg a = f64_neg b"
    by (auto simp: f64_total_key_def split: if_splits)
  then show "a = b" by (simp add: word_unat_eq_iff f64_bits_split)
qed simp

lemma f64_lt_total_key: "f64_lt a b \<Longrightarrow> f64_total_key a < f64_total_key b"
  by (auto simp: f64_lt_def f64_rank_def f64_total_key_def split: if_splits)

lemma f64_total_key_rank: "f64_total_key a \<le> f64_total_key b \<Longrightarrow> f64_rank a \<le> f64_rank b"
  by (auto simp: f64_rank_def f64_total_key_def split: if_splits)

lemma f64_not_lt: "\<not> f64_is_nan a \<Longrightarrow> \<not> f64_is_nan b \<Longrightarrow> \<not> f64_lt a b \<longleftrightarrow> f64_le b a"
  by (auto simp: f64_lt_def f64_le_def)

section \<open>f32\<close>

definition f32_mag :: "f32_bits \<Rightarrow> nat" where
  "f32_mag b = unat b mod 2 ^ 31"

definition f32_neg :: "f32_bits \<Rightarrow> bool" where
  "f32_neg b \<longleftrightarrow> 2 ^ 31 \<le> unat b"

definition f32_inf_mag :: nat where
  "f32_inf_mag = 255 * 2 ^ 23"

definition f32_is_nan :: "f32_bits \<Rightarrow> bool" where
  "f32_is_nan b \<longleftrightarrow> f32_inf_mag < f32_mag b"

definition f32_rank :: "f32_bits \<Rightarrow> int" where
  "f32_rank b = (if f32_neg b then - int (f32_mag b) else int (f32_mag b))"

definition f32_lt :: "f32_bits \<Rightarrow> f32_bits \<Rightarrow> bool" where
  "f32_lt a b \<longleftrightarrow> \<not> f32_is_nan a \<and> \<not> f32_is_nan b \<and> f32_rank a < f32_rank b"

definition f32_le :: "f32_bits \<Rightarrow> f32_bits \<Rightarrow> bool" where
  "f32_le a b \<longleftrightarrow> \<not> f32_is_nan a \<and> \<not> f32_is_nan b \<and> f32_rank a \<le> f32_rank b"

section \<open>Widening\<close>

text \<open>
  \<open>x as f64\<close> is exact. A normal \<open>f32\<close> is re-biased by \<open>1023 - 127 = 896\<close> and its 23 fraction bits
  become the top of the 52; a subnormal one, \<open>m * 2^-149\<close>, is normalised at its leading bit.
\<close>

fun nat_log2 :: "nat \<Rightarrow> nat" where
  "nat_log2 n = (if n < 2 then 0 else Suc (nat_log2 (n div 2)))"

declare nat_log2.simps [simp del]

definition f32_widen_mag :: "nat \<Rightarrow> nat" where
  "f32_widen_mag g =
     (let e = g div 2 ^ 23; m = g mod 2 ^ 23 in
      if e = 255 then 2047 * 2 ^ 52 + m * 2 ^ 29
      else if e \<noteq> 0 then (e + 896) * 2 ^ 52 + m * 2 ^ 29
      else if m = 0 then 0
      else (nat_log2 m + 874) * 2 ^ 52 + (m - 2 ^ nat_log2 m) * 2 ^ (52 - nat_log2 m))"

definition f32_to_f64 :: "f32_bits \<Rightarrow> f64_bits" where
  "f32_to_f64 b = of_nat (f32_widen_mag (f32_mag b) + (if f32_neg b then 2 ^ 63 else 0))"

lemma nat_log2_bounds: "n \<noteq> 0 \<Longrightarrow> 2 ^ nat_log2 n \<le> n \<and> n < 2 * 2 ^ nat_log2 n"
proof (induction n rule: nat_log2.induct)
  case (1 n)
  show ?case
  proof (cases "n < 2")
    case True
    with 1 show ?thesis by (simp add: nat_log2.simps)
  next
    case False
    with 1 have "2 ^ nat_log2 (n div 2) \<le> n div 2 \<and> n div 2 < 2 * 2 ^ nat_log2 (n div 2)" by simp
    with False show ?thesis by (subst (1 2) nat_log2.simps) auto
  qed
qed

lemma nat_log2_less:
  assumes "n \<noteq> 0" and "n < 2 ^ k"
  shows "nat_log2 n < k"
proof -
  have "(2::nat) ^ nat_log2 n \<le> n" using nat_log2_bounds [OF assms(1)] by blast
  then have "(2::nat) ^ nat_log2 n < 2 ^ k" using assms(2) by (rule le_less_trans)
  then show ?thesis by simp
qed

end
