(* ===== verification/AnnCore.thy ===== *)
theory AnnCore
  imports FloatBits
begin

text \<open>
  The shared primitives of \<open>src/theodb_rs/src/ann/mod.rs\<close>: the distance family \<open>Metric\<close> with its
  frozen on-disk tags, the SplitMix64 generator \<open>Rng\<close>, and the order on \<open>Cand\<close>, a distance with a
  node index, NaN last.
\<close>

section \<open>Metric\<close>

datatype metric = L2 | Ip | Cosine

text \<open>\<open>str::to_ascii_lowercase\<close>, bytewise.\<close>

definition ascii_lower :: "char \<Rightarrow> char" where
  "ascii_lower c = (let n = of_char c :: nat in if 65 \<le> n \<and> n \<le> 90 then char_of (n + 32) else c)"

definition metric_parse :: "string \<Rightarrow> metric option" where
  "metric_parse s =
     (let t = map ascii_lower s in
      if t = ''l2'' \<or> t = ''euclidean'' then Some L2
      else if t = ''ip'' \<or> t = ''inner_product'' \<or> t = ''dot'' then Some Ip
      else if t = ''cosine'' then Some Cosine
      else None)"

fun metric_tag :: "metric \<Rightarrow> u8" where
  "metric_tag L2 = 0"
| "metric_tag Ip = 1"
| "metric_tag Cosine = 2"

definition metric_from_tag :: "u8 \<Rightarrow> metric option" where
  "metric_from_tag t = (if t = 0 then Some L2 else if t = 1 then Some Ip
     else if t = 2 then Some Cosine else None)"

lemma metric_from_tag_tag [simp]: "metric_from_tag (metric_tag m) = Some m"
  by (cases m) (simp_all add: metric_from_tag_def)

lemma metric_tag_from_tag: "metric_from_tag t = Some m \<Longrightarrow> metric_tag m = t"
  by (auto simp: metric_from_tag_def split: if_splits)

section \<open>Rng\<close>

text \<open>One SplitMix64 step: the new state and the output, all arithmetic modulo \<open>2^64\<close>.\<close>

definition rng_next_u64 :: "u64 \<Rightarrow> u64 \<times> u64" where
  "rng_next_u64 s =
     (let s = s + 0x9E3779B97F4A7C15;
          z = s;
          z = (z XOR drop_bit 30 z) * 0xBF58476D1CE4E5B9;
          z = (z XOR drop_bit 27 z) * 0x94D049BB133111EB
      in (s, z XOR drop_bit 31 z))"

section \<open>Cand\<close>

record cand =
  cd :: f64_bits
  ci :: nat

text \<open>\<open>Ord for Cand\<close> as the source's case split: distance, then index; NaN after everything else.\<close>

definition cand_less :: "cand \<Rightarrow> cand \<Rightarrow> bool" where
  "cand_less a b =
     (if \<not> f64_is_nan (cd a) \<and> \<not> f64_is_nan (cd b) then
        f64_lt (cd a) (cd b) \<or> f64_eq (cd a) (cd b) \<and> ci a < ci b
      else if f64_is_nan (cd a) \<and> f64_is_nan (cd b) then ci a < ci b
      else if f64_is_nan (cd a) then False
      else True)"

text \<open>The key the order sorts by: a NaN ranks above every float.\<close>

definition dist_key :: "f64_bits \<Rightarrow> int" where
  "dist_key d = (if f64_is_nan d then 2 ^ 63 else f64_rank d)"

lemma f64_rank_less_nan: "\<not> f64_is_nan d \<Longrightarrow> f64_rank d < 2 ^ 63"
  by (auto simp: f64_rank_def f64_is_nan_def f64_inf_mag_def)

lemma cand_less_key:
  "cand_less a b \<longleftrightarrow> dist_key (cd a) < dist_key (cd b) \<or>
     dist_key (cd a) = dist_key (cd b) \<and> ci a < ci b"
  using f64_rank_less_nan [of "cd a"] f64_rank_less_nan [of "cd b"]
  by (auto simp: cand_less_def dist_key_def f64_lt_def f64_eq_def)

lemma cand_less_irrefl [simp]: "\<not> cand_less a a"
  by (simp add: cand_less_key)

lemma cand_less_trans: "cand_less a b \<Longrightarrow> cand_less b c \<Longrightarrow> cand_less a c"
  by (auto simp: cand_less_key)

lemma cand_less_total: "ci a \<noteq> ci b \<Longrightarrow> cand_less a b \<or> cand_less b a"
  by (auto simp: cand_less_key)

end
