(* ===== verification/Wire.thy ===== *)
theory Wire
  imports Prelude
begin

text \<open>
  The byte codec of \<open>src/theodb_rs/src/ann/wire.rs\<close>: the \<open>put_*\<close> writers append to a byte buffer,
  the cursor \<open>Cur\<close> reads it back with every length checked. The locale \<open>wire_codec\<close> is the contract
  between a writer and its reader (what was written is read back and the cursor stands right after
  it; a strict prefix is refused as truncated); it is closed under the length-prefixed list that the
  code builds from any element codec, and interpreted for every writer/reader pair of the file.
  \<open>usize\<close> values are stored as \<open>u64\<close>; an \<open>f32\<close> is its bit pattern.
\<close>

section \<open>Writers\<close>

definition put_u32 :: "bytes \<Rightarrow> u32 \<Rightarrow> bytes" where
  "put_u32 b n = b @ to_le n"

definition put_u64 :: "bytes \<Rightarrow> u64 \<Rightarrow> bytes" where
  "put_u64 b n = b @ to_le n"

definition put_i64 :: "bytes \<Rightarrow> i64 \<Rightarrow> bytes" where
  "put_i64 b n = b @ to_le n"

definition put_f32 :: "bytes \<Rightarrow> f32_bits \<Rightarrow> bytes" where
  "put_f32 b x = b @ to_le x"

definition put_vec_f32 :: "bytes \<Rightarrow> f32_bits list \<Rightarrow> bytes" where
  "put_vec_f32 b v = foldl put_f32 (put_u32 b (of_nat (length v))) v"

definition put_vecs_f32 :: "bytes \<Rightarrow> f32_bits list list \<Rightarrow> bytes" where
  "put_vecs_f32 b vs = foldl put_vec_f32 (put_u32 b (of_nat (length vs))) vs"

definition put_vec_usize :: "bytes \<Rightarrow> u64 list \<Rightarrow> bytes" where
  "put_vec_usize b v = foldl put_u64 (put_u32 b (of_nat (length v))) v"

definition put_vecs_usize :: "bytes \<Rightarrow> u64 list list \<Rightarrow> bytes" where
  "put_vecs_usize b v = foldl put_vec_usize (put_u32 b (of_nat (length v))) v"

definition put_vecs_vecs_usize :: "bytes \<Rightarrow> u64 list list list \<Rightarrow> bytes" where
  "put_vecs_vecs_usize b v = foldl put_vecs_usize (put_u32 b (of_nat (length v))) v"

section \<open>The read cursor\<close>

datatype wire_error = LengthOverflow | TruncatedBlob

record cur =
  buf :: bytes
  pos :: nat

definition cur_new :: "bytes \<Rightarrow> cur" where
  "cur_new b = \<lparr>buf = b, pos = 0\<rparr>"

definition cur_take :: "nat \<Rightarrow> cur \<Rightarrow> wire_error + bytes \<times> cur" where
  "cur_take n c =
     (if pos c + n > usize_max then Inl LengthOverflow
      else if pos c + n > length (buf c) then Inl TruncatedBlob
      else Inr (slice_at (pos c) n (buf c), c\<lparr>pos := pos c + n\<rparr>))"

text \<open>The allocation hint: never more elements than the bytes that are left can hold.\<close>

definition capacity_for :: "cur \<Rightarrow> nat \<Rightarrow> nat \<Rightarrow> nat" where
  "capacity_for c count elem_bytes =
     (let remaining = length (buf c) - pos c in min count (remaining div max elem_bytes 1))"

definition cur_u8 :: "cur \<Rightarrow> wire_error + u8 \<times> cur" where
  "cur_u8 c = bind_r (cur_take 1 c) (\<lambda>(s, c). Inr (s ! 0, c))"

definition cur_u32 :: "cur \<Rightarrow> wire_error + u32 \<times> cur" where
  "cur_u32 c = bind_r (cur_take 4 c) (\<lambda>(s, c). Inr (from_le s, c))"

definition cur_u64 :: "cur \<Rightarrow> wire_error + u64 \<times> cur" where
  "cur_u64 c = bind_r (cur_take 8 c) (\<lambda>(s, c). Inr (from_le s, c))"

definition cur_usize :: "cur \<Rightarrow> wire_error + u64 \<times> cur" where
  "cur_usize c = cur_u64 c"

definition cur_i64 :: "cur \<Rightarrow> wire_error + i64 \<times> cur" where
  "cur_i64 c = bind_r (cur_take 8 c) (\<lambda>(s, c). Inr (from_le s, c))"

definition cur_f32 :: "cur \<Rightarrow> wire_error + f32_bits \<times> cur" where
  "cur_f32 c = bind_r (cur_take 4 c) (\<lambda>(s, c). Inr (from_le s, c))"

text \<open>The loop \<open>for _ in 0..n { v.push(rd()?) }\<close> every list reader runs.\<close>

fun read_n :: "(cur \<Rightarrow> wire_error + 'a \<times> cur) \<Rightarrow> nat \<Rightarrow> cur \<Rightarrow> wire_error + 'a list \<times> cur" where
  "read_n rd 0 c = Inr ([], c)"
| "read_n rd (Suc n) c =
     bind_r (rd c) (\<lambda>(x, c). bind_r (read_n rd n c) (\<lambda>(xs, c). Inr (x # xs, c)))"

definition cur_vec_f32 :: "cur \<Rightarrow> wire_error + f32_bits list \<times> cur" where
  "cur_vec_f32 c = bind_r (cur_u32 c) (\<lambda>(n, c). read_n cur_f32 (unat n) c)"

definition cur_vecs_f32 :: "cur \<Rightarrow> wire_error + f32_bits list list \<times> cur" where
  "cur_vecs_f32 c = bind_r (cur_u32 c) (\<lambda>(n, c). read_n cur_vec_f32 (unat n) c)"

definition cur_vec_usize :: "cur \<Rightarrow> wire_error + u64 list \<times> cur" where
  "cur_vec_usize c = bind_r (cur_u32 c) (\<lambda>(n, c). read_n cur_usize (unat n) c)"

definition cur_vecs_usize :: "cur \<Rightarrow> wire_error + u64 list list \<times> cur" where
  "cur_vecs_usize c = bind_r (cur_u32 c) (\<lambda>(n, c). read_n cur_vec_usize (unat n) c)"

definition cur_vecs_vecs_usize :: "cur \<Rightarrow> wire_error + u64 list list list \<times> cur" where
  "cur_vecs_vecs_usize c = bind_r (cur_u32 c) (\<lambda>(n, c). read_n cur_vecs_usize (unat n) c)"

definition cur_i64_vec :: "cur \<Rightarrow> wire_error + i64 list \<times> cur" where
  "cur_i64_vec c = bind_r (cur_u32 c) (\<lambda>(n, c). read_n cur_i64 (unat n) c)"

section \<open>The writer/reader contract\<close>

text \<open>\<open>at_bytes pre w c\<close>: the cursor stands at the bytes \<open>w\<close>, after \<open>pre\<close>.\<close>

definition at_bytes :: "bytes \<Rightarrow> bytes \<Rightarrow> cur \<Rightarrow> bool" where
  "at_bytes pre w c \<longleftrightarrow> buf c = pre @ w \<and> pos c = length pre \<and> length (buf c) \<le> usize_max"

definition cur_at :: "bytes \<Rightarrow> bytes \<Rightarrow> cur" where
  "cur_at pre w = \<lparr>buf = pre @ w, pos = length pre\<rparr>"

lemma cur_new_at: "cur_new w = cur_at [] w"
  by (simp add: cur_new_def cur_at_def)

lemma at_bytes_advance:
  "at_bytes pre (w @ rest) c \<Longrightarrow> at_bytes (pre @ w) rest (c\<lparr>pos := pos c + length w\<rparr>)"
  by (auto simp: at_bytes_def)

lemma cur_take_at: "at_bytes pre (w @ rest) c \<Longrightarrow> n = length w \<Longrightarrow>
    cur_take n c = Inr (w, c\<lparr>pos := pos c + n\<rparr>)"
  by (auto simp: at_bytes_def cur_take_def slice_at_def)

lemma cur_take_short: "at_bytes pre w c \<Longrightarrow> length w < n \<Longrightarrow> length pre + n \<le> usize_max \<Longrightarrow>
    cur_take n c = Inl TruncatedBlob"
  by (auto simp: at_bytes_def cur_take_def)

locale wire_codec =
  fixes put :: "bytes \<Rightarrow> 'a \<Rightarrow> bytes"
    and get :: "cur \<Rightarrow> wire_error + 'a \<times> cur"
    and ok :: "'a \<Rightarrow> bool"
  assumes put_append: "put b x = b @ put [] x"
    and get_put: "ok x \<Longrightarrow> at_bytes pre (put [] x @ rest) c \<Longrightarrow>
      get c = Inr (x, c\<lparr>pos := pos c + length (put [] x)\<rparr>)"
    and get_short: "ok x \<Longrightarrow> at_bytes pre (take k (put [] x)) c \<Longrightarrow> k < length (put [] x) \<Longrightarrow>
      length pre + length (put [] x) \<le> usize_max \<Longrightarrow> get c = Inl TruncatedBlob"
begin

lemma put_nonempty: "b \<noteq> [] \<Longrightarrow> put b x = b @ put [] x"
  by (rule put_append)

lemma foldl_put: "foldl put b xs = b @ concat (map (put []) xs)"
proof (induction xs arbitrary: b)
  case Nil
  show ?case by simp
next
  case (Cons x xs)
  show ?case using Cons [of "put b x"] put_append [of b x] by simp
qed

lemma read_n_put:
  assumes "\<forall>x \<in> set xs. ok x" and "at_bytes pre (concat (map (put []) xs) @ rest) c"
  shows "read_n get (length xs) c =
    Inr (xs, c\<lparr>pos := pos c + length (concat (map (put []) xs))\<rparr>)"
  using assms
proof (induction xs arbitrary: pre c)
  case Nil
  then show ?case by (simp add: at_bytes_def)
next
  case (Cons x xs)
  let ?w = "put [] x" and ?ws = "concat (map (put []) xs)"
  have at: "at_bytes pre (?w @ ?ws @ rest) c" using Cons.prems(2) by simp
  have hd: "get c = Inr (x, c\<lparr>pos := pos c + length ?w\<rparr>)"
    using Cons.prems(1) at by (auto intro: get_put)
  have "read_n get (length xs) (c\<lparr>pos := pos c + length ?w\<rparr>) =
      Inr (xs, c\<lparr>pos := pos c + length ?w + length ?ws\<rparr>)"
    using Cons.IH [OF _ at_bytes_advance [OF at]] Cons.prems(1) by simp
  with hd show ?case by (simp add: add.assoc)
qed

lemma read_n_short:
  assumes "\<forall>x \<in> set xs. ok x" and "at_bytes pre (take k (concat (map (put []) xs))) c"
    and "k < length (concat (map (put []) xs))"
    and "length pre + length (concat (map (put []) xs)) \<le> usize_max"
  shows "read_n get (length xs) c = Inl TruncatedBlob"
  using assms
proof (induction xs arbitrary: pre c k)
  case Nil
  then show ?case by simp
next
  case (Cons x xs)
  let ?w = "put [] x" and ?ws = "concat (map (put []) xs)"
  show ?case
  proof (cases "k < length ?w")
    case True
    then have "at_bytes pre (take k ?w) c" using Cons.prems(2) by simp
    with True Cons.prems(1,4) have "get c = Inl TruncatedBlob"
      by (auto intro: get_short)
    then show ?thesis by simp
  next
    case False
    then have at: "at_bytes pre (?w @ take (k - length ?w) ?ws) c" using Cons.prems(2) by simp
    have hd: "get c = Inr (x, c\<lparr>pos := pos c + length ?w\<rparr>)"
      using Cons.prems(1) at by (auto intro: get_put)
    have "read_n get (length xs) (c\<lparr>pos := pos c + length ?w\<rparr>) = Inl TruncatedBlob"
      by (rule Cons.IH [OF _ at_bytes_advance [OF at]]) (use Cons.prems False in auto)
    with hd show ?thesis by simp
  qed
qed

text \<open>The reading rule in the form the simplifier chains: the cursor moves past what it read.\<close>

lemma get_cur_at:
  assumes "ok x" and "length pre + length (put [] x) + length rest \<le> usize_max"
  shows "get (cur_at pre (put [] x @ rest)) = Inr (x, cur_at (pre @ put [] x) rest)"
proof -
  have "at_bytes pre (put [] x @ rest) (cur_at pre (put [] x @ rest))"
    using assms(2) by (simp add: at_bytes_def cur_at_def)
  from get_put [OF assms(1) this] show ?thesis by (simp add: cur_at_def)
qed

text \<open>The length-prefixed list over an element codec is a codec again.\<close>

lemma list_codec:
  assumes putl: "\<And>b xs. putl b xs = foldl put (put_u32 b (of_nat (length xs))) xs"
    and getl: "\<And>c. getl c = bind_r (cur_u32 c) (\<lambda>(n, c). read_n get (unat n) c)"
    and okl: "\<And>xs. okl xs \<longleftrightarrow> length xs < 2 ^ 32 \<and> (\<forall>x \<in> set xs. ok x)"
  shows "wire_codec putl getl okl"
proof
  fix b xs
  show "putl b xs = b @ putl [] xs"
    by (simp add: putl foldl_put put_u32_def)
next
  fix xs pre rest c
  let ?n = "to_le (of_nat (length xs) :: u32)" and ?ws = "concat (map (put []) xs)"
  assume ok: "okl xs" and at: "at_bytes pre (putl [] xs @ rest) c"
  have w: "putl [] xs = ?n @ ?ws" by (simp add: putl foldl_put put_u32_def)
  from at have at: "at_bytes pre (?n @ ?ws @ rest) c" by (simp add: w)
  have "cur_u32 c = Inr (of_nat (length xs), c\<lparr>pos := pos c + 4\<rparr>)"
    by (simp add: cur_u32_def cur_take_at [OF at])
  moreover have "read_n get (length xs) (c\<lparr>pos := pos c + 4\<rparr>) =
      Inr (xs, c\<lparr>pos := pos c + 4 + length ?ws\<rparr>)"
    using read_n_put [OF _ at_bytes_advance [OF at]] ok by (simp add: okl)
  ultimately show "getl c = Inr (xs, c\<lparr>pos := pos c + length (putl [] xs)\<rparr>)"
    using ok by (simp add: getl okl w)
next
  fix xs pre k c
  let ?n = "to_le (of_nat (length xs) :: u32)" and ?ws = "concat (map (put []) xs)"
  assume ok: "okl xs" and at: "at_bytes pre (take k (putl [] xs)) c"
    and k: "k < length (putl [] xs)" and small: "length pre + length (putl [] xs) \<le> usize_max"
  have w: "putl [] xs = ?n @ ?ws" by (simp add: putl foldl_put put_u32_def)
  show "getl c = Inl TruncatedBlob"
  proof (cases "k < 4")
    case True
    then have "cur_take 4 c = Inl TruncatedBlob"
      using at small by (intro cur_take_short) (auto simp: w)
    then show ?thesis by (simp add: getl cur_u32_def)
  next
    case False
    then have at: "at_bytes pre (?n @ take (k - 4) ?ws) c" using at by (simp add: w)
    have "cur_u32 c = Inr (of_nat (length xs), c\<lparr>pos := pos c + 4\<rparr>)"
      by (simp add: cur_u32_def cur_take_at [OF at])
    moreover have at': "at_bytes (pre @ ?n) (take (k - 4) ?ws) (c\<lparr>pos := pos c + 4\<rparr>)"
      using at_bytes_advance [OF at] by simp
    moreover have "read_n get (length xs) (c\<lparr>pos := pos c + 4\<rparr>) = Inl TruncatedBlob"
      by (rule read_n_short [OF _ at'])
        (use ok k small False in \<open>auto simp: okl w simp del: length_concat\<close>)
    ultimately show ?thesis using ok by (simp add: getl okl)
  qed
qed

end

section \<open>Every pair of the file keeps the contract\<close>

lemma fixed_codec:
  fixes put :: "bytes \<Rightarrow> 'a::len word \<Rightarrow> bytes"
  assumes put: "\<And>b x. put b x = b @ to_le x" and d: "8 dvd LENGTH('a)" "LENGTH('a) \<le> 64"
    and get: "\<And>c. get c = bind_r (cur_take (LENGTH('a) div 8) c) (\<lambda>(s, c). Inr (from_le s, c))"
  shows "wire_codec put get (\<lambda>_. True)"
proof
  fix b x
  show "put b x = b @ put [] x" by (simp add: put)
next
  fix x pre rest c
  assume at: "at_bytes pre (put [] x @ rest) c"
  then have "cur_take (LENGTH('a) div 8) c = Inr (to_le x, c\<lparr>pos := pos c + LENGTH('a) div 8\<rparr>)"
    by (intro cur_take_at [of pre _ rest]) (simp_all add: put)
  then show "get c = Inr (x, c\<lparr>pos := pos c + length (put [] x)\<rparr>)"
    by (simp add: get put from_le_to_le_gen d)
next
  fix x pre k c
  assume at: "at_bytes pre (take k (put [] x)) c" and k: "k < length (put [] x)"
    and "length pre + length (put [] x) \<le> usize_max"
  then have "cur_take (LENGTH('a) div 8) c = Inl TruncatedBlob"
    using d by (intro cur_take_short) (auto simp: put)
  then show "get c = Inl TruncatedBlob" by (simp add: get)
qed

definition push_u8 :: "bytes \<Rightarrow> u8 \<Rightarrow> bytes" where
  "push_u8 b x = b @ [x]"

definition put_ids :: "bytes \<Rightarrow> i64 list \<Rightarrow> bytes" where
  "put_ids b ids = foldl put_i64 (put_u32 b (of_nat (length ids))) ids"

lemma to_le_u8: "to_le (x :: u8) = [x]"
  by (simp add: to_le_def)

interpretation u8_codec: wire_codec push_u8 cur_u8 "\<lambda>_. True"
proof (rule fixed_codec)
  fix c
  show "cur_u8 c = bind_r (cur_take (LENGTH(8) div 8) c) (\<lambda>(s, c). Inr (from_le s, c))"
  proof (cases "cur_take 1 c")
    case (Inr a)
    then obtain s c' where a: "cur_take 1 c = Inr (s, c')" and "length s = 1"
      by (cases a) (auto simp: cur_take_def split: if_splits)
    then obtain x where "s = [x]" by (auto simp: length_Suc_conv)
    with a show ?thesis by (simp add: cur_u8_def from_le_def)
  qed (simp add: cur_u8_def)
qed (simp_all add: push_u8_def to_le_u8)

interpretation f32_codec: wire_codec put_f32 cur_f32 "\<lambda>_. True"
  by (rule fixed_codec) (simp_all add: put_f32_def cur_f32_def)

interpretation usize_codec: wire_codec put_u64 cur_usize "\<lambda>_. True"
  by (rule fixed_codec) (simp_all add: put_u64_def cur_usize_def cur_u64_def)

interpretation i64_codec: wire_codec put_i64 cur_i64 "\<lambda>_. True"
  by (rule fixed_codec) (simp_all add: put_i64_def cur_i64_def)

interpretation u32_codec: wire_codec put_u32 cur_u32 "\<lambda>_. True"
  by (rule fixed_codec) (simp_all add: put_u32_def cur_u32_def)

text \<open>A list is encodable when its length, and that of every list inside it, fits the \<open>u32\<close> prefix.\<close>

definition fits_u32 :: "'a list \<Rightarrow> bool" where
  "fits_u32 xs \<longleftrightarrow> length xs < 2 ^ 32"

definition fits_u32_2 :: "'a list list \<Rightarrow> bool" where
  "fits_u32_2 xs \<longleftrightarrow> fits_u32 xs \<and> (\<forall>x \<in> set xs. fits_u32 x)"

definition fits_u32_3 :: "'a list list list \<Rightarrow> bool" where
  "fits_u32_3 xs \<longleftrightarrow> fits_u32 xs \<and> (\<forall>x \<in> set xs. fits_u32_2 x)"

interpretation vec_f32_codec: wire_codec put_vec_f32 cur_vec_f32 fits_u32
  by (rule f32_codec.list_codec) (simp_all add: put_vec_f32_def cur_vec_f32_def fits_u32_def)

interpretation ids_codec: wire_codec put_ids cur_i64_vec fits_u32
  by (rule i64_codec.list_codec) (simp_all add: put_ids_def cur_i64_vec_def fits_u32_def)

interpretation vecs_f32_codec: wire_codec put_vecs_f32 cur_vecs_f32 fits_u32_2
  by (rule vec_f32_codec.list_codec)
    (simp_all add: put_vecs_f32_def cur_vecs_f32_def fits_u32_2_def fits_u32_def)

interpretation vec_usize_codec: wire_codec put_vec_usize cur_vec_usize fits_u32
  by (rule usize_codec.list_codec) (simp_all add: put_vec_usize_def cur_vec_usize_def fits_u32_def)

interpretation vecs_usize_codec: wire_codec put_vecs_usize cur_vecs_usize fits_u32_2
  by (rule vec_usize_codec.list_codec)
    (simp_all add: put_vecs_usize_def cur_vecs_usize_def fits_u32_2_def fits_u32_def)

interpretation vecs_vecs_usize_codec: wire_codec put_vecs_vecs_usize cur_vecs_vecs_usize fits_u32_3
  by (rule vecs_usize_codec.list_codec)
    (simp_all add: put_vecs_vecs_usize_def cur_vecs_vecs_usize_def fits_u32_3_def fits_u32_def)

text \<open>
  The chain of reads over a blob: the scalar fields as their bytes, the lists as their encodings;
  \<open>wire_lists\<close> moves what was written before a list out of its writer.
\<close>

lemmas wire_scalars = put_u32_def put_u64_def put_i64_def put_f32_def push_u8_def

lemmas wire_reads = u8_codec.get_cur_at [unfolded push_u8_def append_Nil append_Cons]
  u32_codec.get_cur_at [unfolded put_u32_def append_Nil, where rest = "[]", unfolded append_Nil2]
  u32_codec.get_cur_at [unfolded put_u32_def append_Nil]
  f32_codec.get_cur_at [unfolded put_f32_def append_Nil]
  usize_codec.get_cur_at [unfolded put_u64_def append_Nil]
  i64_codec.get_cur_at [unfolded put_i64_def append_Nil]
  ids_codec.get_cur_at vec_f32_codec.get_cur_at vecs_f32_codec.get_cur_at
  vec_usize_codec.get_cur_at vecs_usize_codec.get_cur_at vecs_vecs_usize_codec.get_cur_at

lemmas wire_lists = ids_codec.put_nonempty vec_f32_codec.put_nonempty vecs_f32_codec.put_nonempty
  vec_usize_codec.put_nonempty vecs_usize_codec.put_nonempty vecs_vecs_usize_codec.put_nonempty

section \<open>Readers look only at what they consume\<close>

text \<open>
  A reader that succeeds on a buffer succeeds with the same value, at the same position, on every
  longer buffer, and never leaves the cursor past the end. Every reader of the file has this
  property and it is closed under sequencing, so no strict prefix of a blob parses to the end.
\<close>

definition consumes :: "(cur \<Rightarrow> 'e + 'a \<times> cur) \<Rightarrow> bool" where
  "consumes g \<longleftrightarrow> (\<forall>c x c' tl_bytes. g c = Inr (x, c') \<longrightarrow> pos c \<le> length (buf c) \<longrightarrow>
     buf c' = buf c \<and> pos c' \<le> length (buf c') \<and>
     (length (buf c @ tl_bytes) \<le> usize_max \<longrightarrow>
      g (c\<lparr>buf := buf c @ tl_bytes\<rparr>) = Inr (x, c'\<lparr>buf := buf c @ tl_bytes\<rparr>)))"

lemma consumesD:
  assumes "consumes g" and "g c = Inr (x, c')" and "pos c \<le> length (buf c)"
  shows "buf c' = buf c" and "pos c' \<le> length (buf c')"
    and "length (buf c @ tl_bytes) \<le> usize_max \<Longrightarrow>
      g (c\<lparr>buf := buf c @ tl_bytes\<rparr>) = Inr (x, c'\<lparr>buf := buf c @ tl_bytes\<rparr>)"
proof -
  have "buf c' = buf c \<and> pos c' \<le> length (buf c') \<and>
    (length (buf c @ ext) \<le> usize_max \<longrightarrow>
     g (c\<lparr>buf := buf c @ ext\<rparr>) = Inr (x, c'\<lparr>buf := buf c @ ext\<rparr>))" for ext
    using assms unfolding consumes_def by blast
  then show "buf c' = buf c" and "pos c' \<le> length (buf c')"
    and "length (buf c @ tl_bytes) \<le> usize_max \<Longrightarrow>
      g (c\<lparr>buf := buf c @ tl_bytes\<rparr>) = Inr (x, c'\<lparr>buf := buf c @ tl_bytes\<rparr>)"
    by blast+
qed

lemma consumes_take: "consumes (cur_take n)"
  by (auto simp: consumes_def cur_take_def slice_at_def split: if_splits)

lemma consumes_return: "consumes (\<lambda>c. Inr (x, c))"
  by (simp add: consumes_def)

lemma consumes_error: "consumes (\<lambda>c. Inl e)"
  by (simp add: consumes_def)

lemma consumes_bind:
  assumes g: "consumes g" and h: "\<And>x. consumes (h x)"
  shows "consumes (\<lambda>c. bind_r (g c) (\<lambda>(x, c). h x c))"
  unfolding consumes_def
proof (intro allI impI)
  fix c y c'' tl_bytes
  assume "bind_r (g c) (\<lambda>(x, c). h x c) = Inr (y, c'')" and p: "pos c \<le> length (buf c)"
  then obtain x c' where gx: "g c = Inr (x, c')" and hx: "h x c' = Inr (y, c'')"
    by (auto simp: bind_r_Inr_iff)
  note g' = consumesD [OF g gx p] and h' = consumesD [OF h hx consumesD(2) [OF g gx p]]
  show "buf c'' = buf c \<and> pos c'' \<le> length (buf c'') \<and>
    (length (buf c @ tl_bytes) \<le> usize_max \<longrightarrow>
     bind_r (g (c\<lparr>buf := buf c @ tl_bytes\<rparr>)) (\<lambda>(x, c). h x c) = Inr (y, c''\<lparr>buf := buf c @ tl_bytes\<rparr>))"
    using g' h' by simp
qed

lemma consumes_if: "consumes g \<Longrightarrow> consumes h \<Longrightarrow> consumes (\<lambda>c. if b then g c else h c)"
  by (cases b) simp_all

lemma consumes_read_n: "consumes rd \<Longrightarrow> consumes (read_n rd n)"
proof (induction n)
  case 0
  then show ?case by (simp add: consumes_return)
next
  case (Suc n)
  have "consumes (\<lambda>c. bind_r (rd c) (\<lambda>(x, c). bind_r (read_n rd n c) (\<lambda>(xs, c). Inr (x # xs, c))))"
    by (intro consumes_bind consumes_return Suc)
  then show ?case by simp
qed

lemma consumes_readers:
  "consumes cur_u8" "consumes cur_u32" "consumes cur_u64" "consumes cur_usize" "consumes cur_i64"
  "consumes cur_f32" "consumes cur_vec_f32" "consumes cur_vecs_f32" "consumes cur_vec_usize"
  "consumes cur_vecs_usize" "consumes cur_vecs_vecs_usize" "consumes cur_i64_vec"
proof -
  note r = consumes_bind consumes_take consumes_return consumes_read_n
  show u8: "consumes cur_u8" unfolding cur_u8_def [abs_def] by (intro r)
  show u32: "consumes cur_u32" unfolding cur_u32_def [abs_def] by (intro r)
  show u64: "consumes cur_u64" unfolding cur_u64_def [abs_def] by (intro r)
  show usize: "consumes cur_usize" unfolding cur_usize_def [abs_def] by (rule u64)
  show i64: "consumes cur_i64" unfolding cur_i64_def [abs_def] by (intro r)
  show f32: "consumes cur_f32" unfolding cur_f32_def [abs_def] by (intro r)
  show vf: "consumes cur_vec_f32" unfolding cur_vec_f32_def [abs_def] by (intro r u32 f32)
  show "consumes cur_vecs_f32" unfolding cur_vecs_f32_def [abs_def] by (intro r u32 vf)
  show vu: "consumes cur_vec_usize" unfolding cur_vec_usize_def [abs_def] by (intro r u32 usize)
  show vvu: "consumes cur_vecs_usize" unfolding cur_vecs_usize_def [abs_def] by (intro r u32 vu)
  show "consumes cur_vecs_vecs_usize"
    unfolding cur_vecs_vecs_usize_def [abs_def] by (intro r u32 vvu)
  show "consumes cur_i64_vec" unfolding cur_i64_vec_def [abs_def] by (intro r u32 i64)
qed

text \<open>What a complete parse of \<open>b\<close> that ends at its end says about the strict prefixes of \<open>b\<close>.\<close>

lemma consumes_no_prefix:
  assumes g: "consumes g" and full: "g (cur_new b) = Inr (x, c)" "pos c = length b"
    and k: "k < length b" and small: "length b \<le> usize_max"
  shows "\<not> is_ok (g (cur_new (take k b)))"
proof
  assume "is_ok (g (cur_new (take k b)))"
  then obtain y c' where p: "g (cur_new (take k b)) = Inr (y, c')" by (auto simp: is_ok_iff)
  have "pos (cur_new (take k b)) \<le> length (buf (cur_new (take k b)))" by (simp add: cur_new_def)
  note c = consumesD [OF g p this]
  have "g (cur_new b) = Inr (y, c'\<lparr>buf := b\<rparr>)"
    using c(3) [of "drop k b"] small by (simp add: cur_new_def)
  with full have "pos c' = length b" by auto
  moreover have "pos c' \<le> k" using c(1,2) k by (simp add: cur_new_def)
  ultimately show False using k by simp
qed

lemma capacity_for_bounded:
  "capacity_for c count elem_bytes * elem_bytes \<le> length (buf c) - pos c"
proof -
  let ?rem = "length (buf c) - pos c"
  have "capacity_for c count elem_bytes * elem_bytes \<le> ?rem div max elem_bytes 1 * max elem_bytes 1"
    by (intro mult_le_mono) (simp_all add: capacity_for_def Let_def)
  also have "\<dots> \<le> ?rem" by (rule div_times_less_eq_dividend)
  finally show ?thesis .
qed

text \<open>Indices written as \<open>u64\<close> words.\<close>

lemma fits_u32_map [simp]:
  "fits_u32 (map f xs) = fits_u32 xs"
  "fits_u32_2 (map (map f) ys) = fits_u32_2 ys"
  "fits_u32_3 (map (map (map f)) zs) = fits_u32_3 zs"
  by (simp_all add: fits_u32_def fits_u32_2_def fits_u32_3_def)

lemma unat_of_nat_list:
  "list_all (\<lambda>l. l < 2 ^ 64) ls \<Longrightarrow> map (\<lambda>n. unat (of_nat n :: u64)) ls = ls"
  by (induction ls) (simp_all add: unat_of_nat_u64)

lemma unat_of_nat_lists2:
  "list_all (list_all (\<lambda>l. l < 2 ^ 64)) ls \<Longrightarrow> map (map (\<lambda>n. unat (of_nat n :: u64))) ls = ls"
  by (induction ls) (simp_all add: unat_of_nat_list)

lemma unat_of_nat_lists3:
  "list_all (list_all (list_all (\<lambda>l. l < 2 ^ 64))) ls \<Longrightarrow>
   map (map (map (\<lambda>n. unat (of_nat n :: u64)))) ls = ls"
  by (induction ls) (simp_all add: unat_of_nat_lists2)

end
