(* ===== verification/HnswGraph.thy ===== *)
theory HnswGraph
  imports AnnCore Wire
begin

text \<open>
  The in-memory HNSW graph of \<open>src/theodb_rs/src/ann/hnsw.rs\<close>: the index record, its blob format
  (\<open>to_bytes\<close>/\<open>from_bytes\<close>) and the checks that decide whether a blob may reach the search. An
  \<open>f32\<close> is its bit pattern; a \<open>usize\<close> is a \<open>nat\<close>, stored as \<open>u64\<close> or \<open>u32\<close> as the code casts it.
\<close>

section \<open>The index\<close>

record hnsw_index =
  hx_metric :: metric
  hx_m :: nat
  hx_m0 :: nat
  hx_efc :: nat
  hx_vectors :: "f32_bits list list"
  hx_ids :: "i64 list"
  hx_levels :: "nat list"
  hx_neighbors :: "nat list list list"
  hx_entry :: "nat option"
  hx_max_level :: nat

definition node_count :: "hnsw_index \<Rightarrow> nat" where
  "node_count x = length (hx_vectors x)"

definition hnsw_dim :: "hnsw_index \<Rightarrow> nat" where
  "hnsw_dim x = (case hx_vectors x of [] \<Rightarrow> 0 | v # _ \<Rightarrow> length v)"

definition node_id :: "hnsw_index \<Rightarrow> nat \<Rightarrow> i64" where
  "node_id x node = hx_ids x ! node"

definition node_level :: "hnsw_index \<Rightarrow> nat \<Rightarrow> nat" where
  "node_level x node = hx_levels x ! node"

definition node_vector :: "hnsw_index \<Rightarrow> nat \<Rightarrow> f32_bits list" where
  "node_vector x node = hx_vectors x ! node"

text \<open>\<open>neighbors[node].get(layer)\<close>, empty above the node's level.\<close>

definition node_neighbors :: "hnsw_index \<Rightarrow> nat \<Rightarrow> nat \<Rightarrow> nat list" where
  "node_neighbors x node layer =
     (let nbs = hx_neighbors x ! node in if layer < length nbs then nbs ! layer else [])"

section \<open>The blob\<close>

definition HNSW_MAGIC :: u32 where
  "HNSW_MAGIC = 0x54484E53"

definition HNSW_VERSION :: u32 where
  "HNSW_VERSION = 1"

definition hnsw_to_bytes :: "hnsw_index \<Rightarrow> bytes" where
  "hnsw_to_bytes x =
     (let b = put_u32 [] HNSW_MAGIC;
          b = put_u32 b HNSW_VERSION;
          b = push_u8 b (metric_tag (hx_metric x));
          b = put_u32 b (of_nat (hx_m x));
          b = put_u32 b (of_nat (hx_m0 x));
          b = put_u32 b (of_nat (hx_efc x));
          b = put_vecs_f32 b (hx_vectors x);
          b = put_ids b (hx_ids x);
          b = put_vec_usize b (map of_nat (hx_levels x));
          b = put_vecs_vecs_usize b (map (map (map of_nat)) (hx_neighbors x));
          b = (case hx_entry x of Some e \<Rightarrow> put_u64 (push_u8 b 1) (of_nat e) | None \<Rightarrow> push_u8 b 0)
      in put_u32 b (of_nat (hx_max_level x)))"

datatype hnsw_error = WireErr wire_error | BadMagic | UnsupportedVersion | UnknownMetric
  | InconsistentCounts | EntryOutOfBounds | NoEntryPoint | NeighbourOutOfBounds | MaxLevelTooHigh

definition wire :: "wire_error + 'a \<Rightarrow> hnsw_error + 'a" where
  "wire r = (case r of Inl e \<Rightarrow> Inl (WireErr e) | Inr x \<Rightarrow> Inr x)"

text \<open>The reads of \<open>from_bytes\<close>, in order, each \<open>?\<close> a \<open>bind_r\<close>.\<close>

definition hnsw_read_entry :: "cur \<Rightarrow> hnsw_error + nat option \<times> cur" where
  "hnsw_read_entry c =
     bind_r (wire (cur_u8 c)) (\<lambda>(t, c).
       if t = 1 then bind_r (wire (cur_usize c)) (\<lambda>(e, c). Inr (Some (unat e), c))
       else Inr (None, c))"

definition hnsw_read :: "cur \<Rightarrow> hnsw_error + hnsw_index \<times> cur" where
  "hnsw_read c =
     bind_r (wire (cur_u32 c)) (\<lambda>(magic, c).
     if magic \<noteq> HNSW_MAGIC then Inl BadMagic else
     bind_r (wire (cur_u32 c)) (\<lambda>(ver, c).
     if ver \<noteq> HNSW_VERSION then Inl UnsupportedVersion else
     bind_r (wire (cur_u8 c)) (\<lambda>(tag, c).
     case metric_from_tag tag of None \<Rightarrow> Inl UnknownMetric | Some metric \<Rightarrow>
     bind_r (wire (cur_u32 c)) (\<lambda>(m, c).
     bind_r (wire (cur_u32 c)) (\<lambda>(m0, c).
     bind_r (wire (cur_u32 c)) (\<lambda>(efc, c).
     bind_r (wire (cur_vecs_f32 c)) (\<lambda>(vectors, c).
     bind_r (wire (cur_i64_vec c)) (\<lambda>(ids, c).
     bind_r (wire (cur_vec_usize c)) (\<lambda>(levels, c).
     bind_r (wire (cur_vecs_vecs_usize c)) (\<lambda>(neighbors, c).
     bind_r (hnsw_read_entry c) (\<lambda>(entry, c).
     bind_r (wire (cur_u32 c)) (\<lambda>(max_level, c).
     Inr (\<lparr>hx_metric = metric, hx_m = unat m, hx_m0 = unat m0, hx_efc = unat efc,
           hx_vectors = vectors, hx_ids = ids, hx_levels = map unat levels,
           hx_neighbors = map (map (map unat)) neighbors, hx_entry = entry,
           hx_max_level = unat max_level\<rparr>, c)))))))))))))"

text \<open>The referential-integrity checks that follow the reads.\<close>

definition hnsw_validate :: "hnsw_index \<Rightarrow> hnsw_error + hnsw_index" where
  "hnsw_validate x =
     (let n = length (hx_vectors x) in
      if length (hx_ids x) \<noteq> n \<or> length (hx_levels x) \<noteq> n \<or> length (hx_neighbors x) \<noteq> n
      then Inl InconsistentCounts
      else if (case hx_entry x of Some e \<Rightarrow> e \<ge> n | None \<Rightarrow> False) then Inl EntryOutOfBounds
      else if hx_entry x = None \<and> n > 0 then Inl NoEntryPoint
      else if list_ex (list_ex (list_ex (\<lambda>nb. nb \<ge> n))) (hx_neighbors x)
      then Inl NeighbourOutOfBounds
      else if n > 0 \<and> hx_max_level x > fold max (hx_levels x) 0 then Inl MaxLevelTooHigh
      else Inr x)"

definition hnsw_from_bytes :: "bytes \<Rightarrow> hnsw_error + hnsw_index" where
  "hnsw_from_bytes bs = bind_r (hnsw_read (cur_new bs)) (\<lambda>(x, _). hnsw_validate x)"

section \<open>Round trip\<close>

text \<open>The widths the writer casts to hold every value.\<close>

definition hnsw_encodable :: "hnsw_index \<Rightarrow> bool" where
  "hnsw_encodable x \<longleftrightarrow> hx_m x < 2 ^ 32 \<and> hx_m0 x < 2 ^ 32 \<and> hx_efc x < 2 ^ 32 \<and>
     hx_max_level x < 2 ^ 32 \<and> fits_u32_2 (hx_vectors x) \<and> fits_u32 (hx_ids x) \<and>
     fits_u32 (hx_levels x) \<and> list_all (\<lambda>l. l < 2 ^ 64) (hx_levels x) \<and>
     fits_u32_3 (hx_neighbors x) \<and>
     list_all (list_all (list_all (\<lambda>nb. nb < 2 ^ 64))) (hx_neighbors x) \<and>
     (case hx_entry x of Some e \<Rightarrow> e < 2 ^ 64 | None \<Rightarrow> True) \<and>
     length (hnsw_to_bytes x) \<le> usize_max"

lemma wire_simps [simp]: "wire (Inr x) = Inr x" "wire (Inl e) = Inl (WireErr e)"
  by (simp_all add: wire_def)

text \<open>The blob as the concatenation of its fields, the form the reading rules chain over.\<close>

lemma hnsw_to_bytes_fields:
  "hnsw_to_bytes x =
     to_le HNSW_MAGIC @ to_le HNSW_VERSION @ [metric_tag (hx_metric x)] @
     to_le (of_nat (hx_m x) :: u32) @ to_le (of_nat (hx_m0 x) :: u32) @
     to_le (of_nat (hx_efc x) :: u32) @
     put_vecs_f32 [] (hx_vectors x) @ put_ids [] (hx_ids x) @
     put_vec_usize [] (map of_nat (hx_levels x)) @
     put_vecs_vecs_usize [] (map (map (map of_nat)) (hx_neighbors x)) @
     (case hx_entry x of Some e \<Rightarrow> [1] @ to_le (of_nat e :: u64) | None \<Rightarrow> [0]) @
     to_le (of_nat (hx_max_level x) :: u32) @ []"
  by (simp add: hnsw_to_bytes_def Let_def wire_scalars wire_lists split: option.split)

lemma hnsw_read_to_bytes:
  assumes "hnsw_encodable x"
  shows "hnsw_read (cur_new (hnsw_to_bytes x)) = Inr (x, cur_at (hnsw_to_bytes x) [])"
proof (cases "hx_entry x")
  case None
  then show ?thesis
    using assms unfolding hnsw_encodable_def
    unfolding hnsw_to_bytes_fields
    by (simp add: cur_new_at hnsw_read_def hnsw_read_entry_def wire_reads comp_def
        unat_of_nat_list unat_of_nat_lists2 unat_of_nat_lists3)
next
  case (Some e)
  then show ?thesis
    using assms unfolding hnsw_encodable_def
    unfolding hnsw_to_bytes_fields
    by (simp add: cur_new_at hnsw_read_def hnsw_read_entry_def wire_reads comp_def
        unat_of_nat_list unat_of_nat_lists2 unat_of_nat_lists3 unat_of_nat_u64)
qed

end
