(* ===== verification/HnswSearch.thy ===== *)
theory HnswSearch
  imports HnswGraph
begin

text \<open>
  The search and the sequential build of \<open>src/theodb_rs/src/ann/hnsw.rs\<close>. The functions run over an
  index whose node references are list positions; Rust indexes them with \<open>[]\<close>, which panics out of
  range, so every operation returns an \<open>option\<close> and \<open>None\<close> is that panic. The two binary heaps hold
  \<open>Cand\<close>s, whose order has no ties between different nodes, so a heap is modelled by the ascending
  list of its elements: the min-heap pops the head, the max-heap peeks and pops the last.
  The distance kernel is the parameter \<open>D\<close> (\<open>Metric::dist_simd\<close> for the index's metric): nothing
  here depends on which floats it returns.
\<close>

type_synonym kernel = "f32_bits list \<Rightarrow> f32_bits list \<Rightarrow> f64_bits"

section \<open>Indexing that can panic\<close>

definition idx_get :: "'a list \<Rightarrow> nat \<Rightarrow> 'a option" where
  "idx_get xs i = (if i < length xs then Some (xs ! i) else None)"

lemma idx_get_Some [simp]: "i < length xs \<Longrightarrow> idx_get xs i = Some (xs ! i)"
  by (simp add: idx_get_def)

lemma idx_get_Some_iff: "idx_get xs i = Some x \<longleftrightarrow> i < length xs \<and> x = xs ! i"
  by (auto simp: idx_get_def)

section \<open>Heaps of candidates\<close>

fun heap_insert :: "cand \<Rightarrow> cand list \<Rightarrow> cand list" where
  "heap_insert c [] = [c]"
| "heap_insert c (x # xs) = (if cand_less x c then x # heap_insert c xs else c # x # xs)"

definition heap_sort :: "cand list \<Rightarrow> cand list" where
  "heap_sort cs = foldr heap_insert cs []"

text \<open>\<open>result.peek().map(|w| w.d).unwrap_or(f64::INFINITY)\<close>\<close>

definition worst_dist :: "cand list \<Rightarrow> f64_bits" where
  "worst_dist result = (if result = [] then f64_infinity else cd (last result))"

section \<open>Greedy descent\<close>

text \<open>One pass over the neighbours of a layer: the nearest one so far becomes the entry point.\<close>

fun descend_scan :: "kernel \<Rightarrow> f32_bits list list \<Rightarrow> f32_bits list \<Rightarrow> nat list \<Rightarrow>
    f64_bits \<times> nat \<times> bool \<Rightarrow> (f64_bits \<times> nat \<times> bool) option" where
  "descend_scan D vs q [] s = Some s"
| "descend_scan D vs q (nb # nbs) (best_d, ep, improved) =
     Option.bind (idx_get vs nb) (\<lambda>v.
       let d = D q v in
       if f64_lt d best_d then descend_scan D vs q nbs (d, nb, True)
       else descend_scan D vs q nbs (best_d, ep, improved))"

lemma descend_scan_result:
  "descend_scan D vs q nbs (b, e, imp) = Some (b', e', imp') \<Longrightarrow>
   (b' = b \<and> e' = e \<and> imp' = imp) \<or>
   (imp' \<and> e' \<in> set nbs \<and> e' < length vs \<and> b' = D q (vs ! e') \<and> f64_lt b' b)"
proof (induction nbs arbitrary: b e imp)
  case Nil
  then show ?case by simp
next
  case (Cons nb nbs)
  then obtain nb_ok: "nb < length vs"
    by (auto simp: idx_get_def split: if_splits)
  have trans: "f64_lt x y \<Longrightarrow> f64_lt y z \<Longrightarrow> f64_lt x z" for x y z
    by (auto simp: f64_lt_def)
  show ?case
  proof (cases "f64_lt (D q (vs ! nb)) b")
    case True
    with Cons.prems nb_ok have "descend_scan D vs q nbs (D q (vs ! nb), nb, True) = Some (b', e', imp')"
      by (simp add: Let_def)
    from Cons.IH [OF this] True nb_ok show ?thesis by (auto dest: trans)
  next
    case False
    with Cons.prems nb_ok have "descend_scan D vs q nbs (b, e, imp) = Some (b', e', imp')"
      by (simp add: Let_def)
    from Cons.IH [OF this] show ?thesis by auto
  qed
qed

text \<open>The outer loop: it repeats while a pass improved, so the best distance strictly decreases.\<close>

function greedy_loop :: "kernel \<Rightarrow> hnsw_index \<Rightarrow> f32_bits list \<Rightarrow> nat \<Rightarrow> f64_bits \<Rightarrow> nat \<Rightarrow> nat option" where
  "greedy_loop D x q layer best_d ep =
     (case idx_get (hx_neighbors x) ep of None \<Rightarrow> None | Some layers \<Rightarrow>
      case idx_get layers (min layer (length layers - 1)) of None \<Rightarrow> None | Some nbs \<Rightarrow>
      case descend_scan D (hx_vectors x) q nbs (best_d, ep, False) of None \<Rightarrow> None
      | Some (best_d', ep', improved) \<Rightarrow>
          if improved then greedy_loop D x q layer best_d' ep' else Some ep')"
  by pat_completeness auto
termination
proof (relation "measure (\<lambda>(D, x, q, layer, best_d, ep).
    card {i. i < length (hx_vectors x) \<and> f64_lt (D q (hx_vectors x ! i)) best_d})", goal_cases)
  case 1
  show ?case by simp
next
  case (2 D x q layer best_d ep layers nbs r best_d' r' ep' improved)
  let ?vs = "hx_vectors x"
  let ?S = "\<lambda>b. {i. i < length ?vs \<and> f64_lt (D q (?vs ! i)) b}"
  from 2 have e: "ep' < length ?vs" "best_d' = D q (?vs ! ep')" "f64_lt best_d' best_d"
    using descend_scan_result [of D ?vs q nbs best_d ep False best_d' ep' improved] by auto
  have "?S best_d' \<subset> ?S best_d"
  proof (rule psubsetI)
    show "?S best_d' \<subseteq> ?S best_d" using e(3) by (auto simp: f64_lt_def)
    have "ep' \<in> ?S best_d" "ep' \<notin> ?S best_d'" using e by (auto simp: f64_lt_def)
    then show "?S best_d' \<noteq> ?S best_d" by blast
  qed
  then have "card (?S best_d') < card (?S best_d)" by (intro psubset_card_mono) simp_all
  then show ?case by simp
qed

declare greedy_loop.simps [simp del]

definition greedy_descend :: "kernel \<Rightarrow> hnsw_index \<Rightarrow> f32_bits list \<Rightarrow> nat \<Rightarrow> nat \<Rightarrow> nat option" where
  "greedy_descend D x q ep layer =
     Option.bind (idx_get (hx_vectors x) ep) (\<lambda>v. greedy_loop D x q layer (D q v) ep)"

text \<open>\<open>while lc > stop { ep = greedy_descend(q, ep, lc); lc -= 1 }\<close>, from \<open>lc = stop + k\<close>.\<close>

fun descend_layers :: "kernel \<Rightarrow> hnsw_index \<Rightarrow> f32_bits list \<Rightarrow> nat \<Rightarrow> nat \<Rightarrow> nat \<Rightarrow> nat option" where
  "descend_layers D x q stop 0 ep = Some ep"
| "descend_layers D x q stop (Suc k) ep =
     Option.bind (greedy_descend D x q ep (stop + Suc k)) (descend_layers D x q stop k)"

section \<open>Beam search of one layer\<close>

record beam =
  bm_visited :: "bool list"
  bm_cand :: "cand list"
  bm_result :: "cand list"

fun beam_seed :: "kernel \<Rightarrow> hnsw_index \<Rightarrow> f32_bits list \<Rightarrow> nat list \<Rightarrow> beam \<Rightarrow> beam" where
  "beam_seed D x q [] s = s"
| "beam_seed D x q (e # es) s =
     (if e \<ge> length (hx_vectors x) then beam_seed D x q es s
      else let c = \<lparr>cd = D q (hx_vectors x ! e), ci = e\<rparr> in
        beam_seed D x q es \<lparr>bm_visited = (bm_visited s)[e := True],
          bm_cand = heap_insert c (bm_cand s), bm_result = heap_insert c (bm_result s)\<rparr>)"

text \<open>The \<open>for nb in nbs\<close> loop of one expanded node.\<close>

fun beam_expand :: "kernel \<Rightarrow> hnsw_index \<Rightarrow> f32_bits list \<Rightarrow> nat \<Rightarrow> nat list \<Rightarrow> beam \<Rightarrow> beam option" where
  "beam_expand D x q ef [] s = Some s"
| "beam_expand D x q ef (nb # nbs) s =
     Option.bind (idx_get (bm_visited s) nb) (\<lambda>seen.
       if seen then beam_expand D x q ef nbs s
       else Option.bind (idx_get (hx_vectors x) nb) (\<lambda>v.
         let d = D q v; s = s\<lparr>bm_visited := (bm_visited s)[nb := True]\<rparr> in
         if f64_lt d (worst_dist (bm_result s)) \<or> length (bm_result s) < ef then
           let c = \<lparr>cd = d, ci = nb\<rparr>;
               res = heap_insert c (bm_result s);
               res = (if length res > ef then butlast res else res)
           in beam_expand D x q ef nbs (s\<lparr>bm_cand := heap_insert c (bm_cand s), bm_result := res\<rparr>)
         else beam_expand D x q ef nbs s))"

definition unvisited :: "bool list \<Rightarrow> nat" where
  "unvisited vis = length (filter Not vis)"

lemma unvisited_update: "i < length vis \<Longrightarrow> \<not> vis ! i \<Longrightarrow> Suc (unvisited (vis[i := True])) = unvisited vis"
proof (induction vis arbitrary: i)
  case Nil
  then show ?case by simp
next
  case (Cons v vis)
  then show ?case by (cases i) (auto simp: unvisited_def)
qed

lemma length_heap_insert [simp]: "length (heap_insert c xs) = Suc (length xs)"
  by (induction xs) simp_all

lemma beam_expand_measure:
  "beam_expand D x q ef nbs s = Some s' \<Longrightarrow>
   unvisited (bm_visited s') + length (bm_cand s') \<le> unvisited (bm_visited s) + length (bm_cand s)"
proof (induction nbs arbitrary: s)
  case Nil
  then show ?case by simp
next
  case (Cons nb nbs)
  from Cons.prems have nb: "nb < length (bm_visited s)"
    by (auto simp: idx_get_def split: if_splits)
  show ?case
  proof (cases "bm_visited s ! nb")
    case True
    with Cons nb show ?thesis by simp
  next
    case False
    note u = unvisited_update [OF nb False]
    from Cons.prems nb False u show ?thesis
      by (auto simp: Let_def bind_eq_Some_conv split: if_splits dest!: Cons.IH)
  qed
qed

function beam_loop :: "kernel \<Rightarrow> hnsw_index \<Rightarrow> f32_bits list \<Rightarrow> nat \<Rightarrow> nat \<Rightarrow> beam \<Rightarrow> beam option" where
  "beam_loop D x q ef layer s =
     (case bm_cand s of [] \<Rightarrow> Some s
      | c # cs \<Rightarrow>
          let s1 = s\<lparr>bm_cand := cs\<rparr> in
          if f64_lt (worst_dist (bm_result s)) (cd c) \<and> length (bm_result s) \<ge> ef then Some s1
          else case idx_get (hx_neighbors x) (ci c) of None \<Rightarrow> None
          | Some layers \<Rightarrow>
              if layer \<ge> length layers then beam_loop D x q ef layer s1
              else case beam_expand D x q ef (layers ! layer) s1 of None \<Rightarrow> None
              | Some s2 \<Rightarrow> beam_loop D x q ef layer s2)"
  by pat_completeness auto
termination
  by (relation "measure (\<lambda>(D, x, q, ef, layer, s). unvisited (bm_visited s) + length (bm_cand s))")
    (auto dest: beam_expand_measure)

declare beam_loop.simps [simp del]

definition search_layer :: "kernel \<Rightarrow> hnsw_index \<Rightarrow> f32_bits list \<Rightarrow> nat list \<Rightarrow> nat \<Rightarrow> nat \<Rightarrow> cand list option" where
  "search_layer D x q entries ef layer =
     (let s = beam_seed D x q entries
        \<lparr>bm_visited = replicate (length (hx_vectors x)) False, bm_cand = [], bm_result = []\<rparr>
      in map_option bm_result (beam_loop D x q ef layer s))"

section \<open>Top-k search\<close>

definition hnsw_search :: "kernel \<Rightarrow> hnsw_index \<Rightarrow> f32_bits list \<Rightarrow> nat \<Rightarrow> nat \<Rightarrow> (i64 \<times> f64_bits) list option" where
  "hnsw_search D x q k ef_search =
     (if hx_vectors x = [] \<or> k = 0 then Some []
      else let ef = max ef_search k in
        Option.bind (hx_entry x) (\<lambda>e.
        Option.bind (descend_layers D x q 0 (hx_max_level x) e) (\<lambda>ep.
        Option.bind (search_layer D x q [ep] ef 0) (\<lambda>found.
        let found = take k (heap_sort found) in
        if \<forall>c \<in> set found. ci c < length (hx_ids x)
        then Some (map (\<lambda>c. (hx_ids x ! ci c, cd c)) found) else None))))"

section \<open>No search over well-formed references panics\<close>

text \<open>What the walk needs: every reference in range and at least one adjacency list per node.\<close>

definition refs_ok :: "hnsw_index \<Rightarrow> bool" where
  "refs_ok x \<longleftrightarrow> length (hx_neighbors x) = length (hx_vectors x) \<and>
     (\<forall>layers \<in> set (hx_neighbors x). layers \<noteq> [] \<and>
        (\<forall>nbs \<in> set layers. \<forall>nb \<in> set nbs. nb < length (hx_vectors x)))"

lemma refs_okD:
  assumes "refs_ok x" and "i < length (hx_vectors x)"
  shows "i < length (hx_neighbors x)" and "hx_neighbors x ! i \<noteq> []"
    and "l < length (hx_neighbors x ! i) \<Longrightarrow> nb \<in> set (hx_neighbors x ! i ! l) \<Longrightarrow> nb < length (hx_vectors x)"
proof -
  show i: "i < length (hx_neighbors x)" using assms by (simp add: refs_ok_def)
  from assms(1) nth_mem [OF i]
  have r: "hx_neighbors x ! i \<noteq> []"
    "\<forall>nbs \<in> set (hx_neighbors x ! i). \<forall>nb \<in> set nbs. nb < length (hx_vectors x)"
    by (auto simp: refs_ok_def)
  show "hx_neighbors x ! i \<noteq> []" by (rule r(1))
  show "nb < length (hx_vectors x)"
    if "l < length (hx_neighbors x ! i)" and "nb \<in> set (hx_neighbors x ! i ! l)"
    using r(2) nth_mem [OF that(1)] that(2) by blast
qed

lemma descend_scan_total:
  "\<forall>nb \<in> set nbs. nb < length vs \<Longrightarrow> \<exists>s'. descend_scan D vs q nbs s = Some s'"
  by (induction nbs arbitrary: s) (auto simp: Let_def split: prod.splits)

lemma greedy_loop_total:
  "refs_ok x \<Longrightarrow> ep < length (hx_vectors x) \<Longrightarrow>
   \<exists>ep'. greedy_loop D x q layer best_d ep = Some ep' \<and> ep' < length (hx_vectors x)"
proof (induction D x q layer best_d ep rule: greedy_loop.induct)
  case (1 D x q layer best_d ep)
  let ?layers = "hx_neighbors x ! ep" and ?li = "min layer (length (hx_neighbors x ! ep) - 1)"
  note r = refs_okD [OF "1.prems"]
  have "0 < length ?layers" using r(2) by simp
  then have li: "?li < length ?layers" by linarith
  obtain b e imp where scan: "descend_scan D (hx_vectors x) q (?layers ! ?li) (best_d, ep, False) = Some (b, e, imp)"
    using descend_scan_total [of "?layers ! ?li"] r(3) [OF li] by (metis prod_cases3)
  have e: "e < length (hx_vectors x)"
    using descend_scan_result [OF scan] "1.prems"(2) by auto
  show ?case
  proof (cases imp)
    case True
    then have "\<exists>ep'. greedy_loop D x q layer b e = Some ep' \<and> ep' < length (hx_vectors x)"
      using "1.IH" [OF _ _ scan] r(1) li "1.prems"(1) e by simp
    with True scan r(1) li show ?thesis by (subst greedy_loop.simps) simp
  next
    case False
    with scan r(1) li e show ?thesis by (subst greedy_loop.simps) simp
  qed
qed

lemma greedy_descend_total:
  "refs_ok x \<Longrightarrow> ep < length (hx_vectors x) \<Longrightarrow>
   \<exists>ep'. greedy_descend D x q ep layer = Some ep' \<and> ep' < length (hx_vectors x)"
  by (simp add: greedy_descend_def greedy_loop_total)

lemma descend_layers_total:
  "refs_ok x \<Longrightarrow> ep < length (hx_vectors x) \<Longrightarrow>
   \<exists>ep'. descend_layers D x q stop k ep = Some ep' \<and> ep' < length (hx_vectors x)"
proof (induction k arbitrary: ep)
  case 0
  then show ?case by simp
next
  case (Suc k)
  from greedy_descend_total [OF Suc.prems, of D q "stop + Suc k"] obtain e where
    e: "greedy_descend D x q ep (stop + Suc k) = Some e" "e < length (hx_vectors x)" by blast
  with Suc.IH [OF Suc.prems(1) e(2)] show ?case by simp
qed

text \<open>
  The beam invariant: candidates and results are visited nodes at their true distances; the result
  is in heap order, has no node twice, and the candidates have no node twice.
\<close>

definition beam_inv :: "kernel \<Rightarrow> hnsw_index \<Rightarrow> f32_bits list \<Rightarrow> beam \<Rightarrow> bool" where
  "beam_inv D x q s \<longleftrightarrow> length (bm_visited s) = length (hx_vectors x) \<and>
     (\<forall>c \<in> set (bm_cand s) \<union> set (bm_result s). ci c < length (hx_vectors x) \<and>
        bm_visited s ! ci c \<and> cd c = D q (hx_vectors x ! ci c)) \<and>
     sorted_wrt cand_less (bm_result s) \<and> distinct (map ci (bm_result s))"

lemma set_heap_insert [simp]: "set (heap_insert c xs) = insert c (set xs)"
  by (induction xs) auto

lemma distinct_heap_insert [simp]:
  "distinct (map ci (heap_insert c xs)) \<longleftrightarrow> ci c \<notin> ci ` set xs \<and> distinct (map ci xs)"
  by (induction xs) auto

lemma sorted_heap_insert:
  "sorted_wrt cand_less xs \<Longrightarrow> ci c \<notin> ci ` set xs \<Longrightarrow> sorted_wrt cand_less (heap_insert c xs)"
proof (induction xs)
  case Nil
  then show ?case by simp
next
  case (Cons x xs)
  then have "cand_less x c \<or> cand_less c x" by (intro cand_less_total) auto
  with Cons show ?case by (auto dest: cand_less_trans)
qed

lemma heap_insert_first: "\<forall>x \<in> set xs. cand_less c x \<Longrightarrow> heap_insert c xs = c # xs"
  by (cases xs) (auto dest: cand_less_trans)

lemma heap_sort_sorted: "sorted_wrt cand_less cs \<Longrightarrow> heap_sort cs = cs"
  by (induction cs) (simp_all add: heap_sort_def heap_insert_first)

lemma beam_inv_visit:
  "beam_inv D x q s \<Longrightarrow> nb < length (hx_vectors x) \<Longrightarrow>
   beam_inv D x q (s\<lparr>bm_visited := (bm_visited s)[nb := True]\<rparr>)"
  unfolding beam_inv_def by (auto simp: nth_list_update)

lemma beam_inv_push:
  assumes "beam_inv D x q s" and "nb < length (hx_vectors x)" and "\<not> bm_visited s ! nb"
    and "c = \<lparr>cd = D q (hx_vectors x ! nb), ci = nb\<rparr>"
  shows "beam_inv D x q (s\<lparr>bm_visited := (bm_visited s)[nb := True],
     bm_cand := heap_insert c (bm_cand s), bm_result := heap_insert c (bm_result s)\<rparr>)"
proof -
  have new: "nb \<notin> ci ` set (bm_result s)" using assms(1,3) by (auto simp: beam_inv_def)
  with assms show ?thesis
    unfolding beam_inv_def
    by (simp add: sorted_heap_insert) (auto simp: nth_list_update)
qed

lemma beam_inv_trim:
  assumes "beam_inv D x q s"
  shows "beam_inv D x q (s\<lparr>bm_result := butlast (bm_result s)\<rparr>)"
proof -
  have "sorted_wrt cand_less (butlast (bm_result s))"
    using assms by (simp add: beam_inv_def butlast_conv_take)
  moreover have "distinct (map ci (butlast (bm_result s)))"
    using assms by (simp add: beam_inv_def map_butlast distinct_butlast)
  ultimately show ?thesis using assms by (auto simp: beam_inv_def dest: in_set_butlastD)
qed

lemma beam_inv_pop:
  "beam_inv D x q s \<Longrightarrow> bm_cand s = c # cs \<Longrightarrow> beam_inv D x q (s\<lparr>bm_cand := cs\<rparr>)"
  unfolding beam_inv_def by auto

lemma beam_expand_total:
  assumes "beam_inv D x q s" and "\<forall>nb \<in> set nbs. nb < length (hx_vectors x)"
  shows "\<exists>s'. beam_expand D x q ef nbs s = Some s' \<and> beam_inv D x q s'"
  using assms
proof (induction nbs arbitrary: s)
  case Nil
  then show ?case by simp
next
  case (Cons nb nbs)
  have nb: "nb < length (hx_vectors x)" "nb < length (bm_visited s)"
    and rest: "\<forall>nb \<in> set nbs. nb < length (hx_vectors x)"
    using Cons.prems by (auto simp: beam_inv_def)
  let ?vis = "s\<lparr>bm_visited := (bm_visited s)[nb := True]\<rparr>"
  let ?c = "\<lparr>cd = D q (hx_vectors x ! nb), ci = nb\<rparr>"
  let ?push = "?vis\<lparr>bm_cand := heap_insert ?c (bm_cand s), bm_result := heap_insert ?c (bm_result s)\<rparr>"
  show ?case
  proof (cases "bm_visited s ! nb")
    case True
    with Cons.IH [OF Cons.prems(1) rest] nb show ?thesis by simp
  next
    case False
    have inv: "beam_inv D x q ?vis" "beam_inv D x q ?push"
      using beam_inv_visit [OF Cons.prems(1) nb(1)]
        beam_inv_push [OF Cons.prems(1) nb(1) False refl] by simp_all
    note trimmed = Cons.IH [OF beam_inv_trim [OF inv(2)] rest]
    from Cons.IH [OF inv(1) rest] Cons.IH [OF inv(2) rest] trimmed False nb
    show ?thesis by (simp add: Let_def)
  qed
qed

lemma beam_loop_total:
  assumes "refs_ok x" and "beam_inv D x q s"
  shows "\<exists>s'. beam_loop D x q ef layer s = Some s' \<and> beam_inv D x q s'"
  using assms
proof (induction D x q ef layer s rule: beam_loop.induct)
  case (1 D x q ef layer s)
  show ?case
  proof (cases "bm_cand s")
    case Nil
    with "1.prems"(2) show ?thesis by (subst beam_loop.simps) simp
  next
    case (Cons c cs)
    let ?s1 = "s\<lparr>bm_cand := cs\<rparr>" and ?layers = "hx_neighbors x ! ci c"
    let ?stop = "f64_lt (worst_dist (bm_result s)) (cd c) \<and> length (bm_result s) \<ge> ef"
    have inv: "beam_inv D x q ?s1" by (rule beam_inv_pop [OF "1.prems"(2) Cons])
    have c: "ci c < length (hx_vectors x)" using "1.prems"(2) Cons by (simp add: beam_inv_def)
    note r = refs_okD [OF "1.prems"(1) c]
    consider (stop) ?stop | (skip) "\<not> ?stop" "layer \<ge> length ?layers"
      | (expand) "\<not> ?stop" "layer < length ?layers" by fastforce
    then show ?thesis
    proof cases
      case stop
      with Cons inv show ?thesis by (subst beam_loop.simps) simp
    next
      case skip
      have "\<exists>s'. beam_loop D x q ef layer ?s1 = Some s' \<and> beam_inv D x q s'"
        by (rule "1.IH"(1) [OF Cons refl _ _ _ "1.prems"(1) inv]) (use skip r(1) in auto)
      with Cons skip r(1) show ?thesis by (subst beam_loop.simps) (auto simp: Let_def)
    next
      case expand
      from beam_expand_total [OF inv, of "?layers ! layer" ef] r(3) [OF expand(2)]
      obtain s2 where s2: "beam_expand D x q ef (?layers ! layer) ?s1 = Some s2" "beam_inv D x q s2"
        by blast
      have "\<exists>s'. beam_loop D x q ef layer s2 = Some s' \<and> beam_inv D x q s'"
        by (rule "1.IH"(2) [OF Cons refl _ _ _ s2(1) "1.prems"(1) s2(2)]) (use expand r(1) in auto)
      with Cons expand r(1) s2(1) show ?thesis by (subst beam_loop.simps) (auto simp: Let_def)
    qed
  qed
qed

definition fresh :: "nat list \<Rightarrow> beam \<Rightarrow> bool" where
  "fresh es s \<longleftrightarrow> distinct es \<and> (\<forall>e \<in> set es. e < length (bm_visited s) \<longrightarrow> \<not> bm_visited s ! e)"

lemma beam_seed_inv:
  "beam_inv D x q s \<Longrightarrow> fresh es s \<Longrightarrow> beam_inv D x q (beam_seed D x q es s)"
proof (induction es arbitrary: s)
  case Nil
  then show ?case by simp
next
  case (Cons e es)
  have fresh: "fresh es s" using Cons.prems(2) by (simp add: fresh_def)
  show ?case
  proof (cases "e < length (hx_vectors x)")
    case True
    let ?c = "\<lparr>cd = D q (hx_vectors x ! e), ci = e\<rparr>"
    let ?s = "\<lparr>bm_visited = (bm_visited s)[e := True],
      bm_cand = heap_insert ?c (bm_cand s), bm_result = heap_insert ?c (bm_result s)\<rparr>"
    have "\<not> bm_visited s ! e" using Cons.prems True by (simp add: fresh_def beam_inv_def)
    from beam_inv_push [OF Cons.prems(1) True this refl] have inv: "beam_inv D x q ?s"
      by (cases s) simp
    have "fresh es ?s" using Cons.prems(2)
      by (auto simp: fresh_def) (metis nth_list_update_neq)
    with Cons.IH [OF inv] True show ?thesis by (simp add: Let_def)
  next
    case False
    with Cons.IH [OF Cons.prems(1) fresh] show ?thesis by simp
  qed
qed

text \<open>A layer search from distinct entries returns its candidates sorted, distinct and true.\<close>

definition true_cands :: "kernel \<Rightarrow> hnsw_index \<Rightarrow> f32_bits list \<Rightarrow> cand list \<Rightarrow> bool" where
  "true_cands D x q cs \<longleftrightarrow> sorted_wrt cand_less cs \<and> distinct (map ci cs) \<and>
     (\<forall>c \<in> set cs. ci c < length (hx_vectors x) \<and> cd c = D q (hx_vectors x ! ci c))"

lemma search_layer_total:
  assumes "refs_ok x" and "distinct entries"
  shows "\<exists>cs. search_layer D x q entries ef layer = Some cs \<and> true_cands D x q cs"
proof -
  let ?s0 = "\<lparr>bm_visited = replicate (length (hx_vectors x)) False, bm_cand = [], bm_result = []\<rparr>"
  have "beam_inv D x q (beam_seed D x q entries ?s0)"
    by (rule beam_seed_inv) (use assms(2) in \<open>auto simp: beam_inv_def fresh_def\<close>)
  from beam_loop_total [OF assms(1) this, of ef layer] show ?thesis
    by (auto simp: search_layer_def Let_def beam_inv_def true_cands_def)
qed

lemma hnsw_search_total:
  assumes "refs_ok x" and "length (hx_ids x) = length (hx_vectors x)"
    and "hx_vectors x \<noteq> [] \<Longrightarrow> \<exists>e. hx_entry x = Some e \<and> e < length (hx_vectors x)"
  shows "\<exists>cs. hnsw_search D x q k ef = Some (map (\<lambda>c. (hx_ids x ! ci c, cd c)) cs) \<and>
    true_cands D x q cs \<and> length cs \<le> k"
proof (cases "hx_vectors x = [] \<or> k = 0")
  case True
  then show ?thesis by (intro exI [of _ "[]"]) (auto simp: hnsw_search_def true_cands_def)
next
  case False
  with assms(3) obtain e where e: "hx_entry x = Some e" "e < length (hx_vectors x)" by blast
  from descend_layers_total [OF assms(1) e(2)] obtain ep where
    ep: "descend_layers D x q 0 (hx_max_level x) e = Some ep" by blast
  from search_layer_total [OF assms(1), of "[ep]" D q "max ef k" 0] obtain cs where
    cs: "search_layer D x q [ep] (max ef k) 0 = Some cs" "true_cands D x q cs" by auto
  then have sorted: "heap_sort cs = cs" by (simp add: true_cands_def heap_sort_sorted)
  have tk: "true_cands D x q (take k cs)"
    using cs(2) by (auto simp: true_cands_def take_map [symmetric] dest: in_set_takeD)
  then have "\<forall>c \<in> set (take k cs). ci c < length (hx_ids x)"
    using assms(2) by (simp add: true_cands_def)
  then have "hnsw_search D x q k ef = Some (map (\<lambda>c. (hx_ids x ! ci c, cd c)) (take k cs))"
    using False e(1) ep cs(1) sorted by (simp add: hnsw_search_def Let_def)
  with tk show ?thesis by (intro exI [of _ "take k cs"]) simp
qed

end
