(* ===== verification/HnswBuild.thy ===== *)
theory HnswBuild
  imports HnswSearch
begin

text \<open>
  The sequential build of \<open>src/theodb_rs/src/ann/hnsw.rs\<close>: neighbour selection, the insertion of one
  node and its linking on every layer, and \<open>build_sequential\<close>. The invariant \<open>hnsw_wf\<close> is what the
  insertion keeps; it gives the totality of the build (no index panics), the degree bounds, and the
  acceptance of every built graph by the blob reader. \<open>ext\<close> is the switch \<open>extend_candidates()\<close>
  reads from the environment.
\<close>

section \<open>Neighbour selection\<close>

text \<open>Keep a candidate only when it is closer to the query than to every neighbour kept so far.\<close>

fun select_close :: "kernel \<Rightarrow> f32_bits list list \<Rightarrow> nat \<Rightarrow> cand list \<Rightarrow> nat list \<Rightarrow> nat list option" where
  "select_close D vs m [] kept = Some kept"
| "select_close D vs m (c # cs) kept =
     (if length kept \<ge> m then Some kept
      else Option.bind (idx_get vs (ci c)) (\<lambda>cv.
        if list_ex (\<lambda>k. f64_lt (D cv (vs ! k)) (cd c)) kept then select_close D vs m cs kept
        else select_close D vs m cs (kept @ [ci c])))"

text \<open>Top up with the nearest candidates not kept yet.\<close>

fun select_fill :: "nat \<Rightarrow> cand list \<Rightarrow> nat list \<Rightarrow> nat list" where
  "select_fill m [] kept = kept"
| "select_fill m (c # cs) kept =
     (if length kept \<ge> m then kept
      else if ci c \<in> set kept then select_fill m cs kept
      else select_fill m cs (kept @ [ci c]))"

definition select_from :: "kernel \<Rightarrow> hnsw_index \<Rightarrow> cand list \<Rightarrow> nat \<Rightarrow> nat list option" where
  "select_from D x candidates m =
     (let cs = heap_sort candidates in
      map_option (\<lambda>kept. if length kept < m then select_fill m cs kept else kept)
        (select_close D (hx_vectors x) m cs []))"

lemma select_close_total:
  "\<forall>c \<in> set cs. ci c < length vs \<Longrightarrow> length kept \<le> m \<Longrightarrow>
   \<exists>ks. select_close D vs m cs kept = Some ks \<and> set ks \<subseteq> set kept \<union> ci ` set cs \<and> length ks \<le> m"
proof (induction cs arbitrary: kept)
  case Nil
  then show ?case by simp
next
  case (Cons c cs)
  show ?case
  proof (cases "length kept \<ge> m")
    case True
    with Cons.prems show ?thesis by auto
  next
    case False
    from Cons.IH [of kept] Cons.IH [of "kept @ [ci c]"] Cons.prems False
    show ?thesis by fastforce
  qed
qed

lemma select_fill_bound:
  "length kept \<le> m \<Longrightarrow>
   set (select_fill m cs kept) \<subseteq> set kept \<union> ci ` set cs \<and> length (select_fill m cs kept) \<le> m"
proof (induction cs arbitrary: kept)
  case Nil
  then show ?case by simp
next
  case (Cons c cs)
  show ?case
  proof (cases "length kept \<ge> m \<or> ci c \<in> set kept")
    case True
    with Cons.IH [of kept] Cons.prems show ?thesis by auto
  next
    case False
    with Cons.IH [of "kept @ [ci c]"] show ?thesis by auto
  qed
qed

lemma set_heap_sort [simp]: "set (heap_sort cs) = set cs"
  by (induction cs) (simp_all add: heap_sort_def)

lemma select_from_total:
  assumes "\<forall>c \<in> set cs. ci c < length (hx_vectors x)"
  shows "\<exists>ks. select_from D x cs m = Some ks \<and> set ks \<subseteq> ci ` set cs \<and> length ks \<le> m"
proof -
  from select_close_total [of "heap_sort cs" "hx_vectors x" "[]" m D] assms obtain ks where
    ks: "select_close D (hx_vectors x) m (heap_sort cs) [] = Some ks"
      "set ks \<subseteq> ci ` set cs" "length ks \<le> m" by auto
  with select_fill_bound [OF ks(3), of "heap_sort cs"] show ?thesis
    by (auto simp: select_from_def Let_def)
qed

section \<open>Linking a node\<close>

text \<open>\<open>extendCandidates\<close>: the candidates' own neighbours on the layer, each once.\<close>

fun extend_nbs :: "kernel \<Rightarrow> hnsw_index \<Rightarrow> f32_bits list \<Rightarrow> nat list \<Rightarrow> cand list \<Rightarrow> cand list option" where
  "extend_nbs D x q [] cs = Some cs"
| "extend_nbs D x q (nb # nbs) cs =
     (if nb \<in> ci ` set cs then extend_nbs D x q nbs cs
      else Option.bind (idx_get (hx_vectors x) nb) (\<lambda>v.
        extend_nbs D x q nbs (cs @ [\<lparr>cd = D q v, ci = nb\<rparr>])))"

fun extend_cands :: "kernel \<Rightarrow> hnsw_index \<Rightarrow> f32_bits list \<Rightarrow> nat \<Rightarrow> nat list \<Rightarrow> cand list \<Rightarrow> cand list option" where
  "extend_cands D x q layer [] cs = Some cs"
| "extend_cands D x q layer (b # bs) cs =
     Option.bind (idx_get (hx_neighbors x) b) (\<lambda>layers.
     Option.bind (extend_nbs D x q (if layer < length layers then layers ! layer else []) cs)
       (extend_cands D x q layer bs))"

definition adj_set :: "hnsw_index \<Rightarrow> nat \<Rightarrow> nat \<Rightarrow> nat list \<Rightarrow> hnsw_index option" where
  "adj_set x i layer nbs =
     Option.bind (idx_get (hx_neighbors x) i) (\<lambda>layers.
       if layer < length layers
       then Some (x\<lparr>hx_neighbors := (hx_neighbors x)[i := layers[layer := nbs]]\<rparr>) else None)"

fun cands_of :: "kernel \<Rightarrow> hnsw_index \<Rightarrow> f32_bits list \<Rightarrow> nat list \<Rightarrow> cand list option" where
  "cands_of D x q [] = Some []"
| "cands_of D x q (i # is) =
     Option.bind (idx_get (hx_vectors x) i) (\<lambda>v.
     Option.bind (cands_of D x q is) (\<lambda>cs. Some (\<lparr>cd = D q v, ci = i\<rparr> # cs)))"

text \<open>The back link of one selected neighbour, trimmed when its list outgrows the layer's bound.\<close>

definition back_link :: "kernel \<Rightarrow> nat \<Rightarrow> nat \<Rightarrow> nat \<Rightarrow> nat \<Rightarrow> hnsw_index \<Rightarrow> hnsw_index option" where
  "back_link D node layer m_layer nb x =
     Option.bind (idx_get (hx_neighbors x) nb) (\<lambda>layers.
     Option.bind (idx_get layers layer) (\<lambda>old.
     let nbs = old @ [node] in
     Option.bind (adj_set x nb layer nbs) (\<lambda>x.
       if length nbs > m_layer then
         Option.bind (idx_get (hx_vectors x) nb) (\<lambda>nbvec.
         Option.bind (cands_of D x nbvec nbs) (\<lambda>cs.
         Option.bind (select_from D x cs m_layer) (adj_set x nb layer)))
       else Some x)))"

fun back_links :: "kernel \<Rightarrow> nat \<Rightarrow> nat \<Rightarrow> nat \<Rightarrow> nat list \<Rightarrow> hnsw_index \<Rightarrow> hnsw_index option" where
  "back_links D node layer m_layer [] x = Some x"
| "back_links D node layer m_layer (nb # nbs) x =
     Option.bind (back_link D node layer m_layer nb x) (back_links D node layer m_layer nbs)"

definition layer_degree :: "hnsw_index \<Rightarrow> nat \<Rightarrow> nat" where
  "layer_degree x layer = (if layer = 0 then hx_m0 x else hx_m x)"

text \<open>The body of the linking loop on one layer: the new graph and the next layer's entry set.\<close>

definition link_layer :: "kernel \<Rightarrow> bool \<Rightarrow> nat \<Rightarrow> f32_bits list \<Rightarrow> nat \<Rightarrow> nat list \<Rightarrow> hnsw_index \<Rightarrow>
    (hnsw_index \<times> nat list) option" where
  "link_layer D ext node q layer entries x =
     Option.bind (search_layer D x q entries (hx_efc x) layer) (\<lambda>candidates.
     let next_entries = map ci candidates; m_layer = layer_degree x layer in
     Option.bind (if ext then extend_cands D x q layer next_entries candidates else Some candidates)
       (\<lambda>candidates.
     Option.bind (select_from D x candidates m_layer) (\<lambda>selected.
     Option.bind (adj_set x node layer selected) (\<lambda>x.
     Option.bind (back_links D node layer m_layer selected x) (\<lambda>x.
     Some (x, if next_entries \<noteq> [] then next_entries else entries))))))"

text \<open>\<open>while lc >= 0\<close>, from layer \<open>k - 1\<close> down to the ground.\<close>

fun link_layers :: "kernel \<Rightarrow> bool \<Rightarrow> nat \<Rightarrow> f32_bits list \<Rightarrow> nat \<Rightarrow> nat list \<Rightarrow> hnsw_index \<Rightarrow> hnsw_index option" where
  "link_layers D ext node q 0 entries x = Some x"
| "link_layers D ext node q (Suc lc) entries x =
     Option.bind (link_layer D ext node q lc entries x) (\<lambda>(x, entries). link_layers D ext node q lc entries x)"

definition push_node :: "hnsw_index \<Rightarrow> i64 \<Rightarrow> f32_bits list \<Rightarrow> nat \<Rightarrow> hnsw_index" where
  "push_node x nid v level =
     x\<lparr>hx_vectors := hx_vectors x @ [v], hx_ids := hx_ids x @ [nid], hx_levels := hx_levels x @ [level],
       hx_neighbors := hx_neighbors x @ [replicate (level + 1) []]\<rparr>"

definition hnsw_insert :: "kernel \<Rightarrow> bool \<Rightarrow> i64 \<Rightarrow> f32_bits list \<Rightarrow> nat \<Rightarrow> hnsw_index \<Rightarrow> hnsw_index option" where
  "hnsw_insert D ext nid v level x0 =
     (let node = length (hx_vectors x0); x = push_node x0 nid v level in
      case hx_entry x of
        None \<Rightarrow> Some (x\<lparr>hx_entry := Some node, hx_max_level := level\<rparr>)
      | Some e \<Rightarrow>
          Option.bind (descend_layers D x v level (hx_max_level x - level) e) (\<lambda>ep.
          Option.bind (link_layers D ext node v (min level (hx_max_level x) + 1) [ep] x) (\<lambda>x.
          Some (if level > hx_max_level x then x\<lparr>hx_max_level := level, hx_entry := Some node\<rparr> else x))))"

fun insert_all :: "kernel \<Rightarrow> bool \<Rightarrow> (i64 \<times> f32_bits list) list \<Rightarrow> nat list \<Rightarrow> hnsw_index \<Rightarrow> hnsw_index option" where
  "insert_all D ext ((nid, v) # corpus) (level # levels) x =
     Option.bind (hnsw_insert D ext nid v level x) (insert_all D ext corpus levels)"
| "insert_all D ext [] levels x = Some x"
| "insert_all D ext (_ # _) [] x = None"

definition empty_index :: "metric \<Rightarrow> nat \<Rightarrow> nat \<Rightarrow> hnsw_index" where
  "empty_index metric m efc =
     \<lparr>hx_metric = metric, hx_m = m, hx_m0 = m * 2, hx_efc = max efc m, hx_vectors = [], hx_ids = [],
      hx_levels = [], hx_neighbors = [], hx_entry = None, hx_max_level = 0\<rparr>"

definition build_sequential :: "kernel \<Rightarrow> bool \<Rightarrow> (i64 \<times> f32_bits list) list \<Rightarrow> nat \<Rightarrow> nat \<Rightarrow> metric \<Rightarrow> nat list \<Rightarrow>
    hnsw_index option" where
  "build_sequential D ext corpus m efc metric levels = insert_all D ext corpus levels (empty_index metric m efc)"

section \<open>The invariant\<close>

definition node_wf :: "hnsw_index \<Rightarrow> nat \<Rightarrow> bool" where
  "node_wf x i \<longleftrightarrow> length (hx_neighbors x ! i) = hx_levels x ! i + 1 \<and>
     (\<forall>l \<le> hx_levels x ! i. length (hx_neighbors x ! i ! l) \<le> layer_degree x l \<and>
        (\<forall>nb \<in> set (hx_neighbors x ! i ! l). nb < length (hx_vectors x) \<and> l \<le> hx_levels x ! nb))"

definition core_wf :: "hnsw_index \<Rightarrow> bool" where
  "core_wf x \<longleftrightarrow> length (hx_ids x) = length (hx_vectors x) \<and> length (hx_levels x) = length (hx_vectors x) \<and>
     length (hx_neighbors x) = length (hx_vectors x) \<and> (\<forall>i < length (hx_vectors x). node_wf x i)"

definition entry_wf :: "hnsw_index \<Rightarrow> bool" where
  "entry_wf x \<longleftrightarrow> (case hx_entry x of
       None \<Rightarrow> hx_vectors x = [] \<and> hx_max_level x = 0
     | Some e \<Rightarrow> e < length (hx_vectors x) \<and> hx_levels x ! e = hx_max_level x \<and>
         (\<forall>i < length (hx_vectors x). hx_levels x ! i \<le> hx_max_level x))"

definition hnsw_wf :: "hnsw_index \<Rightarrow> bool" where
  "hnsw_wf x \<longleftrightarrow> core_wf x \<and> entry_wf x"

lemma core_wf_refs: "core_wf x \<Longrightarrow> refs_ok x"
  unfolding refs_ok_def
proof (intro conjI ballI)
  assume wf: "core_wf x"
  then show len: "length (hx_neighbors x) = length (hx_vectors x)" by (simp add: core_wf_def)
  fix layers
  assume "layers \<in> set (hx_neighbors x)"
  then obtain i where i: "i < length (hx_vectors x)" "layers = hx_neighbors x ! i"
    using len by (auto simp: in_set_conv_nth)
  with wf have n: "node_wf x i" by (simp add: core_wf_def)
  then show "layers \<noteq> []" by (auto simp: node_wf_def i(2))
  fix nbs nb
  assume "nbs \<in> set layers" and nb: "nb \<in> set nbs"
  then obtain l where "l < length layers" "nbs = layers ! l" by (auto simp: in_set_conv_nth)
  with n nb show "nb < length (hx_vectors x)" by (auto simp: node_wf_def i(2) less_Suc_eq_le)
qed

text \<open>Nodes that live on a layer: the walk on that layer never leaves them.\<close>

definition on_layer :: "hnsw_index \<Rightarrow> nat \<Rightarrow> nat \<Rightarrow> bool" where
  "on_layer x layer i \<longleftrightarrow> i < length (hx_vectors x) \<and> layer \<le> hx_levels x ! i"

lemma on_layer_step:
  assumes "core_wf x" and "on_layer x layer i"
  shows "layer < length (hx_neighbors x ! i)"
    and "nb \<in> set (hx_neighbors x ! i ! layer) \<Longrightarrow> on_layer x layer nb"
  using assms by (auto simp: core_wf_def node_wf_def on_layer_def)

lemma greedy_loop_layer:
  "core_wf x \<Longrightarrow> on_layer x layer ep \<Longrightarrow> greedy_loop D x q layer best_d ep = Some ep' \<Longrightarrow>
   on_layer x layer ep'"
proof (induction D x q layer best_d ep rule: greedy_loop.induct)
  case (1 D x q layer best_d ep)
  let ?layers = "hx_neighbors x ! ep"
  note st = on_layer_step [OF "1.prems"(1,2)]
  have ep: "ep < length (hx_neighbors x)" using "1.prems"(1,2) by (simp add: core_wf_def on_layer_def)
  have li: "min layer (length ?layers - 1) = layer" using st(1) by simp
  have unfold: "greedy_loop D x q layer best_d ep =
    (case descend_scan D (hx_vectors x) q (?layers ! layer) (best_d, ep, False) of None \<Rightarrow> None
     | Some (b, e, imp) \<Rightarrow> if imp then greedy_loop D x q layer b e else Some e)"
    using ep st(1) li by (subst greedy_loop.simps) simp
  obtain b e imp where
    scan: "descend_scan D (hx_vectors x) q (?layers ! layer) (best_d, ep, False) = Some (b, e, imp)"
    using "1.prems"(3) unfold by (auto split: option.splits)
  have on: "on_layer x layer e"
    using descend_scan_result [OF scan] "1.prems"(2) st(2) by auto
  show ?case
  proof (cases imp)
    case True
    with "1.prems"(3) unfold scan have next_loop: "greedy_loop D x q layer b e = Some ep'" by simp
    have "idx_get (hx_neighbors x) ep = Some ?layers"
      "idx_get ?layers (min layer (length ?layers - 1)) = Some (?layers ! layer)"
      using ep st(1) li by simp_all
    from "1.IH" [OF this scan refl refl True "1.prems"(1) on next_loop] show ?thesis .
  next
    case False
    with "1.prems"(3) unfold scan on show ?thesis by simp
  qed
qed

lemma on_layer_mono: "on_layer x l i \<Longrightarrow> k \<le> l \<Longrightarrow> on_layer x k i"
  by (simp add: on_layer_def)

lemma descend_layers_layer:
  assumes "core_wf x" and "on_layer x (stop + k) ep"
  shows "\<exists>ep'. descend_layers D x q stop k ep = Some ep' \<and> on_layer x stop ep'"
  using assms(2)
proof (induction k arbitrary: ep)
  case 0
  then show ?case by simp
next
  case (Suc k)
  note refs = core_wf_refs [OF assms(1)]
  have "ep < length (hx_vectors x)" using Suc.prems by (simp add: on_layer_def)
  from greedy_descend_total [OF refs this, of D q "stop + Suc k"] obtain e where
    e: "greedy_descend D x q ep (stop + Suc k) = Some e" by blast
  then have "on_layer x (stop + Suc k) e"
    using greedy_loop_layer [OF assms(1) Suc.prems] by (auto simp: greedy_descend_def bind_eq_Some_conv)
  then have "on_layer x (stop + k) e" by (rule on_layer_mono) simp
  from Suc.IH [OF this] e show ?case by simp
qed

section \<open>The beam stays on the layer\<close>

definition beam_on :: "hnsw_index \<Rightarrow> nat \<Rightarrow> beam \<Rightarrow> bool" where
  "beam_on x layer s \<longleftrightarrow> (\<forall>c \<in> set (bm_cand s) \<union> set (bm_result s). on_layer x layer (ci c))"

lemma beam_expand_on:
  "beam_on x layer s \<Longrightarrow> \<forall>nb \<in> set nbs. on_layer x layer nb \<Longrightarrow>
   beam_expand D x q ef nbs s = Some s' \<Longrightarrow> beam_on x layer s'"
proof (induction nbs arbitrary: s)
  case Nil
  then show ?case by simp
next
  case (Cons nb nbs)
  have vis: "beam_on x layer (s\<lparr>bm_visited := v\<rparr>)" for v
    using Cons.prems(1) by (simp add: beam_on_def)
  let ?push = "\<lambda>v d. s\<lparr>bm_visited := v, bm_cand := heap_insert \<lparr>cd = d, ci = nb\<rparr> (bm_cand s),
    bm_result := heap_insert \<lparr>cd = d, ci = nb\<rparr> (bm_result s)\<rparr>"
  have push: "beam_on x layer (?push v d)"
    "beam_on x layer ((?push v d)\<lparr>bm_result := butlast (bm_result (?push v d))\<rparr>)" for v d
    using Cons.prems(1,2) by (auto simp: beam_on_def dest!: in_set_butlastD)
  show ?case
    using Cons.prems(2,3) Cons.IH [OF vis] Cons.IH [OF push(1)] Cons.IH [OF push(2)] Cons.IH [OF Cons.prems(1)]
    by (auto simp: Let_def bind_eq_Some_conv split: if_splits)
qed

lemma beam_loop_on:
  "core_wf x \<Longrightarrow> beam_on x layer s \<Longrightarrow> beam_loop D x q ef layer s = Some s' \<Longrightarrow> beam_on x layer s'"
proof (induction D x q ef layer s rule: beam_loop.induct)
  case (1 D x q ef layer s)
  show ?case
  proof (cases "bm_cand s")
    case Nil
    with "1.prems"(2,3) show ?thesis by (subst (asm) beam_loop.simps) simp
  next
    case (Cons c cs)
    let ?s1 = "s\<lparr>bm_cand := cs\<rparr>" and ?layers = "hx_neighbors x ! ci c"
    have on: "on_layer x layer (ci c)" and on1: "beam_on x layer ?s1"
      using "1.prems"(2) Cons by (simp_all add: beam_on_def)
    note st = on_layer_step [OF "1.prems"(1) on]
    have i: "idx_get (hx_neighbors x) (ci c) = Some ?layers"
      using "1.prems"(1) on by (simp add: core_wf_def on_layer_def)
    let ?stop = "f64_lt (worst_dist (bm_result ?s1)) (cd c) \<and> length (bm_result ?s1) \<ge> ef"
    have unfold: "beam_loop D x q ef layer s = (if ?stop then Some ?s1 else
      case beam_expand D x q ef (?layers ! layer) ?s1 of None \<Rightarrow> None
      | Some s2 \<Rightarrow> beam_loop D x q ef layer s2)"
      using Cons i st(1) by (subst beam_loop.simps) (simp add: Let_def)
    show ?thesis
    proof (cases ?stop)
      case True
      with unfold "1.prems"(3) on1 show ?thesis by simp
    next
      case False
      with unfold "1.prems"(3) obtain s2 where
        s2: "beam_expand D x q ef (?layers ! layer) ?s1 = Some s2" "beam_loop D x q ef layer s2 = Some s'"
        by (auto split: option.splits)
      have "beam_on x layer s2"
        by (rule beam_expand_on [OF on1 _ s2(1)]) (use st(2) in blast)
      with "1.IH"(2) [OF Cons refl _ i _ s2(1) "1.prems"(1) _ s2(2)] False st(1)
      show ?thesis by simp
    qed
  qed
qed

lemma beam_seed_on:
  "beam_on x layer s \<Longrightarrow> \<forall>e \<in> set es. on_layer x layer e \<Longrightarrow> beam_on x layer (beam_seed D x q es s)"
proof (induction es arbitrary: s)
  case Nil
  then show ?case by simp
next
  case (Cons e es)
  let ?c = "\<lparr>cd = D q (hx_vectors x ! e), ci = e\<rparr>"
  have "beam_on x layer \<lparr>bm_visited = (bm_visited s)[e := True],
      bm_cand = heap_insert ?c (bm_cand s), bm_result = heap_insert ?c (bm_result s)\<rparr>"
    using Cons.prems by (auto simp: beam_on_def)
  with Cons show ?case by (simp add: Let_def)
qed

lemma search_layer_on:
  assumes "core_wf x" and "distinct entries" and "\<forall>e \<in> set entries. on_layer x layer e"
  shows "\<exists>cs. search_layer D x q entries ef layer = Some cs \<and> true_cands D x q cs \<and>
    (\<forall>c \<in> set cs. on_layer x layer (ci c))"
proof -
  from search_layer_total [OF core_wf_refs [OF assms(1)] assms(2)] obtain cs where
    cs: "search_layer D x q entries ef layer = Some cs" "true_cands D x q cs" by blast
  let ?s0 = "\<lparr>bm_visited = replicate (length (hx_vectors x)) False, bm_cand = [], bm_result = []\<rparr>"
  have "beam_on x layer (beam_seed D x q entries ?s0)"
    by (rule beam_seed_on [OF _ assms(3)]) (simp add: beam_on_def)
  from beam_loop_on [OF assms(1) this] cs(1) have "\<forall>c \<in> set cs. on_layer x layer (ci c)"
    by (auto simp: search_layer_def Let_def beam_on_def)
  with cs show ?thesis by blast
qed

section \<open>Linking keeps the invariant\<close>

text \<open>Linking changes the adjacency lists and nothing else.\<close>

definition same_nodes :: "hnsw_index \<Rightarrow> hnsw_index \<Rightarrow> bool" where
  "same_nodes x y \<longleftrightarrow> (\<exists>nbs. y = x\<lparr>hx_neighbors := nbs\<rparr>)"

lemma same_nodes_refl [simp]: "same_nodes x x"
  by (auto simp: same_nodes_def intro: exI [of _ "hx_neighbors x"])

lemma same_nodes_trans: "same_nodes x y \<Longrightarrow> same_nodes y z \<Longrightarrow> same_nodes x z"
  by (auto simp: same_nodes_def)

lemma same_nodes_fields:
  assumes "same_nodes x y"
  shows "hx_vectors y = hx_vectors x" "hx_ids y = hx_ids x" "hx_levels y = hx_levels x"
    "hx_m y = hx_m x" "hx_m0 y = hx_m0 x" "hx_efc y = hx_efc x" "hx_entry y = hx_entry x"
    "hx_max_level y = hx_max_level x" "hx_metric y = hx_metric x"
  using assms by (auto simp: same_nodes_def)

lemma same_nodes_layer: "same_nodes x y \<Longrightarrow> on_layer y = on_layer x \<and> layer_degree y = layer_degree x"
  by (auto simp: fun_eq_iff on_layer_def layer_degree_def same_nodes_fields)

lemma adj_set_Some:
  assumes "core_wf x" and "on_layer x layer i"
  shows "adj_set x i layer nbs = Some (x\<lparr>hx_neighbors := (hx_neighbors x)[i := (hx_neighbors x ! i)[layer := nbs]]\<rparr>)"
proof -
  have "i < length (hx_neighbors x)" using assms by (simp add: core_wf_def on_layer_def)
  with on_layer_step(1) [OF assms] show ?thesis by (simp add: adj_set_def)
qed

lemma adj_set_wf:
  assumes "core_wf x" and "on_layer x layer i" and "\<forall>nb \<in> set nbs. on_layer x layer nb"
    and "length nbs \<le> layer_degree x layer"
  shows "\<exists>y. adj_set x i layer nbs = Some y \<and> core_wf y \<and> same_nodes x y"
proof -
  let ?y = "x\<lparr>hx_neighbors := (hx_neighbors x)[i := (hx_neighbors x ! i)[layer := nbs]]\<rparr>"
  have same: "same_nodes x ?y" by (auto simp: same_nodes_def)
  have "node_wf ?y j" if j: "j < length (hx_vectors x)" for j
  proof (cases "j = i")
    case True
    with assms j have "node_wf x i" and "i < length (hx_neighbors x)"
      by (simp_all add: core_wf_def)
    with assms(2-4) True show ?thesis
      by (auto simp: node_wf_def on_layer_def layer_degree_def nth_list_update)
  next
    case False
    with assms(1) j have "node_wf x j" by (simp add: core_wf_def)
    with False same_nodes_layer [OF same] show ?thesis by (simp add: node_wf_def)
  qed
  with assms(1) have "core_wf ?y" by (simp add: core_wf_def)
  with same adj_set_Some [OF assms(1,2)] show ?thesis by blast
qed

lemma cands_of_total:
  "\<forall>i \<in> set is. i < length (hx_vectors x) \<Longrightarrow> \<exists>cs. cands_of D x q is = Some cs \<and> map ci cs = is"
  by (induction "is") auto

lemma adj_set_again:
  assumes "core_wf x" and "on_layer x layer i" and "adj_set x i layer nbs = Some y"
  shows "adj_set y i layer nbs' = adj_set x i layer nbs'"
proof -
  have i: "i < length (hx_neighbors x)" using assms by (simp add: core_wf_def on_layer_def)
  with assms(3) on_layer_step(1) [OF assms(1,2)]
  have "y = x\<lparr>hx_neighbors := (hx_neighbors x)[i := (hx_neighbors x ! i)[layer := nbs]]\<rparr>"
    using adj_set_Some [OF assms(1,2), of nbs] by simp
  with i on_layer_step(1) [OF assms(1,2)] show ?thesis by (simp add: adj_set_def)
qed

lemma back_link_total:
  assumes wf: "core_wf x" and nb: "on_layer x layer nb" and node: "on_layer x layer node"
    and m: "m_layer = layer_degree x layer"
  shows "\<exists>y. back_link D node layer m_layer nb x = Some y \<and> core_wf y \<and> same_nodes x y"
proof -
  let ?old = "hx_neighbors x ! nb ! layer" and ?layers = "hx_neighbors x ! nb"
  let ?nbs = "?old @ [node]"
  note st = on_layer_step [OF wf nb]
  have on: "\<forall>i \<in> set ?nbs. on_layer x layer i" using st(2) node by auto
  have get: "idx_get (hx_neighbors x) nb = Some ?layers" "idx_get ?layers layer = Some ?old"
    using wf nb st(1) by (simp_all add: core_wf_def on_layer_def)
  obtain y where y: "adj_set x nb layer ?nbs = Some y" "same_nodes x y"
    using adj_set_Some [OF wf nb] by (auto simp: same_nodes_def)
  note fields = same_nodes_fields [OF y(2)]
  show ?thesis
  proof (cases "length ?nbs > m_layer")
    case True
    obtain v where v: "idx_get (hx_vectors y) nb = Some v"
      using nb fields by (simp add: on_layer_def)
    obtain cs where cs: "cands_of D y v ?nbs = Some cs" "map ci cs = ?nbs"
      using cands_of_total [of ?nbs y D v] on fields by (auto simp: on_layer_def)
    from cs(2) have ids: "ci ` set cs = set ?nbs" by (metis set_map)
    then have "\<forall>c \<in> set cs. ci c < length (hx_vectors y)"
      using on fields by (auto simp: on_layer_def)
    from select_from_total [OF this, of D m_layer] obtain ks where
      ks: "select_from D y cs m_layer = Some ks" "set ks \<subseteq> set ?nbs" "length ks \<le> m_layer"
      using ids by auto
    have "\<exists>z. adj_set x nb layer ks = Some z \<and> core_wf z \<and> same_nodes x z"
      by (rule adj_set_wf [OF wf nb]) (use ks on m in auto)
    with True get y(1) v cs(1) ks(1) adj_set_again [OF wf nb y(1)] show ?thesis
      by (simp add: back_link_def Let_def)
  next
    case False
    have "\<exists>z. adj_set x nb layer ?nbs = Some z \<and> core_wf z \<and> same_nodes x z"
      by (rule adj_set_wf [OF wf nb on]) (use False m in simp)
    with False get y(1) show ?thesis by (simp add: back_link_def Let_def)
  qed
qed

lemma back_links_total:
  "core_wf x \<Longrightarrow> \<forall>nb \<in> set nbs. on_layer x layer nb \<Longrightarrow> on_layer x layer node \<Longrightarrow>
   m_layer = layer_degree x layer \<Longrightarrow>
   \<exists>y. back_links D node layer m_layer nbs x = Some y \<and> core_wf y \<and> same_nodes x y"
proof (induction nbs arbitrary: x)
  case Nil
  then show ?case by auto
next
  case (Cons nb nbs)
  from Cons.prems back_link_total [of x layer nb node m_layer D] obtain y where
    y: "back_link D node layer m_layer nb x = Some y" "core_wf y" "same_nodes x y" by auto
  note same = same_nodes_layer [OF y(3)]
  from Cons.IH [OF y(2)] Cons.prems same obtain z where
    "back_links D node layer m_layer nbs y = Some z" "core_wf z" "same_nodes y z" by auto
  with y show ?case by (auto intro: same_nodes_trans)
qed

lemma extend_nbs_total:
  "\<forall>nb \<in> set nbs. on_layer x layer nb \<Longrightarrow> \<forall>c \<in> set cs. on_layer x layer (ci c) \<Longrightarrow>
   \<exists>cs'. extend_nbs D x q nbs cs = Some cs' \<and> (\<forall>c \<in> set cs'. on_layer x layer (ci c))"
proof (induction nbs arbitrary: cs)
  case Nil
  then show ?case by simp
next
  case (Cons nb nbs)
  have nb: "on_layer x layer nb" "nb < length (hx_vectors x)"
    using Cons.prems(1) by (auto simp: on_layer_def)
  show ?case
  proof (cases "nb \<in> ci ` set cs")
    case True
    with Cons.IH [OF _ Cons.prems(2)] Cons.prems(1) show ?thesis by simp
  next
    case False
    have "\<forall>c \<in> set (cs @ [\<lparr>cd = D q (hx_vectors x ! nb), ci = nb\<rparr>]). on_layer x layer (ci c)"
      using Cons.prems(2) nb(1) by auto
    from Cons.IH [OF _ this] Cons.prems(1) False nb(2) show ?thesis by simp
  qed
qed

lemma extend_cands_total:
  "core_wf x \<Longrightarrow> \<forall>b \<in> set bs. on_layer x layer b \<Longrightarrow> \<forall>c \<in> set cs. on_layer x layer (ci c) \<Longrightarrow>
   \<exists>cs'. extend_cands D x q layer bs cs = Some cs' \<and> (\<forall>c \<in> set cs'. on_layer x layer (ci c))"
proof (induction bs arbitrary: cs)
  case Nil
  then show ?case by simp
next
  case (Cons b bs)
  have b: "on_layer x layer b" using Cons.prems(2) by simp
  note st = on_layer_step [OF Cons.prems(1) b]
  have "\<forall>nb \<in> set (hx_neighbors x ! b ! layer). on_layer x layer nb" using st(2) by blast
  from extend_nbs_total [OF this Cons.prems(3), of D q] obtain cs' where
    cs': "extend_nbs D x q (hx_neighbors x ! b ! layer) cs = Some cs'"
      "\<forall>c \<in> set cs'. on_layer x layer (ci c)" by blast
  have "b < length (hx_neighbors x)" using Cons.prems(1) b by (simp add: core_wf_def on_layer_def)
  with cs' st(1) Cons.IH [OF Cons.prems(1) _ cs'(2)] Cons.prems(2) show ?case by simp
qed

lemma link_layer_total:
  assumes wf: "core_wf x" and node: "on_layer x layer node" and "distinct entries"
    and on: "\<forall>e \<in> set entries. on_layer x layer e"
  shows "\<exists>y entries'. link_layer D ext node q layer entries x = Some (y, entries') \<and> core_wf y \<and>
    same_nodes x y \<and> distinct entries' \<and> (\<forall>e \<in> set entries'. on_layer x layer e)"
proof -
  from search_layer_on [OF wf assms(3) on, of D q "hx_efc x"] obtain cs where
    cs: "search_layer D x q entries (hx_efc x) layer = Some cs" "true_cands D x q cs"
      "\<forall>c \<in> set cs. on_layer x layer (ci c)" by blast
  obtain cs' where cs': "(if ext then extend_cands D x q layer (map ci cs) cs else Some cs) = Some cs'"
      "\<forall>c \<in> set cs'. on_layer x layer (ci c)"
    using extend_cands_total [OF wf _ cs(3), of "map ci cs" D q] cs(3) by (cases ext) auto
  have "\<forall>c \<in> set cs'. ci c < length (hx_vectors x)" using cs'(2) by (simp add: on_layer_def)
  from select_from_total [OF this, of D "layer_degree x layer"] obtain ks where
    ks: "select_from D x cs' (layer_degree x layer) = Some ks" "set ks \<subseteq> ci ` set cs'"
      "length ks \<le> layer_degree x layer" by blast
  have ks_on: "\<forall>k \<in> set ks. on_layer x layer k" using ks(2) cs'(2) by auto
  from adj_set_wf [OF wf node ks_on ks(3)] obtain y where
    y: "adj_set x node layer ks = Some y" "core_wf y" "same_nodes x y" by blast
  note same = same_nodes_layer [OF y(3)]
  have "\<exists>z. back_links D node layer (layer_degree x layer) ks y = Some z \<and> core_wf z \<and> same_nodes y z"
    by (rule back_links_total [OF y(2)]) (use ks_on node same in auto)
  then obtain z where
    z: "back_links D node layer (layer_degree x layer) ks y = Some z" "core_wf z" "same_nodes y z" by blast
  have "link_layer D ext node q layer entries x =
      Some (z, if map ci cs \<noteq> [] then map ci cs else entries)"
    using cs(1) cs'(1) ks(1) y(1) z(1) by (simp add: link_layer_def Let_def)
  moreover have "distinct (map ci cs)" using cs(2) by (simp add: true_cands_def)
  moreover have "same_nodes x z" using y(3) z(3) by (rule same_nodes_trans)
  ultimately show ?thesis using z(2) assms(3) on cs(3) by auto
qed

lemma link_layers_total:
  "core_wf x \<Longrightarrow> k = Suc tp \<Longrightarrow> on_layer x tp node \<Longrightarrow> distinct entries \<Longrightarrow>
   \<forall>e \<in> set entries. on_layer x tp e \<Longrightarrow>
   \<exists>y. link_layers D ext node q k entries x = Some y \<and> core_wf y \<and> same_nodes x y"
proof (induction k arbitrary: tp entries x)
  case 0
  then show ?case by simp
next
  case (Suc k)
  then have k: "k = tp" by simp
  from link_layer_total [OF Suc.prems(1,3,4,5), of D ext q] obtain y es where
    y: "link_layer D ext node q tp entries x = Some (y, es)" "core_wf y" "same_nodes x y"
      "distinct es" "\<forall>e \<in> set es. on_layer x tp e" by blast
  note same = same_nodes_layer [OF y(3)]
  show ?case
  proof (cases tp)
    case 0
    with y k show ?thesis by auto
  next
    case (Suc t)
    have "\<exists>z. link_layers D ext node q k es y = Some z \<and> core_wf z \<and> same_nodes y z"
      by (rule Suc.IH [OF y(2) _ _ y(4), of t])
        (use Suc k same Suc.prems(3) y(5) in \<open>auto intro: on_layer_mono\<close>)
    with y(1,3) k show ?thesis by (auto intro: same_nodes_trans)
  qed
qed

lemma push_node_wf:
  assumes "core_wf x"
  shows "core_wf (push_node x nid v level)"
    and "on_layer (push_node x nid v level) level (length (hx_vectors x))"
    and "on_layer x l i \<Longrightarrow> on_layer (push_node x nid v level) l i"
proof -
  let ?y = "push_node x nid v level" and ?n = "length (hx_vectors x)"
  have len: "length (hx_neighbors x) = ?n" "length (hx_levels x) = ?n"
    using assms by (simp_all add: core_wf_def)
  have "node_wf ?y i" if "i < Suc ?n" for i
  proof (cases "i = ?n")
    case True
    with len show ?thesis by (auto simp: node_wf_def push_node_def nth_append simp del: replicate_Suc)
  next
    case False
    with that have i: "i < ?n" by simp
    with assms have n: "node_wf x i" by (simp add: core_wf_def)
    have ld: "layer_degree ?y l = layer_degree x l" for l
      by (simp add: layer_degree_def push_node_def)
    have "nb < Suc ?n \<and> l \<le> (hx_levels x @ [level]) ! nb"
      if "l \<le> hx_levels x ! i" and "nb \<in> set (hx_neighbors x ! i ! l)" for l nb
    proof -
      from n that have "nb < ?n \<and> l \<le> hx_levels x ! nb" unfolding node_wf_def by blast
      with len show ?thesis by (simp add: nth_append)
    qed
    with n i len show ?thesis
      unfolding node_wf_def ld by (simp add: push_node_def nth_append)
  qed
  with assms show "core_wf ?y" by (simp add: core_wf_def push_node_def)
  show "on_layer ?y level ?n" using len by (simp add: on_layer_def push_node_def nth_append)
  show "on_layer x l i \<Longrightarrow> on_layer ?y l i" using len by (auto simp: on_layer_def push_node_def nth_append)
qed

section \<open>Insertion and build\<close>

lemma core_wf_entry [simp]:
  "core_wf (x\<lparr>hx_entry := e, hx_max_level := l\<rparr>) = core_wf x"
  "core_wf (x\<lparr>hx_max_level := l, hx_entry := e\<rparr>) = core_wf x"
proof -
  have "layer_degree (x\<lparr>hx_entry := e, hx_max_level := l\<rparr>) = layer_degree x"
    by (simp add: fun_eq_iff layer_degree_def)
  then have "node_wf (x\<lparr>hx_entry := e, hx_max_level := l\<rparr>) = node_wf x"
    by (simp add: fun_eq_iff node_wf_def)
  then show "core_wf (x\<lparr>hx_entry := e, hx_max_level := l\<rparr>) = core_wf x"
    by (simp add: core_wf_def)
  moreover have "x\<lparr>hx_max_level := l, hx_entry := e\<rparr> = x\<lparr>hx_entry := e, hx_max_level := l\<rparr>"
    by simp
  ultimately show "core_wf (x\<lparr>hx_max_level := l, hx_entry := e\<rparr>) = core_wf x" by metis
qed

lemma hnsw_insert_total:
  assumes wf: "hnsw_wf x"
  shows "\<exists>y. hnsw_insert D ext nid v level x = Some y \<and> hnsw_wf y \<and>
    hx_vectors y = hx_vectors x @ [v] \<and> hx_ids y = hx_ids x @ [nid] \<and>
    hx_levels y = hx_levels x @ [level] \<and> hx_metric y = hx_metric x \<and> hx_m y = hx_m x \<and>
    hx_m0 y = hx_m0 x \<and> hx_efc y = hx_efc x"
proof -
  let ?p = "push_node x nid v level" and ?n = "length (hx_vectors x)"
  have core: "core_wf x" and entry: "entry_wf x" using wf by (simp_all add: hnsw_wf_def)
  note p = push_node_wf [OF core, where nid = nid and v = v and level = level]
  have plen: "length (hx_levels x) = ?n" using core by (simp add: core_wf_def)
  have pf: "hx_vectors ?p = hx_vectors x @ [v]" "hx_ids ?p = hx_ids x @ [nid]"
    "hx_levels ?p = hx_levels x @ [level]" "hx_entry ?p = hx_entry x"
    "hx_max_level ?p = hx_max_level x" "hx_metric ?p = hx_metric x" "hx_m ?p = hx_m x"
    "hx_m0 ?p = hx_m0 x" "hx_efc ?p = hx_efc x"
    by (simp_all add: push_node_def)
  show ?thesis
  proof (cases "hx_entry x")
    case None
    let ?y = "?p\<lparr>hx_entry := Some ?n, hx_max_level := level\<rparr>"
    have empty: "hx_vectors x = []" using entry None by (simp add: entry_wf_def)
    have "core_wf ?y" using p(1) by simp
    moreover have "entry_wf ?y" using empty plen by (simp add: entry_wf_def pf)
    ultimately show ?thesis using None by (auto simp: hnsw_insert_def Let_def pf hnsw_wf_def)
  next
    case (Some e)
    then have e: "e < ?n" "hx_levels x ! e = hx_max_level x"
      "\<forall>i < ?n. hx_levels x ! i \<le> hx_max_level x"
      using entry by (simp_all add: entry_wf_def)
    let ?low = "min level (hx_max_level x)"
    have top: "on_layer x (hx_max_level x) e" using e by (simp add: on_layer_def)
    obtain ep where ep: "descend_layers D ?p v level (hx_max_level x - level) e = Some ep"
      "on_layer ?p ?low ep"
    proof (cases "level \<le> hx_max_level x")
      case True
      then have "on_layer ?p (level + (hx_max_level x - level)) e" using p(3) [OF top] by simp
      from descend_layers_layer [OF p(1) this] that True show ?thesis by (auto simp: min_def)
    next
      case False
      with that p(3) [OF top] show ?thesis by (simp add: min_def)
    qed
    have "on_layer ?p ?low ?n" using p(2) by (rule on_layer_mono) simp
    then have "\<exists>y. link_layers D ext ?n v (?low + 1) [ep] ?p = Some y \<and> core_wf y \<and> same_nodes ?p y"
      by (intro link_layers_total [OF p(1), of _ ?low]) (use ep(2) in simp_all)
    then obtain y where
      y: "link_layers D ext ?n v (?low + 1) [ep] ?p = Some y" "core_wf y" "same_nodes ?p y" by blast
    note yf = same_nodes_fields [OF y(3)]
    let ?z = "if level > hx_max_level y then y\<lparr>hx_max_level := level, hx_entry := Some ?n\<rparr> else y"
    have ins: "hnsw_insert D ext nid v level x = Some ?z"
      using Some ep(1) y(1) by (simp add: hnsw_insert_def Let_def pf del: link_layers.simps)
    have "core_wf ?z" using y(2) by simp
    moreover have "entry_wf ?z"
      using Some e plen by (auto simp: entry_wf_def yf pf nth_append less_Suc_eq)
    ultimately show ?thesis using ins by (simp add: hnsw_wf_def yf pf)
  qed
qed

lemma insert_all_total:
  "hnsw_wf x \<Longrightarrow> length corpus \<le> length levels \<Longrightarrow>
   \<exists>y. insert_all D ext corpus levels x = Some y \<and> hnsw_wf y \<and>
     hx_vectors y = hx_vectors x @ map snd corpus \<and> hx_ids y = hx_ids x @ map fst corpus \<and>
     hx_levels y = hx_levels x @ take (length corpus) levels \<and> hx_metric y = hx_metric x \<and>
     hx_m y = hx_m x \<and> hx_m0 y = hx_m0 x \<and> hx_efc y = hx_efc x"
proof (induction D ext corpus levels x rule: insert_all.induct)
  case (1 D ext nid v corpus level levels x)
  from hnsw_insert_total [OF "1.prems"(1), of D ext nid v level] obtain y where
    y: "hnsw_insert D ext nid v level x = Some y" "hnsw_wf y" "hx_vectors y = hx_vectors x @ [v]"
      "hx_ids y = hx_ids x @ [nid]" "hx_levels y = hx_levels x @ [level]" "hx_metric y = hx_metric x"
      "hx_m y = hx_m x" "hx_m0 y = hx_m0 x" "hx_efc y = hx_efc x" by blast
  from "1.IH" [OF y(1,2)] "1.prems"(2) y show ?case by auto
qed simp_all

lemma empty_index_wf: "hnsw_wf (empty_index metric m efc)"
  by (simp add: hnsw_wf_def core_wf_def entry_wf_def empty_index_def)

text \<open>A well-formed graph passes the checks of the blob reader.\<close>

lemma fold_max_ge: "l \<in> set ls \<Longrightarrow> l \<le> fold max ls (k :: nat)"
proof (induction ls arbitrary: k)
  case (Cons a ls)
  have "j \<le> fold max ls j" for j :: nat by (induction ls arbitrary: j) (auto intro: order_trans [OF max.cobounded2])
  from this [of "max a k"] Cons show ?case by auto
qed simp

lemma hnsw_wf_validate:
  assumes "hnsw_wf x"
  shows "hnsw_validate x = Inr x"
proof -
  let ?n = "length (hx_vectors x)"
  have core: "core_wf x" and entry: "entry_wf x" using assms by (simp_all add: hnsw_wf_def)
  have refs: "\<not> list_ex (list_ex (list_ex (\<lambda>nb. nb \<ge> ?n))) (hx_neighbors x)"
    using core_wf_refs [OF core] by (fastforce simp: refs_ok_def list_ex_iff not_le)
  have "hx_max_level x \<le> fold max (hx_levels x) 0" if "?n > 0"
  proof -
    from that entry obtain e where "e < ?n" "hx_levels x ! e = hx_max_level x"
      by (auto simp: entry_wf_def split: option.splits)
    moreover have "length (hx_levels x) = ?n" using core by (simp add: core_wf_def)
    ultimately have "hx_max_level x \<in> set (hx_levels x)" by (metis nth_mem)
    then show ?thesis by (rule fold_max_ge)
  qed
  with core entry refs show ?thesis
    by (auto simp: hnsw_validate_def Let_def core_wf_def entry_wf_def not_le split: option.splits)
qed

section \<open>The reader of blobs\<close>

lemma hnsw_from_to_bytes:
  "hnsw_encodable x \<Longrightarrow> hnsw_from_bytes (hnsw_to_bytes x) = hnsw_validate x"
  by (simp add: hnsw_from_bytes_def hnsw_read_to_bytes)

lemma wire_Inr_iff [simp]: "wire r = Inr x \<longleftrightarrow> r = Inr x"
  by (cases r) simp_all

lemma consumes_wire: "consumes g \<Longrightarrow> consumes (\<lambda>c. wire (g c))"
  by (simp only: consumes_def wire_Inr_iff)

lemma consumes_hnsw_read: "consumes hnsw_read"
proof -
  note r = consumes_bind consumes_return consumes_error consumes_if consumes_wire consumes_readers
  have e: "consumes hnsw_read_entry"
    unfolding hnsw_read_entry_def [abs_def] by (intro r)
  have m: "consumes (\<lambda>c. case metric_from_tag t of None \<Rightarrow> Inl UnknownMetric | Some metric \<Rightarrow> g metric c)"
    if "\<And>metric. consumes (g metric)" for t and g :: "metric \<Rightarrow> cur \<Rightarrow> hnsw_error + hnsw_index \<times> cur"
    using that by (cases "metric_from_tag t") (simp_all add: consumes_error)
  show ?thesis
    unfolding hnsw_read_def [abs_def] by (intro r e m)
qed

lemma hnsw_prefix_rejected:
  assumes "hnsw_encodable x" and "k < length (hnsw_to_bytes x)"
  shows "\<not> is_ok (hnsw_from_bytes (take k (hnsw_to_bytes x)))"
proof -
  have "length (hnsw_to_bytes x) \<le> usize_max" using assms(1) by (simp add: hnsw_encodable_def)
  then have "\<not> is_ok (hnsw_read (cur_new (take k (hnsw_to_bytes x))))"
    by (intro consumes_no_prefix [OF consumes_hnsw_read hnsw_read_to_bytes [OF assms(1)]])
      (simp_all add: cur_at_def assms(2))
  then show ?thesis by (auto simp: hnsw_from_bytes_def bind_r_Inr_iff is_ok_iff)
qed

text \<open>What acceptance by the reader says about the references.\<close>

lemma hnsw_validate_refs:
  assumes "hnsw_validate x = Inr y"
  shows "y = x" and "length (hx_ids x) = length (hx_vectors x)"
    and "\<forall>layers \<in> set (hx_neighbors x). layers \<noteq> [] \<Longrightarrow> refs_ok x"
    and "hx_vectors x \<noteq> [] \<Longrightarrow> \<exists>e. hx_entry x = Some e \<and> e < length (hx_vectors x)"
proof -
  from assms show "y = x" and "length (hx_ids x) = length (hx_vectors x)"
    by (auto simp: hnsw_validate_def Let_def split: if_splits)
  from assms show "hx_vectors x \<noteq> [] \<Longrightarrow> \<exists>e. hx_entry x = Some e \<and> e < length (hx_vectors x)"
    by (auto simp: hnsw_validate_def Let_def not_le split: if_splits option.splits)
  from assms have "length (hx_neighbors x) = length (hx_vectors x)"
    and "\<not> list_ex (list_ex (list_ex (\<lambda>nb. nb \<ge> length (hx_vectors x)))) (hx_neighbors x)"
    by (auto simp: hnsw_validate_def Let_def split: if_splits)
  then show "\<forall>layers \<in> set (hx_neighbors x). layers \<noteq> [] \<Longrightarrow> refs_ok x"
    by (auto simp: refs_ok_def list_ex_iff not_le)
qed

section \<open>Properties\<close>

text \<open>A small concrete graph for the witnesses: two linked nodes of dimension one, any kernel.\<close>

definition two_nodes :: hnsw_index where
  "two_nodes = \<lparr>hx_metric = L2, hx_m = 1, hx_m0 = 2, hx_efc = 1, hx_vectors = [[0], [1]],
     hx_ids = [7, 8], hx_levels = [0, 0], hx_neighbors = [[[1]], [[0]]], hx_entry = Some 0,
     hx_max_level = 0\<rparr>"

lemma two_nodes_ok: "hnsw_encodable two_nodes" "hnsw_validate two_nodes = Inr two_nodes"
proof -
  show "hnsw_encodable two_nodes"
    by (simp add: hnsw_encodable_def two_nodes_def fits_u32_def fits_u32_2_def fits_u32_3_def
        hnsw_to_bytes_fields put_vecs_f32_def put_vec_f32_def put_vec_usize_def put_ids_def
        put_vecs_vecs_usize_def put_vecs_usize_def wire_scalars usize_max_def)
  show "hnsw_validate two_nodes = Inr two_nodes"
    by (simp add: hnsw_validate_def two_nodes_def)
qed

text \<open>C1: Building the graph over any corpus succeeds without an index panic, whatever distances the
  kernel returns and whether or not candidates are extended. The result holds exactly the corpus, is
  well-formed (every node has one list per layer of its level, every neighbour on a layer lives on
  that layer, no list exceeds its layer's degree bound, the entry point is a node of the top level),
  passes the checks of the blob reader, and answers every search without panicking.\<close>

theorem hnsw_build_correct:
  assumes "length corpus \<le> length levels"
  shows "\<exists>x. build_sequential D ext corpus m efc metric levels = Some x \<and> hnsw_wf x \<and>
    hx_vectors x = map snd corpus \<and> hx_ids x = map fst corpus \<and>
    hx_m x = m \<and> hx_m0 x = 2 * m \<and> hnsw_validate x = Inr x \<and>
    (\<forall>D' q k ef. \<exists>r. hnsw_search D' x q k ef = Some r \<and> length r \<le> k)"
proof -
  from insert_all_total [OF empty_index_wf assms, of D ext metric m efc] obtain x where
    x: "build_sequential D ext corpus m efc metric levels = Some x" "hnsw_wf x"
      "hx_vectors x = map snd corpus" "hx_ids x = map fst corpus" "hx_m x = m" "hx_m0 x = 2 * m"
    by (auto simp: build_sequential_def empty_index_def)
  have v: "hnsw_validate x = Inr x" by (rule hnsw_wf_validate [OF x(2)])
  have refs: "refs_ok x" using x(2) by (intro core_wf_refs) (simp add: hnsw_wf_def)
  have "\<exists>r. hnsw_search D' x q k ef = Some r \<and> length r \<le> k" for D' q k ef
    using hnsw_search_total [OF refs hnsw_validate_refs(2,4) [OF v], of D' q k ef] by auto
  with x v show ?thesis by blast
qed

theorem hnsw_build_correct_witness:
  "\<exists>x. build_sequential (\<lambda>_ _. 0) True [(7, [1]), (8, [2])] 16 64 L2 [0, 1] = Some x \<and> hx_ids x = [7, 8]"
  using hnsw_build_correct [of "[(7, [1]), (8, [2])]" "[0, 1]" "\<lambda>_ _. 0" True 16 64 L2] by auto

text \<open>C28: A persisted graph is read back bit for bit: for every graph whose fields fit the widths they
  are stored in and that passes the reader's own checks, \<open>from_bytes\<close> undoes \<open>to_bytes\<close>.\<close>

theorem hnsw_blob_roundtrip:
  assumes "hnsw_encodable x" and "hnsw_validate x = Inr x"
  shows "hnsw_from_bytes (hnsw_to_bytes x) = Inr x"
  using assms by (simp add: hnsw_from_to_bytes)

theorem hnsw_blob_roundtrip_witness: "hnsw_from_bytes (hnsw_to_bytes two_nodes) = Inr two_nodes"
  by (rule hnsw_blob_roundtrip [OF two_nodes_ok])

text \<open>A torn blob is never accepted: \<open>from_bytes\<close> returns an error on every strict prefix of a
  graph's serialization, at whatever byte it is cut.\<close>

theorem hnsw_blob_prefix_rejected:
  assumes "hnsw_encodable x" and "k < length (hnsw_to_bytes x)"
  shows "\<exists>e. hnsw_from_bytes (take k (hnsw_to_bytes x)) = Inl e"
  using hnsw_prefix_rejected [OF assms]
  by (cases "hnsw_from_bytes (take k (hnsw_to_bytes x))") simp_all

theorem hnsw_blob_prefix_rejected_witness:
  "\<exists>e. hnsw_from_bytes (take 40 (hnsw_to_bytes two_nodes)) = Inl e"
proof (rule hnsw_blob_prefix_rejected [OF two_nodes_ok(1)])
  show "40 < length (hnsw_to_bytes two_nodes)"
    by (simp add: hnsw_to_bytes_fields two_nodes_def put_vecs_f32_def put_vec_f32_def wire_scalars)
qed

text \<open>C20: The search over an accepted blob never indexes out of range, provided every node has an
  adjacency list: it returns at most \<open>k\<close> results, of distinct nodes, in ascending order of the
  candidate order (NaN distances last), each with the stored id and the true distance of its node.\<close>

theorem hnsw_search_safe:
  assumes "hnsw_from_bytes bs = Inr x" and "\<forall>layers \<in> set (hx_neighbors x). layers \<noteq> []"
  shows "\<exists>cs. hnsw_search D x q k ef = Some (map (\<lambda>c. (hx_ids x ! ci c, cd c)) cs) \<and>
    length cs \<le> k \<and> sorted_wrt cand_less cs \<and> distinct (map ci cs) \<and>
    (\<forall>c \<in> set cs. ci c < length (hx_vectors x) \<and> cd c = D q (hx_vectors x ! ci c))"
proof -
  from assms(1) obtain y where v: "hnsw_validate y = Inr x"
    by (auto simp: hnsw_from_bytes_def bind_r_Inr_iff)
  have x: "y = x" using hnsw_validate_refs(1) [OF v] by simp
  note v = v [unfolded x]
  from hnsw_search_total [OF hnsw_validate_refs(3) [OF v assms(2)] hnsw_validate_refs(2,4) [OF v]]
  show ?thesis unfolding true_cands_def by blast
qed

theorem hnsw_search_safe_witness:
  "\<exists>cs :: cand list. hnsw_search (\<lambda>_ _. 0) two_nodes [0] 1 10 =
     Some (map (\<lambda>c. (hx_ids two_nodes ! ci c, cd c)) cs) \<and> length cs \<le> 1"
proof -
  have a: "hnsw_from_bytes (hnsw_to_bytes two_nodes) = Inr two_nodes"
    by (simp add: hnsw_from_to_bytes two_nodes_ok)
  have b: "\<forall>layers \<in> set (hx_neighbors two_nodes). layers \<noteq> []" by (simp add: two_nodes_def)
  obtain cs :: "cand list" where "hnsw_search (\<lambda>_ _. 0) two_nodes [0] 1 10 =
      Some (map (\<lambda>c. (hx_ids two_nodes ! ci c, cd c)) cs)" "length cs \<le> 1"
    using hnsw_search_safe [OF a b, of "\<lambda>_ _. 0" "[0]" 1 10] by (elim exE conjE) iprover
  then show ?thesis by (intro exI [of _ cs] conjI)
qed

definition no_layers :: hnsw_index where
  "no_layers = \<lparr>hx_metric = L2, hx_m = 16, hx_m0 = 32, hx_efc = 64, hx_vectors = [[0]],
     hx_ids = [7], hx_levels = [1], hx_neighbors = [[]], hx_entry = Some 0, hx_max_level = 1\<rparr>"

text \<open>C29: The checks of \<open>from_bytes\<close> do not cover the list structure: a blob whose node has no
  adjacency list at all is accepted, and the first greedy step of a search over it indexes the empty
  list out of range, which is the panic across the C boundary the checks are there to rule out.\<close>

theorem hnsw_empty_adjacency_panics:
  "hnsw_from_bytes (hnsw_to_bytes no_layers) = Inr no_layers \<and>
   hnsw_search D no_layers q 1 40 = None"
proof
  have "hnsw_encodable no_layers"
    by (simp add: hnsw_encodable_def no_layers_def fits_u32_def fits_u32_2_def fits_u32_3_def
        hnsw_to_bytes_fields put_vecs_f32_def put_vec_f32_def put_vec_usize_def put_ids_def
        put_vecs_vecs_usize_def put_vecs_usize_def wire_scalars usize_max_def)
  then show "hnsw_from_bytes (hnsw_to_bytes no_layers) = Inr no_layers"
    by (simp add: hnsw_from_to_bytes) (simp add: hnsw_validate_def no_layers_def)
  show "hnsw_search D no_layers q 1 40 = None"
  proof -
    have g: "greedy_loop D no_layers q l d 0 = None" for l d
      by (subst greedy_loop.simps) (simp add: no_layers_def idx_get_def)
    have "descend_layers D no_layers q 0 (Suc 0) 0 = None"
      by (simp add: greedy_descend_def bind_eq_None_conv g)
    then have d: "descend_layers D no_layers q 0 (hx_max_level no_layers) 0 = None"
      by (simp add: no_layers_def del: descend_layers.simps)
    have "hx_vectors no_layers \<noteq> []" "hx_entry no_layers = Some 0" by (simp_all add: no_layers_def)
    with d show ?thesis by (simp add: hnsw_search_def Let_def)
  qed
qed

end
