(* ===== verification/HnswTuples.thy ===== *)
theory HnswTuples
  imports HnswGraph
begin

text \<open>
  The tuples of the page-native HNSW index: \<open>am/hnsw_page/layout.rs\<close> (sizes and offsets),
  \<open>am/hnsw_page/codec.rs\<close> (element, raw-vector and neighbour tuples) and \<open>am/tid.rs\<close> (heap TIDs in
  an \<open>i64\<close>). A tuple is written as the code writes it: a zeroed buffer of the computed size and a
  sequence of stores; \<open>None\<close> is a store out of range, which panics in Rust.
\<close>

section \<open>Heap TIDs\<close>

record item_pointer =
  bi_hi :: u16
  bi_lo :: u16
  ip_posid :: u16

definition tid_encode :: "item_pointer \<Rightarrow> i64" where
  "tid_encode tid =
     (let block = push_bit 16 (ucast (bi_hi tid) :: u32) OR ucast (bi_lo tid)
      in push_bit 16 (ucast block) OR ucast (ip_posid tid))"

definition tid_set_on :: "i64 \<Rightarrow> item_pointer" where
  "tid_set_on v =
     (let block = ucast (signed_drop_bit 16 v) :: u32; offset = ucast (v AND 0xFFFF) :: u16
      in \<lparr>bi_hi = ucast (drop_bit 16 block), bi_lo = ucast (block AND 0xFFFF), ip_posid = offset\<rparr>)"

section \<open>Layout\<close>

definition ELEM_TAG :: u8 where "ELEM_TAG = 1"
definition NBR_TAG :: u8 where "NBR_TAG = 2"
definition RAW_TAG :: u8 where "RAW_TAG = 3"
definition HNSW_ELEM_VERSION_V4 :: u8 where "HNSW_ELEM_VERSION_V4 = 4"

definition BLCKSZ :: nat where "BLCKSZ = 8192"
definition PAGE_HEADER :: nat where "PAGE_HEADER = 24"
definition ITEMID :: nat where "ITEMID = 4"
definition USABLE :: nat where "USABLE = BLCKSZ - PAGE_HEADER"

definition E_TAG :: nat where "E_TAG = 0"
definition E_LEVEL :: nat where "E_LEVEL = 1"
definition E_DELETED :: nat where "E_DELETED = 2"
definition E_VERSION :: nat where "E_VERSION = 3"
definition E_TID :: nat where "E_TID = 4"
definition E_NBR_BLK :: nat where "E_NBR_BLK = 12"
definition E_NBR_OFF :: nat where "E_NBR_OFF = 16"
definition E_DIM :: nat where "E_DIM = 18"
definition E_VEC :: nat where "E_VEC = 20"
definition ELEM_HEADER :: nat where "ELEM_HEADER = E_VEC"

definition E4_RAW_BLK :: nat where "E4_RAW_BLK = 18"
definition E4_RAW_OFF :: nat where "E4_RAW_OFF = 22"
definition E4_DIM :: nat where "E4_DIM = 24"
definition E4_CODE :: nat where "E4_CODE = 26"
definition ELEM_HEADER_V4 :: nat where "ELEM_HEADER_V4 = E4_CODE"

definition R_VEC :: nat where "R_VEC = 4"
definition RAW_HEADER :: nat where "RAW_HEADER = R_VEC"
definition N_COUNT :: nat where "N_COUNT = 2"
definition NBR_HEADER :: nat where "NBR_HEADER = 4"
definition SLOT :: nat where "SLOT = 6"

lemmas layout_defs = ELEM_TAG_def NBR_TAG_def RAW_TAG_def HNSW_ELEM_VERSION_V4_def BLCKSZ_def
  PAGE_HEADER_def ITEMID_def USABLE_def E_TAG_def E_LEVEL_def E_DELETED_def E_VERSION_def E_TID_def
  E_NBR_BLK_def E_NBR_OFF_def E_DIM_def E_VEC_def ELEM_HEADER_def E4_RAW_BLK_def E4_RAW_OFF_def
  E4_DIM_def E4_CODE_def ELEM_HEADER_V4_def R_VEC_def RAW_HEADER_def N_COUNT_def NBR_HEADER_def SLOT_def

text \<open>\<open>(n + 7) & !7\<close>.\<close>

definition maxalign :: "nat \<Rightarrow> nat" where
  "maxalign n = (n + 7) div 8 * 8"

definition elem_size :: "nat \<Rightarrow> nat \<Rightarrow> nat" where
  "elem_size dim code_len = ELEM_HEADER + dim * 4 + code_len"

definition elems_per_page :: "nat \<Rightarrow> nat \<Rightarrow> nat" where
  "elems_per_page dim code_len = max (USABLE div (ITEMID + maxalign (elem_size dim code_len))) 1"

definition elem_size_v4 :: "nat \<Rightarrow> nat" where
  "elem_size_v4 code_len = ELEM_HEADER_V4 + code_len"

definition elems_per_page_v4 :: "nat \<Rightarrow> nat" where
  "elems_per_page_v4 code_len = max (USABLE div (ITEMID + maxalign (elem_size_v4 code_len))) 1"

definition raw_size :: "nat \<Rightarrow> nat" where
  "raw_size dim = RAW_HEADER + dim * 4"

definition raws_per_page :: "nat \<Rightarrow> nat" where
  "raws_per_page dim = max (USABLE div (ITEMID + maxalign (raw_size dim))) 1"

definition nbr_slots :: "nat \<Rightarrow> nat \<Rightarrow> nat \<Rightarrow> nat" where
  "nbr_slots level m m0 = level * m + m0"

definition nbr_size :: "nat \<Rightarrow> nat \<Rightarrow> nat \<Rightarrow> nat" where
  "nbr_size level m m0 = NBR_HEADER + nbr_slots level m m0 * SLOT"

type_synonym addr = "u32 \<times> u16"

section \<open>Stores\<close>

text \<open>The loop that stores a vector as consecutive little-endian floats.\<close>

fun put_f32s :: "nat \<Rightarrow> f32_bits list \<Rightarrow> bytes \<Rightarrow> bytes option" where
  "put_f32s off [] b = Some b"
| "put_f32s off (f # fs) b =
     (if off + 4 \<le> length b then put_f32s (off + 4) fs (put_at off (to_le f) b) else None)"

definition copy_tail :: "nat \<Rightarrow> bytes \<Rightarrow> bytes \<Rightarrow> bytes option" where
  "copy_tail off xs b = (if off + length xs = length b then Some (put_at off xs b) else None)"

definition f32s_bytes :: "f32_bits list \<Rightarrow> bytes" where
  "f32s_bytes fs = concat (map to_le fs)"

lemma length_f32s_bytes [simp]: "length (f32s_bytes fs) = 4 * length fs"
  by (induction fs) (simp_all add: f32s_bytes_def)

lemma put_f32s_eq:
  "off + 4 * length fs \<le> length b \<Longrightarrow> put_f32s off fs b = Some (put_at off (f32s_bytes fs) b)"
proof (induction off fs b rule: put_f32s.induct)
  case (1 off b)
  then show ?case by (simp add: f32s_bytes_def)
next
  case (2 off f fs b)
  have l: "off + (4 + (4 + 4 * length fs)) \<le> length b + 4" using "2.prems" by simp
  have "put_at (off + 4) (f32s_bytes fs) (put_at off (to_le f) b) = put_at off (f32s_bytes (f # fs)) b"
    using "2.prems" by (simp add: put_at_def f32s_bytes_def flip: length_f32s_bytes) (simp add: f32s_bytes_def ac_simps)
  with 2 show ?case by simp
qed

section \<open>Element tuples\<close>

record element_view =
  ev_level :: u8
  ev_tid :: i64
  ev_nbr_addr :: addr
  ev_vec :: bytes
  ev_code :: bytes
  ev_deleted :: bool
  ev_version :: u8

datatype tuple_error = BadElement | TruncatedElement | BadElementV4 | BadRaw | BadNeighbor | TruncatedNeighbor

definition decode_element :: "bytes \<Rightarrow> tuple_error + element_view" where
  "decode_element b =
     (if length b < ELEM_HEADER \<or> b ! E_TAG \<noteq> ELEM_TAG then Inl BadElement
      else let dim = unat (from_le (slice_at E_DIM 2 b) :: u16); end = E_VEC + dim * 4 in
        if length b < end then Inl TruncatedElement
        else Inr \<lparr>ev_level = b ! E_LEVEL, ev_tid = from_le (slice_at E_TID 8 b),
          ev_nbr_addr = (from_le (slice_at E_NBR_BLK 4 b), from_le (slice_at E_NBR_OFF 2 b)),
          ev_vec = slice_at E_VEC (end - E_VEC) b, ev_code = drop end b,
          ev_deleted = (b ! E_DELETED \<noteq> 0), ev_version = b ! E_VERSION\<rparr>)"

definition encode_element :: "hnsw_index \<Rightarrow> nat \<Rightarrow> addr \<Rightarrow> nat \<Rightarrow> bytes \<Rightarrow> bytes option" where
  "encode_element x node nbr_addr dim code =
     (let b = replicate (elem_size dim (length code)) 0;
          b = b[E_TAG := ELEM_TAG];
          b = b[E_LEVEL := of_nat (node_level x node)];
          b = put_at E_TID (to_le (node_id x node)) b;
          b = put_at E_NBR_BLK (to_le (fst nbr_addr)) b;
          b = put_at E_NBR_OFF (to_le (snd nbr_addr)) b;
          b = put_at E_DIM (to_le (of_nat dim :: u16)) b
      in Option.bind (put_f32s E_VEC (node_vector x node) b) (\<lambda>b.
         if code \<noteq> [] then copy_tail (E_VEC + dim * 4) code b else Some b))"

text \<open>The tombstone flip: the new bytes and whether this call flipped a live tuple.\<close>

definition mark_tombstone_in_place :: "bytes \<Rightarrow> bytes \<times> bool" where
  "mark_tombstone_in_place b =
     (if length b < ELEM_HEADER \<or> b ! E_TAG \<noteq> ELEM_TAG \<or> b ! E_DELETED \<noteq> 0 then (b, False)
      else (b[E_DELETED := 1, E_VERSION := b ! E_VERSION + 1], True))"

section \<open>Hot and cold tuples of layout v4\<close>

record element_view_v4 =
  e4_level :: u8
  e4_tid :: i64
  e4_nbr_addr :: addr
  e4_raw_addr :: addr
  e4_dim :: u16
  e4_code :: bytes
  e4_deleted :: bool
  e4_version :: u8

definition decode_element_v4 :: "bytes \<Rightarrow> tuple_error + element_view_v4" where
  "decode_element_v4 b =
     (if length b < ELEM_HEADER_V4 \<or> b ! E_TAG \<noteq> ELEM_TAG then Inl BadElementV4
      else Inr \<lparr>e4_level = b ! E_LEVEL, e4_tid = from_le (slice_at E_TID 8 b),
          e4_nbr_addr = (from_le (slice_at E_NBR_BLK 4 b), from_le (slice_at E_NBR_OFF 2 b)),
          e4_raw_addr = (from_le (slice_at E4_RAW_BLK 4 b), from_le (slice_at E4_RAW_OFF 2 b)),
          e4_dim = from_le (slice_at E4_DIM 2 b), e4_code = drop E4_CODE b,
          e4_deleted = (b ! E_DELETED \<noteq> 0), e4_version = b ! E_VERSION\<rparr>)"

definition encode_element_v4 :: "hnsw_index \<Rightarrow> nat \<Rightarrow> addr \<Rightarrow> addr \<Rightarrow> nat \<Rightarrow> bytes \<Rightarrow> bytes" where
  "encode_element_v4 x node nbr_addr raw_addr dim code =
     (let b = replicate (elem_size_v4 (length code)) 0;
          b = b[E_TAG := ELEM_TAG];
          b = b[E_LEVEL := of_nat (node_level x node)];
          b = b[E_VERSION := HNSW_ELEM_VERSION_V4];
          b = put_at E_TID (to_le (node_id x node)) b;
          b = put_at E_NBR_BLK (to_le (fst nbr_addr)) b;
          b = put_at E_NBR_OFF (to_le (snd nbr_addr)) b;
          b = put_at E4_RAW_BLK (to_le (fst raw_addr)) b;
          b = put_at E4_RAW_OFF (to_le (snd raw_addr)) b;
          b = put_at E4_DIM (to_le (of_nat dim :: u16)) b
      in put_at E4_CODE code b)"

definition decode_raw_vec :: "bytes \<Rightarrow> tuple_error + bytes" where
  "decode_raw_vec b = (if length b < RAW_HEADER \<or> b ! 0 \<noteq> RAW_TAG then Inl BadRaw else Inr (drop R_VEC b))"

definition encode_raw_vec :: "f32_bits list \<Rightarrow> bytes option" where
  "encode_raw_vec fs = put_f32s R_VEC fs ((replicate (raw_size (length fs)) 0)[0 := RAW_TAG])"

section \<open>Neighbour tuples\<close>

fun decode_slots :: "bytes \<Rightarrow> nat \<Rightarrow> nat \<Rightarrow> tuple_error + addr list" where
  "decode_slots b s 0 = Inr []"
| "decode_slots b s (Suc n) =
     (let off = NBR_HEADER + s * SLOT in
      if length b < off + SLOT then Inl TruncatedNeighbor
      else let blk = from_le (slice_at off 4 b) :: u32; ofs = from_le (slice_at (off + 4) 2 b) :: u16 in
        bind_r (decode_slots b (Suc s) n)
          (\<lambda>as. Inr (if blk \<noteq> 0 \<or> ofs \<noteq> 0 then (blk, ofs) # as else as)))"

definition decode_neighbors :: "bytes \<Rightarrow> nat \<Rightarrow> nat \<Rightarrow> nat \<Rightarrow> nat \<Rightarrow> tuple_error + addr list" where
  "decode_neighbors b level lc m m0 =
     (if length b < NBR_HEADER \<or> b ! 0 \<noteq> NBR_TAG then Inl BadNeighbor
      else if lc > level then Inr []
      else let (start, len) = (if lc = 0 then (level * m, m0) else ((level - lc) * m, m))
        in decode_slots b start len)"

fun write_slots :: "addr list \<Rightarrow> nat \<Rightarrow> nat list \<Rightarrow> bytes \<Rightarrow> bytes option" where
  "write_slots elem_addr s [] b = Some b"
| "write_slots elem_addr s (nb # nbs) b =
     (let off = NBR_HEADER + s * SLOT in
      if nb < length elem_addr \<and> off + SLOT \<le> length b then
        write_slots elem_addr (Suc s) nbs
          (put_at (off + 4) (to_le (snd (elem_addr ! nb))) (put_at off (to_le (fst (elem_addr ! nb))) b))
      else None)"

text \<open>\<open>for lc in (1..=level).rev()\<close>, from the top layer \<open>k\<close> down.\<close>

fun write_upper :: "hnsw_index \<Rightarrow> nat \<Rightarrow> addr list \<Rightarrow> nat \<Rightarrow> nat \<Rightarrow> nat \<Rightarrow> bytes \<Rightarrow> bytes option" where
  "write_upper x node elem_addr level m 0 b = Some b"
| "write_upper x node elem_addr level m (Suc k) b =
     Option.bind (write_slots elem_addr ((level - Suc k) * m) (take m (node_neighbors x node (Suc k))) b)
       (write_upper x node elem_addr level m k)"

definition encode_neighbors :: "hnsw_index \<Rightarrow> nat \<Rightarrow> addr list \<Rightarrow> nat \<Rightarrow> nat \<Rightarrow> bytes option" where
  "encode_neighbors x node elem_addr m m0 =
     (let level = node_level x node;
          slots = nbr_slots level m m0;
          b = replicate (nbr_size level m m0) 0;
          b = b[0 := NBR_TAG];
          b = put_at N_COUNT (to_le (of_nat slots :: u16)) b
      in Option.bind (write_upper x node elem_addr level m level b)
           (write_slots elem_addr (level * m) (take m0 (node_neighbors x node 0))))"

section \<open>Proofs\<close>

lemma tid_encode_bits:
  "bit (tid_encode t) n \<longleftrightarrow>
     n < 16 \<and> bit (ip_posid t) n \<or> 16 \<le> n \<and> n < 32 \<and> bit (bi_lo t) (n - 16) \<or>
     32 \<le> n \<and> n < 48 \<and> bit (bi_hi t) (n - 32)"
proof -
  have lt: "bit (w :: u16) k \<Longrightarrow> k < 16" for w k using bit_imp_le_length [of w k] by simp
  show ?thesis by (auto simp: tid_encode_def Let_def bit_simps dest: lt)
qed

lemma tid_roundtrip: "tid_set_on (tid_encode t) = t"
proof (rule item_pointer.equality)
  have m: "(0xFFFF :: i64) = mask 16" "(0xFFFF :: u32) = mask 16" by (simp_all add: mask_eq_exp_minus_1)
  show "bi_hi (tid_set_on (tid_encode t)) = bi_hi t"
    by (rule bit_word_eqI) (auto simp: tid_set_on_def Let_def bit_simps tid_encode_bits)
  show "bi_lo (tid_set_on (tid_encode t)) = bi_lo t"
    unfolding tid_set_on_def Let_def m
    by (rule bit_word_eqI) (auto simp: bit_simps tid_encode_bits simp del: mask_numeral)
  show "ip_posid (tid_set_on (tid_encode t)) = ip_posid t"
    unfolding tid_set_on_def Let_def m
    by (rule bit_word_eqI) (auto simp: bit_simps tid_encode_bits simp del: mask_numeral)
qed simp

lemma element_roundtrip:
  assumes "length (node_vector x node) = dim" and "dim < 2 ^ 16"
  shows "\<exists>b. encode_element x node nbr_addr dim code = Some b \<and> length b = elem_size dim (length code) \<and>
    decode_element b = Inr \<lparr>ev_level = of_nat (node_level x node), ev_tid = node_id x node,
      ev_nbr_addr = nbr_addr, ev_vec = f32s_bytes (node_vector x node), ev_code = code,
      ev_deleted = False, ev_version = 0\<rparr>"
  using assms
  by (cases "code = []")
    (simp_all add: encode_element_def decode_element_def Let_def layout_defs elem_size_def put_f32s_eq
      copy_tail_def codec_simps)

subsection \<open>Tombstones\<close>

lemma tombstone_view:
  assumes "decode_element b = Inr v"
  shows "decode_element (fst (mark_tombstone_in_place b)) =
      Inr (v\<lparr>ev_deleted := True, ev_version := if ev_deleted v then ev_version v else ev_version v + 1\<rparr>)"
    and "snd (mark_tombstone_in_place b) \<longleftrightarrow> \<not> ev_deleted v"
    and "length (fst (mark_tombstone_in_place b)) = length b"
  using assms
  by (auto simp: decode_element_def mark_tombstone_in_place_def Let_def layout_defs codec_simps
      split: if_splits)

lemma tombstone_length: "length (fst (mark_tombstone_in_place b)) = length b"
  by (simp add: mark_tombstone_in_place_def)

lemma tombstone_flips_v4: "decode_element_v4 b = Inr w \<Longrightarrow> snd (mark_tombstone_in_place b) \<longleftrightarrow> \<not> e4_deleted w"
  by (auto simp: decode_element_v4_def mark_tombstone_in_place_def layout_defs split: if_splits)

lemma tombstone_idempotent:
  "mark_tombstone_in_place (fst (mark_tombstone_in_place b)) = (fst (mark_tombstone_in_place b), False)"
  by (simp add: mark_tombstone_in_place_def layout_defs)

lemma tombstone_view_v4:
  assumes "decode_element_v4 b = Inr v"
  shows "decode_element_v4 (fst (mark_tombstone_in_place b)) =
      Inr (v\<lparr>e4_deleted := True, e4_version := if e4_deleted v then e4_version v else e4_version v + 1\<rparr>)"
  using assms
  by (auto simp: decode_element_v4_def mark_tombstone_in_place_def Let_def layout_defs codec_simps
      split: if_splits)

lemma element_v4_roundtrip:
  "decode_element_v4 (encode_element_v4 x node nbr_addr raw_addr dim code) =
     Inr \<lparr>e4_level = of_nat (node_level x node), e4_tid = node_id x node, e4_nbr_addr = nbr_addr,
       e4_raw_addr = raw_addr, e4_dim = of_nat dim, e4_code = code, e4_deleted = False,
       e4_version = HNSW_ELEM_VERSION_V4\<rparr>"
  by (simp add: encode_element_v4_def decode_element_v4_def Let_def layout_defs elem_size_v4_def codec_simps)

lemma raw_vec_roundtrip:
  "\<exists>b. encode_raw_vec fs = Some b \<and> length b = raw_size (length fs) \<and> decode_raw_vec b = Inr (f32s_bytes fs)"
  by (simp add: encode_raw_vec_def decode_raw_vec_def put_f32s_eq raw_size_def layout_defs codec_simps)

subsection \<open>Neighbour slots\<close>

definition read_slot :: "bytes \<Rightarrow> nat \<Rightarrow> addr" where
  "read_slot b s = (from_le (slice_at (NBR_HEADER + s * SLOT) 4 b), from_le (slice_at (NBR_HEADER + s * SLOT + 4) 2 b))"

lemma decode_slots_eq:
  "NBR_HEADER + (s + n) * SLOT \<le> length b \<Longrightarrow>
   decode_slots b s n = Inr (filter (\<lambda>a. a \<noteq> (0, 0)) (map (read_slot b) [s..<s + n]))"
proof (induction b s n rule: decode_slots.induct)
  case (1 b s)
  then show ?case by simp
next
  case (2 b s n)
  have "NBR_HEADER + s * SLOT + SLOT \<le> length b" using "2.prems" by (simp add: layout_defs)
  moreover have "[s..<s + Suc n] = s # [Suc s..<Suc s + n]" by (simp add: upt_rec)
  ultimately show ?case using 2 by (simp add: Let_def read_slot_def not_less)
qed

lemma read_slot_put:
  assumes "NBR_HEADER + s * SLOT + SLOT \<le> length b" and "NBR_HEADER + t * SLOT + SLOT \<le> length b"
  shows "read_slot (put_at (NBR_HEADER + s * SLOT + 4) (to_le (snd a)) (put_at (NBR_HEADER + s * SLOT) (to_le (fst a)) b)) t
    = (if t = s then a else read_slot b t)"
proof (cases "t < s \<or> s < t")
  case True
  then have "t * SLOT + SLOT \<le> s * SLOT \<or> s * SLOT + SLOT \<le> t * SLOT"
    using mult_le_mono1 [of "Suc t" s SLOT] mult_le_mono1 [of "Suc s" t SLOT] by auto
  with assms True show ?thesis
    by (auto simp: read_slot_def codec_simps layout_defs)
next
  case False
  then have "t = s" by simp
  with assms show ?thesis by (simp add: read_slot_def codec_simps layout_defs)
qed

lemma write_slots_eq:
  "\<forall>nb \<in> set nbs. nb < length ea \<Longrightarrow> NBR_HEADER + (s + length nbs) * SLOT \<le> length b \<Longrightarrow>
   \<exists>b'. write_slots ea s nbs b = Some b' \<and> length b' = length b \<and> take 4 b' = take 4 b \<and>
     (\<forall>t. NBR_HEADER + t * SLOT + SLOT \<le> length b \<longrightarrow>
        read_slot b' t = (if s \<le> t \<and> t < s + length nbs then ea ! (nbs ! (t - s)) else read_slot b t))"
proof (induction ea s nbs b rule: write_slots.induct)
  case (1 ea s b)
  then show ?case by auto
next
  case (2 ea s nb nbs b)
  let ?off = "NBR_HEADER + s * SLOT"
  let ?b = "put_at (?off + 4) (to_le (snd (ea ! nb))) (put_at ?off (to_le (fst (ea ! nb))) b)"
  have in_b: "?off + SLOT \<le> length b" using "2.prems"(2) by (simp add: layout_defs)
  have len: "length ?b = length b" using in_b by (simp add: layout_defs)
  have t4: "take 4 ?b = take 4 b" using in_b by (simp add: put_at_def layout_defs)
  have "\<exists>b'. write_slots ea (Suc s) nbs ?b = Some b' \<and> length b' = length ?b \<and> take 4 b' = take 4 ?b \<and>
     (\<forall>t. NBR_HEADER + t * SLOT + SLOT \<le> length ?b \<longrightarrow>
        read_slot b' t = (if Suc s \<le> t \<and> t < Suc s + length nbs then ea ! (nbs ! (t - Suc s)) else read_slot ?b t))"
    by (rule "2.IH") (use "2.prems" in_b len in simp_all)
  then obtain b' where b': "write_slots ea (Suc s) nbs ?b = Some b'" "length b' = length b"
    "take 4 b' = take 4 b"
    "\<And>t. NBR_HEADER + t * SLOT + SLOT \<le> length b \<Longrightarrow>
       read_slot b' t = (if Suc s \<le> t \<and> t < Suc s + length nbs then ea ! (nbs ! (t - Suc s)) else read_slot ?b t)"
    unfolding len t4 by blast
  have "read_slot b' t = (if s \<le> t \<and> t < s + length (nb # nbs) then ea ! ((nb # nbs) ! (t - s)) else read_slot b t)"
    if "NBR_HEADER + t * SLOT + SLOT \<le> length b" for t
    using b'(4) [OF that] read_slot_put [OF in_b that, of "ea ! nb"]
    by (cases "t = s") (auto simp: nth_Cons')
  with b' in_b "2.prems"(1) show ?case by (auto simp: Let_def)
qed

lemma write_upper_eq:
  assumes "k \<le> level" and "length b = nbr_size level m m0"
    and "\<forall>l. 1 \<le> l \<and> l \<le> k \<longrightarrow> (\<forall>nb \<in> set (node_neighbors x node l). nb < length ea)"
  shows "\<exists>b'. write_upper x node ea level m k b = Some b' \<and> length b' = length b \<and> take 4 b' = take 4 b \<and>
    (\<forall>t < nbr_slots level m m0. t < (level - k) * m \<or> level * m \<le> t \<longrightarrow> read_slot b' t = read_slot b t) \<and>
    (\<forall>l i. 1 \<le> l \<and> l \<le> k \<and> i < m \<longrightarrow> read_slot b' ((level - l) * m + i) =
       (if i < length (node_neighbors x node l) then ea ! (node_neighbors x node l ! i)
        else read_slot b ((level - l) * m + i)))"
  using assms
proof (induction x node ea level m k b rule: write_upper.induct)
  case (1 x node ea level m b)
  then show ?case by auto
next
  case (2 x node ea level m k b)
  let ?nbs = "take m (node_neighbors x node (Suc k))" and ?s = "(level - Suc k) * m"
  have s: "?s + m = (level - k) * m" "(level - k) * m \<le> level * m"
  proof -
    have "level - k = Suc (level - Suc k)" using "2.prems"(1) by simp
    then show "?s + m = (level - k) * m" by simp
    show "(level - k) * m \<le> level * m" by (rule mult_le_mono1) simp
  qed
  have "?s + length ?nbs \<le> nbr_slots level m m0"
  proof -
    have "length ?nbs \<le> m" by simp
    with s show ?thesis unfolding nbr_slots_def by linarith
  qed
  then have room: "NBR_HEADER + (?s + length ?nbs) * SLOT \<le> length b"
    using "2.prems"(2) by (simp add: nbr_size_def)
  have nbs: "\<forall>nb \<in> set ?nbs. nb < length ea" using "2.prems"(3) by (auto dest: in_set_takeD)
  have fits: "NBR_HEADER + t * SLOT + SLOT \<le> length b" if "t < nbr_slots level m m0" for t
    using mult_le_mono1 [of "Suc t" "nbr_slots level m m0" SLOT] that "2.prems"(2)
    by (simp add: nbr_size_def)
  from write_slots_eq [OF nbs room] obtain b1 where b1: "write_slots ea ?s ?nbs b = Some b1"
    "length b1 = length b" "take 4 b1 = take 4 b"
    "\<And>t. t < nbr_slots level m m0 \<Longrightarrow>
       read_slot b1 t = (if ?s \<le> t \<and> t < ?s + length ?nbs then ea ! (?nbs ! (t - ?s)) else read_slot b t)"
    using fits by blast
  have "\<exists>b'. write_upper x node ea level m k b1 = Some b' \<and> length b' = length b1 \<and> take 4 b' = take 4 b1 \<and>
    (\<forall>t < nbr_slots level m m0. t < (level - k) * m \<or> level * m \<le> t \<longrightarrow> read_slot b' t = read_slot b1 t) \<and>
    (\<forall>l i. 1 \<le> l \<and> l \<le> k \<and> i < m \<longrightarrow> read_slot b' ((level - l) * m + i) =
       (if i < length (node_neighbors x node l) then ea ! (node_neighbors x node l ! i)
        else read_slot b1 ((level - l) * m + i)))"
    by (rule "2.IH" [OF b1(1)]) (use "2.prems" b1(2) in auto)
  then obtain b' where
    b': "write_upper x node ea level m k b1 = Some b'" "length b' = length b1" "take 4 b' = take 4 b1"
    "\<And>t. t < nbr_slots level m m0 \<Longrightarrow> t < (level - k) * m \<or> level * m \<le> t \<Longrightarrow> read_slot b' t = read_slot b1 t"
    "\<And>l i. 1 \<le> l \<Longrightarrow> l \<le> k \<Longrightarrow> i < m \<Longrightarrow> read_slot b' ((level - l) * m + i) =
       (if i < length (node_neighbors x node l) then ea ! (node_neighbors x node l ! i)
        else read_slot b1 ((level - l) * m + i))"
    by blast
  have w: "write_upper x node ea level m (Suc k) b = Some b'" using b1(1) b'(1) by simp
  have b1_out: "read_slot b1 t = read_slot b t" if "t < nbr_slots level m m0" "t < ?s \<or> ?s + m \<le> t" for t
  proof -
    have "length ?nbs \<le> m" by simp
    then have "\<not> (?s \<le> t \<and> t < ?s + length ?nbs)" using that(2) by linarith
    then show ?thesis using b1(4) [OF that(1)] by (simp only: if_False)
  qed
  have out: "read_slot b' t = read_slot b t"
    if "t < nbr_slots level m m0" and "t < ?s \<or> level * m \<le> t" for t
  proof -
    have t: "t < (level - k) * m \<or> level * m \<le> t" "t < ?s \<or> ?s + m \<le> t" using that(2) s by linarith+
    show ?thesis using b'(4) [OF that(1) t(1)] b1_out [OF that(1) t(2)] by simp
  qed
  have slot_lt: "(level - l) * m + i < nbr_slots level m m0" if "1 \<le> l" "l \<le> level" "i < m" for l i
  proof -
    have "(level - l) * m + i < Suc (level - l) * m" using that(3) by simp
    also have "\<dots> \<le> level * m" using that(1,2) by (intro mult_le_mono1) simp
    finally show ?thesis by (simp add: nbr_slots_def)
  qed
  have ins: "read_slot b' ((level - l) * m + i) =
      (if i < length (node_neighbors x node l) then ea ! (node_neighbors x node l ! i)
       else read_slot b ((level - l) * m + i))" if l: "1 \<le> l" "l \<le> Suc k" "i < m" for l i
  proof -
    have lt: "(level - l) * m + i < nbr_slots level m m0"
      by (rule slot_lt) (use l "2.prems"(1) in simp_all)
    show ?thesis
    proof (cases "l = Suc k")
      case True
      then have "read_slot b' ((level - l) * m + i) = read_slot b1 ((level - l) * m + i)"
        by (intro b'(4) lt) (use s l(3) in simp)
      with b1(4) [OF lt] True l(3) show ?thesis by simp
    next
      case False
      then have "(level - k) * m \<le> (level - l) * m" using l by (intro mult_le_mono1) simp
      then have "read_slot b1 ((level - l) * m + i) = read_slot b ((level - l) * m + i)"
        using s by (intro b1_out lt) linarith
      with b'(5) [of l i] False l show ?thesis by simp
    qed
  qed
  have "read_slot b' t = read_slot b t"
    if "t < nbr_slots level m m0" "t < (level - Suc k) * m \<or> level * m \<le> t" for t
    using out that by blast
  then show ?case using w b'(2,3) b1(2,3) ins by (intro exI [of _ b'] conjI allI impI) simp_all
qed

lemma nat_of_le_zeros [simp]: "nat_of_le (replicate n 0) = 0"
  by (induction n) simp_all

lemma read_slot_zero:
  assumes "t < slots" and "length c = 2"
  shows "read_slot (put_at N_COUNT c ((replicate (NBR_HEADER + slots * SLOT) 0)[0 := x])) t = (0, 0)"
proof -
  have "t * SLOT + SLOT \<le> slots * SLOT" using mult_le_mono1 [of "Suc t" slots SLOT] assms by simp
  then show ?thesis using assms(2)
    by (auto simp: read_slot_def codec_simps layout_defs slice_at_def from_le_def drop_replicate)
qed

definition layer_cap :: "nat \<Rightarrow> nat \<Rightarrow> nat \<Rightarrow> nat" where
  "layer_cap m m0 lc = (if lc = 0 then m0 else m)"

lemma filter_padded:
  assumes "\<forall>nb \<in> set nbs. f nb \<noteq> z"
  shows "filter (\<lambda>a. a \<noteq> z) (map (\<lambda>i. if i < length nbs then f (nbs ! i) else z) [0..<n]) = map f (take n nbs)"
  using assms
proof (induction nbs arbitrary: n)
  case (Cons nb nbs)
  show ?case
  proof (cases n)
    case (Suc k)
    then have "[0..<n] = 0 # map Suc [0..<k]" by (simp add: map_Suc_upt upt_conv_Cons del: upt_Suc)
    moreover have "(nb # nbs) ! Suc i = nbs ! i" for i by simp
    ultimately show ?thesis using Suc Cons by (simp add: comp_def del: upt_Suc nth_Cons_Suc cong: if_cong)
  qed simp
qed (simp add: filter_empty_conv)

lemma decode_layer:
  assumes "NBR_HEADER + (start + cap) * SLOT \<le> length b"
    and "\<And>i. i < cap \<Longrightarrow> read_slot b (start + i) = (if i < length nbs then ea ! (nbs ! i) else (0, 0))"
    and "\<forall>nb \<in> set nbs. ea ! nb \<noteq> (0, 0)"
  shows "decode_slots b start cap = Inr (map ((!) ea) (take cap nbs))"
proof -
  have "map (read_slot b) [start..<start + cap] =
      map (\<lambda>i. if i < length nbs then ea ! (nbs ! i) else (0, 0)) [0..<cap]"
    using assms(2) by (intro nth_equalityI) simp_all
  then show ?thesis
    using decode_slots_eq [OF assms(1)] filter_padded [of nbs "(!) ea" "(0, 0)" cap] assms(3) by simp
qed

lemma encode_neighbors_slots:
  assumes "\<forall>l \<le> node_level x node. \<forall>nb \<in> set (node_neighbors x node l). nb < length ea"
  defines "level \<equiv> node_level x node"
  shows "\<exists>b. encode_neighbors x node ea m m0 = Some b \<and> length b = nbr_size level m m0 \<and> b ! 0 = NBR_TAG \<and>
    (\<forall>l i. l \<le> level \<and> i < layer_cap m m0 l \<longrightarrow> read_slot b ((level - l) * m + i) =
       (if i < length (node_neighbors x node l) then ea ! (node_neighbors x node l ! i) else (0, 0)))"
proof -
  let ?c = "to_le (of_nat (nbr_slots level m m0) :: u16)"
  let ?b0 = "put_at N_COUNT ?c ((replicate (nbr_size level m m0) 0)[0 := NBR_TAG])"
  let ?nbs = "take m0 (node_neighbors x node 0)"
  have l0: "length ?b0 = nbr_size level m m0" by (simp add: nbr_size_def layout_defs)
  have tag: "?b0 ! 0 = NBR_TAG" by (simp add: nbr_size_def layout_defs codec_simps)
  have zero: "read_slot ?b0 t = (0, 0)" if "t < nbr_slots level m m0" for t
    using read_slot_zero [OF that, of ?c NBR_TAG] by (simp add: nbr_size_def)
  have fits: "NBR_HEADER + t * SLOT + SLOT \<le> nbr_size level m m0" if "t < nbr_slots level m m0" for t
    using mult_le_mono1 [of "Suc t" "nbr_slots level m m0" SLOT] that by (simp add: nbr_size_def)
  have ref: "\<forall>nb \<in> set (node_neighbors x node l). nb < length ea" if "l \<le> level" for l
    using assms that by blast
  then have up: "\<forall>l. 1 \<le> l \<and> l \<le> level \<longrightarrow> (\<forall>nb \<in> set (node_neighbors x node l). nb < length ea)"
    by blast
  obtain b1 where b1: "write_upper x node ea level m level ?b0 = Some b1" "length b1 = length ?b0"
    "take 4 b1 = take 4 ?b0"
    "\<And>t. t < nbr_slots level m m0 \<Longrightarrow> level * m \<le> t \<Longrightarrow> read_slot b1 t = read_slot ?b0 t"
    "\<And>l i. 1 \<le> l \<Longrightarrow> l \<le> level \<Longrightarrow> i < m \<Longrightarrow> read_slot b1 ((level - l) * m + i) =
       (if i < length (node_neighbors x node l) then ea ! (node_neighbors x node l ! i)
        else read_slot ?b0 ((level - l) * m + i))"
    using write_upper_eq [OF order.refl l0 up] by blast
  have "NBR_HEADER + (level * m + length ?nbs) * SLOT \<le> length b1"
    unfolding b1(2) l0 by (simp add: nbr_size_def nbr_slots_def)
  moreover have "\<forall>nb \<in> set ?nbs. nb < length ea" using ref [of 0] by (auto dest: in_set_takeD)
  ultimately obtain b where b: "write_slots ea (level * m) ?nbs b1 = Some b" "length b = length b1"
    "take 4 b = take 4 b1"
    "\<And>t. t < nbr_slots level m m0 \<Longrightarrow> read_slot b t =
       (if level * m \<le> t \<and> t < level * m + length ?nbs then ea ! (?nbs ! (t - level * m)) else read_slot b1 t)"
    using write_slots_eq [of ?nbs ea "level * m" b1] fits unfolding b1(2) l0 by blast
  have enc: "encode_neighbors x node ea m m0 = Some b"
    using b1(1) b(1) by (simp add: encode_neighbors_def Let_def level_def)
  have "b ! 0 = take 4 b ! 0" by simp
  also have "\<dots> = ?b0 ! 0" by (simp add: b(3) b1(3))
  finally have b0: "b ! 0 = NBR_TAG" using tag by simp
  have slots: "read_slot b ((level - l) * m + i) =
      (if i < length (node_neighbors x node l) then ea ! (node_neighbors x node l ! i) else (0, 0))"
    if l: "l \<le> level" "i < layer_cap m m0 l" for l i
  proof (cases "l = 0")
    case True
    then have lt: "level * m + i < nbr_slots level m m0" using l by (simp add: layer_cap_def nbr_slots_def)
    from True l b(4) [OF lt] b1(4) [OF lt] zero [OF lt] show ?thesis by (simp add: layer_cap_def)
  next
    case False
    then have i: "i < m" using l by (simp add: layer_cap_def)
    have "(level - l) * m + i < Suc (level - l) * m" using i by simp
    also have "\<dots> \<le> level * m" using l(1) False by (intro mult_le_mono1) simp
    finally have up: "(level - l) * m + i < level * m" .
    then have lt: "(level - l) * m + i < nbr_slots level m m0" by (simp add: nbr_slots_def)
    from b(4) [OF lt] up b1(5) [of l i] False l(1) i zero [OF lt] show ?thesis by simp
  qed
  from enc b(2) b1(2) l0 b0 slots show ?thesis by (intro exI [of _ b]) simp
qed

lemma neighbors_roundtrip:
  assumes "\<forall>l \<le> node_level x node. \<forall>nb \<in> set (node_neighbors x node l). nb < length ea \<and> ea ! nb \<noteq> (0, 0)"
  shows "\<exists>b. encode_neighbors x node ea m m0 = Some b \<and>
    length b = nbr_size (node_level x node) m m0 \<and>
    (\<forall>lc \<le> node_level x node. decode_neighbors b (node_level x node) lc m m0 =
       Inr (map ((!) ea) (take (layer_cap m m0 lc) (node_neighbors x node lc))))"
proof -
  let ?level = "node_level x node"
  obtain b where b: "encode_neighbors x node ea m m0 = Some b" "length b = nbr_size ?level m m0" "b ! 0 = NBR_TAG"
    "\<And>l i. l \<le> ?level \<Longrightarrow> i < layer_cap m m0 l \<Longrightarrow> read_slot b ((?level - l) * m + i) =
       (if i < length (node_neighbors x node l) then ea ! (node_neighbors x node l ! i) else (0, 0))"
    using encode_neighbors_slots [of x node ea m m0] assms by blast
  have "decode_neighbors b ?level lc m m0 = Inr (map ((!) ea) (take (layer_cap m m0 lc) (node_neighbors x node lc)))"
    if lc: "lc \<le> ?level" for lc
  proof -
    have "(?level - lc) * m + layer_cap m m0 lc \<le> nbr_slots ?level m m0"
    proof (cases "lc = 0")
      case False
      then have "Suc (?level - lc) * m \<le> ?level * m" using lc by (intro mult_le_mono1) simp
      with False show ?thesis by (simp add: layer_cap_def nbr_slots_def)
    qed (simp add: layer_cap_def nbr_slots_def)
    then have "NBR_HEADER + ((?level - lc) * m + layer_cap m m0 lc) * SLOT \<le> length b"
      using b(2) by (simp add: nbr_size_def)
    moreover have "\<forall>nb \<in> set (node_neighbors x node lc). ea ! nb \<noteq> (0, 0)" using assms lc by blast
    ultimately have "decode_slots b ((?level - lc) * m) (layer_cap m m0 lc) =
        Inr (map ((!) ea) (take (layer_cap m m0 lc) (node_neighbors x node lc)))"
      by (intro decode_layer) (use b(4) [OF lc] in simp_all)
    then show ?thesis
      using lc b(2,3) by (cases "lc = 0") (simp_all add: decode_neighbors_def layer_cap_def nbr_size_def)
  qed
  with b(1,2) show ?thesis by blast
qed

lemma tid_encode_range: "0 \<le> sint (tid_encode t) \<and> sint (tid_encode t) < 2 ^ 48"
proof -
  have "tid_encode t = take_bit 48 (tid_encode t)"
    by (rule bit_word_eqI) (auto simp: bit_simps tid_encode_bits)
  moreover have "uint (take_bit 48 (tid_encode t)) < 2 ^ 48"
    unfolding unsigned_take_bit_eq by (rule take_bit_int_less_exp)
  ultimately have "uint (tid_encode t) < 2 ^ 48" by simp
  moreover from this have "sint (tid_encode t) = uint (tid_encode t)"
    unfolding sint_uint by (intro signed_take_bit_int_eq_self) (simp_all add: order_trans [OF _ unsigned_greater_eq])
  ultimately show ?thesis by simp
qed

section \<open>Properties\<close>

text \<open>A heap TID survives its encoding in an \<open>i64\<close> slot bit for bit, and the encoding is a
  non-negative number below \<open>2 ^ 48\<close>.\<close>

theorem tid_codec:
  "tid_set_on (tid_encode t) = t \<and> 0 \<le> sint (tid_encode t) \<and> sint (tid_encode t) < 2 ^ 48"
  using tid_roundtrip tid_encode_range by blast

text \<open>C30: Every element tuple decodes to what was encoded: level, TID, neighbour address, vector bytes and
  trailing code for the f32 layouts (one tuple of the analytic size), and for the hot v4 tuple the code
  and both addresses; a fresh tuple is live. The cold raw tuple decodes to the vector's bytes.\<close>

theorem element_codec:
  assumes "length (node_vector x node) = dim" and "dim < 2 ^ 16"
  shows "(\<exists>b. encode_element x node nbr_addr dim code = Some b \<and> length b = elem_size dim (length code) \<and>
      decode_element b = Inr \<lparr>ev_level = of_nat (node_level x node), ev_tid = node_id x node,
        ev_nbr_addr = nbr_addr, ev_vec = f32s_bytes (node_vector x node), ev_code = code,
        ev_deleted = False, ev_version = 0\<rparr>) \<and>
    decode_element_v4 (encode_element_v4 x node nbr_addr raw_addr dim code) =
      Inr \<lparr>e4_level = of_nat (node_level x node), e4_tid = node_id x node, e4_nbr_addr = nbr_addr,
        e4_raw_addr = raw_addr, e4_dim = of_nat dim, e4_code = code, e4_deleted = False,
        e4_version = HNSW_ELEM_VERSION_V4\<rparr> \<and>
    (\<exists>b. encode_raw_vec (node_vector x node) = Some b \<and> length b = raw_size dim \<and>
      decode_raw_vec b = Inr (f32s_bytes (node_vector x node)))"
  using element_roundtrip [OF assms] element_v4_roundtrip raw_vec_roundtrip [of "node_vector x node"] assms(1)
  by simp

definition one_node :: hnsw_index where
  "one_node = \<lparr>hx_metric = L2, hx_m = 1, hx_m0 = 2, hx_efc = 1, hx_vectors = [[0, 1]], hx_ids = [7],
     hx_levels = [0], hx_neighbors = [[[0]]], hx_entry = Some 0, hx_max_level = 0\<rparr>"

theorem element_codec_witness:
  "\<exists>b. encode_element one_node 0 (2, 1) 2 [9] = Some b \<and> length b = 29"
  using element_codec [of one_node 0 2 "(2, 1)" "[9]" "(0, 0)"]
  by (auto simp: one_node_def node_vector_def elem_size_def layout_defs)

text \<open>C31: Marking a tombstone in place changes only the deleted flag and, on the first marking, the version.
  Every item keeps its size and a second marking changes nothing. A tuple that decodes in an f32 layout, and likewise
  one that decodes in v4, decodes in that layout to the same view but for the flag and the version, and the call
  reports whether it flipped a live tuple.\<close>

theorem tombstone_in_place:
  "let (b', flipped) = mark_tombstone_in_place b in
    length b' = length b \<and> mark_tombstone_in_place b' = (b', False) \<and>
    (\<forall>v. decode_element b = Inr v \<longrightarrow>
      decode_element b' = Inr (v\<lparr>ev_deleted := True, ev_version := if ev_deleted v then ev_version v else ev_version v + 1\<rparr>) \<and>
      (flipped \<longleftrightarrow> \<not> ev_deleted v)) \<and>
    (\<forall>w. decode_element_v4 b = Inr w \<longrightarrow>
      decode_element_v4 b' = Inr (w\<lparr>e4_deleted := True, e4_version := if e4_deleted w then e4_version w else e4_version w + 1\<rparr>) \<and>
      (flipped \<longleftrightarrow> \<not> e4_deleted w))"
  using tombstone_view [of b] tombstone_idempotent [of b] tombstone_view_v4 [of b] tombstone_length [of b] tombstone_flips_v4 [of b]
  by (simp add: Let_def split_beta)

theorem tombstone_in_place_witness:
  "(\<exists>b v. decode_element b = Inr v \<and> snd (mark_tombstone_in_place b) \<and>
     decode_element (fst (mark_tombstone_in_place b)) = Inr (v\<lparr>ev_deleted := True, ev_version := ev_version v + 1\<rparr>)) \<and>
   (\<exists>b w. decode_element_v4 b = Inr w \<and> snd (mark_tombstone_in_place b) \<and>
     decode_element_v4 (fst (mark_tombstone_in_place b)) = Inr (w\<lparr>e4_deleted := True, e4_version := e4_version w + 1\<rparr>))"
proof -
  obtain b v where b: "decode_element b = Inr v" "\<not> ev_deleted v"
    using element_roundtrip [of one_node 0 2 "(2, 1)" "[9]"] by (auto simp: one_node_def node_vector_def)
  obtain c w where c: "decode_element_v4 c = Inr w" "\<not> e4_deleted w"
    using element_v4_roundtrip [of one_node 0 "(2, 1)" "(3, 1)" 2 "[9]"] by auto
  from tombstone_in_place [of b] tombstone_in_place [of c] b c show ?thesis by (auto simp: Let_def split_beta)
qed

text \<open>A neighbour tuple holds the whole adjacency of its node: for every layer up to the node's level, the
  addresses read back are exactly the addresses of the node's neighbours on that layer, in order, up to
  the layer's slot count, whatever the other layers hold.\<close>

theorem neighbors_codec:
  assumes "\<forall>l \<le> node_level x node. \<forall>nb \<in> set (node_neighbors x node l). nb < length ea \<and> ea ! nb \<noteq> (0, 0)"
  shows "\<exists>b. encode_neighbors x node ea m m0 = Some b \<and>
    length b = nbr_size (node_level x node) m m0 \<and>
    (\<forall>lc \<le> node_level x node. decode_neighbors b (node_level x node) lc m m0 =
       Inr (map ((!) ea) (take (if lc = 0 then m0 else m) (node_neighbors x node lc))))"
  using neighbors_roundtrip [OF assms] by (simp add: layer_cap_def)

theorem neighbors_codec_witness:
  "\<exists>b. encode_neighbors one_node 0 [(1, 1)] 1 2 = Some b \<and> decode_neighbors b 0 0 1 2 = Inr [(1, 1)]"
  using neighbors_codec [of one_node 0 "[(1, 1)]" 1 2]
  by (auto simp: one_node_def node_level_def node_neighbors_def)

end
