(* ===== verification/HnswMeta.thy ===== *)
theory HnswMeta
  imports HnswTuples
begin

text \<open>
  The meta item of a page-native HNSW index (\<open>am/hnsw_page/meta.rs\<close>): the 45-byte core, and the
  trailer its version selects (v1 none, v2 the inline SBQ codebook, v3 the AQ descriptor, v4 the AQ
  descriptor and the raw-vector region). \<open>decode_meta\<close> checks lengths before every range it reads, so
  it is a total function of the bytes.
\<close>

record hnsw_meta =
  hm_metric_tag :: u8
  hm_dim :: u32
  hm_m :: u16
  hm_m0 :: u16
  hm_entry_blkno :: u32
  hm_entry_offno :: u16
  hm_entry_level :: i16
  hm_node_count :: u32
  hm_elem_first :: u32
  hm_elem_npages :: u32
  hm_nbr_first :: u32
  hm_nbr_npages :: u32
  hm_sbq_bits :: u8
  hm_codebook :: bytes
  hm_aq_m :: u8
  hm_aq_codebook :: bytes
  hm_aq_cb_first :: u32
  hm_aq_cb_npages :: u32
  hm_raw_first :: u32
  hm_raw_npages :: u32

definition pending_start :: "hnsw_meta \<Rightarrow> u32" where
  "pending_start m =
     max (max (hm_nbr_first m + hm_nbr_npages m) (hm_aq_cb_first m + hm_aq_cb_npages m))
       (hm_raw_first m + hm_raw_npages m)"

definition HNSW_STRUCT_MAGIC :: u32 where "HNSW_STRUCT_MAGIC = 0x54485353"
definition HNSW_STRUCT_VERSION :: u32 where "HNSW_STRUCT_VERSION = 1"
definition HNSW_STRUCT_VERSION_SBQ :: u32 where "HNSW_STRUCT_VERSION_SBQ = 2"
definition HNSW_STRUCT_VERSION_AQ :: u32 where "HNSW_STRUCT_VERSION_AQ = 3"
definition HNSW_STRUCT_VERSION_V4 :: u32 where "HNSW_STRUCT_VERSION_V4 = 4"
definition META_LEN :: nat where "META_LEN = 4 + 4 + 1 + 4 + 2 + 2 + 4 + 2 + 2 + 4 + 4 + 4 + 4 + 4"
definition AQ_DESC_LEN :: nat where "AQ_DESC_LEN = 1 + 4 + 4 + 4"
definition V4_DESC_LEN :: nat where "V4_DESC_LEN = AQ_DESC_LEN + 4 + 4"

lemmas meta_consts = HNSW_STRUCT_MAGIC_def HNSW_STRUCT_VERSION_def HNSW_STRUCT_VERSION_SBQ_def
  HNSW_STRUCT_VERSION_AQ_def HNSW_STRUCT_VERSION_V4_def META_LEN_def AQ_DESC_LEN_def V4_DESC_LEN_def

definition encode_meta :: "hnsw_meta \<Rightarrow> bytes" where
  "encode_meta m =
     (let is_v4 = hm_raw_npages m \<noteq> 0;
          version = (if is_v4 then HNSW_STRUCT_VERSION_V4
            else if hm_aq_m m \<noteq> 0 then HNSW_STRUCT_VERSION_AQ
            else if hm_sbq_bits m \<noteq> 0 then HNSW_STRUCT_VERSION_SBQ else HNSW_STRUCT_VERSION);
          b = to_le HNSW_STRUCT_MAGIC @ to_le version @ [hm_metric_tag m] @ to_le (hm_dim m) @
            to_le (hm_m m) @ to_le (hm_m0 m) @ to_le (hm_entry_blkno m) @ to_le (hm_entry_offno m) @
            to_le (hm_entry_level m) @ to_le (hm_node_count m) @ to_le (hm_elem_first m) @
            to_le (hm_elem_npages m) @ to_le (hm_nbr_first m) @ to_le (hm_nbr_npages m)
      in if hm_aq_m m \<noteq> 0 then
           b @ [hm_aq_m m] @ to_le (of_nat (length (hm_aq_codebook m)) :: u32) @
             to_le (hm_aq_cb_first m) @ to_le (hm_aq_cb_npages m) @
             (if is_v4 then to_le (hm_raw_first m) @ to_le (hm_raw_npages m) else [])
         else if hm_sbq_bits m \<noteq> 0 then
           b @ [hm_sbq_bits m] @ to_le (of_nat (length (hm_codebook m)) :: u32) @ hm_codebook m
         else b)"

datatype meta_error = TruncatedMeta | BadStructMagic | UnsupportedStructVersion u32
  | TruncatedTrailer | CodebookLength nat nat | DescriptorLength nat nat

definition decode_trailer :: "bytes \<Rightarrow> meta_error + u8 \<times> bytes" where
  "decode_trailer b =
     (if length b < META_LEN + 5 then Inl TruncatedTrailer
      else let cb_len = unat (from_le (slice_at (META_LEN + 1) 4 b) :: u32) in
        if length b \<noteq> META_LEN + 5 + cb_len then Inl (CodebookLength cb_len (length b - META_LEN - 5))
        else Inr (b ! META_LEN, drop (META_LEN + 5) b))"

record aq_descriptor =
  ad_aq_m :: u8
  ad_cb_len :: nat
  ad_cb_first :: u32
  ad_cb_npages :: u32
  ad_raw_first :: u32
  ad_raw_npages :: u32

definition decode_aq_descriptor :: "bytes \<Rightarrow> bool \<Rightarrow> meta_error + aq_descriptor" where
  "decode_aq_descriptor b is_v4 =
     (let want = META_LEN + (if is_v4 then V4_DESC_LEN else AQ_DESC_LEN) in
      if length b \<noteq> want then Inl (DescriptorLength want (length b))
      else let (raw_first, raw_npages) =
          (if is_v4 then (from_le (slice_at (META_LEN + 13) 4 b), from_le (slice_at (META_LEN + 17) 4 b)) else (0, 0))
        in Inr \<lparr>ad_aq_m = b ! META_LEN, ad_cb_len = unat (from_le (slice_at (META_LEN + 1) 4 b) :: u32),
             ad_cb_first = from_le (slice_at (META_LEN + 5) 4 b),
             ad_cb_npages = from_le (slice_at (META_LEN + 9) 4 b),
             ad_raw_first = raw_first, ad_raw_npages = raw_npages\<rparr>)"

text \<open>The core fields at their offsets, the trailer slots given.\<close>

definition meta_core :: "bytes \<Rightarrow> u8 \<Rightarrow> bytes \<Rightarrow> u8 \<Rightarrow> u32 \<Rightarrow> u32 \<Rightarrow> u32 \<Rightarrow> u32 \<Rightarrow> hnsw_meta" where
  "meta_core b sbq_bits codebook aq_m aq_cb_first aq_cb_npages raw_first raw_npages =
     \<lparr>hm_metric_tag = b ! 8, hm_dim = from_le (slice_at 9 4 b), hm_m = from_le (slice_at 13 2 b),
      hm_m0 = from_le (slice_at 15 2 b), hm_entry_blkno = from_le (slice_at 17 4 b),
      hm_entry_offno = from_le (slice_at 21 2 b), hm_entry_level = from_le (slice_at 23 2 b),
      hm_node_count = from_le (slice_at 25 4 b), hm_elem_first = from_le (slice_at 29 4 b),
      hm_elem_npages = from_le (slice_at 33 4 b), hm_nbr_first = from_le (slice_at 37 4 b),
      hm_nbr_npages = from_le (slice_at 41 4 b), hm_sbq_bits = sbq_bits, hm_codebook = codebook,
      hm_aq_m = aq_m, hm_aq_codebook = [], hm_aq_cb_first = aq_cb_first, hm_aq_cb_npages = aq_cb_npages,
      hm_raw_first = raw_first, hm_raw_npages = raw_npages\<rparr>"

definition decode_meta :: "bytes \<Rightarrow> meta_error + hnsw_meta" where
  "decode_meta b =
     (if length b < META_LEN then Inl TruncatedMeta
      else if from_le (slice_at 0 4 b) \<noteq> HNSW_STRUCT_MAGIC then Inl BadStructMagic
      else let version = from_le (slice_at 4 4 b) in
        if version \<noteq> HNSW_STRUCT_VERSION \<and> version \<noteq> HNSW_STRUCT_VERSION_SBQ \<and>
           version \<noteq> HNSW_STRUCT_VERSION_AQ \<and> version \<noteq> HNSW_STRUCT_VERSION_V4
        then Inl (UnsupportedStructVersion version)
        else if version = HNSW_STRUCT_VERSION_SBQ then
          bind_r (decode_trailer b) (\<lambda>(bits, cb). Inr (meta_core b bits cb 0 0 0 0 0))
        else if version = HNSW_STRUCT_VERSION_AQ \<or> version = HNSW_STRUCT_VERSION_V4 then
          bind_r (decode_aq_descriptor b (version = HNSW_STRUCT_VERSION_V4))
            (\<lambda>d. Inr (meta_core b 0 [] (ad_aq_m d) (ad_cb_first d) (ad_cb_npages d) (ad_raw_first d) (ad_raw_npages d)))
        else Inr (meta_core b 0 [] 0 0 0 0 0))"

text \<open>What \<open>pack\<close> writes: at most one code kind, the unused slots zero.\<close>

definition meta_wf :: "hnsw_meta \<Rightarrow> bool" where
  "meta_wf m \<longleftrightarrow>
     (hm_raw_npages m \<noteq> 0 \<longrightarrow> hm_aq_m m \<noteq> 0) \<and> (hm_raw_npages m = 0 \<longrightarrow> hm_raw_first m = 0) \<and>
     (hm_aq_m m \<noteq> 0 \<longrightarrow> hm_sbq_bits m = 0) \<and> (hm_sbq_bits m = 0 \<longrightarrow> hm_codebook m = []) \<and>
     (hm_aq_m m = 0 \<longrightarrow> hm_aq_cb_first m = 0 \<and> hm_aq_cb_npages m = 0) \<and> length (hm_codebook m) < 2 ^ 32"

section \<open>Round trip and truncation\<close>

text \<open>Reads of a concatenation of fields.\<close>

lemma slice_at_field: "length f = n \<Longrightarrow> slice_at 0 n (f @ rest) = f"
  by (simp add: slice_at_def)

lemma slice_at_skip: "length f \<le> off \<Longrightarrow> slice_at off n (f @ rest) = slice_at (off - length f) n rest"
  by (simp add: slice_at_def)

lemma slice_at_skip1: "0 < off \<Longrightarrow> slice_at off n (x # rest) = slice_at (off - 1) n rest"
  by (cases off) (simp_all add: slice_at_def)

lemma nth_skip: "length f \<le> i \<Longrightarrow> (f @ rest) ! i = rest ! (i - length f)"
  by (simp add: nth_append)

lemma drop_skip: "length f \<le> i \<Longrightarrow> drop i (f @ rest) = drop (i - length f) rest"
  by simp

lemmas field_reads = slice_at_field slice_at_skip slice_at_skip1 nth_skip drop_skip

text \<open>Records of one size, laid out one after the other.\<close>

lemma slice_at_concat:
  "\<forall>b \<in> set bs. length b = k \<Longrightarrow> i < length bs \<Longrightarrow> slice_at (i * k) k (concat bs @ rest) = bs ! i"
proof (induction bs arbitrary: i)
  case (Cons b bs)
  then show ?case
    by (cases i) (simp_all add: slice_at_field slice_at_skip)
qed simp

lemma length_concat_uniform: "\<forall>b \<in> set bs. length b = k \<Longrightarrow> length (concat bs) = length bs * k"
  by (induction bs) simp_all

lemma meta_roundtrip:
  assumes "meta_wf m"
  shows "decode_meta (encode_meta m) = Inr (m\<lparr>hm_aq_codebook := []\<rparr>)"
proof -
  consider (v4) "hm_raw_npages m \<noteq> 0" | (aq) "hm_raw_npages m = 0" "hm_aq_m m \<noteq> 0"
    | (sbq) "hm_raw_npages m = 0" "hm_aq_m m = 0" "hm_sbq_bits m \<noteq> 0"
    | (v1) "hm_raw_npages m = 0" "hm_aq_m m = 0" "hm_sbq_bits m = 0" by blast
  then show ?thesis
  proof cases
    case v4
    with assms show ?thesis
      by (simp add: meta_wf_def encode_meta_def decode_meta_def decode_aq_descriptor_def meta_core_def
          Let_def meta_consts field_reads)
  next
    case aq
    with assms show ?thesis
      by (simp add: meta_wf_def encode_meta_def decode_meta_def decode_aq_descriptor_def meta_core_def
          Let_def meta_consts field_reads)
  next
    case sbq
    with assms show ?thesis
      by (simp add: meta_wf_def encode_meta_def decode_meta_def decode_trailer_def meta_core_def
          Let_def meta_consts field_reads)
  next
    case v1
    with assms show ?thesis
      by (simp add: meta_wf_def encode_meta_def decode_meta_def meta_core_def Let_def meta_consts field_reads)
  qed
qed

lemma slice_at_take: "off + n \<le> k \<Longrightarrow> slice_at off n (take k b) = slice_at off n b"
  by (simp add: slice_at_def drop_take min_def)

text \<open>The head of an encoded meta and its length.\<close>

definition meta_version :: "hnsw_meta \<Rightarrow> u32" where
  "meta_version m =
     (if hm_raw_npages m \<noteq> 0 then HNSW_STRUCT_VERSION_V4 else if hm_aq_m m \<noteq> 0 then HNSW_STRUCT_VERSION_AQ
      else if hm_sbq_bits m \<noteq> 0 then HNSW_STRUCT_VERSION_SBQ else HNSW_STRUCT_VERSION)"

lemma encode_meta_head:
  "slice_at 0 4 (encode_meta m) = to_le HNSW_STRUCT_MAGIC"
  "slice_at 4 4 (encode_meta m) = to_le (meta_version m)"
  by (simp_all add: encode_meta_def meta_version_def Let_def field_reads)

lemma encode_meta_cb_len:
  "hm_raw_npages m = 0 \<Longrightarrow> hm_aq_m m = 0 \<Longrightarrow> hm_sbq_bits m \<noteq> 0 \<Longrightarrow>
   slice_at (META_LEN + 1) 4 (encode_meta m) = to_le (of_nat (length (hm_codebook m)) :: u32)"
  by (simp add: encode_meta_def Let_def META_LEN_def field_reads)

lemma length_encode_meta:
  assumes "meta_wf m"
  shows "length (encode_meta m) = META_LEN +
    (if hm_raw_npages m \<noteq> 0 then V4_DESC_LEN else if hm_aq_m m \<noteq> 0 then AQ_DESC_LEN
     else if hm_sbq_bits m \<noteq> 0 then 5 + length (hm_codebook m) else 0)"
  using assms by (auto simp: meta_wf_def encode_meta_def Let_def meta_consts)

lemma meta_prefix_rejected:
  assumes "meta_wf m" and "k < length (encode_meta m)"
  shows "\<not> is_ok (decode_meta (take k (encode_meta m)))"
proof (cases "k < META_LEN")
  case True
  then show ?thesis by (simp add: decode_meta_def min_less_iff_disj)
next
  case False
  let ?b = "take k (encode_meta m)"
  note len = length_encode_meta [OF assms(1)]
  from False have "slice_at 0 4 ?b = to_le HNSW_STRUCT_MAGIC" "slice_at 4 4 ?b = to_le (meta_version m)"
    by (simp_all add: slice_at_take META_LEN_def encode_meta_head)
  then have head: "decode_meta ?b =
      (if meta_version m = HNSW_STRUCT_VERSION_SBQ then
         bind_r (decode_trailer ?b) (\<lambda>(bits, cb). Inr (meta_core ?b bits cb 0 0 0 0 0))
       else if meta_version m = HNSW_STRUCT_VERSION_AQ \<or> meta_version m = HNSW_STRUCT_VERSION_V4 then
         bind_r (decode_aq_descriptor ?b (meta_version m = HNSW_STRUCT_VERSION_V4))
           (\<lambda>d. Inr (meta_core ?b 0 [] (ad_aq_m d) (ad_cb_first d) (ad_cb_npages d) (ad_raw_first d) (ad_raw_npages d)))
       else Inr (meta_core ?b 0 [] 0 0 0 0 0))"
    using False assms(2) by (simp add: decode_meta_def Let_def) (simp add: meta_version_def)
  show ?thesis
  proof (cases "hm_raw_npages m \<noteq> 0 \<or> hm_aq_m m \<noteq> 0")
    case True
    then show ?thesis unfolding head using False assms len
      by (cases "hm_raw_npages m = 0")
        (simp_all add: meta_version_def decode_aq_descriptor_def meta_consts min_def)
  next
    case no_aq: False
    show ?thesis
    proof (cases "hm_sbq_bits m = 0")
      case True
      with no_aq False assms(2) len show ?thesis by simp
    next
      case sbq: False
      show ?thesis
      proof (cases "k < META_LEN + 5")
        case True
        then show ?thesis unfolding head using no_aq sbq
          by (simp add: meta_version_def decode_trailer_def meta_consts min_less_iff_disj)
      next
        case long: False
        then have "slice_at (META_LEN + 1) 4 ?b = to_le (of_nat (length (hm_codebook m)) :: u32)"
          using no_aq sbq encode_meta_cb_len [of m] by (subst slice_at_take) simp_all
        then show ?thesis unfolding head using no_aq sbq assms len long
          by (simp add: meta_version_def decode_trailer_def Let_def meta_wf_def HNSW_STRUCT_VERSION_SBQ_def)
      qed
    qed
  qed
qed

section \<open>Properties\<close>

definition sample_meta :: hnsw_meta where
  "sample_meta = \<lparr>hm_metric_tag = 0, hm_dim = 8, hm_m = 16, hm_m0 = 32, hm_entry_blkno = 1, hm_entry_offno = 1,
     hm_entry_level = 0, hm_node_count = 2, hm_elem_first = 1, hm_elem_npages = 1, hm_nbr_first = 2,
     hm_nbr_npages = 1, hm_sbq_bits = 2, hm_codebook = [1, 2, 3], hm_aq_m = 0, hm_aq_codebook = [],
     hm_aq_cb_first = 0, hm_aq_cb_npages = 0, hm_raw_first = 0, hm_raw_npages = 0\<rparr>"

lemma sample_meta_wf: "meta_wf sample_meta"
  by (simp add: meta_wf_def sample_meta_def)

text \<open>C32: The meta item survives a write and a read in each of its four layouts: \<open>decode_meta\<close> returns
  every field \<open>encode_meta\<close> was given, except the AQ codebook, which lives on its own pages, and a
  meta item torn at any byte is refused with an error.\<close>

theorem meta_codec:
  assumes "meta_wf m"
  shows "decode_meta (encode_meta m) = Inr (m\<lparr>hm_aq_codebook := []\<rparr>) \<and>
    (\<forall>k < length (encode_meta m). \<exists>e. decode_meta (take k (encode_meta m)) = Inl e)"
proof (intro conjI allI impI)
  show "decode_meta (encode_meta m) = Inr (m\<lparr>hm_aq_codebook := []\<rparr>)" by (rule meta_roundtrip [OF assms])
  show "\<exists>e. decode_meta (take k (encode_meta m)) = Inl e" if "k < length (encode_meta m)" for k
    using meta_prefix_rejected [OF assms that]
    by (cases "decode_meta (take k (encode_meta m))") simp_all
qed

theorem meta_codec_witness: "decode_meta (encode_meta sample_meta) = Inr sample_meta"
  using meta_codec [OF sample_meta_wf] by (simp add: sample_meta_def)

end
