(* ===== verification/HnswPack.thy ===== *)
theory HnswPack
  imports HnswBuild HnswMeta
begin

text \<open>
  The packer of \<open>am/hnsw_page/pack.rs\<close>: the in-memory graph becomes the meta item and page images
  (each page a list of item blobs), element tuples at analytic addresses, neighbour tuples placed by
  free space, then the codebook and, for v4, the cold raw vectors. The result of \<open>train_codes\<close> (a
  float training procedure) is the parameter \<open>train\<close>. \<open>IndexPanic\<close> is a Rust index panic.
\<close>

datatype code_kind = NoCode | Sbq u8 | Aq nat u8 f32_bits

record code_spec =
  cs_code_len :: nat
  cs_codes :: "bytes list"
  cs_sbq_bits :: u8
  cs_codebook :: bytes
  cs_aq_m :: u8
  cs_aq_codebook :: bytes

record packed =
  pk_meta :: bytes
  pk_pages :: "bytes list list"

datatype pack_error = TupleTooBig nat nat | NoEntry | AqViaPackKind | TrainError string | IndexPanic

definition or_panic :: "'a option \<Rightarrow> pack_error + 'a" where
  "or_panic r = (case r of None \<Rightarrow> Inl IndexPanic | Some x \<Rightarrow> Inr x)"

text \<open>\<open>train_codes\<close>: without codes nothing is trained; the quantizers are the parameter \<open>quant\<close>.\<close>

definition no_codes :: code_spec where
  "no_codes = \<lparr>cs_code_len = 0, cs_codes = [], cs_sbq_bits = 0, cs_codebook = [], cs_aq_m = 0, cs_aq_codebook = []\<rparr>"

definition train_codes :: "(hnsw_index \<Rightarrow> code_kind \<Rightarrow> pack_error + code_spec) \<Rightarrow> hnsw_index \<Rightarrow> code_kind \<Rightarrow>
    pack_error + code_spec" where
  "train_codes quant x kind = (case kind of NoCode \<Rightarrow> Inr no_codes | _ \<Rightarrow> quant x kind)"

definition div_ceil :: "nat \<Rightarrow> nat \<Rightarrow> nat" where
  "div_ceil n k = (n + k - 1) div k"

text \<open>\<open>slice::chunks\<close>, for a positive chunk size.\<close>

function chunks :: "nat \<Rightarrow> 'a list \<Rightarrow> 'a list list" where
  "chunks k xs = (if xs = [] \<or> k = 0 then [] else take k xs # chunks k (drop k xs))"
  by pat_completeness auto
termination by (relation "measure (\<lambda>(k, xs). length xs)") auto

declare chunks.simps [simp del]

fun traverse :: "('a \<Rightarrow> 'b option) \<Rightarrow> 'a list \<Rightarrow> 'b list option" where
  "traverse f [] = Some []"
| "traverse f (x # xs) = Option.bind (f x) (\<lambda>y. Option.bind (traverse f xs) (\<lambda>ys. Some (y # ys)))"

definition analytic_addrs :: "nat \<Rightarrow> nat \<Rightarrow> nat \<Rightarrow> addr list" where
  "analytic_addrs first per_page n = map (\<lambda>i. (of_nat (first + i div per_page), of_nat (1 + i mod per_page))) [0..<n]"

definition CB_CHUNK :: nat where "CB_CHUNK = 8000"

definition codebook_pages :: "bytes \<Rightarrow> bytes list list" where
  "codebook_pages codebook = (if codebook = [] then [] else map (\<lambda>chunk. [chunk]) (chunks CB_CHUNK codebook))"

section \<open>Neighbour tuples by free space\<close>

record nbr_state =
  np_pages :: "bytes list list"
  np_used :: nat
  np_addr :: "addr list"

definition nbr_pack_node :: "hnsw_index \<Rightarrow> addr list \<Rightarrow> nat \<Rightarrow> nat \<Rightarrow> nat \<Rightarrow> nat \<Rightarrow> nbr_state \<Rightarrow> pack_error + nbr_state" where
  "nbr_pack_node x elem_addr m m0 nbr_first node s =
     (let level = node_level x node; size = nbr_size level m m0; cost = ITEMID + maxalign size in
      if cost > USABLE then Inl (TupleTooBig level size)
      else
        let s = (if np_used s + cost > USABLE \<and> last (np_pages s) \<noteq> []
                 then s\<lparr>np_pages := np_pages s @ [[]], np_used := 0\<rparr> else s);
            blkno = of_nat (nbr_first + length (np_pages s) - 1);
            page = last (np_pages s);
            offno = of_nat (length page + 1)
        in bind_r (or_panic (encode_neighbors x node elem_addr m m0)) (\<lambda>item.
           Inr (s\<lparr>np_pages := butlast (np_pages s) @ [page @ [item]], np_used := np_used s + cost,
                  np_addr := np_addr s @ [(blkno, offno)]\<rparr>)))"

fun nbr_pack :: "hnsw_index \<Rightarrow> addr list \<Rightarrow> nat \<Rightarrow> nat \<Rightarrow> nat \<Rightarrow> nat list \<Rightarrow> nbr_state \<Rightarrow> pack_error + nbr_state" where
  "nbr_pack x elem_addr m m0 nbr_first [] s = Inr s"
| "nbr_pack x elem_addr m m0 nbr_first (node # nodes) s =
     bind_r (nbr_pack_node x elem_addr m m0 nbr_first node s) (nbr_pack x elem_addr m m0 nbr_first nodes)"

definition nbr_start :: nbr_state where
  "nbr_start = \<lparr>np_pages = [[]], np_used = 0, np_addr = []\<rparr>"

section \<open>The packers\<close>

definition empty_meta :: "hnsw_index \<Rightarrow> nat \<Rightarrow> hnsw_meta" where
  "empty_meta x base =
     \<lparr>hm_metric_tag = metric_tag (hx_metric x), hm_dim = of_nat (hnsw_dim x), hm_m = of_nat (hx_m x),
      hm_m0 = of_nat (hx_m0 x), hm_entry_blkno = 0, hm_entry_offno = 0, hm_entry_level = - 1,
      hm_node_count = 0, hm_elem_first = of_nat base, hm_elem_npages = 0, hm_nbr_first = of_nat base,
      hm_nbr_npages = 0, hm_sbq_bits = 0, hm_codebook = [], hm_aq_m = 0, hm_aq_codebook = [],
      hm_aq_cb_first = 0, hm_aq_cb_npages = 0, hm_raw_first = 0, hm_raw_npages = 0\<rparr>"

definition pack_kind :: "(hnsw_index \<Rightarrow> code_kind \<Rightarrow> pack_error + code_spec) \<Rightarrow> hnsw_index \<Rightarrow> nat \<Rightarrow> code_kind \<Rightarrow>
    pack_error + packed" where
  "pack_kind train x base kind =
     (let m = hx_m x; m0 = hx_m0 x; n = node_count x; dim = hnsw_dim x in
      if n = 0 then Inr \<lparr>pk_meta = encode_meta (empty_meta x base), pk_pages = []\<rparr>
      else if (case kind of Aq _ _ _ \<Rightarrow> True | _ \<Rightarrow> False) then Inl AqViaPackKind
      else bind_r (train x kind) (\<lambda>spec.
        let ipp = elems_per_page dim (cs_code_len spec);
            elem_npages = div_ceil n ipp;
            elem_addr = analytic_addrs base ipp n;
            nbr_first = base + elem_npages
        in bind_r (nbr_pack x elem_addr m m0 nbr_first [0..<n] nbr_start) (\<lambda>s.
        let nbr_npages = length (np_pages s) in
        bind_r (or_panic (traverse (traverse (\<lambda>node.
            if cs_code_len spec > 0 then
              Option.bind (idx_get (cs_codes spec) node) (encode_element x node (np_addr s ! node) dim)
            else encode_element x node (np_addr s ! node) dim [])) (chunks ipp [0..<n]))) (\<lambda>elem_pages.
        let cb_first = nbr_first + nbr_npages;
            cb_pages = codebook_pages (cs_aq_codebook spec);
            aq_cb_npages = length cb_pages
        in case hx_entry x of None \<Rightarrow> Inl NoEntry | Some entry_node \<Rightarrow>
        bind_r (or_panic (idx_get elem_addr entry_node)) (\<lambda>(eb, eo).
        Inr \<lparr>pk_meta = encode_meta
             \<lparr>hm_metric_tag = metric_tag (hx_metric x), hm_dim = of_nat dim, hm_m = of_nat m,
              hm_m0 = of_nat m0, hm_entry_blkno = eb, hm_entry_offno = eo,
              hm_entry_level = of_nat (node_level x entry_node), hm_node_count = of_nat n,
              hm_elem_first = of_nat base, hm_elem_npages = of_nat elem_npages,
              hm_nbr_first = of_nat nbr_first, hm_nbr_npages = of_nat nbr_npages,
              hm_sbq_bits = cs_sbq_bits spec, hm_codebook = cs_codebook spec, hm_aq_m = cs_aq_m spec,
              hm_aq_codebook = cs_aq_codebook spec,
              hm_aq_cb_first = (if cs_aq_m spec \<noteq> 0 then of_nat cb_first else 0),
              hm_aq_cb_npages = (if cs_aq_m spec \<noteq> 0 then of_nat aq_cb_npages else 0),
              hm_raw_first = 0, hm_raw_npages = 0\<rparr>,
             pk_pages = elem_pages @ np_pages s @ cb_pages\<rparr>)))))"

definition pack_v4 :: "(hnsw_index \<Rightarrow> code_kind \<Rightarrow> pack_error + code_spec) \<Rightarrow> hnsw_index \<Rightarrow> nat \<Rightarrow> code_kind \<Rightarrow>
    pack_error + packed" where
  "pack_v4 train x base kind =
     (let m = hx_m x; m0 = hx_m0 x; n = node_count x; dim = hnsw_dim x in
      bind_r (train x kind) (\<lambda>spec.
        let ipp = elems_per_page_v4 (cs_code_len spec);
            elem_npages = div_ceil n ipp;
            elem_addr = analytic_addrs base ipp n;
            nbr_first = base + elem_npages
        in bind_r (nbr_pack x elem_addr m m0 nbr_first [0..<n] nbr_start) (\<lambda>s.
        let nbr_npages = length (np_pages s);
            cb_first = nbr_first + nbr_npages;
            cb_pages = codebook_pages (cs_aq_codebook spec);
            aq_cb_npages = length cb_pages;
            raw_first = cb_first + aq_cb_npages;
            rpp = raws_per_page dim;
            raw_npages = div_ceil n rpp;
            raw_addr = analytic_addrs raw_first rpp n
        in bind_r (or_panic (traverse (traverse (\<lambda>node. encode_raw_vec (node_vector x node))) (chunks rpp [0..<n])))
             (\<lambda>raw_pages.
        bind_r (or_panic (traverse (traverse (\<lambda>node.
            Option.bind (idx_get (cs_codes spec) node) (\<lambda>code.
              Some (encode_element_v4 x node (np_addr s ! node) (raw_addr ! node) dim code))))
            (chunks ipp [0..<n]))) (\<lambda>elem_pages.
        case hx_entry x of None \<Rightarrow> Inl NoEntry | Some entry_node \<Rightarrow>
        bind_r (or_panic (idx_get elem_addr entry_node)) (\<lambda>(eb, eo).
        Inr \<lparr>pk_meta = encode_meta
             \<lparr>hm_metric_tag = metric_tag (hx_metric x), hm_dim = of_nat dim, hm_m = of_nat m,
              hm_m0 = of_nat m0, hm_entry_blkno = eb, hm_entry_offno = eo,
              hm_entry_level = of_nat (node_level x entry_node), hm_node_count = of_nat n,
              hm_elem_first = of_nat base, hm_elem_npages = of_nat elem_npages,
              hm_nbr_first = of_nat nbr_first, hm_nbr_npages = of_nat nbr_npages,
              hm_sbq_bits = 0, hm_codebook = [], hm_aq_m = cs_aq_m spec,
              hm_aq_codebook = cs_aq_codebook spec, hm_aq_cb_first = of_nat cb_first,
              hm_aq_cb_npages = of_nat aq_cb_npages, hm_raw_first = of_nat raw_first,
              hm_raw_npages = of_nat raw_npages\<rparr>,
             pk_pages = elem_pages @ np_pages s @ cb_pages @ raw_pages\<rparr>))))))"

definition pack_aq :: "(hnsw_index \<Rightarrow> code_kind \<Rightarrow> pack_error + code_spec) \<Rightarrow> hnsw_index \<Rightarrow> nat \<Rightarrow> nat \<Rightarrow> u8 \<Rightarrow> f32_bits \<Rightarrow>
    pack_error + packed" where
  "pack_aq train x base m bits aq_threshold =
     (if m = 0 then pack_kind train x base NoCode else pack_v4 train x base (Aq m bits aq_threshold))"

definition pack_at :: "(hnsw_index \<Rightarrow> code_kind \<Rightarrow> pack_error + code_spec) \<Rightarrow> hnsw_index \<Rightarrow> nat \<Rightarrow> u8 \<Rightarrow> pack_error + packed" where
  "pack_at train x base sbq_bits =
     (let kind = (if sbq_bits = 0 then NoCode else Sbq sbq_bits) in pack_kind train x base kind)"

text \<open>The initial build writes a contiguous generation right after the meta block.\<close>

definition pack :: "(hnsw_index \<Rightarrow> code_kind \<Rightarrow> pack_error + code_spec) \<Rightarrow> hnsw_index \<Rightarrow> pack_error + packed" where
  "pack train x = pack_at train x 1 0"

definition pack_sbq :: "(hnsw_index \<Rightarrow> code_kind \<Rightarrow> pack_error + code_spec) \<Rightarrow> hnsw_index \<Rightarrow> u8 \<Rightarrow> pack_error + packed" where
  "pack_sbq train x sbq_bits = pack_at train x 1 sbq_bits"

section \<open>Chunks, traversals and analytic addresses\<close>

lemma length_chunks: "0 < k \<Longrightarrow> length (chunks k xs) = div_ceil (length xs) k"
proof (induction k xs rule: chunks.induct)
  case (1 k xs)
  show ?case
  proof (cases "xs = []")
    case True
    with "1.prems" show ?thesis by (simp add: chunks.simps div_ceil_def)
  next
    case False
    then have n: "0 < length xs" by simp
    have "length (chunks k xs) = Suc (div_ceil (length xs - k) k)"
      using False 1 by (subst chunks.simps) simp
    also have "\<dots> = div_ceil (length xs) k"
    proof (cases "k \<le> length xs")
      case True
      then have "length xs + k - 1 = (length xs - k + k - 1) + k" using "1.prems" by simp
      then show ?thesis using "1.prems" unfolding div_ceil_def by (metis Suc_eq_plus1 div_add_self2 less_not_refl3)
    next
      case small: False
      have "(length xs + k - 1) div k = 1" by (rule div_nat_eqI) (use small n "1.prems" in \<open>simp_all del: length_greater_0_conv\<close>)
      moreover have "(k - 1) div k = 0" using "1.prems" by simp
      ultimately have "(length xs + k - 1) div k = 1" "(k - 1) div k = 0" .
      with small show ?thesis by (simp add: div_ceil_def)
    qed
    finally show ?thesis .
  qed
qed

lemma nth_chunks:
  "0 < k \<Longrightarrow> i < length xs \<Longrightarrow> i div k < length (chunks k xs) \<and>
   i mod k < length (chunks k xs ! (i div k)) \<and> chunks k xs ! (i div k) ! (i mod k) = xs ! i"
proof (induction k xs arbitrary: i rule: chunks.induct)
  case (1 k xs)
  have ne: "xs \<noteq> []" "k \<noteq> 0" using "1.prems" by auto
  then have c: "chunks k xs = take k xs # chunks k (drop k xs)" by (subst chunks.simps) simp
  show ?case
  proof (cases "i < k")
    case True
    with "1.prems" show ?thesis by (simp add: c)
  next
    case False
    then have d: "i div k = Suc ((i - k) div k)" "i mod k = (i - k) mod k"
      using "1.prems" by (simp_all add: le_div_geq le_mod_geq)
    from "1.IH" [of "i - k"] ne "1.prems" False show ?thesis by (simp add: c d)
  qed
qed

lemma nth_chunk: "0 < k \<Longrightarrow> p < length (chunks k xs) \<Longrightarrow> chunks k xs ! p = take k (drop (p * k) xs)"
proof (induction k xs arbitrary: p rule: chunks.induct)
  case (1 k xs)
  show ?case
  proof (cases "xs = []")
    case True
    with "1.prems" show ?thesis by (simp add: chunks.simps)
  next
    case False
    then have c: "chunks k xs = take k xs # chunks k (drop k xs)" using "1.prems" by (subst chunks.simps) simp
    show ?thesis
    proof (cases p)
      case (Suc q)
      then show ?thesis using "1.IH" [of q] "1.prems" False c by (simp add: add.commute)
    qed (simp add: c)
  qed
qed

lemma in_chunks: "c \<in> set (chunks k xs) \<Longrightarrow> set c \<subseteq> set xs \<and> length c \<le> k"
proof (induction k xs rule: chunks.induct)
  case (1 k xs)
  show ?case
  proof (cases "xs = [] \<or> k = 0")
    case True
    with "1.prems" show ?thesis by (simp add: chunks.simps)
  next
    case False
    then have c: "chunks k xs = take k xs # chunks k (drop k xs)" by (subst chunks.simps) simp
    from "1.prems" 1 False show ?thesis
      unfolding c by (auto dest: in_set_takeD in_set_dropD)
  qed
qed

lemma concat_chunks: "0 < k \<Longrightarrow> concat (chunks k xs) = xs"
proof (induction k xs rule: chunks.induct)
  case (1 k xs)
  show ?case
  proof (cases "xs = []")
    case True
    then show ?thesis by (simp add: chunks.simps)
  next
    case False
    with 1 show ?thesis by (subst chunks.simps) simp
  qed
qed

lemma traverse_total: "\<forall>x \<in> set xs. f x = Some (g x) \<Longrightarrow> traverse f xs = Some (map g xs)"
  by (induction xs) simp_all

lemma traverse_chunks:
  "\<forall>x \<in> set xs. f x = Some (g x) \<Longrightarrow>
   traverse (traverse f) (chunks k xs) = Some (map (map g) (chunks k xs))"
  by (intro traverse_total ballI traverse_total) (auto dest: in_chunks)

section \<open>Reading the images back\<close>

text \<open>What a page read of the tuple at an address sees, block \<open>base\<close> being the first image.\<close>

definition fetch :: "nat \<Rightarrow> bytes list list \<Rightarrow> addr \<Rightarrow> bytes option" where
  "fetch base pages a =
     (let p = unat (fst a) - base; k = unat (snd a) - 1 in
      if base \<le> unat (fst a) \<and> p < length pages \<and> 1 \<le> unat (snd a) \<and> k < length (pages ! p)
      then Some (pages ! p ! k) else None)"

lemma fetch_eq:
  assumes "p < length pages" and "k < length (pages ! p)" and "base + p < 2 ^ 32" and "Suc k < 2 ^ 16"
  shows "fetch base pages (of_nat (base + p), of_nat (Suc k)) = Some (pages ! p ! k)"
proof -
  have "unat (of_nat (base + p) :: u32) = base + p" "unat (of_nat (Suc k) :: u16) = Suc k"
    by (rule unat_of_nat_u32 unat_of_nat_u16, rule assms)+
  with assms(1,2) show ?thesis by (simp add: fetch_def Let_def del: of_nat_add of_nat_Suc)
qed

text \<open>The space the items of a page take, line pointers and alignment included.\<close>

definition page_cost :: "bytes list \<Rightarrow> nat" where
  "page_cost page = sum_list (map (\<lambda>item. ITEMID + maxalign (length item)) page)"

lemma page_cost_simps [simp]:
  "page_cost [] = 0" "page_cost (page @ [item]) = page_cost page + (ITEMID + maxalign (length item))"
  by (simp_all add: page_cost_def)

lemma length_page_cost: "ITEMID * length page \<le> page_cost page"
  by (induction page) (simp_all add: page_cost_def)

lemma page_items_bound: "page_cost page \<le> USABLE \<Longrightarrow> length page < 2 ^ 16 - 1"
  using length_page_cost [of page] by (simp add: layout_defs)

lemma page_cost_uniform: "\<forall>item \<in> set page. length item = c \<Longrightarrow> page_cost page = length page * (ITEMID + maxalign c)"
  by (induction page) (simp_all add: page_cost_def)

text \<open>The invariant of the free-space packing after the first \<open>i\<close> nodes.\<close>

definition nbr_inv :: "hnsw_index \<Rightarrow> addr list \<Rightarrow> nat \<Rightarrow> nat \<Rightarrow> nat \<Rightarrow> nat \<Rightarrow> nbr_state \<Rightarrow> bool" where
  "nbr_inv x ea m m0 nbr_first i s \<longleftrightarrow>
     np_pages s \<noteq> [] \<and> (i = 0 \<longrightarrow> np_pages s = [[]]) \<and> (i > 0 \<longrightarrow> length (np_pages s) \<le> i) \<and>
     length (np_addr s) = i \<and>
     np_used s = page_cost (last (np_pages s)) \<and> (\<forall>page \<in> set (np_pages s). page_cost page \<le> USABLE) \<and>
     (\<forall>j < i. \<exists>p k. np_addr s ! j = (of_nat (nbr_first + p), of_nat (Suc k)) \<and> p < length (np_pages s) \<and>
        k < length (np_pages s ! p) \<and> encode_neighbors x j ea m m0 = Some (np_pages s ! p ! k))"

lemma nth_push_last:
  assumes "P \<noteq> []" and "p < length P" and "k < length (P ! p)"
  shows "k < length ((butlast P @ [last P @ [y]]) ! p) \<and> (butlast P @ [last P @ [y]]) ! p ! k = P ! p ! k"
proof (cases "p < length P - 1")
  case True
  with assms show ?thesis by (simp add: nth_append nth_butlast)
next
  case False
  with assms have "p = length P - 1" by simp
  with assms show ?thesis by (simp add: nth_append last_conv_nth)
qed

lemma nbr_pack_node_inv:
  assumes inv: "nbr_inv x ea m m0 F i s"
    and item: "encode_neighbors x i ea m m0 = Some item" "length item = nbr_size (node_level x i) m m0"
    and fits: "ITEMID + maxalign (nbr_size (node_level x i) m m0) \<le> USABLE"
  shows "\<exists>s'. nbr_pack_node x ea m m0 F i s = Inr s' \<and> nbr_inv x ea m m0 F (Suc i) s'"
proof -
  let ?cost = "ITEMID + maxalign (nbr_size (node_level x i) m m0)"
  let ?new = "np_used s + ?cost > USABLE \<and> last (np_pages s) \<noteq> []"
  define P where "P = (if ?new then np_pages s @ [[]] else np_pages s)"
  define used where "used = (if ?new then 0 else np_used s)"
  define P' where "P' = butlast P @ [last P @ [item]]"
  define a where "a = (of_nat (F + (length P - 1)) :: u32, of_nat (Suc (length (last P))) :: u16)"
  define s' where "s' = \<lparr>np_pages = P', np_used = used + ?cost, np_addr = np_addr s @ [a]\<rparr>"
  have ne: "np_pages s \<noteq> []" using inv by (simp add: nbr_inv_def)
  then have P: "P \<noteq> []" "length P' = length P" by (auto simp: P_def P'_def)
  define s1 where "s1 = (if ?new then s\<lparr>np_pages := np_pages s @ [[]], np_used := 0\<rparr> else s)"
  have s1: "np_pages s1 = P" "np_used s1 = used" "np_addr s1 = np_addr s"
    by (simp_all add: s1_def P_def used_def)
  have "nbr_pack_node x ea m m0 F i s =
      Inr (s1\<lparr>np_pages := P', np_used := used + ?cost, np_addr := np_addr s @
        [(of_nat (F + length P - 1), of_nat (length (last P) + 1))]\<rparr>)"
    using fits item(1) unfolding nbr_pack_node_def Let_def P'_def
    by (simp add: or_panic_def s1 flip: s1_def)
  moreover have "F + length P - 1 = F + (length P - 1)" using P(1) by (cases P) simp_all
  ultimately have step: "nbr_pack_node x ea m m0 F i s = Inr s'"
    by (cases s1) (simp add: s'_def a_def)
  have used: "used = page_cost (last P)" using inv by (simp add: used_def P_def nbr_inv_def)
  have pages_P: "\<forall>page \<in> set P. page_cost page \<le> USABLE" using inv by (auto simp: P_def nbr_inv_def)
  have room: "used + ?cost \<le> USABLE"
  proof (cases ?new)
    case False
    then have "np_used s + ?cost \<le> USABLE \<or> last (np_pages s) = []" by auto
    with inv fits False show ?thesis by (auto simp: used_def nbr_inv_def)
  qed (use fits in \<open>simp add: used_def\<close>)
  have old: "p < length P \<and> k < length (P ! p) \<and> P ! p ! k = np_pages s ! p ! k"
    if "p < length (np_pages s)" "k < length (np_pages s ! p)" for p k
    using that by (simp add: P_def nth_append)
  have count: "length P \<le> Suc i"
    using inv by (cases "i = 0") (auto simp: P_def nbr_inv_def)
  have new: "P' ! (length P - 1) = last P @ [item]" "length P - 1 < length P'"
    using P by (simp_all add: P'_def nth_append)
  have addrs: "\<exists>p k. np_addr s' ! j = (of_nat (F + p), of_nat (Suc k)) \<and> p < length P' \<and>
      k < length (P' ! p) \<and> encode_neighbors x j ea m m0 = Some (P' ! p ! k)" if j: "j < Suc i" for j
  proof (cases "j = i")
    case True
    have "np_addr s' ! j = a" using inv True by (simp add: s'_def nbr_inv_def nth_append)
    then show ?thesis using new item(1) True
      by (intro exI [of _ "length P - 1"] exI [of _ "length (last P)"]) (simp add: a_def)
  next
    case False
    with j have "j < i" by simp
    with inv obtain p k where pk: "np_addr s ! j = (of_nat (F + p), of_nat (Suc k))"
      "p < length (np_pages s)" "k < length (np_pages s ! p)"
      "encode_neighbors x j ea m m0 = Some (np_pages s ! p ! k)"
      unfolding nbr_inv_def by blast
    note o = old [OF pk(2,3)]
    have "k < length (P' ! p) \<and> P' ! p ! k = np_pages s ! p ! k"
      using nth_push_last [OF P(1), of p k item] o by (simp add: P'_def)
    moreover have "np_addr s' ! j = np_addr s ! j" using inv \<open>j < i\<close> by (simp add: s'_def nbr_inv_def nth_append)
    ultimately show ?thesis using pk o P(2) by (intro exI [of _ p] exI [of _ k]) simp
  qed
  have costs: "\<forall>page \<in> set P'. page_cost page \<le> USABLE"
    using pages_P room used item(2) by (auto simp: P'_def dest: in_set_butlastD)
  have "nbr_inv x ea m m0 F (Suc i) s'"
    unfolding nbr_inv_def
  proof (intro conjI)
    show "\<forall>j < Suc i. \<exists>p k. np_addr s' ! j = (of_nat (F + p), of_nat (Suc k)) \<and> p < length (np_pages s') \<and>
        k < length (np_pages s' ! p) \<and> encode_neighbors x j ea m m0 = Some (np_pages s' ! p ! k)"
      using addrs by (simp add: s'_def)
    show "length (np_addr s') = Suc i" using inv by (simp add: s'_def nbr_inv_def)
    show "np_used s' = page_cost (last (np_pages s'))" using used item(2) by (simp add: s'_def P'_def)
  qed (use count costs P in \<open>simp_all add: s'_def P'_def\<close>)
  with step show ?thesis by blast
qed

lemma nbr_pack_inv:
  assumes "\<And>i. i < n \<Longrightarrow> \<exists>item. encode_neighbors x i ea m m0 = Some item \<and> length item = nbr_size (node_level x i) m m0"
    and "\<And>i. i < n \<Longrightarrow> ITEMID + maxalign (nbr_size (node_level x i) m m0) \<le> USABLE"
  shows "nbr_inv x ea m m0 F i s \<Longrightarrow> i \<le> n \<Longrightarrow>
    \<exists>s'. nbr_pack x ea m m0 F [i..<n] s = Inr s' \<and> nbr_inv x ea m m0 F n s'"
proof (induction "n - i" arbitrary: i s)
  case 0
  then show ?case by simp
next
  case (Suc d)
  then have i: "i < n" "d = n - Suc i" by simp_all
  obtain item where "encode_neighbors x i ea m m0 = Some item" "length item = nbr_size (node_level x i) m m0"
    using assms(1) [OF i(1)] by blast
  from nbr_pack_node_inv [OF Suc.prems(1) this assms(2) [OF i(1)]] obtain s1 where
    s1: "nbr_pack_node x ea m m0 F i s = Inr s1" "nbr_inv x ea m m0 F (Suc i) s1" by blast
  from Suc.hyps(1) [OF i(2) s1(2)] i(1) s1(1) show ?case by (simp add: upt_conv_Cons)
qed

lemma nbr_start_inv: "nbr_inv x ea m m0 F 0 nbr_start"
  by (simp add: nbr_inv_def nbr_start_def)

lemma nth_analytic:
  "i < n \<Longrightarrow> analytic_addrs first k n ! i = (of_nat (first + i div k), of_nat (Suc (i mod k)))"
  by (simp add: analytic_addrs_def)

lemma length_analytic [simp]: "length (analytic_addrs first k n) = n"
  by (simp add: analytic_addrs_def)

lemma analytic_nonzero:
  assumes "i < n" and "0 < k" and "k < 2 ^ 16"
  shows "analytic_addrs first k n ! i \<noteq> (0, 0)"
proof -
  have "i mod k < k" using assms(2) by simp
  then have "unat (of_nat (Suc (i mod k)) :: u16) = Suc (i mod k)"
    using assms(3) by (intro unat_of_nat_u16) linarith
  then have "(of_nat (Suc (i mod k)) :: u16) \<noteq> 0" by (metis unsigned_0 nat.distinct(1))
  then show ?thesis by (simp add: nth_analytic [OF assms(1)] del: of_nat_Suc)
qed

lemma fetch_analytic:
  assumes "i < n" and "0 < k" and "k < 2 ^ 16" and "base + length pre + div_ceil n k \<le> 2 ^ 32"
  shows "fetch base (pre @ map (map g) (chunks k [0..<n]) @ post) (analytic_addrs (base + length pre) k n ! i) = Some (g i)"
proof -
  let ?c = "chunks k [0..<n]"
  let ?P = "pre @ map (map g) ?c @ post" and ?p = "length pre + i div k"
  have c: "i div k < length ?c" "i mod k < length (?c ! (i div k))" "?c ! (i div k) ! (i mod k) = i"
    using nth_chunks [OF assms(2), of i "[0..<n]"] assms(1) by simp_all
  have "i mod k < k" using assms(2) by simp
  then have off: "Suc (i mod k) < 2 ^ 16" using assms(3) by linarith
  have "?P ! ?p = map g (?c ! (i div k))" using c(1) by (simp add: nth_append)
  moreover have "?p < length ?P" using c(1) by simp
  moreover have "base + ?p < 2 ^ 32"
    using c(1) assms(4) by (simp add: length_chunks [OF assms(2)])
  ultimately have "fetch base ?P (of_nat (base + ?p), of_nat (Suc (i mod k))) = Some (?P ! ?p ! (i mod k))"
    using c(2) off by (intro fetch_eq) simp_all
  moreover have "?P ! ?p ! (i mod k) = g i"
    using \<open>?P ! ?p = _\<close> c by simp
  ultimately show ?thesis by (simp add: nth_analytic [OF assms(1)] add.assoc)
qed

lemma fetch_nbr:
  assumes "nbr_inv x ea m m0 (base + length pre) n s" and "i < n"
    and "base + length pre + length (np_pages s) \<le> 2 ^ 32"
  shows "\<exists>nbrs. encode_neighbors x i ea m m0 = Some nbrs \<and> fetch base (pre @ np_pages s @ post) (np_addr s ! i) = Some nbrs"
proof -
  from assms(1,2) obtain p k where pk: "np_addr s ! i = (of_nat (base + length pre + p), of_nat (Suc k))"
    "p < length (np_pages s)" "k < length (np_pages s ! p)"
    "encode_neighbors x i ea m m0 = Some (np_pages s ! p ! k)"
    unfolding nbr_inv_def by blast
  have "page_cost (np_pages s ! p) \<le> USABLE" using assms(1) pk(2) by (simp add: nbr_inv_def)
  then have k: "Suc k < 2 ^ 16" using page_items_bound [of "np_pages s ! p"] pk(3) by simp
  let ?P = "pre @ np_pages s @ post"
  have P: "?P ! (length pre + p) = np_pages s ! p" using pk(2) by (simp add: nth_append)
  have "fetch base ?P (of_nat (base + (length pre + p)), of_nat (Suc k)) = Some (?P ! (length pre + p) ! k)"
    using pk(2,3) P k assms(3) by (intro fetch_eq) simp_all
  with pk(1,4) P show ?thesis by (simp add: add.assoc)
qed

lemma analytic_page_cost:
  assumes "ITEMID + maxalign c \<le> USABLE" and "\<And>i. i < n \<Longrightarrow> length (g i) = c"
    and "k = max (USABLE div (ITEMID + maxalign c)) 1"
    and "page \<in> set (map (map g) (chunks k [0..<n]))"
  shows "page_cost page \<le> USABLE"
proof -
  from assms(4) obtain ch where ch: "ch \<in> set (chunks k [0..<n])" "page = map g ch" by auto
  from in_chunks [OF ch(1)] have "set ch \<subseteq> {0..<n}" "length ch \<le> k" by simp_all
  then have "page_cost page = length ch * (ITEMID + maxalign c)"
    using assms(2) by (subst page_cost_uniform [of _ c]) (auto simp: ch(2))
  also have "\<dots> \<le> k * (ITEMID + maxalign c)" using \<open>length ch \<le> k\<close> by (rule mult_le_mono1)
  also have "\<dots> \<le> USABLE" using assms(1,3) div_times_less_eq_dividend [of USABLE "ITEMID + maxalign c"]
    by (auto simp: max_def)
  finally show ?thesis .
qed

lemma per_page_bounds: "0 < max (USABLE div (ITEMID + c)) 1" "max (USABLE div (ITEMID + c)) 1 < (2 ^ 16 :: nat)"
proof -
  have "USABLE div (ITEMID + c) \<le> USABLE" by (rule div_le_dividend)
  moreover have "USABLE < 2 ^ 16" by (simp add: layout_defs)
  ultimately have "USABLE div (ITEMID + c) < 2 ^ 16" by (rule le_less_trans)
  then show "max (USABLE div (ITEMID + c)) 1 < (2 ^ 16 :: nat)" by simp
qed simp

lemma div_ceil_le: "0 < k \<Longrightarrow> div_ceil n k \<le> n"
proof -
  assume k: "0 < k"
  have "n + k - 1 \<le> n * k + (k - 1)" using k by (cases k) auto
  then have "div_ceil n k \<le> (n * k + (k - 1)) div k" unfolding div_ceil_def by (rule div_le_mono)
  also have "\<dots> = n" by (subst div_mult_self3) (use k in simp_all)
  finally show ?thesis .
qed

section \<open>The images represent the graph\<close>

definition uniform_dim :: "hnsw_index \<Rightarrow> bool" where
  "uniform_dim x \<longleftrightarrow> (\<forall>v \<in> set (hx_vectors x). length v = hnsw_dim x) \<and> hnsw_dim x < 2 ^ 16"

definition levels_fit :: "hnsw_index \<Rightarrow> bool" where
  "levels_fit x \<longleftrightarrow> (\<forall>l \<in> set (hx_levels x). ITEMID + maxalign (nbr_size l (hx_m x) (hx_m0 x)) \<le> USABLE)"

definition spec_ok :: "hnsw_index \<Rightarrow> code_spec \<Rightarrow> bool" where
  "spec_ok x spec \<longleftrightarrow> (cs_sbq_bits spec = 0 \<longrightarrow> cs_codebook spec = []) \<and>
     cs_aq_m spec = 0 \<and> cs_aq_codebook spec = [] \<and> length (cs_codebook spec) < 2 ^ 32 \<and>
     (cs_code_len spec > 0 \<longrightarrow> length (cs_codes spec) = node_count x \<and>
        (\<forall>c \<in> set (cs_codes spec). length c = cs_code_len spec))"

text \<open>The neighbour tuple of a node holds its adjacency, as addresses of element tuples.\<close>

definition nbr_tuple_ok :: "hnsw_index \<Rightarrow> addr list \<Rightarrow> nat \<Rightarrow> bytes \<Rightarrow> bool" where
  "nbr_tuple_ok x ea i b \<longleftrightarrow> (\<forall>lc \<le> hx_levels x ! i.
     decode_neighbors b (hx_levels x ! i) lc (hx_m x) (hx_m0 x) = Inr (map ((!) ea) (hx_neighbors x ! i ! lc)))"

definition represents_node :: "hnsw_index \<Rightarrow> addr list \<Rightarrow> nat \<Rightarrow> bytes list list \<Rightarrow> nat \<Rightarrow> bool" where
  "represents_node x ea base pages i \<longleftrightarrow>
     (\<exists>b v nbrs. fetch base pages (ea ! i) = Some b \<and> decode_element b = Inr v \<and>
        ev_level v = of_nat (hx_levels x ! i) \<and> ev_tid v = hx_ids x ! i \<and>
        ev_vec v = f32s_bytes (hx_vectors x ! i) \<and> \<not> ev_deleted v \<and>
        fetch base pages (ev_nbr_addr v) = Some nbrs \<and> nbr_tuple_ok x ea i nbrs)"

text \<open>The element range the meta names holds one live element per node, in node order.\<close>

definition element_of :: "hnsw_index \<Rightarrow> nat \<Rightarrow> nat \<Rightarrow> nat \<Rightarrow> bytes \<Rightarrow> bool" where
  "element_of x lo hi i b \<longleftrightarrow> b \<noteq> [] \<and> (case decode_element b of Inl _ \<Rightarrow> False | Inr v \<Rightarrow>
     ev_tid v = hx_ids x ! i \<and> ev_vec v = f32s_bytes (hx_vectors x ! i) \<and> \<not> ev_deleted v \<and>
     lo \<le> unat (fst (ev_nbr_addr v)) \<and> unat (fst (ev_nbr_addr v)) < hi)"

definition holds_elements :: "hnsw_index \<Rightarrow> nat \<Rightarrow> bytes list list \<Rightarrow> hnsw_meta \<Rightarrow> bool" where
  "holds_elements x base pages meta \<longleftrightarrow>
     unat (hm_elem_first meta) = base \<and> hm_metric_tag meta = metric_tag (hx_metric x) \<and> hm_aq_m meta = 0 \<and>
     hm_raw_npages meta = 0 \<and> base + length pages < 2 ^ 32 \<and> unat (hm_elem_npages meta) \<le> length pages \<and>
     list_all2 (element_of x base (base + length pages)) [0..<node_count x] (concat (take (unat (hm_elem_npages meta)) pages))"

lemma node_neighbors_wf:
  assumes "core_wf x" and "i < length (hx_vectors x)" and "l \<le> hx_levels x ! i"
  shows "node_neighbors x i l = hx_neighbors x ! i ! l"
    and "length (hx_neighbors x ! i ! l) \<le> (if l = 0 then hx_m0 x else hx_m x)"
    and "nb \<in> set (hx_neighbors x ! i ! l) \<Longrightarrow> nb < length (hx_vectors x)"
proof -
  have w: "node_wf x i" using assms(1,2) by (simp add: core_wf_def)
  then have l: "length (hx_neighbors x ! i ! l) \<le> layer_degree x l"
    "\<forall>nb \<in> set (hx_neighbors x ! i ! l). nb < length (hx_vectors x)"
    using assms(3) unfolding node_wf_def by blast+
  show "node_neighbors x i l = hx_neighbors x ! i ! l"
    using w assms(3) by (simp add: node_neighbors_def node_wf_def)
  show "length (hx_neighbors x ! i ! l) \<le> (if l = 0 then hx_m0 x else hx_m x)"
    using l(1) by (simp add: layer_degree_def)
  show "nb < length (hx_vectors x)" if "nb \<in> set (hx_neighbors x ! i ! l)"
    using l(2) that by blast
qed

text \<open>The neighbour tuple of every node of a well-formed graph, over any table of valid addresses.\<close>

lemma graph_nbr_tuple:
  assumes wf: "core_wf x" and i: "i < length (hx_vectors x)"
    and ea: "length ea = length (hx_vectors x)" "\<And>j. j < length (hx_vectors x) \<Longrightarrow> ea ! j \<noteq> (0, 0)"
  shows "\<exists>b. encode_neighbors x i ea (hx_m x) (hx_m0 x) = Some b \<and>
    length b = nbr_size (node_level x i) (hx_m x) (hx_m0 x) \<and> nbr_tuple_ok x ea i b"
proof -
  have lvl: "node_level x i = hx_levels x ! i" by (simp add: node_level_def)
  note nb = node_neighbors_wf [OF wf i]
  have "\<forall>l \<le> node_level x i. \<forall>nb \<in> set (node_neighbors x i l). nb < length ea \<and> ea ! nb \<noteq> (0, 0)"
    using nb ea by (auto simp: lvl)
  from neighbors_roundtrip [OF this, of "hx_m x" "hx_m0 x"] obtain b where
    b: "encode_neighbors x i ea (hx_m x) (hx_m0 x) = Some b"
      "length b = nbr_size (node_level x i) (hx_m x) (hx_m0 x)"
      "\<And>lc. lc \<le> hx_levels x ! i \<Longrightarrow> decode_neighbors b (hx_levels x ! i) lc (hx_m x) (hx_m0 x) =
         Inr (map ((!) ea) (take (layer_cap (hx_m x) (hx_m0 x) lc) (node_neighbors x i lc)))"
    unfolding lvl by blast
  have "nbr_tuple_ok x ea i b" unfolding nbr_tuple_ok_def
  proof (intro allI impI)
    fix lc assume lc: "lc \<le> hx_levels x ! i"
    have "take (layer_cap (hx_m x) (hx_m0 x) lc) (node_neighbors x i lc) = hx_neighbors x ! i ! lc"
      using nb(1,2) [OF lc] by (simp add: layer_cap_def)
    with b(3) [OF lc] show "decode_neighbors b (hx_levels x ! i) lc (hx_m x) (hx_m0 x) =
        Inr (map ((!) ea) (hx_neighbors x ! i ! lc))" by simp
  qed
  with b(1,2) show ?thesis by blast
qed

lemma graph_nbr_pack:
  assumes "core_wf x" and "levels_fit x" and n: "n = node_count x" and "hx_vectors x \<noteq> []"
    and "length ea = n" and "\<And>j. j < n \<Longrightarrow> ea ! j \<noteq> (0, 0)"
  shows "\<exists>s. nbr_pack x ea (hx_m x) (hx_m0 x) F [0..<n] nbr_start = Inr s \<and>
    nbr_inv x ea (hx_m x) (hx_m0 x) F n s \<and> length (np_pages s) \<le> n"
proof -
  have n': "n = length (hx_vectors x)" by (simp add: n node_count_def)
  have "\<exists>b. encode_neighbors x i ea (hx_m x) (hx_m0 x) = Some b \<and> length b = nbr_size (node_level x i) (hx_m x) (hx_m0 x)"
    if "i < n" for i
    using graph_nbr_tuple [OF assms(1), of i ea] that assms(5,6) unfolding n' by blast
  moreover have "ITEMID + maxalign (nbr_size (node_level x i) (hx_m x) (hx_m0 x)) \<le> USABLE" if "i < n" for i
    using assms(1,2) that by (simp add: levels_fit_def node_level_def core_wf_def n')
  ultimately obtain s where s: "nbr_pack x ea (hx_m x) (hx_m0 x) F [0..<n] nbr_start = Inr s"
    "nbr_inv x ea (hx_m x) (hx_m0 x) F n s"
    using nbr_pack_inv [OF _ _ nbr_start_inv, of n x ea "hx_m x" "hx_m0 x" F] by blast
  moreover have "length (np_pages s) \<le> n" using s(2) assms(4) by (simp add: nbr_inv_def n')
  ultimately show ?thesis by blast
qed

text \<open>The parameters the meta repeats from the graph, the entry node's level among them.\<close>

definition meta_params :: "hnsw_index \<Rightarrow> nat \<Rightarrow> hnsw_meta \<Rightarrow> bool" where
  "meta_params x e meta \<longleftrightarrow> hm_dim meta = of_nat (hnsw_dim x) \<and> hm_m meta = of_nat (hx_m x) \<and>
     hm_m0 meta = of_nat (hx_m0 x) \<and> hm_entry_level meta = of_nat (hx_levels x ! e) \<and>
     hm_node_count meta = of_nat (node_count x)"

text \<open>The element pages hold nothing but the addressed elements.\<close>

definition all_addressed :: "nat \<Rightarrow> bytes list list \<Rightarrow> nat \<Rightarrow> addr list \<Rightarrow> bool" where
  "all_addressed base pages n ea \<longleftrightarrow>
     (\<forall>p < n. \<forall>k < length (pages ! p). (of_nat (base + p), of_nat (Suc k)) \<in> set ea) \<and>
     (\<forall>a \<in> set ea. base \<le> unat (fst a) \<and> unat (fst a) < base + n)"

lemma analytic_addressed:
  assumes k: "0 < k" and room: "base + div_ceil n k < 2 ^ 32"
  shows "all_addressed base (map (map g) (chunks k [0..<n]) @ post) (div_ceil n k) (analytic_addrs base k n)"
  unfolding all_addressed_def
proof (intro conjI allI impI ballI)
  let ?c = "chunks k [0..<n]"
  have len: "length ?c = div_ceil n k" using length_chunks [OF k, of "[0..<n]"] by simp
  show "(of_nat (base + p), of_nat (Suc j)) \<in> set (analytic_addrs base k n)"
    if p: "p < div_ceil n k" and j: "j < length ((map (map g) ?c @ post) ! p)" for p j
  proof -
    have "j < length (?c ! p)" using p j len by (simp add: nth_append)
    then have i0: "j < k" "j < n - p * k" using nth_chunk [OF k, of p "[0..<n]"] p len by simp_all
    then have i: "j < k" "p * k + j < n" by linarith+
    then have "analytic_addrs base k n ! (p * k + j) = (of_nat (base + p), of_nat (Suc j))"
      using k by (simp add: nth_analytic)
    then show ?thesis using i(2) nth_mem [of "p * k + j" "analytic_addrs base k n"] by simp
  qed
  fix a assume "a \<in> set (analytic_addrs base k n)"
  then obtain i where i: "i < n" "fst a = of_nat (base + i div k)" by (auto simp: analytic_addrs_def)
  have "i div k < div_ceil n k" using nth_chunks [OF k, of i "[0..<n]"] i(1) len by simp
  moreover from this have "unat (fst a) = base + i div k" unfolding i(2) by (intro unat_of_nat_u32) (use room in linarith)
  ultimately show "base \<le> unat (fst a)" "unat (fst a) < base + div_ceil n k" by simp_all
qed

lemma pack_kind_represents:
  assumes wf: "hnsw_wf x" and ne: "hx_vectors x \<noteq> []" and dim: "uniform_dim x" and fit: "levels_fit x"
    and kind: "kind = NoCode \<or> (\<exists>bits. kind = Sbq bits)"
    and train: "train x kind = Inr spec" "spec_ok x spec" and size: "base + 2 * node_count x < 2 ^ 32"
  defines "ea \<equiv> analytic_addrs base (elems_per_page (hnsw_dim x) (cs_code_len spec)) (node_count x)"
  shows "\<exists>p meta e. pack_kind train x base kind = Inr p \<and> (\<forall>i < node_count x. represents_node x ea base (pk_pages p) i) \<and>
    (ITEMID + maxalign (elem_size (hnsw_dim x) (cs_code_len spec)) \<le> USABLE \<longrightarrow>
       (\<forall>page \<in> set (pk_pages p). page_cost page \<le> USABLE)) \<and>
    decode_meta (pk_meta p) = Inr meta \<and> hx_entry x = Some e \<and>
    (hm_entry_blkno meta, hm_entry_offno meta) = ea ! e \<and>
    unat (pending_start meta) = base + length (pk_pages p) \<and> holds_elements x base (pk_pages p) meta \<and>
    hm_sbq_bits meta = cs_sbq_bits spec \<and> meta_params x e meta \<and>
    all_addressed base (pk_pages p) (unat (hm_elem_npages meta)) ea"
proof -
  let ?n = "node_count x" and ?dim = "hnsw_dim x" and ?k = "elems_per_page (hnsw_dim x) (cs_code_len spec)"
  let ?code = "\<lambda>i. if cs_code_len spec > 0 then cs_codes spec ! i else []"
  have core: "core_wf x" using wf by (simp add: hnsw_wf_def)
  have n: "?n = length (hx_vectors x)" by (simp add: node_count_def)
  have k: "0 < ?k" "?k < 2 ^ 16" unfolding elems_per_page_def by (rule per_page_bounds)+
  have npages: "div_ceil ?n ?k \<le> ?n" by (rule div_ceil_le [OF k(1)])
  have ea: "length ea = ?n" "\<And>j. j < ?n \<Longrightarrow> ea ! j \<noteq> (0, 0)"
    using analytic_nonzero [OF _ k] by (simp_all add: ea_def)
  obtain s where s: "nbr_pack x ea (hx_m x) (hx_m0 x) (base + div_ceil ?n ?k) [0..<?n] nbr_start = Inr s"
    "nbr_inv x ea (hx_m x) (hx_m0 x) (base + div_ceil ?n ?k) ?n s" "length (np_pages s) \<le> ?n"
    using graph_nbr_pack [OF core fit refl ne ea] by blast
  have elem: "\<exists>b. encode_element x i (np_addr s ! i) ?dim (?code i) = Some b \<and>
      length b = elem_size ?dim (cs_code_len spec) \<and>
      decode_element b = Inr \<lparr>ev_level = of_nat (node_level x i), ev_tid = node_id x i,
        ev_nbr_addr = np_addr s ! i, ev_vec = f32s_bytes (node_vector x i), ev_code = ?code i,
        ev_deleted = False, ev_version = 0\<rparr>" if "i < ?n" for i
  proof -
    have "length (node_vector x i) = ?dim" "?dim < 2 ^ 16"
      using dim that by (simp_all add: uniform_dim_def node_vector_def n)
    moreover have "length (?code i) = cs_code_len spec"
      using train(2) that by (simp add: spec_ok_def)
    ultimately show ?thesis using element_roundtrip [of x i ?dim "np_addr s ! i" "?code i"] by simp
  qed
  define g where "g i = the (encode_element x i (np_addr s ! i) ?dim (?code i))" for i
  have g: "encode_element x i (np_addr s ! i) ?dim (?code i) = Some (g i)"
    "length (g i) = elem_size ?dim (cs_code_len spec)"
    "decode_element (g i) = Inr \<lparr>ev_level = of_nat (node_level x i), ev_tid = node_id x i,
        ev_nbr_addr = np_addr s ! i, ev_vec = f32s_bytes (node_vector x i), ev_code = ?code i,
        ev_deleted = False, ev_version = 0\<rparr>" if "i < ?n" for i
    using elem [OF that] by (auto simp: g_def)
  let ?elems = "map (map g) (chunks ?k [0..<?n])"
  let ?enc = "\<lambda>node. if cs_code_len spec > 0
    then Option.bind (idx_get (cs_codes spec) node) (encode_element x node (np_addr s ! node) ?dim)
    else encode_element x node (np_addr s ! node) ?dim []"
  have "?enc i = Some (g i)" if "i < ?n" for i
    using g(1) [OF that] train(2) that
    by (cases "cs_code_len spec > 0") (simp_all add: spec_ok_def idx_get_def)
  then have elems: "traverse (traverse ?enc) (chunks ?k [0..<?n]) = Some ?elems"
    by (intro traverse_chunks) simp
  obtain e where e: "hx_entry x = Some e" "e < ?n"
    using wf ne by (auto simp: hnsw_wf_def entry_wf_def n split: option.splits)
  obtain eb eo where ent: "ea ! e = (eb, eo)" by fastforce
  have cb: "codebook_pages (cs_aq_codebook spec) = []" using train(2) by (simp add: spec_ok_def codebook_pages_def)
  have n0: "?n \<noteq> 0" using ne by (simp add: n)
  define meta where "meta = \<lparr>hm_metric_tag = metric_tag (hx_metric x), hm_dim = of_nat ?dim,
      hm_m = of_nat (hx_m x), hm_m0 = of_nat (hx_m0 x), hm_entry_blkno = eb, hm_entry_offno = eo,
      hm_entry_level = of_nat (node_level x e), hm_node_count = of_nat ?n, hm_elem_first = of_nat base,
      hm_elem_npages = of_nat (div_ceil ?n ?k), hm_nbr_first = of_nat (base + div_ceil ?n ?k),
      hm_nbr_npages = of_nat (length (np_pages s)), hm_sbq_bits = cs_sbq_bits spec,
      hm_codebook = cs_codebook spec, hm_aq_m = 0, hm_aq_codebook = [], hm_aq_cb_first = 0,
      hm_aq_cb_npages = 0, hm_raw_first = 0, hm_raw_npages = 0\<rparr>"
  let ?p = "\<lparr>pk_meta = encode_meta meta, pk_pages = ?elems @ np_pages s\<rparr>"
  have pack: "pack_kind train x base kind = Inr ?p"
    using kind n0 train elems s(1) e ent cb ea(1)
    by (auto simp: pack_kind_def Let_def or_panic_def idx_get_def spec_ok_def meta_def simp flip: ea_def)
  have elen: "length ?elems = div_ceil ?n ?k" by (simp add: length_chunks [OF k(1)])
  have room: "base + div_ceil ?n ?k + length (np_pages s) \<le> 2 ^ 32" using size npages s(3) by linarith
  have "represents_node x ea base (?elems @ np_pages s) i" if i: "i < ?n" for i
  proof -
    have f: "fetch base (?elems @ np_pages s) (ea ! i) = Some (g i)"
      using fetch_analytic [of i ?n ?k base "[]" g "np_pages s"] i k room by (simp add: ea_def)
    obtain nbrs where nb: "encode_neighbors x i ea (hx_m x) (hx_m0 x) = Some nbrs"
      "fetch base (?elems @ np_pages s) (np_addr s ! i) = Some nbrs"
      using fetch_nbr [of x ea "hx_m x" "hx_m0 x" base ?elems ?n s i "[]"] s(2) i room unfolding elen by auto
    from graph_nbr_tuple [OF core, of i ea] i ea nb(1) have "nbr_tuple_ok x ea i nbrs"
      unfolding n by auto
    with f nb(2) g(3) [OF i] show ?thesis
      by (auto simp: represents_node_def node_level_def node_id_def node_vector_def)
  qed
  moreover have "page_cost page \<le> USABLE"
    if "ITEMID + maxalign (elem_size ?dim (cs_code_len spec)) \<le> USABLE" "page \<in> set (?elems @ np_pages s)" for page
  proof (cases "page \<in> set ?elems")
    case True
    from analytic_page_cost [OF that(1) _ _ True] g(2) show ?thesis by (simp add: elems_per_page_def)
  next
    case False
    with that(2) s(2) show ?thesis by (simp add: nbr_inv_def)
  qed
  moreover have "decode_meta (encode_meta meta) = Inr meta"
    using meta_roundtrip [of meta] train(2) by (simp add: meta_def meta_wf_def spec_ok_def)
  moreover have "unat (pending_start meta) = base + length (?elems @ np_pages s)"
  proof -
    have "pending_start meta = of_nat (base + div_ceil ?n ?k + length (np_pages s))"
      by (simp add: pending_start_def meta_def)
    moreover have "base + div_ceil ?n ?k + length (np_pages s) < 2 ^ 32" using size npages s(3) by linarith
    ultimately show ?thesis unfolding length_append elen by (simp only: unat_of_nat_u32 add.assoc)
  qed
  moreover have "holds_elements x base (?elems @ np_pages s) meta"
  proof -
    have "unat (of_nat base :: u32) = base" "unat (of_nat (div_ceil ?n ?k) :: u32) = div_ceil ?n ?k"
      by (rule unat_of_nat_u32, use size npages in linarith)+
    moreover have "concat ?elems = map g [0..<?n]"
      by (simp only: map_concat [symmetric] concat_chunks [OF k(1)])
    moreover have "base \<le> unat (fst (np_addr s ! i)) \<and> unat (fst (np_addr s ! i)) < base + length (?elems @ np_pages s)"
      if i: "i < ?n" for i
    proof -
      obtain p' k' where a: "np_addr s ! i = (of_nat (base + div_ceil ?n ?k + p'), of_nat (Suc k'))" "p' < length (np_pages s)"
        using s(2) i unfolding nbr_inv_def by blast
      have "unat (of_nat (base + div_ceil ?n ?k + p') :: u32) = base + div_ceil ?n ?k + p'"
        by (rule unat_of_nat_u32) (use room a(2) in linarith)
      with a elen show ?thesis by (simp del: of_nat_add)
    qed
    moreover have "base + length (?elems @ np_pages s) < 2 ^ 32" using size npages s(3) elen by simp
    moreover have "g i \<noteq> []" if "i < ?n" for i
      using g(2) [OF that] by (auto simp: elem_size_def layout_defs)
    ultimately show ?thesis
      using g(3) elen by (simp add: holds_elements_def meta_def list_all2_conv_all_nth element_of_def
        node_id_def node_vector_def)
  qed
  moreover have "all_addressed base (?elems @ np_pages s) (unat (hm_elem_npages meta)) ea"
  proof -
    have "unat (of_nat (div_ceil ?n ?k) :: u32) = div_ceil ?n ?k" by (rule unat_of_nat_u32) (use size npages in linarith)
    moreover have "base + div_ceil ?n ?k < 2 ^ 32" using size npages by linarith
    ultimately show ?thesis using analytic_addressed [OF k(1)] by (simp add: ea_def meta_def)
  qed
  ultimately show ?thesis
    using pack e(1) ent by (intro exI [of _ ?p] exI [of _ meta] exI [of _ e]) (simp add: meta_def meta_params_def node_level_def)
qed

section \<open>The v4 images represent the graph\<close>

definition spec_ok_v4 :: "hnsw_index \<Rightarrow> code_spec \<Rightarrow> bool" where
  "spec_ok_v4 x spec \<longleftrightarrow> cs_aq_m spec \<noteq> 0 \<and> length (cs_codes spec) = node_count x \<and>
     (\<forall>c \<in> set (cs_codes spec). length c = cs_code_len spec)"

definition represents_node_v4 :: "hnsw_index \<Rightarrow> code_spec \<Rightarrow> addr list \<Rightarrow> nat \<Rightarrow> bytes list list \<Rightarrow> nat \<Rightarrow> bool" where
  "represents_node_v4 x spec ea base pages i \<longleftrightarrow>
     (\<exists>b v nbrs raw. fetch base pages (ea ! i) = Some b \<and> decode_element_v4 b = Inr v \<and>
        e4_level v = of_nat (hx_levels x ! i) \<and> e4_tid v = hx_ids x ! i \<and> e4_code v = cs_codes spec ! i \<and>
        \<not> e4_deleted v \<and> fetch base pages (e4_nbr_addr v) = Some nbrs \<and> nbr_tuple_ok x ea i nbrs \<and>
        fetch base pages (e4_raw_addr v) = Some raw \<and> decode_raw_vec raw = Inr (f32s_bytes (hx_vectors x ! i)))"

lemma codebook_pages_concat: "concat (concat (codebook_pages cb)) = cb"
proof -
  have "concat (map (\<lambda>c. [c]) cs) = cs" for cs :: "bytes list" by (induction cs) simp_all
  then show ?thesis by (simp add: codebook_pages_def concat_chunks CB_CHUNK_def)
qed

lemma codebook_pages_cost: "page \<in> set (codebook_pages cb) \<Longrightarrow> page_cost page \<le> USABLE"
proof -
  assume "page \<in> set (codebook_pages cb)"
  then obtain c where c: "page = [c]" "length c \<le> CB_CHUNK"
    by (auto simp: codebook_pages_def dest: in_chunks split: if_splits)
  have "maxalign (length c) \<le> maxalign CB_CHUNK"
    unfolding maxalign_def by (intro mult_le_mono1 div_le_mono) (simp add: c(2))
  with c(1) show ?thesis by (simp add: page_cost_def CB_CHUNK_def maxalign_def layout_defs)
qed

lemma length_codebook_pages: "length (codebook_pages cb) \<le> length cb"
  by (simp add: codebook_pages_def length_chunks div_ceil_le CB_CHUNK_def)

lemma pack_v4_represents:
  assumes wf: "hnsw_wf x" and ne: "hx_vectors x \<noteq> []" and dim: "uniform_dim x" and fit: "levels_fit x"
    and train: "train x kind = Inr spec" "spec_ok_v4 x spec"
    and size: "base + 3 * node_count x + length (cs_aq_codebook spec) < 2 ^ 32"
  defines "ea \<equiv> analytic_addrs base (elems_per_page_v4 (cs_code_len spec)) (node_count x)"
  shows "\<exists>p meta e. pack_v4 train x base kind = Inr p \<and>
    (\<forall>i < node_count x. represents_node_v4 x spec ea base (pk_pages p) i) \<and>
    (ITEMID + maxalign (elem_size_v4 (cs_code_len spec)) \<le> USABLE \<and> ITEMID + maxalign (raw_size (hnsw_dim x)) \<le> USABLE \<longrightarrow>
       (\<forall>page \<in> set (pk_pages p). page_cost page \<le> USABLE)) \<and>
    decode_meta (pk_meta p) = Inr meta \<and> hx_entry x = Some e \<and>
    (hm_entry_blkno meta, hm_entry_offno meta) = ea ! e \<and>
    unat (pending_start meta) = base + length (pk_pages p) \<and>
    concat (concat (take (unat (hm_aq_cb_npages meta)) (drop (unat (hm_aq_cb_first meta) - base) (pk_pages p))))
      = cs_aq_codebook spec"
proof -
  let ?n = "node_count x" and ?dim = "hnsw_dim x" and ?k = "elems_per_page_v4 (cs_code_len spec)"
    and ?r = "raws_per_page (hnsw_dim x)"
  have core: "core_wf x" using wf by (simp add: hnsw_wf_def)
  have n: "?n = length (hx_vectors x)" by (simp add: node_count_def)
  have k: "0 < ?k" "?k < 2 ^ 16" unfolding elems_per_page_v4_def by (rule per_page_bounds)+
  have r: "0 < ?r" "?r < 2 ^ 16" unfolding raws_per_page_def by (rule per_page_bounds)+
  have npages: "div_ceil ?n ?k \<le> ?n" "div_ceil ?n ?r \<le> ?n" by (rule div_ceil_le [OF k(1)] div_ceil_le [OF r(1)])+
  have ea: "length ea = ?n" "\<And>j. j < ?n \<Longrightarrow> ea ! j \<noteq> (0, 0)"
    using analytic_nonzero [OF _ k] by (simp_all add: ea_def)
  obtain s where s: "nbr_pack x ea (hx_m x) (hx_m0 x) (base + div_ceil ?n ?k) [0..<?n] nbr_start = Inr s"
    "nbr_inv x ea (hx_m x) (hx_m0 x) (base + div_ceil ?n ?k) ?n s" "length (np_pages s) \<le> ?n"
    using graph_nbr_pack [OF core fit refl ne ea] by blast
  let ?cb = "codebook_pages (cs_aq_codebook spec)"
  define raw_first where "raw_first = base + div_ceil ?n ?k + length (np_pages s) + length ?cb"
  let ?ra = "analytic_addrs raw_first ?r ?n"
  define h where "h i = the (encode_raw_vec (node_vector x i))" for i
  have h: "encode_raw_vec (node_vector x i) = Some (h i)" "length (h i) = raw_size (length (node_vector x i))"
    "decode_raw_vec (h i) = Inr (f32s_bytes (node_vector x i))" for i
    using raw_vec_roundtrip [of "node_vector x i"] by (auto simp: h_def)
  define g where "g i = encode_element_v4 x i (np_addr s ! i) (?ra ! i) ?dim (cs_codes spec ! i)" for i
  have g: "decode_element_v4 (g i) = Inr \<lparr>e4_level = of_nat (node_level x i), e4_tid = node_id x i,
      e4_nbr_addr = np_addr s ! i, e4_raw_addr = ?ra ! i, e4_dim = of_nat ?dim, e4_code = cs_codes spec ! i,
      e4_deleted = False, e4_version = HNSW_ELEM_VERSION_V4\<rparr>" for i
    unfolding g_def by (rule element_v4_roundtrip)
  have glen: "length (g i) = elem_size_v4 (cs_code_len spec)" if "i < ?n" for i
    using train(2) that by (simp add: g_def encode_element_v4_def Let_def spec_ok_v4_def elem_size_v4_def layout_defs)
  let ?elems = "map (map g) (chunks ?k [0..<?n])" and ?raws = "map (map h) (chunks ?r [0..<?n])"
  have raws: "traverse (traverse (\<lambda>node. encode_raw_vec (node_vector x node))) (chunks ?r [0..<?n]) = Some ?raws"
    by (rule traverse_chunks) (simp add: h(1))
  have elems: "traverse (traverse (\<lambda>node. Option.bind (idx_get (cs_codes spec) node) (\<lambda>code.
      Some (encode_element_v4 x node (np_addr s ! node) (?ra ! node) ?dim code)))) (chunks ?k [0..<?n]) = Some ?elems"
    using train(2) by (intro traverse_chunks) (simp add: idx_get_def spec_ok_v4_def g_def)
  obtain e where e: "hx_entry x = Some e" "e < ?n"
    using wf ne by (auto simp: hnsw_wf_def entry_wf_def n split: option.splits)
  obtain eb eo where ent: "ea ! e = (eb, eo)" by fastforce
  define meta where "meta = \<lparr>hm_metric_tag = metric_tag (hx_metric x), hm_dim = of_nat ?dim,
      hm_m = of_nat (hx_m x), hm_m0 = of_nat (hx_m0 x), hm_entry_blkno = eb, hm_entry_offno = eo,
      hm_entry_level = of_nat (node_level x e), hm_node_count = of_nat ?n, hm_elem_first = of_nat base,
      hm_elem_npages = of_nat (div_ceil ?n ?k), hm_nbr_first = of_nat (base + div_ceil ?n ?k),
      hm_nbr_npages = of_nat (length (np_pages s)), hm_sbq_bits = 0, hm_codebook = [],
      hm_aq_m = cs_aq_m spec, hm_aq_codebook = cs_aq_codebook spec,
      hm_aq_cb_first = of_nat (base + div_ceil ?n ?k + length (np_pages s)),
      hm_aq_cb_npages = of_nat (length ?cb), hm_raw_first = of_nat raw_first,
      hm_raw_npages = of_nat (div_ceil ?n ?r)\<rparr>"
  let ?P = "?elems @ np_pages s @ ?cb @ ?raws"
  let ?p = "\<lparr>pk_meta = encode_meta meta, pk_pages = ?P\<rparr>"
  have pack: "pack_v4 train x base kind = Inr ?p"
    using train(1) elems raws s(1) e ent ea(1)
    by (simp add: pack_v4_def Let_def or_panic_def idx_get_def meta_def raw_first_def flip: ea_def)
  have elen: "length ?elems = div_ceil ?n ?k" "length ?raws = div_ceil ?n ?r"
    by (simp_all add: length_chunks [OF k(1)] length_chunks [OF r(1)])
  have room: "base + div_ceil ?n ?k + length (np_pages s) + length ?cb + div_ceil ?n ?r < 2 ^ 32"
    using size npages s(3) length_codebook_pages [of "cs_aq_codebook spec"] by linarith
  have rep: "represents_node_v4 x spec ea base ?P i" if i: "i < ?n" for i
  proof -
    have f: "fetch base ?P (ea ! i) = Some (g i)"
      using fetch_analytic [of i ?n ?k base "[]" g "np_pages s @ ?cb @ ?raws"] i k room by (simp add: ea_def)
    obtain nbrs where nb: "encode_neighbors x i ea (hx_m x) (hx_m0 x) = Some nbrs"
      "fetch base ?P (np_addr s ! i) = Some nbrs"
      using fetch_nbr [of x ea "hx_m x" "hx_m0 x" base ?elems ?n s i "?cb @ ?raws"] s(2) i room
      unfolding elen by auto
    from graph_nbr_tuple [OF core, of i ea] i ea nb(1) have nt: "nbr_tuple_ok x ea i nbrs"
      unfolding n by auto
    have "raw_first = base + length (?elems @ np_pages s @ ?cb)"
      unfolding raw_first_def length_append elen by (simp only: add.assoc)
    then have fr: "fetch base ?P (?ra ! i) = Some (h i)"
      using fetch_analytic [of i ?n ?r base "?elems @ np_pages s @ ?cb" h "[]"] i r room
      by (simp add: raw_first_def add.assoc)
    show ?thesis unfolding represents_node_v4_def
      using f g [of i] nb(2) nt fr h(3) [of i]
      by (intro exI conjI) (auto simp: node_level_def node_id_def node_vector_def)
  qed
  have cost: "page_cost page \<le> USABLE"
    if "ITEMID + maxalign (elem_size_v4 (cs_code_len spec)) \<le> USABLE" "ITEMID + maxalign (raw_size ?dim) \<le> USABLE"
      "page \<in> set ?P" for page
  proof -
    have hlen: "length (h i) = raw_size ?dim" if "i < ?n" for i
      using h(2) [of i] dim that by (simp add: uniform_dim_def node_vector_def n)
    note on_page = that(3)
    consider "page \<in> set ?elems" | "page \<in> set (np_pages s)" | "page \<in> set ?cb" | "page \<in> set ?raws"
      using on_page unfolding set_append by blast
    then show ?thesis
    proof cases
      case 1
      from analytic_page_cost [OF that(1) _ _ 1] glen show ?thesis by (simp add: elems_per_page_v4_def)
    next
      case 2
      with s(2) show ?thesis by (simp add: nbr_inv_def)
    next
      case 3
      then show ?thesis by (rule codebook_pages_cost)
    next
      case 4
      from analytic_page_cost [OF that(2) _ _ 4] hlen show ?thesis by (simp add: raws_per_page_def)
    qed
  qed
  have n0: "0 < ?n" using ne by (simp add: n)
  have "1 \<le> div_ceil ?n ?r" using n0 r(1) by (simp add: div_ceil_def Suc_le_eq div_greater_zero_iff)
  then have "unat (of_nat (div_ceil ?n ?r) :: u32) \<noteq> 0" using room by (subst unat_of_nat_u32) linarith+
  then have raw_np: "(of_nat (div_ceil ?n ?r) :: u32) \<noteq> 0" by (metis unsigned_0)
  let ?meta = "meta\<lparr>hm_aq_codebook := []\<rparr>"
  have dec: "decode_meta (encode_meta meta) = Inr ?meta"
    by (rule meta_roundtrip) (use raw_np train(2) in \<open>simp add: meta_def meta_wf_def spec_ok_v4_def\<close>)
  have ends: "unat (hm_nbr_first ?meta + hm_nbr_npages ?meta) = base + div_ceil ?n ?k + length (np_pages s)"
    "unat (hm_aq_cb_first ?meta + hm_aq_cb_npages ?meta) = base + div_ceil ?n ?k + length (np_pages s) + length ?cb"
    "unat (hm_raw_first ?meta + hm_raw_npages ?meta) =
       base + div_ceil ?n ?k + length (np_pages s) + length ?cb + div_ceil ?n ?r"
    unfolding meta_def hnsw_meta.simps of_nat_add [symmetric] raw_first_def
    by (rule unat_of_nat_u32, use room in linarith)+
  have max_end: "max (max a b) c = c" if "unat a \<le> unat b" "unat b \<le> unat c" for a b c :: u32
    using that by (simp add: max_def word_le_nat_alt)
  have "unat (pending_start ?meta) =
      base + div_ceil ?n ?k + length (np_pages s) + length ?cb + div_ceil ?n ?r"
    unfolding pending_start_def by (subst max_end) (simp_all only: ends le_add1)
  then have ps: "unat (pending_start ?meta) = base + length ?P"
    unfolding length_append elen by (simp only: add.assoc)
  have "unat (hm_aq_cb_first ?meta) = base + div_ceil ?n ?k + length (np_pages s)"
    "unat (hm_aq_cb_npages ?meta) = length ?cb"
    unfolding meta_def hnsw_meta.simps by (rule unat_of_nat_u32, use room in linarith)+
  then have cb: "concat (concat (take (unat (hm_aq_cb_npages ?meta)) (drop (unat (hm_aq_cb_first ?meta) - base) ?P)))
      = cs_aq_codebook spec"
    using codebook_pages_concat [of "cs_aq_codebook spec"] by (simp flip: elen(1))
  have "(hm_entry_blkno ?meta, hm_entry_offno ?meta) = ea ! e" using ent by (simp add: meta_def)
  then show ?thesis
    using pack e(1) rep cost dec ps cb by (intro exI [of _ ?p] exI [of _ ?meta] exI [of _ e]) simp
qed

section \<open>Properties\<close>

text \<open>C18: The page images of an f32 or SBQ index represent the graph. For every well-formed graph whose
  tuples fit a page, \<open>pack_kind\<close> at any base block succeeds; following the analytic address of any node
  reads back its level, TID, vector and a live flag, and following its neighbour address reads back its
  adjacency on every layer as addresses of element tuples; no page is over-full; and the meta decodes to
  the entry point's address and to an extent that ends exactly where the images end.\<close>

theorem pack_represents_graph:
  assumes "hnsw_wf x" and "hx_vectors x \<noteq> []" and "uniform_dim x" and "levels_fit x"
    and "kind = NoCode \<or> (\<exists>bits. kind = Sbq bits)"
    and "train x kind = Inr spec" and "spec_ok x spec" and "base + 2 * node_count x < 2 ^ 32"
  shows "\<exists>p meta e. let ea = analytic_addrs base (elems_per_page (hnsw_dim x) (cs_code_len spec)) (node_count x) in
    pack_kind train x base kind = Inr p \<and> (\<forall>i < node_count x. represents_node x ea base (pk_pages p) i) \<and>
    (ITEMID + maxalign (elem_size (hnsw_dim x) (cs_code_len spec)) \<le> USABLE \<longrightarrow>
       (\<forall>page \<in> set (pk_pages p). page_cost page \<le> USABLE)) \<and>
    decode_meta (pk_meta p) = Inr meta \<and> hx_entry x = Some e \<and>
    (hm_entry_blkno meta, hm_entry_offno meta) = ea ! e \<and>
    unat (pending_start meta) = base + length (pk_pages p)"
  using pack_kind_represents [where train = train and kind = kind, OF assms] unfolding Let_def by blast

theorem pack_represents_graph_witness:
  "\<exists>p. pack_kind (\<lambda>_ _. Inr no_codes) two_nodes 1 NoCode = Inr p"
proof -
  have wf: "hnsw_wf two_nodes"
    by (auto simp: hnsw_wf_def core_wf_def node_wf_def entry_wf_def two_nodes_def layer_degree_def less_Suc_eq)
  have ne: "hx_vectors two_nodes \<noteq> []" by (simp add: two_nodes_def)
  have d: "uniform_dim two_nodes" by (simp add: uniform_dim_def two_nodes_def hnsw_dim_def)
  have f: "levels_fit two_nodes"
    by (simp add: levels_fit_def two_nodes_def nbr_size_def nbr_slots_def maxalign_def layout_defs)
  have o: "spec_ok two_nodes no_codes" by (simp add: spec_ok_def no_codes_def)
  have b: "1 + 2 * node_count two_nodes < 2 ^ 32" by (simp add: two_nodes_def node_count_def)
  from pack_represents_graph [where train = "\<lambda>_ _. Inr no_codes", OF wf ne d f disjI1 [OF refl] refl o b]
  show ?thesis by (auto simp: Let_def)
qed

text \<open>C19: The page images of an AQ (v4) index represent the graph with the vectors split off: every hot
  tuple reads back with its level, TID and code, its neighbour address leads to its adjacency, its raw
  address to the exact vector; no page is over-full; the codebook pages the meta names concatenate to
  the codebook; and the meta's extent ends exactly where the images end.\<close>

theorem pack_v4_represents_graph:
  assumes "hnsw_wf x" and "hx_vectors x \<noteq> []" and "uniform_dim x" and "levels_fit x"
    and "train x kind = Inr spec" and "spec_ok_v4 x spec"
    and "base + 3 * node_count x + length (cs_aq_codebook spec) < 2 ^ 32"
  shows "\<exists>p meta e. let ea = analytic_addrs base (elems_per_page_v4 (cs_code_len spec)) (node_count x) in
    pack_v4 train x base kind = Inr p \<and>
    (\<forall>i < node_count x. represents_node_v4 x spec ea base (pk_pages p) i) \<and>
    (ITEMID + maxalign (elem_size_v4 (cs_code_len spec)) \<le> USABLE \<and> ITEMID + maxalign (raw_size (hnsw_dim x)) \<le> USABLE \<longrightarrow>
       (\<forall>page \<in> set (pk_pages p). page_cost page \<le> USABLE)) \<and>
    decode_meta (pk_meta p) = Inr meta \<and> hx_entry x = Some e \<and>
    (hm_entry_blkno meta, hm_entry_offno meta) = ea ! e \<and>
    unat (pending_start meta) = base + length (pk_pages p) \<and>
    concat (concat (take (unat (hm_aq_cb_npages meta)) (drop (unat (hm_aq_cb_first meta) - base) (pk_pages p))))
      = cs_aq_codebook spec"
  unfolding Let_def by (rule pack_v4_represents [where train = train and kind = kind, OF assms])

definition aq_spec :: code_spec where
  "aq_spec = \<lparr>cs_code_len = 1, cs_codes = [[5], [6]], cs_sbq_bits = 0, cs_codebook = [], cs_aq_m = 2,
     cs_aq_codebook = [1, 2, 3]\<rparr>"

theorem pack_v4_represents_graph_witness:
  "\<exists>p. pack_v4 (\<lambda>_ _. Inr aq_spec) two_nodes 1 (Aq 2 4 0) = Inr p"
proof -
  have wf: "hnsw_wf two_nodes"
    by (auto simp: hnsw_wf_def core_wf_def node_wf_def entry_wf_def two_nodes_def layer_degree_def less_Suc_eq)
  have ne: "hx_vectors two_nodes \<noteq> []" by (simp add: two_nodes_def)
  have d: "uniform_dim two_nodes" by (simp add: uniform_dim_def two_nodes_def hnsw_dim_def)
  have f: "levels_fit two_nodes"
    by (simp add: levels_fit_def two_nodes_def nbr_size_def nbr_slots_def maxalign_def layout_defs)
  have o: "spec_ok_v4 two_nodes aq_spec" by (simp add: spec_ok_v4_def aq_spec_def two_nodes_def node_count_def)
  have b: "1 + 3 * node_count two_nodes + length (cs_aq_codebook aq_spec) < 2 ^ 32"
    by (simp add: two_nodes_def node_count_def aq_spec_def)
  from pack_v4_represents_graph [where train = "\<lambda>_ _. Inr aq_spec" and kind = "Aq 2 4 0", OF wf ne d f refl o b]
  show ?thesis by (auto simp: Let_def)
qed

end
