(* ===== verification/Pages.thy ===== *)
theory Pages
  imports HnswPack
begin

text \<open>
  Page storage (\<open>am/page/mod.rs\<close>). A relation fork is the list of its pages and a page the list of its
  items, which is what the buffer manager and \<open>GenericXLog\<close> give the code: every operation below is one
  WAL record on one page, so the states between operations are the states a crash can leave. PostgreSQL's
  free-space test and item insertion are the parameters \<open>free\<close> and \<open>can_add\<close>. Block numbers read from
  disk are 32-bit words; \<open>first + npages\<close> wraps, as in a release build.
\<close>

type_synonym page = "bytes list"
type_synonym relation = "page list"

datatype page_error = PageOutOfRange nat | OffsetOutOfRange nat nat | TruncatedMetaPage
  | BadMetaMagic | MissingDataPage | BlobLength | TruncatedIvfMeta | UnsupportedIvf u32 | TruncatedDirectory
  | MetaErr meta_error | InsertBeforeBuild | PendingTooShort | PendingBadLength | TupleErr tuple_error
  | AddItemFailed | CodebookRange | CodebookLengthErr | RawLength | SearchMetricTag | SearchPanic | BadIvfMagic | TruncatedCentroids | TruncatedList | RecordErr string

definition META_MAGIC :: u32 where "META_MAGIC = 0x54494D45"
definition META_VERSION :: u32 where "META_VERSION = 1"
definition CHUNK :: nat where "CHUNK = 8000"
definition IVF_STRUCT_MAGIC :: u32 where "IVF_STRUCT_MAGIC = 0x54495653"

section \<open>Writers of one page\<close>

text \<open>\<open>PageAddItemExtended\<close> on a freshly initialised page: each item costs its line pointer and its MAXALIGNed
  length, and the call that overruns the page returns \<open>InvalidOffsetNumber\<close>, on which every writer asserts. The
  record is not finished then, so the page keeps its contents; the panic is the error \<open>AddItemFailed\<close>.\<close>

definition page_fits :: "page \<Rightarrow> bool" where
  "page_fits items \<longleftrightarrow> page_cost items \<le> USABLE"

definition extend_page_with_item :: "relation \<Rightarrow> bytes \<Rightarrow> page_error + relation" where
  "extend_page_with_item rel data = (if page_fits [data] then Inr (rel @ [[data]]) else Inl AddItemFailed)"

definition extend_page_with_items :: "relation \<Rightarrow> bytes list \<Rightarrow> page_error + relation" where
  "extend_page_with_items rel items = (if page_fits items then Inr (rel @ [items]) else Inl AddItemFailed)"

definition reinit_page_with_items :: "relation \<Rightarrow> nat \<Rightarrow> bytes list \<Rightarrow> page_error + relation" where
  "reinit_page_with_items rel block items = (if page_fits items then Inr (rel[block := items]) else Inl AddItemFailed)"

definition reinit_page_with_item :: "relation \<Rightarrow> nat \<Rightarrow> bytes \<Rightarrow> page_error + relation" where
  "reinit_page_with_item rel block data =
     (if data = [] then Inr (rel[block := []])
      else if page_fits [data] then Inr (rel[block := [data]]) else Inl AddItemFailed)"

definition pivot_meta_page :: "relation \<Rightarrow> bytes \<Rightarrow> page_error + relation" where
  "pivot_meta_page rel meta = (if page_fits [meta] then Inr (rel[0 := [meta]]) else Inl AddItemFailed)"

text \<open>A \<open>for\<close> loop whose body may fail.\<close>

fun iter_r :: "('s \<Rightarrow> 'a \<Rightarrow> 'e + 's) \<Rightarrow> 's \<Rightarrow> 'a list \<Rightarrow> 'e + 's" where
  "iter_r f s [] = Inr s"
| "iter_r f s (x # xs) = bind_r (f s x) (\<lambda>s. iter_r f s xs)"

definition try_add_to_page :: "(page \<Rightarrow> nat) \<Rightarrow> (page \<Rightarrow> bytes \<Rightarrow> bool) \<Rightarrow> relation \<Rightarrow> nat \<Rightarrow> bytes \<Rightarrow> relation \<times> bool" where
  "try_add_to_page free can_add rel block item =
     (if free (rel ! block) < length item + 8 then (rel, False)
      else if \<not> can_add (rel ! block) item then (rel, False)
      else (rel[block := rel ! block @ [item]], True))"

text \<open>In-place edits of the items of a page: \<open>f\<close> returns the new bytes and whether it changed them.\<close>

definition modify_items_under_wal :: "(bytes \<Rightarrow> bytes \<times> bool) \<Rightarrow> relation \<Rightarrow> nat \<Rightarrow> relation \<times> nat" where
  "modify_items_under_wal f rel block =
     (let edited = map (\<lambda>item. if item = [] then (item, False) else f item) (rel ! block);
          changed = length (filter snd edited)
      in (if changed > 0 then rel[block := map fst edited] else rel, changed))"

text \<open>A line pointer past the last one lies in the zeroed hole of the page: its length is 0.\<close>

definition item_at :: "page \<Rightarrow> nat \<Rightarrow> bytes" where
  "item_at page off = (if 1 \<le> off \<and> off \<le> length page then page ! (off - 1) else [])"

definition modify_item_at :: "(bytes \<Rightarrow> bytes \<times> bool) \<Rightarrow> relation \<Rightarrow> nat \<Rightarrow> nat \<Rightarrow> page_error + relation \<times> bool" where
  "modify_item_at f rel block off =
     (if block \<ge> length rel then Inl (PageOutOfRange block)
      else let item = item_at (rel ! block) off; (item', changed) = (if item = [] then (item, False) else f item)
        in Inr (if changed then rel[block := (rel ! block)[off - 1 := item']] else rel, changed))"

section \<open>Readers\<close>

definition read_all_page_items :: "relation \<Rightarrow> nat \<Rightarrow> bytes list" where
  "read_all_page_items rel block = filter (\<lambda>item. item \<noteq> []) (rel ! block)"

definition read_page_item_into :: "relation \<Rightarrow> nat \<Rightarrow> bytes \<Rightarrow> page_error + bytes" where
  "read_page_item_into rel block out =
     (if block \<ge> length rel then Inl (PageOutOfRange block)
      else Inr (case rel ! block of [] \<Rightarrow> out | item # _ \<Rightarrow> out @ item))"

definition read_page_item :: "relation \<Rightarrow> nat \<Rightarrow> page_error + bytes" where
  "read_page_item rel block = read_page_item_into rel block []"

definition read_page_item_at :: "relation \<Rightarrow> nat \<Rightarrow> nat \<Rightarrow> page_error + bytes" where
  "read_page_item_at rel block offno =
     (if block \<ge> length rel then Inl (PageOutOfRange block)
      else if offno < 1 \<or> offno > length (rel ! block) then Inl (OffsetOutOfRange offno block)
      else Inr (rel ! block ! (offno - 1)))"

text \<open>The loop over a block range, appending the first item of each block.\<close>

fun read_blocks :: "relation \<Rightarrow> nat list \<Rightarrow> bytes \<Rightarrow> page_error + bytes" where
  "read_blocks rel [] out = Inr out"
| "read_blocks rel (b # bs) out = bind_r (read_page_item_into rel b out) (read_blocks rel bs)"

definition read_chunked :: "relation \<Rightarrow> u32 \<Rightarrow> u32 \<Rightarrow> page_error + bytes" where
  "read_chunked rel first_block npages = read_blocks rel [unat first_block..<unat (first_block + npages)] []"

definition npages_for :: "nat \<Rightarrow> u32" where
  "npages_for nbytes = of_nat (max (div_ceil nbytes CHUNK) 1)"

definition u32_at :: "nat \<Rightarrow> bytes \<Rightarrow> u32" where
  "u32_at off b = from_le (slice_at off 4 b)"

definition peek_magic :: "relation \<Rightarrow> page_error + u32" where
  "peek_magic rel =
     (if length rel = 0 then Inr 0
      else bind_r (read_page_item rel 0) (\<lambda>m. if length m < 4 then Inr 0 else Inr (u32_at 0 m)))"

section \<open>The blob layout\<close>

definition blob_meta :: "bytes \<Rightarrow> bytes" where
  "blob_meta blob =
     (let nchunks = max (div_ceil (length blob) CHUNK) 1 in
      to_le META_MAGIC @ to_le META_VERSION @ to_le (of_nat (length blob) :: u64) @ to_le (of_nat nchunks :: u32))"

definition write_blob :: "relation \<Rightarrow> bytes \<Rightarrow> page_error + relation" where
  "write_blob rel blob =
     bind_r (extend_page_with_item rel (blob_meta blob)) (\<lambda>rel.
       if blob = [] then extend_page_with_item rel []
       else iter_r extend_page_with_item rel (chunks CHUNK blob))"

fun read_blob_chunks :: "relation \<Rightarrow> nat list \<Rightarrow> bytes \<Rightarrow> page_error + bytes" where
  "read_blob_chunks rel [] blob = Inr blob"
| "read_blob_chunks rel (i # is) blob =
     (if i \<ge> length rel then Inl MissingDataPage
      else bind_r (read_page_item_into rel i blob) (read_blob_chunks rel is))"

definition read_blob :: "relation \<Rightarrow> page_error + bytes" where
  "read_blob rel =
     (if length rel = 0 then Inr []
      else bind_r (read_page_item rel 0) (\<lambda>meta.
        if length meta < 20 then Inl TruncatedMetaPage
        else if u32_at 0 meta \<noteq> META_MAGIC then Inl BadMetaMagic
        else let blob_len = unat (from_le (slice_at 8 8 meta) :: u64); nchunks = unat (u32_at 16 meta) in
          bind_r (read_blob_chunks rel [1..<nchunks + 1] []) (\<lambda>blob.
            if length blob \<noteq> blob_len then Inl BlobLength else Inr blob)))"

text \<open>The VACUUM rewrite: blocks \<open>0..\<close> are overwritten or extended, the surplus emptied.\<close>

fun rewrite_pages :: "nat \<Rightarrow> nat \<Rightarrow> bytes list \<Rightarrow> relation \<Rightarrow> page_error + relation" where
  "rewrite_pages nblocks i [] rel = Inr rel"
| "rewrite_pages nblocks i (data # blocks) rel =
     bind_r (if i < nblocks then reinit_page_with_item rel i data else extend_page_with_item rel data)
       (rewrite_pages nblocks (Suc i) blocks)"

definition empty_pages :: "relation \<Rightarrow> nat list \<Rightarrow> page_error + relation" where
  "empty_pages rel bs = iter_r (\<lambda>rel b. reinit_page_with_item rel b []) rel bs"

definition rewrite_blob :: "relation \<Rightarrow> bytes \<Rightarrow> page_error + relation" where
  "rewrite_blob rel blob =
     (let nblocks = length rel;
          blocks = blob_meta blob # (if blob = [] then [[]] else chunks CHUNK blob)
      in bind_r (rewrite_pages nblocks 0 blocks rel) (\<lambda>rel. empty_pages rel [length blocks..<nblocks]))"

section \<open>Where the pending region starts\<close>

definition sat_add :: "u32 \<Rightarrow> u32 \<Rightarrow> u32" where
  "sat_add a b = (if unat a + unat b < 2 ^ 32 then a + b else - 1)"

text \<open>\<open>total = total.saturating_add(u32 at i * stride + off)\<close> for the \<open>offs\<close> of each entry in turn.\<close>

fun sum_entries :: "nat \<Rightarrow> nat list \<Rightarrow> bytes \<Rightarrow> nat list \<Rightarrow> u32 \<Rightarrow> u32" where
  "sum_entries stride offs d [] acc = acc"
| "sum_entries stride offs d (i # is) acc =
     sum_entries stride offs d is (foldl (\<lambda>t off. sat_add t (u32_at (i * stride + off) d)) acc offs)"

definition pending_start_v4 :: "relation \<Rightarrow> bytes \<Rightarrow> page_error + u32" where
  "pending_start_v4 rel m =
     (if length m < 37 then Inl TruncatedIvfMeta
      else let nlists = unat (u32_at 13 m); codebook_npages = u32_at 21 m; dir_npages = u32_at 25 m;
               centroid_npages = u32_at 29 m; gen_base = u32_at 33 m in
        bind_r (read_chunked rel gen_base dir_npages) (\<lambda>d.
          if length d < nlists * 12 then Inl TruncatedDirectory
          else Inr (sum_entries 12 [4] d [0..<nlists]
            (sat_add (sat_add (sat_add gen_base dir_npages) codebook_npages) centroid_npages))))"

definition pending_start_v5_v7 :: "relation \<Rightarrow> bytes \<Rightarrow> page_error + u32" where
  "pending_start_v5_v7 rel m =
     (if length m < 37 then Inl TruncatedIvfMeta
      else let nlists = unat (u32_at 13 m); codebook_npages = u32_at 21 m; dir_npages = u32_at 25 m;
               centroid_npages = u32_at 29 m; gen_base = u32_at 33 m in
        bind_r (read_chunked rel gen_base dir_npages) (\<lambda>d.
          if length d < nlists * 20 then Inl TruncatedDirectory
          else Inr (sum_entries 20 [4, 12] d [0..<nlists]
            (sat_add (sat_add (sat_add gen_base dir_npages) codebook_npages) centroid_npages))))"

definition pending_start_v6_v8 :: "relation \<Rightarrow> bytes \<Rightarrow> page_error + u32" where
  "pending_start_v6_v8 rel m =
     (if length m < 41 then Inl TruncatedIvfMeta
      else let nlists = unat (u32_at 13 m); codebook_npages = u32_at 21 m; dir_npages = u32_at 25 m;
               centroid_npages = u32_at 29 m; gen_base = u32_at 33 m; refine_npages = u32_at 37 m in
        bind_r (read_chunked rel gen_base dir_npages) (\<lambda>d.
          if length d < nlists * 20 then Inl TruncatedDirectory
          else Inr (sum_entries 20 [4, 12] d [0..<nlists]
            (sat_add (sat_add (sat_add (sat_add gen_base dir_npages) codebook_npages) refine_npages)
              centroid_npages))))"

definition pending_start_v2_v3 :: "relation \<Rightarrow> bytes \<Rightarrow> u32 \<Rightarrow> page_error + u32" where
  "pending_start_v2_v3 rel m ver =
     (if ver \<noteq> 2 \<and> ver \<noteq> 3 then Inl (UnsupportedIvf ver)
      else let nlists = unat (u32_at 13 m); dir_npages = u32_at 17 m; centroid_npages = u32_at 21 m in
        if ver = 3 \<and> length m < 29 then Inl TruncatedIvfMeta
        else let gen_base = (if ver = 3 then u32_at 25 m else 1) in
          bind_r (read_chunked rel gen_base dir_npages) (\<lambda>d.
            if length d < nlists * 12 then Inl TruncatedDirectory
            else Inr (sum_entries 12 [4] d [0..<nlists] (sat_add (sat_add gen_base dir_npages) centroid_npages))))"

definition main_index_pages :: "relation \<Rightarrow> page_error + u32" where
  "main_index_pages rel =
     bind_r (read_page_item rel 0) (\<lambda>m.
       if length m < 4 then Inl TruncatedMetaPage
       else let magic = u32_at 0 m in
         if magic = IVF_STRUCT_MAGIC then
           if length m < 25 then Inl TruncatedIvfMeta
           else let ver = u32_at 4 m in
             if ver = 4 then pending_start_v4 rel m
             else if ver = 5 \<or> ver = 7 then pending_start_v5_v7 rel m
             else if ver = 6 \<or> ver = 8 then pending_start_v6_v8 rel m
             else pending_start_v2_v3 rel m ver
         else if magic = HNSW_STRUCT_MAGIC then
           (case decode_meta m of Inl e \<Rightarrow> Inl (MetaErr e) | Inr meta \<Rightarrow> Inr (pending_start meta))
         else if length m < 20 then Inl TruncatedMetaPage
         else Inr (1 + u32_at 16 m))"

definition pending_layout :: "relation \<Rightarrow> page_error + u32 \<times> nat" where
  "pending_layout rel =
     (if length rel = 0 then Inr (0, 0) else bind_r (main_index_pages rel) (\<lambda>p. Inr (p, length rel)))"

definition pending_page_count :: "relation \<Rightarrow> nat" where
  "pending_page_count rel =
     (case pending_layout rel of
        Inr (pstart, nblocks) \<Rightarrow> if pstart > 0 \<and> nblocks > unat pstart then nblocks - unat pstart else 0
      | Inl _ \<Rightarrow> 0)"

section \<open>The pending region\<close>

definition encode_pending :: "i64 \<Rightarrow> f32_bits list \<Rightarrow> bytes" where
  "encode_pending tid v = to_le tid @ to_le (of_nat (length v) :: u32) @ f32s_bytes v"

definition append_pending :: "(page \<Rightarrow> nat) \<Rightarrow> (page \<Rightarrow> bytes \<Rightarrow> bool) \<Rightarrow> relation \<Rightarrow> i64 \<Rightarrow> f32_bits list \<Rightarrow>
    page_error + relation" where
  "append_pending free can_add rel tid v =
     bind_r (pending_layout rel) (\<lambda>(pstart, nblocks).
       if pstart = 0 then Inl InsertBeforeBuild
       else let item = encode_pending tid v;
                (rel1, added) = (if nblocks > unat pstart then try_add_to_page free can_add rel (nblocks - 1) item
                                 else (rel, False))
         in if added then Inr rel1 else extend_page_with_item rel1 item)"

text \<open>The \<open>dim\<close> floats from byte 12 on.\<close>

definition f32s_at :: "nat \<Rightarrow> nat \<Rightarrow> bytes \<Rightarrow> f32_bits list" where
  "f32s_at off n b = map (\<lambda>i. from_le (slice_at (off + i * 4) 4 b)) [0..<n]"

definition decode_pending :: "bytes \<Rightarrow> page_error + i64 \<times> f32_bits list" where
  "decode_pending item =
     (if length item < 12 then Inl PendingTooShort
      else let dim = unat (u32_at 8 item) in
        if length item \<noteq> 12 + dim * 4 then Inl PendingBadLength
        else Inr (from_le (slice_at 0 8 item), f32s_at 12 dim item))"

fun map_r :: "('a \<Rightarrow> 'e + 'b) \<Rightarrow> 'a list \<Rightarrow> 'e + 'b list" where
  "map_r f [] = Inr []"
| "map_r f (x # xs) = bind_r (f x) (\<lambda>y. bind_r (map_r f xs) (\<lambda>ys. Inr (y # ys)))"

lemma map_r_Inr_iff: "map_r f xs = Inr ys \<longleftrightarrow> list_all2 (\<lambda>x y. f x = Inr y) xs ys"
  by (induction xs arbitrary: ys) (auto simp: bind_r_Inr_iff list_all2_Cons1)

definition read_pending :: "relation \<Rightarrow> page_error + (i64 \<times> f32_bits list) list" where
  "read_pending rel =
     bind_r (pending_layout rel) (\<lambda>(pstart, nblocks).
       let pending_pages = (if pstart > 0 \<and> nblocks > unat pstart then nblocks - unat pstart else 0) in
       if pending_pages = 0 then Inr []
       else map_r decode_pending (concat (map (read_all_page_items rel) [unat pstart..<nblocks])))"

section \<open>What the readers see\<close>

declare upt_Suc [simp del]

definition page_data :: "page \<Rightarrow> bytes" where
  "page_data page = (case page of [] \<Rightarrow> [] | item # _ \<Rightarrow> item)"

lemma page_data_simps [simp]: "page_data [] = []" "page_data (item # items) = item"
  by (simp_all add: page_data_def)

lemma read_page_item_into_eq:
  "block < length rel \<Longrightarrow> read_page_item_into rel block out = Inr (out @ page_data (rel ! block))"
  by (simp add: read_page_item_into_def page_data_def split: list.split)

lemma read_page_item_eq: "block < length rel \<Longrightarrow> read_page_item rel block = Inr (page_data (rel ! block))"
  by (simp add: read_page_item_def read_page_item_into_eq)

lemma slice_at_Suc: "i < length rel \<Longrightarrow> slice_at i (Suc n) rel = rel ! i # slice_at (Suc i) n rel"
  by (simp add: slice_at_def Cons_nth_drop_Suc [symmetric])

lemma read_blocks_eq:
  "i + n \<le> length rel \<Longrightarrow>
   read_blocks rel [i..<i + n] out = Inr (out @ concat (map page_data (slice_at i n rel)))"
proof (induction n arbitrary: i out)
  case 0
  then show ?case by (simp add: slice_at_def)
next
  case (Suc n)
  have u: "[i..<i + Suc n] = i # [Suc i..<Suc i + n]" by (simp add: upt_rec)
  from Suc.IH [of "Suc i" "out @ page_data (rel ! i)"] Suc.prems show ?case
    unfolding u by (simp add: slice_at_Suc read_page_item_into_eq)
qed

lemma read_blob_chunks_eq:
  "i + n \<le> length rel \<Longrightarrow>
   read_blob_chunks rel [i..<i + n] out = Inr (out @ concat (map page_data (slice_at i n rel)))"
proof (induction n arbitrary: i out)
  case 0
  then show ?case by (simp add: slice_at_def)
next
  case (Suc n)
  have u: "[i..<i + Suc n] = i # [Suc i..<Suc i + n]" by (simp add: upt_rec)
  from Suc.IH [of "Suc i" "out @ page_data (rel ! i)"] Suc.prems show ?case
    unfolding u by (simp add: slice_at_Suc read_page_item_into_eq)
qed

lemma read_blob_chunks_short:
  "i \<le> length rel \<Longrightarrow> length rel < i + n \<Longrightarrow> read_blob_chunks rel [i..<i + n] out = Inl MissingDataPage"
proof (induction n arbitrary: i out)
  case 0
  then show ?case by simp
next
  case (Suc n)
  have u: "[i..<i + Suc n] = i # [Suc i..<Suc i + n]" by (simp add: upt_rec)
  show ?case
  proof (cases "i = length rel")
    case True
    then show ?thesis unfolding u by simp
  next
    case False
    with Suc.IH [of "Suc i" "out @ page_data (rel ! i)"] Suc.prems show ?thesis
      unfolding u by (simp add: read_page_item_into_eq)
  qed
qed

section \<open>Blob storage\<close>

definition blob_chunks :: "bytes \<Rightarrow> bytes list" where
  "blob_chunks blob = (if blob = [] then [[]] else chunks CHUNK blob)"

lemma blob_chunks: "concat (blob_chunks blob) = blob" "length (blob_chunks blob) = max (div_ceil (length blob) CHUNK) 1"
proof -
  show "concat (blob_chunks blob) = blob" by (simp add: blob_chunks_def concat_chunks CHUNK_def)
  have "1 \<le> div_ceil (length blob) CHUNK" if "blob \<noteq> []"
  proof -
    have "1 \<le> length blob" using that by (cases blob) simp_all
    then show ?thesis by (simp add: div_ceil_def CHUNK_def)
  qed
  then show "length (blob_chunks blob) = max (div_ceil (length blob) CHUNK) 1"
    by (auto simp: blob_chunks_def length_chunks CHUNK_def div_ceil_def)
qed

subsection \<open>Pages that fit\<close>

lemma page_fits_one: "page_fits [data] \<longleftrightarrow> maxalign (length data) \<le> 8164"
  by (auto simp: page_fits_def page_cost_def layout_defs)

lemma page_fits_empty [simp]: "page_fits []"
  by (simp add: page_fits_def)

lemma page_fits_small: "length data \<le> 8000 \<Longrightarrow> page_fits [data]"
  by (simp add: page_fits_one maxalign_def)

lemma extend_item_ok: "page_fits [data] \<Longrightarrow> extend_page_with_item rel data = Inr (rel @ [[data]])"
  by (simp add: extend_page_with_item_def)

lemma extend_item_Inr: "extend_page_with_item rel data = Inr rel' \<longleftrightarrow> page_fits [data] \<and> rel' = rel @ [[data]]"
  by (auto simp: extend_page_with_item_def)

lemma extend_items_ok: "\<forall>c \<in> set cs. page_fits [c] \<Longrightarrow> iter_r extend_page_with_item rel cs = Inr (rel @ map (\<lambda>c. [c]) cs)"
  by (induction cs arbitrary: rel) (simp_all add: extend_item_ok)

lemma chunk_length: "c \<in> set (chunks k b) \<Longrightarrow> 0 < k \<Longrightarrow> length c \<le> k"
proof (induction k b rule: chunks.induct)
  case (1 k b)
  then show ?case by (subst (asm) chunks.simps) (auto split: if_splits)
qed

lemma blob_chunks_fit: "c \<in> set (blob_chunks blob) \<Longrightarrow> page_fits [c]"
  by (rule page_fits_small) (auto simp: blob_chunks_def CHUNK_def dest: chunk_length split: if_splits)

lemma blob_meta_fits: "page_fits [blob_meta blob]"
  by (rule page_fits_small) (simp add: blob_meta_def Let_def)

lemma write_blob_eq: "write_blob rel blob = Inr (rel @ [blob_meta blob] # map (\<lambda>c. [c]) (blob_chunks blob))"
proof -
  have "\<forall>c \<in> set (chunks CHUNK blob). page_fits [c]" if "blob \<noteq> []" using blob_chunks_fit [of _ blob] that by (simp add: blob_chunks_def)
  then show ?thesis
    by (auto simp: write_blob_def blob_chunks_def extend_item_ok [OF blob_meta_fits] extend_items_ok extend_item_ok [OF page_fits_small])
qed

definition blob_fits :: "bytes \<Rightarrow> bool" where
  "blob_fits blob \<longleftrightarrow> length blob < 2 ^ 64 \<and> Suc (length (blob_chunks blob)) < 2 ^ 32"

lemma blob_meta_fields:
  assumes "blob_fits blob"
  shows "length (blob_meta blob) = 20" "u32_at 0 (blob_meta blob) = META_MAGIC"
    "unat (from_le (slice_at 8 8 (blob_meta blob)) :: u64) = length blob"
    "u32_at 16 (blob_meta blob) = of_nat (length (blob_chunks blob))"
proof -
  have m: "blob_meta blob = to_le META_MAGIC @ to_le META_VERSION @ to_le (of_nat (length blob) :: u64) @
      to_le (of_nat (length (blob_chunks blob)) :: u32)"
    by (simp only: blob_meta_def Let_def blob_chunks(2))
  show "length (blob_meta blob) = 20" "u32_at 0 (blob_meta blob) = META_MAGIC"
    "unat (from_le (slice_at 8 8 (blob_meta blob)) :: u64) = length blob"
    "u32_at 16 (blob_meta blob) = of_nat (length (blob_chunks blob))"
    using assms field_reads(1) [where rest = "[]"]
    by (simp_all add: m u32_at_def field_reads blob_fits_def unat_of_nat_u64)
qed

lemma read_blob_eq:
  assumes "blob_fits blob" and "0 < length rel" and "page_data (rel ! 0) = blob_meta blob"
  shows "read_blob rel = bind_r (read_blob_chunks rel [1..<1 + length (blob_chunks blob)] [])
    (\<lambda>b. if length b \<noteq> length blob then Inl BlobLength else Inr b)"
proof -
  note f = blob_meta_fields [OF assms(1)]
  have "unat (u32_at 16 (blob_meta blob)) = length (blob_chunks blob)"
    using assms(1) unfolding f(4) blob_fits_def by (intro unat_of_nat_u32) linarith
  with f assms(2,3) show ?thesis by (simp add: read_blob_def read_page_item_eq Let_def)
qed

lemma read_blob_pages:
  assumes "blob_fits blob" and "length (blob_chunks blob) < length rel"
    and "page_data (rel ! 0) = blob_meta blob"
    and "map page_data (slice_at 1 (length (blob_chunks blob)) rel) = blob_chunks blob"
  shows "read_blob rel = Inr blob"
proof -
  have "0 < length rel" "1 + length (blob_chunks blob) \<le> length rel" using assms(2) by linarith+
  then show ?thesis
    using read_blob_eq [OF assms(1) _ assms(3)] read_blob_chunks_eq [of 1 "length (blob_chunks blob)" rel "[]"]
      assms(4) by (simp add: blob_chunks(1))
qed

lemma read_write_blob: "blob_fits blob \<Longrightarrow> write_blob [] blob = Inr w \<Longrightarrow> read_blob w = Inr blob"
  by (rule read_blob_pages) (auto simp: write_blob_eq slice_at_def comp_def)

lemma read_torn_blob:
  assumes "blob_fits blob" and "write_blob [] blob = Inr w" and "0 < k" and "k < length w"
  shows "read_blob (take k w) = Inl MissingDataPage"
proof -
  let ?rel = "take k w"
  have w: "w = [blob_meta blob] # map (\<lambda>c. [c]) (blob_chunks blob)" using assms(2) by (simp add: write_blob_eq)
  have l: "length ?rel = k" using assms(4) by simp
  then have "page_data (?rel ! 0) = blob_meta blob" using assms(3) by (simp add: w)
  moreover have "read_blob_chunks ?rel [1..<1 + length (blob_chunks blob)] [] = Inl MissingDataPage"
    using assms(3,4) l by (intro read_blob_chunks_short) (simp_all add: w)
  moreover have "0 < length ?rel" using l assms(3) by linarith
  ultimately show ?thesis using read_blob_eq [OF assms(1), of ?rel] by simp
qed

lemma rewrite_pages_ok:
  assumes "i \<le> length rel" and "nblocks \<le> length rel" and "length rel = max nblocks i" and "\<forall>c \<in> set blocks. page_fits [c]"
  shows "\<exists>R. rewrite_pages nblocks i blocks rel = Inr R \<and> length R = max nblocks (i + length blocks) \<and>
    take i R = take i rel \<and> map page_data (slice_at i (length blocks) R) = blocks \<and>
    drop (i + length blocks) R = drop (i + length blocks) rel"
  using assms
proof (induction nblocks i blocks rel rule: rewrite_pages.induct)
  case (1 nblocks i rel)
  then show ?case by (simp add: slice_at_def)
next
  case (2 nblocks i data blocks rel)
  let ?p = "if data = [] \<and> i < nblocks then [] else [data]"
  let ?rel = "if i < nblocks then rel[i := ?p] else rel @ [?p]"
  have w: "(if i < nblocks then reinit_page_with_item rel i data else extend_page_with_item rel data) = Inr ?rel"
    using "2.prems"(4) by (auto simp: reinit_page_with_item_def extend_page_with_item_def)
  have r: "length ?rel = max nblocks (Suc i)" "take i ?rel = take i rel"
    "i < length ?rel" "page_data (?rel ! i) = data" "drop (Suc i) ?rel = drop (Suc i) rel"
    using "2.prems" by (auto simp: nth_append max_def)
  have "Suc i \<le> length ?rel" "nblocks \<le> length ?rel" using r(1) by simp_all
  from "2.IH" [OF w this r(1)] "2.prems"(4) obtain R where IH: "rewrite_pages nblocks (Suc i) blocks ?rel = Inr R"
    "length R = max nblocks (Suc i + length blocks)" "take (Suc i) R = take (Suc i) ?rel"
    "map page_data (slice_at (Suc i) (length blocks) R) = blocks"
    "drop (Suc i + length blocks) R = drop (Suc i + length blocks) ?rel" by auto
  have i: "i < length R" using IH(2) by simp
  have "take i R = take i ?rel" using arg_cong [OF IH(3), of "take i"] by simp
  moreover have "R ! i = ?rel ! i" using arg_cong [OF IH(3), of "\<lambda>l. l ! i"] by simp
  moreover have "drop (Suc i + length blocks) ?rel = drop (Suc i + length blocks) rel"
    using arg_cong [OF r(5), of "drop (length blocks)"] by (simp add: add.commute)
  moreover have "rewrite_pages nblocks i (data # blocks) rel = Inr R" using IH(1) by (simp add: w)
  ultimately show ?case using IH(2-) r i by (simp add: slice_at_Suc)
qed

lemma empty_pages_ok:
  "\<exists>R. empty_pages rel bs = Inr R \<and> length R = length rel \<and>
   (\<forall>j < length rel. R ! j = (if j \<in> set bs then [] else rel ! j))"
proof (induction bs arbitrary: rel)
  case Nil
  then show ?case by (simp add: empty_pages_def)
next
  case (Cons b bs)
  have "empty_pages rel (b # bs) = empty_pages (rel[b := []]) bs"
    by (simp add: empty_pages_def reinit_page_with_item_def)
  with Cons.IH [of "rel[b := []]"] show ?case by (auto simp: nth_list_update)
qed

lemma rewrite_blob_ok: "\<exists>R. rewrite_blob rel blob = Inr R"
  and rewrite_blob_pages: "rewrite_blob rel blob = Inr R \<Longrightarrow> length R = max (length rel) (Suc (length (blob_chunks blob)))"
    "rewrite_blob rel blob = Inr R \<Longrightarrow> page_data (R ! 0) = blob_meta blob"
    "rewrite_blob rel blob = Inr R \<Longrightarrow> map page_data (slice_at 1 (length (blob_chunks blob)) R) = blob_chunks blob"
    "rewrite_blob rel blob = Inr R \<Longrightarrow> \<forall>j. Suc (length (blob_chunks blob)) \<le> j \<and> j < length R \<longrightarrow> R ! j = []"
proof -
  let ?bs = "blob_meta blob # blob_chunks blob" and ?n = "length rel"
  have "\<forall>c \<in> set ?bs. page_fits [c]" using blob_chunks_fit blob_meta_fits by auto
  with rewrite_pages_ok [of 0 rel ?n ?bs] obtain P where P: "rewrite_pages ?n 0 ?bs rel = Inr P" "length P = max ?n (length ?bs)"
    "map page_data (slice_at 0 (length ?bs) P) = ?bs" by (auto simp del: rewrite_pages.simps)
  from empty_pages_ok [of P "[length ?bs..<?n]"] obtain Q where Q: "empty_pages P [length ?bs..<?n] = Inr Q" "length Q = length P"
    "\<forall>j < length P. Q ! j = (if j \<in> set [length ?bs..<?n] then [] else P ! j)" by blast
  have e: "rewrite_blob rel blob = Inr Q"
    using P(1) Q(1) by (simp add: rewrite_blob_def blob_chunks_def Let_def del: rewrite_pages.simps)
  then show "\<exists>R. rewrite_blob rel blob = Inr R" by blast
  assume "rewrite_blob rel blob = Inr R"
  then have R: "R = Q" using e by simp
  show l: "length R = max ?n (Suc (length (blob_chunks blob)))" using P(2) Q(2) by (simp add: R)
  have same: "R ! j = P ! j" if "j < length ?bs" for j using Q that P(2) by (simp add: R)
  have data: "page_data (R ! j) = ?bs ! j" if "j < length ?bs" for j
    using arg_cong [OF P(3), of "\<lambda>l. l ! j"] that P(2) same [OF that] by (simp add: slice_at_def)
  show "page_data (R ! 0) = blob_meta blob" using data [of 0] by simp
  show "map page_data (slice_at 1 (length (blob_chunks blob)) R) = blob_chunks blob"
  proof (rule nth_equalityI)
    fix j assume "j < length (map page_data (slice_at 1 (length (blob_chunks blob)) R))"
    then have "j < length (blob_chunks blob)" using l by (simp add: slice_at_def)
    with data [of "Suc j"] l show "map page_data (slice_at 1 (length (blob_chunks blob)) R) ! j
      = blob_chunks blob ! j" by (simp add: slice_at_def)
  qed (simp add: l slice_at_def)
  show "\<forall>j. Suc (length (blob_chunks blob)) \<le> j \<and> j < length R \<longrightarrow> R ! j = []"
    using Q P(2) l by (auto simp: R)
qed

lemma read_rewrite_blob: "blob_fits blob \<Longrightarrow> rewrite_blob rel blob = Inr R \<Longrightarrow> read_blob R = Inr blob"
  by (rule read_blob_pages [OF _ _ rewrite_blob_pages(2,3)]) (simp_all add: rewrite_blob_pages(1))

section \<open>The extent of the main index\<close>

lemma sat_add_ge: "unat a \<le> unat (sat_add a b)"
proof (cases "unat a + unat b < 2 ^ 32")
  case True
  then have "unat (a + b) = unat a + unat b" by (simp add: unat_word_ariths)
  with True show ?thesis by (simp add: sat_add_def)
next
  case False
  then show ?thesis using word_n1_ge [of a] by (simp add: sat_add_def word_le_nat_alt)
qed

lemma sum_entries_ge: "unat acc \<le> unat (sum_entries stride offs d is acc)"
proof (induction stride offs d "is" acc rule: sum_entries.induct)
  case (2 stride offs d i "is" acc)
  have "unat acc \<le> unat (foldl (\<lambda>t off. sat_add t (u32_at (i * stride + off) d)) acc os)" for os
    by (induction os arbitrary: acc) (auto intro: order_trans [OF sat_add_ge])
  with "2.IH" show ?case by (auto intro: order_trans)
qed simp

text \<open>A directory range that ends below the extent lies wholly below it, wrap-around included.\<close>

lemma range_below:
  assumes "unat (sat_add first n) \<le> unat p" and "b \<in> {unat first..<unat (first + n)}"
  shows "b < unat p"
proof (cases "unat first + unat n < 2 ^ 32")
  case True
  then have "unat (first + n) = unat first + unat n" by (simp add: unat_word_ariths)
  with True assms show ?thesis by (simp add: sat_add_def)
next
  case False
  have "unat first < 2 ^ 32" "unat n < 2 ^ 32" using unsigned_less [of first] unsigned_less [of n] by simp_all
  with False have "unat (first + n) < unat first"
    unfolding unat_word_ariths by (subst le_mod_geq) simp_all
  with assms(2) show ?thesis by simp
qed

lemma read_blocks_cong:
  "\<forall>b \<in> set bs. b < length rel \<and> b < length rel' \<and> rel' ! b = rel ! b \<Longrightarrow>
   read_blocks rel' bs out = read_blocks rel bs out"
  by (induction bs arbitrary: out) (simp_all add: read_page_item_into_def)

lemma read_chunked_cong:
  assumes "unat (sat_add first n) \<le> unat p" and "unat p \<le> length rel" and "length rel \<le> length rel'"
    and "take (unat p) rel' = take (unat p) rel"
  shows "read_chunked rel' first n = read_chunked rel first n"
  unfolding read_chunked_def
proof (rule read_blocks_cong, intro ballI conjI)
  fix b assume "b \<in> set [unat first..<unat (first + n)]"
  then have b: "b < unat p" using range_below [OF assms(1)] by simp
  with assms(2,3) show "b < length rel" "b < length rel'" by simp_all
  from b arg_cong [OF assms(4), of "\<lambda>l. l ! b"] show "rel' ! b = rel ! b" by simp
qed

text \<open>The extent of the main index is read from blocks below the extent only.\<close>

lemma directory_local:
  assumes ok: "bind_r (read_chunked rel gb dn) (\<lambda>d. if length d < k then Inl TruncatedDirectory
      else Inr (sum_entries stride offs d is acc)) = Inr p"
    and acc: "unat (sat_add gb dn) \<le> unat acc"
    and same: "unat p \<le> length rel" "length rel \<le> length rel'" "take (unat p) rel' = take (unat p) rel"
  shows "bind_r (read_chunked rel' gb dn) (\<lambda>d. if length d < k then Inl TruncatedDirectory
      else Inr (sum_entries stride offs d is acc)) = Inr p"
proof -
  from ok obtain d where "read_chunked rel gb dn = Inr d" "p = sum_entries stride offs d is acc"
    by (auto simp: bind_r_Inr_iff split: if_splits)
  then have "unat (sat_add gb dn) \<le> unat p" using order_trans [OF acc sum_entries_ge] by simp
  with ok show ?thesis by (simp only: read_chunked_cong [OF _ same])
qed

lemmas sat_add_chain = order.refl sat_add_ge order_trans [OF sat_add_ge sat_add_ge]

lemma pending_starts_local:
  assumes same: "unat p \<le> length rel" "length rel \<le> length rel'" "take (unat p) rel' = take (unat p) rel"
  shows "pending_start_v4 rel m = Inr p \<Longrightarrow> pending_start_v4 rel' m = Inr p"
    and "pending_start_v5_v7 rel m = Inr p \<Longrightarrow> pending_start_v5_v7 rel' m = Inr p"
    and "pending_start_v6_v8 rel m = Inr p \<Longrightarrow> pending_start_v6_v8 rel' m = Inr p"
    and "pending_start_v2_v3 rel m ver = Inr p \<Longrightarrow> pending_start_v2_v3 rel' m ver = Inr p"
proof -
  show "pending_start_v4 rel' m = Inr p" if "pending_start_v4 rel m = Inr p"
    using that unfolding pending_start_v4_def Let_def
    by (simp split: if_split_asm) (erule directory_local [OF _ _ same], intro sat_add_chain)
  show "pending_start_v5_v7 rel' m = Inr p" if "pending_start_v5_v7 rel m = Inr p"
    using that unfolding pending_start_v5_v7_def Let_def
    by (simp split: if_split_asm) (erule directory_local [OF _ _ same], intro sat_add_chain)
  show "pending_start_v6_v8 rel' m = Inr p" if "pending_start_v6_v8 rel m = Inr p"
    using that unfolding pending_start_v6_v8_def Let_def
    by (simp split: if_split_asm)
      (erule directory_local [OF _ _ same], rule order_trans [OF sat_add_ge order_trans [OF sat_add_ge sat_add_ge]])
  show "pending_start_v2_v3 rel' m ver = Inr p" if "pending_start_v2_v3 rel m ver = Inr p"
    using that unfolding pending_start_v2_v3_def Let_def
    by (cases "ver = 3"; simp split: if_split_asm) (erule directory_local [OF _ _ same], rule sat_add_ge)+
qed

lemma main_index_pages_local:
  assumes "main_index_pages rel = Inr p" and "p \<noteq> 0" and same: "unat p \<le> length rel" "length rel \<le> length rel'"
    "take (unat p) rel' = take (unat p) rel"
  shows "main_index_pages rel' = Inr p"
proof -
  have "0 < unat p" using assms(2) by (simp add: unat_gt_0)
  then have "0 < length rel" "0 < length rel'" "rel' ! 0 = rel ! 0"
    using same(1,2) arg_cong [OF same(3), of "\<lambda>l. l ! 0"] by (linarith, linarith, simp)
  then have r0: "read_page_item rel' 0 = read_page_item rel 0" by (simp only: read_page_item_eq)
  note local = pending_starts_local [OF same]
  from assms(1) obtain m where m: "read_page_item rel 0 = Inr m" by (auto simp: main_index_pages_def bind_r_Inr_iff)
  show ?thesis
    using assms(1) local [of m] unfolding main_index_pages_def r0 m Let_def
    by (auto split: if_split_asm)
qed

section \<open>Appending and reading pending entries\<close>

lemma f32s_at_bytes:
  assumes "slice_at off (4 * length fs) b = f32s_bytes fs"
  shows "f32s_at off (length fs) b = fs"
proof (rule nth_equalityI)
  fix i assume "i < length (f32s_at off (length fs) b)"
  then have i: "i < length fs" by (simp add: f32s_at_def)
  have blk: "slice_at (i * 4) 4 (f32s_bytes fs) = to_le (fs ! i)" using i
  proof (induction fs arbitrary: i)
    case (Cons f fs)
    then show ?case by (cases i) (simp_all add: f32s_bytes_def field_reads)
  qed simp
  have "slice_at (off + i * 4) 4 b = slice_at (i * 4) 4 (slice_at off (4 * length fs) b)"
    using i by (simp add: slice_at_def drop_take min_def add.commute)
  then show "f32s_at off (length fs) b ! i = fs ! i" using i blk assms by (simp add: f32s_at_def)
qed (simp add: f32s_at_def)

lemma decode_encode_pending:
  assumes "length v < 2 ^ 32"
  shows "decode_pending (encode_pending tid v) = Inr (tid, v)"
proof -
  have "slice_at 12 (4 * length v) (encode_pending tid v) = f32s_bytes v"
    by (simp add: encode_pending_def slice_at_def)
  from f32s_at_bytes [OF this] show ?thesis
    using assms by (simp add: decode_pending_def encode_pending_def u32_at_def field_reads mult.commute)
qed

lemma map_r_append: "map_r f (xs @ ys) = bind_r (map_r f xs) (\<lambda>us. bind_r (map_r f ys) (\<lambda>vs. Inr (us @ vs)))"
proof (induction xs)
  case Nil
  then show ?case by (cases "map_r f ys") simp_all
next
  case (Cons x xs)
  then show ?case by (cases "f x"; cases "map_r f xs"; cases "map_r f ys") simp_all
qed

lemma encode_pending_nonempty: "encode_pending tid v \<noteq> []"
  by (simp add: encode_pending_def)

lemma read_pending_eq:
  "pending_layout rel = Inr (p, n) \<Longrightarrow> p \<noteq> 0 \<Longrightarrow> unat p \<le> n \<Longrightarrow>
   read_pending rel = map_r decode_pending (concat (map (read_all_page_items rel) [unat p..<n]))"
  by (cases "unat p = n") (simp_all add: read_pending_def Let_def word_neq_0_conv)

lemma read_pending_none:
  assumes "pending_layout rel = Inr (p, length rel)" and "p \<noteq> 0" and "unat p \<le> length rel"
    and "\<And>j. unat p \<le> j \<Longrightarrow> j < length rel \<Longrightarrow> rel ! j = []"
  shows "read_pending rel = Inr []"
proof -
  have "concat (map (read_all_page_items rel) [unat p..<length rel]) = []"
    using assms(4) by (simp add: read_all_page_items_def)
  then show ?thesis unfolding read_pending_eq [OF assms(1-3)] by (simp only: map_r.simps)
qed

lemma pending_layout_n: "pending_layout rel = Inr (p, n) \<Longrightarrow> n = length rel"
  by (auto simp: pending_layout_def bind_r_Inr_iff split: if_splits)

text \<open>An append puts the item behind all others of the pending region and touches no block below it.\<close>

lemma append_pending_items:
  assumes lay: "pending_layout rel = Inr (p, n)" "p \<noteq> 0" "unat p \<le> n"
    and app: "append_pending free can_add rel tid v = Inr rel'"
  shows "pending_layout rel' = Inr (p, length rel') \<and> n \<le> length rel' \<and> take (unat p) rel' = take (unat p) rel \<and>
    concat (map (read_all_page_items rel') [unat p..<length rel']) =
    concat (map (read_all_page_items rel) [unat p..<n]) @ [encode_pending tid v]"
proof -
  let ?item = "encode_pending tid v"
  have n: "n = length rel" by (rule pending_layout_n [OF lay(1)])
  have "length rel \<noteq> 0" using lay(2,3) n by (metis le_zero_eq unat_eq_0)
  then have main: "main_index_pages rel = Inr p" using lay(1) by (auto simp: pending_layout_def bind_r_Inr_iff)
  consider (add) "unat p < n" "rel' = rel[n - 1 := rel ! (n - 1) @ [?item]]" | (ext) "rel' = rel @ [[?item]]"
    using app lay
    by (auto simp: append_pending_def try_add_to_page_def extend_item_Inr Let_def split: if_splits)
  then have "length rel \<le> length rel' \<and> take (unat p) rel' = take (unat p) rel \<and>
      concat (map (read_all_page_items rel') [unat p..<length rel']) =
      concat (map (read_all_page_items rel) [unat p..<n]) @ [?item]"
  proof cases
    case add
    have split: "[unat p..<n] = [unat p..<n - 1] @ [n - 1]"
      using add(1) upt_Suc_append [of "unat p" "n - 1"] by simp
    have "map (read_all_page_items rel') [unat p..<n - 1] = map (read_all_page_items rel) [unat p..<n - 1]"
      by (simp add: add(2) read_all_page_items_def)
    moreover have "read_all_page_items rel' (n - 1) = read_all_page_items rel (n - 1) @ [?item]"
      using add n by (simp add: read_all_page_items_def encode_pending_nonempty)
    moreover have "length rel' = n" by (simp add: add(2) n)
    ultimately have "concat (map (read_all_page_items rel') [unat p..<length rel']) =
        concat (map (read_all_page_items rel) [unat p..<n]) @ [?item]"
      by (simp only: split map_append concat_append list.map concat.simps append_Nil2 append_assoc)
    then show ?thesis using add(1) by (simp add: add(2) n)
  next
    case ext
    have "[unat p..<length rel'] = [unat p..<n] @ [n]"
      using lay(3) upt_Suc_append [of "unat p" n] by (simp add: ext n)
    moreover have "map (read_all_page_items rel') [unat p..<n] = map (read_all_page_items rel) [unat p..<n]"
      by (simp add: ext read_all_page_items_def nth_append n)
    moreover have "read_all_page_items rel' n = [?item]"
      by (simp add: ext n read_all_page_items_def encode_pending_nonempty)
    ultimately have "concat (map (read_all_page_items rel') [unat p..<length rel']) =
        concat (map (read_all_page_items rel) [unat p..<n]) @ [?item]"
      by (simp only: map_append concat_append list.map concat.simps append_Nil2)
    then show ?thesis using lay(3) by (simp add: ext n)
  qed
  moreover from this have "main_index_pages rel' = Inr p"
    by (intro main_index_pages_local [OF main lay(2)]) (use lay(3) n in simp_all)
  moreover from calculation have "length rel' \<noteq> 0" using \<open>length rel \<noteq> 0\<close> by linarith
  ultimately show ?thesis by (simp add: pending_layout_def n)
qed

lemma read_pending_append:
  assumes read: "read_pending rel = Inr ps" and lay: "pending_layout rel = Inr (p, n)" "unat p \<le> n"
    and app: "append_pending free can_add rel tid v = Inr rel'" and v: "length v < 2 ^ 32"
  shows "read_pending rel' = Inr (ps @ [(tid, v)])"
proof -
  have p: "p \<noteq> 0" using app lay(1) by (auto simp: append_pending_def)
  note a = append_pending_items [OF lay(1) p lay(2) app]
  have "read_pending rel' = map_r decode_pending (concat (map (read_all_page_items rel) [unat p..<n]) @ [encode_pending tid v])"
    using a lay(2) by (subst read_pending_eq [of rel' p "length rel'"]) (simp_all add: p)
  also have "\<dots> = Inr (ps @ [(tid, v)])"
    using read unfolding read_pending_eq [OF lay(1) p lay(2)]
    by (simp add: map_r_append decode_encode_pending [OF v])
  finally show ?thesis .
qed

lemma rewrite_blob_layout:
  assumes "blob_fits blob" and "rewrite_blob rel blob = Inr R"
  shows "pending_layout R = Inr (of_nat (Suc (length (blob_chunks blob))), length R)"
proof -
  note f = blob_meta_fields [OF assms(1)]
  have l: "0 < length R" by (simp add: rewrite_blob_pages(1) [OF assms(2)])
  then have "main_index_pages R = Inr (of_nat (Suc (length (blob_chunks blob))))"
    using f by (simp add: main_index_pages_def read_page_item_eq rewrite_blob_pages(2) [OF assms(2)] Let_def META_MAGIC_def
        IVF_STRUCT_MAGIC_def HNSW_STRUCT_MAGIC_def)
  with l show ?thesis by (simp add: pending_layout_def)
qed

lemma read_pending_rewrite_blob:
  assumes "blob_fits blob" and "rewrite_blob rel blob = Inr R"
  shows "read_pending R = Inr []"
proof -
  let ?k = "Suc (length (blob_chunks blob))"
  have k: "unat (of_nat ?k :: u32) = ?k" using assms(1) unfolding blob_fits_def by (intro unat_of_nat_u32) simp
  then have p0: "(of_nat ?k :: u32) \<noteq> 0" by (metis Zero_not_Suc unsigned_0)
  have none: "concat (map (read_all_page_items R) [?k..<length R]) = []"
    using rewrite_blob_pages(4) [OF assms(2)] by (auto simp: read_all_page_items_def Suc_le_eq)
  have "unat (of_nat ?k :: u32) \<le> length R" unfolding k rewrite_blob_pages(1) [OF assms(2)] by simp
  from read_pending_eq [OF rewrite_blob_layout [OF assms] p0 this] show ?thesis
    by (simp only: k none map_r.simps)
qed

section \<open>Element tuples misread as pending entries\<close>

lemma drop_le_of_nat: "drop k (le_of_nat (k + n) x) = le_of_nat n (x div 256 ^ k)"
proof (induction k arbitrary: x)
  case (Suc k)
  then show ?case by (simp add: div_mult2_eq)
qed simp

lemma from_le_high_half: "from_le (slice_at 4 4 (to_le (w :: u64))) = (ucast (drop_bit 32 w) :: u32)"
proof -
  have "slice_at 4 4 (to_le w) = le_of_nat 4 (unat w div 256 ^ 4)"
    using drop_le_of_nat [of 4 4 "unat w"] by (simp add: to_le_def slice_at_def)
  moreover have "nat_of_le (le_of_nat 4 (unat w div 256 ^ 4)) = (unat w div 2 ^ 32) mod 2 ^ 32"
    by (simp add: nat_of_le_le_of_nat)
  ultimately have "from_le (slice_at 4 4 (to_le w)) = (of_nat ((unat w div 2 ^ 32) mod 2 ^ 32) :: u32)"
    by (simp add: from_le_def)
  also have "\<dots> = ucast (drop_bit 32 w)"
    by (rule word_unat_eq_iff [THEN iffD2])
      (simp add: unat_of_nat unsigned_ucast_eq unsigned_drop_bit_eq drop_bit_eq_div take_bit_eq_mod unat_div del: of_nat_mod)
  finally show ?thesis .
qed

lemma element_pending_dim:
  assumes "length (node_vector x node) = dim" and "encode_element x node nbr_addr dim code = Some b"
  shows "u32_at 8 b = ucast (drop_bit 32 (node_id x node))" "length b = elem_size dim (length code)"
proof -
  have "slice_at 8 4 b = slice_at 4 4 (slice_at E_TID 8 b)"
    by (simp add: slice_at_def E_TID_def drop_take)
  moreover have "slice_at E_TID 8 b = to_le (node_id x node)"
    using assms
    by (cases "code = []")
      (auto simp: encode_element_def Let_def layout_defs elem_size_def put_f32s_eq copy_tail_def codec_simps)
  ultimately show "u32_at 8 b = ucast (drop_bit 32 (node_id x node))"
    by (simp add: u32_at_def from_le_high_half)
  show "length b = elem_size dim (length code)"
    using assms
    by (cases "code = []")
      (auto simp: encode_element_def Let_def layout_defs elem_size_def put_f32s_eq copy_tail_def codec_simps)
qed

section \<open>Properties\<close>

text \<open>C23: An insert is never lost and never reorders the pending region: after \<open>append_pending\<close>, a scan
  reads exactly the entries it read before, in order, followed by the new one with its vector bit for
  bit, whether the entry went to the last page or to a fresh one, and for every index layout.\<close>

theorem pending_append_read:
  assumes "read_pending rel = Inr ps" and "pending_layout rel = Inr (p, n)" and "unat p \<le> n"
    and "append_pending free can_add rel tid v = Inr rel'" and "length v < 2 ^ 32"
  shows "read_pending rel' = Inr (ps @ [(tid, v)])"
  using read_pending_append [OF assms] .

lemma blob_small:
  "blob_fits [1 :: u8]" "\<exists>R. rewrite_blob [] [1] = Inr R \<and> pending_layout R = Inr (2, 2)"
proof -
  have c: "blob_chunks [1 :: u8] = [[1]]" by (simp add: blob_chunks_def chunks.simps CHUNK_def)
  then show fits: "blob_fits [1 :: u8]" by (simp add: blob_fits_def)
  obtain R where R: "rewrite_blob [] [1] = Inr R" using rewrite_blob_ok by blast
  from rewrite_blob_layout [OF fits R] R c show "\<exists>R. rewrite_blob [] [1] = Inr R \<and> pending_layout R = Inr (2, 2)"
    by (simp add: rewrite_blob_pages(1))
qed

theorem pending_append_read_witness:
  "\<exists>rel rel'. rewrite_blob [] [1] = Inr rel \<and> append_pending (\<lambda>_. 0) (\<lambda>_ _. True) rel 7 [5, 6] = Inr rel' \<and>
     read_pending rel' = Inr [(7, [5, 6])]"
proof -
  obtain rel where r: "rewrite_blob [] [1] = Inr rel" "pending_layout rel = Inr (2, 2)" using blob_small(2) by blast
  have "page_fits [encode_pending 7 [5, 6]]" by (rule page_fits_small) (simp add: encode_pending_def)
  then obtain rel' where a: "append_pending (\<lambda>_. 0) (\<lambda>_ _. True) rel 7 [5, 6] = Inr rel'"
    using r(2) by (simp add: append_pending_def extend_item_ok)
  have "read_pending rel' = Inr ([] @ [(7, [5, 6])])"
    by (rule pending_append_read [OF read_pending_rewrite_blob [OF blob_small(1) r(1)] r(2) _ a]) simp_all
  with a r show ?thesis by simp
qed

text \<open>C24: The blob survives its storage: written to a fresh relation or rewritten over any old contents (neither write
  fails) it is read back byte for byte, the rewrite leaves no pending entries, and an initial write interrupted after
  any number of pages is reported as a missing page, never read as a shorter blob.\<close>

theorem blob_storage:
  assumes "blob_fits blob"
  shows "\<exists>w rw. write_blob [] blob = Inr w \<and> rewrite_blob rel blob = Inr rw \<and>
    read_blob w = Inr blob \<and> read_blob rw = Inr blob \<and> read_pending rw = Inr [] \<and>
    (\<forall>k. 0 < k \<and> k < length w \<longrightarrow> read_blob (take k w) = Inl MissingDataPage)"
proof -
  obtain rw where "rewrite_blob rel blob = Inr rw" using rewrite_blob_ok by blast
  then show ?thesis
    using read_write_blob [OF assms] read_rewrite_blob [OF assms] read_pending_rewrite_blob [OF assms]
      read_torn_blob [OF assms] write_blob_eq [of "[]" blob] by metis
qed

theorem blob_storage_witness: "\<exists>rw. rewrite_blob [[[9, 9]], [], [[8]]] [1] = Inr rw \<and> read_blob rw = Inr [1]"
  using blob_storage [OF blob_small(1)] by metis

text \<open>C33: The length check of \<open>read_pending\<close> does not tell an orphan element tuple from a pending entry: an
  element tuple left in the pending range by an interrupted fold is accepted as an entry exactly when the
  upper half of its heap TID is two more than its dimension (no trailing code), which a heap beyond
  \<open>(dim + 2) * 2 ^ 16\<close> blocks reaches. The scan then ranks a vector made of pointer bytes.\<close>

theorem orphan_element_as_pending:
  assumes "length (node_vector x node) = dim" and "encode_element x node nbr_addr dim [] = Some b"
  shows "is_ok (decode_pending b) \<longleftrightarrow> unat (ucast (drop_bit 32 (node_id x node)) :: u32) = dim + 2"
  using element_pending_dim [OF assms]
  by (auto simp: decode_pending_def Let_def elem_size_def layout_defs)

theorem orphan_element_as_pending_witness:
  "\<exists>b e. encode_element (one_node\<lparr>hx_ids := [push_bit 32 4 OR 1]\<rparr>) 0 (2, 1) 2 [] = Some b \<and>
     decode_pending b = Inr e"
proof -
  let ?x = "one_node\<lparr>hx_ids := [push_bit 32 4 OR 1]\<rparr>"
  have len: "length (node_vector ?x 0) = 2" by (simp add: node_vector_def one_node_def)
  obtain b where b: "encode_element ?x 0 (2, 1) 2 [] = Some b"
    using element_roundtrip [OF len, of "(2, 1)" "[]"] by auto
  have "is_ok (decode_pending b)"
    unfolding orphan_element_as_pending [OF len b] by (simp add: node_id_def)
  with b show ?thesis by (auto simp: is_ok_iff)
qed

end
