(* ===== verification/HnswStore.thy ===== *)
theory HnswStore
  imports Pages
begin

text \<open>
  The page-native HNSW index on its relation (\<open>am/hnsw_page/store.rs\<close>): writing the images, reading the
  meta with its codebook, enumerating the stored entries, and the in-place edits of element and
  neighbour tuples (tombstones, reuse of a tombstoned slot, new ground neighbours).
\<close>

definition write_structured :: "relation \<Rightarrow> packed \<Rightarrow> page_error + relation" where
  "write_structured rel packed =
     bind_r (extend_page_with_items rel [pk_meta packed]) (\<lambda>rel. iter_r extend_page_with_items rel (pk_pages packed))"

text \<open>Reading the items of a block past the end of the fork is an error raised by the buffer manager.\<close>

definition page_items :: "relation \<Rightarrow> nat \<Rightarrow> page_error + bytes list" where
  "page_items rel block =
     (if block \<ge> length rel then Inl (PageOutOfRange block) else Inr (read_all_page_items rel block))"

definition block_range :: "u32 \<Rightarrow> u32 \<Rightarrow> nat list" where
  "block_range first npages = [unat first..<unat (first + npages)]"

definition read_codebook_pages :: "relation \<Rightarrow> u32 \<Rightarrow> u32 \<Rightarrow> nat \<Rightarrow> page_error + bytes" where
  "read_codebook_pages rel first npages cb_len =
     (if unat first + unat npages > length rel then Inl CodebookRange
      else bind_r (map_r (page_items rel) (block_range first npages)) (\<lambda>items.
        let cb = concat (concat items) in if length cb \<noteq> cb_len then Inl CodebookLengthErr else Inr cb))"

definition meta_err :: "meta_error + 'a \<Rightarrow> page_error + 'a" where
  "meta_err r = (case r of Inl e \<Rightarrow> Inl (MetaErr e) | Inr x \<Rightarrow> Inr x)"

definition tuple_err :: "tuple_error + 'a \<Rightarrow> page_error + 'a" where
  "tuple_err r = (case r of Inl e \<Rightarrow> Inl (TupleErr e) | Inr x \<Rightarrow> Inr x)"

lemma err_simps [simp]:
  "meta_err (Inr x) = Inr x" "meta_err (Inl e) = Inl (MetaErr e)"
  "tuple_err (Inr x) = Inr x" "tuple_err (Inl f) = Inl (TupleErr f)"
  by (simp_all add: meta_err_def tuple_err_def)

definition read_meta :: "relation \<Rightarrow> page_error + hnsw_meta" where
  "read_meta rel =
     bind_r (read_page_item_at rel 0 1) (\<lambda>b.
     bind_r (meta_err (decode_meta b)) (\<lambda>meta.
       if hm_aq_m meta \<noteq> 0 then
         bind_r (meta_err (decode_aq_descriptor b (hm_raw_npages meta \<noteq> 0))) (\<lambda>d.
         bind_r (read_codebook_pages rel (hm_aq_cb_first meta) (hm_aq_cb_npages meta) (ad_cb_len d)) (\<lambda>cb.
         Inr (meta\<lparr>hm_aq_codebook := cb\<rparr>)))
       else Inr meta))"

section \<open>Enumerating the entries\<close>

definition bytes_to_vec :: "bytes \<Rightarrow> f32_bits list" where
  "bytes_to_vec vb = f32s_at 0 (length vb div 4) vb"

text \<open>One element item: \<open>None\<close> for a tombstone.\<close>

definition entry_of_item :: "relation \<Rightarrow> bool \<Rightarrow> bytes \<Rightarrow> page_error + (i64 \<times> f32_bits list) option" where
  "entry_of_item rel is_v4 item =
     (if is_v4 then
        bind_r (tuple_err (decode_element_v4 item)) (\<lambda>ev.
          if e4_deleted ev then Inr None
          else bind_r (read_page_item_at rel (unat (fst (e4_raw_addr ev))) (unat (snd (e4_raw_addr ev)))) (\<lambda>b.
               bind_r (tuple_err (decode_raw_vec b)) (\<lambda>vb.
                 if length vb \<noteq> unat (e4_dim ev) * 4 then Inl RawLength
                 else Inr (Some (e4_tid ev, bytes_to_vec vb)))))
      else
        bind_r (tuple_err (decode_element item)) (\<lambda>ev.
          if ev_deleted ev then Inr None else Inr (Some (ev_tid ev, bytes_to_vec (ev_vec ev)))))"

definition enumerate_entries :: "relation \<Rightarrow> hnsw_meta \<Rightarrow> page_error + (i64 \<times> f32_bits list) list" where
  "enumerate_entries rel meta =
     bind_r (map_r (\<lambda>blk. bind_r (page_items rel blk) (map_r (entry_of_item rel (hm_raw_npages meta \<noteq> 0))))
       (block_range (hm_elem_first meta) (hm_elem_npages meta)))
       (\<lambda>es. Inr (List.map_filter (\<lambda>e. e) (concat es)))"

section \<open>Tombstones\<close>

definition sweep_item :: "(i64 \<Rightarrow> bool) \<Rightarrow> bytes \<Rightarrow> bytes \<times> bool" where
  "sweep_item is_dead item =
     (if length item < ELEM_HEADER \<or> item ! E_TAG \<noteq> ELEM_TAG \<or> item ! E_DELETED \<noteq> 0 then (item, False)
      else if is_dead (from_le (slice_at E_TID 8 item)) then mark_tombstone_in_place item else (item, False))"

fun tombstone_sweep_blocks :: "(i64 \<Rightarrow> bool) \<Rightarrow> nat list \<Rightarrow> relation \<Rightarrow> page_error + relation \<times> nat" where
  "tombstone_sweep_blocks is_dead [] rel = Inr (rel, 0)"
| "tombstone_sweep_blocks is_dead (blk # blks) rel =
     (if blk \<ge> length rel then Inl (PageOutOfRange blk)
      else let (rel, n) = modify_items_under_wal (sweep_item is_dead) rel blk in
        bind_r (tombstone_sweep_blocks is_dead blks rel) (\<lambda>(rel, k). Inr (rel, n + k)))"

definition tombstone_sweep :: "relation \<Rightarrow> hnsw_meta \<Rightarrow> (i64 \<Rightarrow> bool) \<Rightarrow> page_error + relation \<times> nat" where
  "tombstone_sweep rel meta is_dead =
     tombstone_sweep_blocks is_dead (block_range (hm_elem_first meta) (hm_elem_npages meta)) rel"

definition elem_items :: "relation \<Rightarrow> hnsw_meta \<Rightarrow> page_error + bytes list" where
  "elem_items rel meta =
     bind_r (map_r (page_items rel) (block_range (hm_elem_first meta) (hm_elem_npages meta))) (\<lambda>pages. Inr (concat pages))"

definition count_tombstones :: "relation \<Rightarrow> hnsw_meta \<Rightarrow> page_error + nat" where
  "count_tombstones rel meta =
     bind_r (elem_items rel meta) (\<lambda>items. Inr (length (filter
       (\<lambda>item. ELEM_HEADER \<le> length item \<and> item ! E_TAG = ELEM_TAG \<and> item ! E_DELETED \<noteq> 0) items)))"

definition count_churned :: "relation \<Rightarrow> hnsw_meta \<Rightarrow> page_error + nat" where
  "count_churned rel meta =
     bind_r (elem_items rel meta) (\<lambda>items. Inr (length (filter
       (\<lambda>item. ELEM_HEADER \<le> length item \<and> item ! E_TAG = ELEM_TAG \<and> item ! E_VERSION \<noteq> 0) items)))"

section \<open>Reuse of a tombstoned slot\<close>

text \<open>The items of a page with their 1-based offsets, empty ones left out.\<close>

definition items_with_off :: "page \<Rightarrow> (nat \<times> bytes) list" where
  "items_with_off page = filter (\<lambda>(off, item). item \<noteq> []) (zip [1..<Suc (length page)] page)"

definition reusable :: "hnsw_meta \<Rightarrow> nat \<Rightarrow> nat \<Rightarrow> nat \<times> bytes \<Rightarrow> bool" where
  "reusable meta need_level blk ob \<longleftrightarrow>
     \<not> (blk = unat (hm_entry_blkno meta) \<and> fst ob = unat (hm_entry_offno meta)) \<and>
     (case decode_element (snd ob) of Inl _ \<Rightarrow> False | Inr ev \<Rightarrow> ev_deleted ev \<and> unat (ev_level ev) = need_level)"

fun find_slot_blocks :: "relation \<Rightarrow> hnsw_meta \<Rightarrow> nat \<Rightarrow> nat list \<Rightarrow> page_error + (nat \<times> nat) option" where
  "find_slot_blocks rel meta need_level [] = Inr None"
| "find_slot_blocks rel meta need_level (blk # blks) =
     (if blk \<ge> length rel then Inl (PageOutOfRange blk)
      else case filter (reusable meta need_level blk) (items_with_off (rel ! blk)) of
        (off, _) # _ \<Rightarrow> Inr (Some (blk, off))
      | [] \<Rightarrow> find_slot_blocks rel meta need_level blks)"

definition find_reusable_slot :: "relation \<Rightarrow> hnsw_meta \<Rightarrow> nat \<Rightarrow> page_error + (nat \<times> nat) option" where
  "find_reusable_slot rel meta need_level =
     find_slot_blocks rel meta need_level (block_range (hm_elem_first meta) (hm_elem_npages meta))"

definition revive_item :: "i64 \<Rightarrow> f32_bits list \<Rightarrow> bytes \<Rightarrow> bytes \<times> bool" where
  "revive_item tid v item =
     (if length item < ELEM_HEADER \<or> item ! E_TAG \<noteq> ELEM_TAG \<or> item ! E_DELETED = 0 then (item, False)
      else let dim = unat (from_le (slice_at E_DIM 2 item) :: u16) in
        if length item \<noteq> E_VEC + dim * 4 \<or> length v \<noteq> dim then (item, False)
        else let b = item[E_DELETED := 0];
                 b = b[E_VERSION := b ! E_VERSION + 1];
                 b = put_at E_TID (to_le tid) b
             in (put_at E_VEC (f32s_bytes v) b, True))"

definition write_reused_element :: "relation \<Rightarrow> nat \<times> nat \<Rightarrow> i64 \<Rightarrow> f32_bits list \<Rightarrow>
    page_error + relation \<times> bool" where
  "write_reused_element rel a tid v = modify_item_at (revive_item tid v) rel (fst a) (snd a)"

fun put_slots :: "nat \<Rightarrow> addr list \<Rightarrow> nat \<Rightarrow> bytes \<Rightarrow> bytes" where
  "put_slots s as 0 b = b"
| "put_slots s as (Suc n) b =
     (let a = (case as of [] \<Rightarrow> (0, 0) | a # _ \<Rightarrow> a); off = NBR_HEADER + s * SLOT in
      put_slots (Suc s) (tl as) n (put_at (off + 4) (to_le (snd a)) (put_at off (to_le (fst a)) b)))"

definition ground_item :: "nat \<Rightarrow> nat \<Rightarrow> nat \<Rightarrow> addr list \<Rightarrow> bytes \<Rightarrow> bytes \<times> bool" where
  "ground_item level m m0 neighbors b =
     (if length b < NBR_HEADER \<or> b ! 0 \<noteq> NBR_TAG then (b, False)
      else let start = level * m in
        if length b < NBR_HEADER + (start + m0) * SLOT then (b, False)
        else (put_slots start neighbors m0 b, True))"

definition set_ground_neighbors_inplace :: "relation \<Rightarrow> addr \<Rightarrow> nat \<Rightarrow> nat \<Rightarrow> nat \<Rightarrow> addr list \<Rightarrow>
    page_error + relation \<times> bool" where
  "set_ground_neighbors_inplace rel a level m m0 neighbors =
     modify_item_at (ground_item level m m0 neighbors) rel (unat (fst a)) (unat (snd a))"

text \<open>The insert into a reused slot. The search for the new node's neighbours (distances) is the
  parameter \<open>search\<close>; the back link of one neighbour is \<open>link_back\<close>.\<close>

definition addr_of :: "nat \<times> nat \<Rightarrow> addr" where
  "addr_of a = (of_nat (fst a), of_nat (snd a))"

definition read_at :: "relation \<Rightarrow> addr \<Rightarrow> page_error + bytes" where
  "read_at rel a = read_page_item_at rel (unat (fst a)) (unat (snd a))"

definition link_back :: "nat \<Rightarrow> nat \<Rightarrow> addr \<Rightarrow> addr \<Rightarrow> relation \<Rightarrow> page_error + relation" where
  "link_back m m0 slot n rel =
     (if n = slot then Inr rel
      else bind_r (read_at rel n) (\<lambda>nb. bind_r (tuple_err (decode_element nb)) (\<lambda>ne.
        let nlvl = unat (ev_level ne); nnbr = ev_nbr_addr ne in
        bind_r (read_at rel nnbr) (\<lambda>nnb. bind_r (tuple_err (decode_neighbors nnb nlvl 0 m m0)) (\<lambda>ground.
          if length ground < m0 \<and> slot \<notin> set ground
          then bind_r (set_ground_neighbors_inplace rel nnbr nlvl m m0 (ground @ [slot])) (\<lambda>(rel, _). Inr rel)
          else Inr rel)))))"

fun link_backs :: "nat \<Rightarrow> nat \<Rightarrow> addr \<Rightarrow> addr list \<Rightarrow> relation \<Rightarrow> page_error + relation" where
  "link_backs m m0 slot [] rel = Inr rel"
| "link_backs m m0 slot (n # ns) rel = bind_r (link_back m m0 slot n rel) (link_backs m m0 slot ns)"

definition insert_inplace :: "(relation \<Rightarrow> hnsw_meta \<Rightarrow> f32_bits list \<Rightarrow> page_error + addr list) \<Rightarrow> relation \<Rightarrow>
    hnsw_meta \<Rightarrow> i64 \<Rightarrow> f32_bits list \<Rightarrow> page_error + relation \<times> bool" where
  "insert_inplace search rel meta tid v =
     (if hm_sbq_bits meta > 0 \<or> hm_aq_m meta > 0 then Inr (rel, False)
      else let m = unat (hm_m meta); m0 = unat (hm_m0 meta) in
        bind_r (find_reusable_slot rel meta 0) (\<lambda>found.
        case found of None \<Rightarrow> Inr (rel, False)
        | Some slot \<Rightarrow>
            bind_r (search rel meta v) (\<lambda>neighbors.
            bind_r (write_reused_element rel slot tid v) (\<lambda>(rel, revived).
            if \<not> revived then Inr (rel, False)
            else bind_r (read_page_item_at rel (fst slot) (snd slot)) (\<lambda>zb.
              bind_r (tuple_err (decode_element zb)) (\<lambda>z.
              bind_r (set_ground_neighbors_inplace rel (ev_nbr_addr z) (unat (ev_level z)) m m0 neighbors) (\<lambda>(rel, _).
              bind_r (link_backs m m0 (addr_of slot) neighbors rel) (\<lambda>rel. Inr (rel, True)))))))))"

section \<open>Slot edits\<close>

lemma revive_view:
  assumes "decode_element item = Inr ev" and "ev_deleted ev" and "ev_code ev = []"
    and "length v = length (ev_vec ev) div 4"
  shows "snd (revive_item tid v item) \<and> length (fst (revive_item tid v item)) = length item \<and>
    decode_element (fst (revive_item tid v item)) =
      Inr (ev\<lparr>ev_deleted := False, ev_version := ev_version ev + 1, ev_tid := tid, ev_vec := f32s_bytes v\<rparr>)"
proof -
  let ?dim = "unat (from_le (slice_at E_DIM 2 item) :: u16)"
  have d: "ELEM_HEADER \<le> length item" "item ! E_TAG = ELEM_TAG" "E_VEC + ?dim * 4 \<le> length item"
    and ev: "ev = \<lparr>ev_level = item ! E_LEVEL, ev_tid = from_le (slice_at E_TID 8 item),
          ev_nbr_addr = (from_le (slice_at E_NBR_BLK 4 item), from_le (slice_at E_NBR_OFF 2 item)),
          ev_vec = slice_at E_VEC (?dim * 4) item, ev_code = drop (E_VEC + ?dim * 4) item,
          ev_deleted = (item ! E_DELETED \<noteq> 0), ev_version = item ! E_VERSION\<rparr>"
    using assms(1) by (auto simp: decode_element_def Let_def not_less split: if_splits)
  have len: "length item = E_VEC + ?dim * 4" using assms(3) d(3) by (simp add: ev)
  then have dim: "length v = ?dim" using assms(4) by (simp add: ev)
  have del: "item ! E_DELETED \<noteq> 0" using assms(2) by (simp add: ev)
  let ?b = "put_at E_VEC (f32s_bytes v) (put_at E_TID (to_le tid)
    (item[E_DELETED := 0, E_VERSION := item[E_DELETED := 0] ! E_VERSION + 1]))"
  have r: "revive_item tid v item = (?b, True)"
    using d(1,2) len dim del by (simp add: revive_item_def Let_def)
  have l: "20 \<le> length item" using d(1) by (simp add: layout_defs)
  have "slice_at E_DIM 2 ?b = slice_at E_DIM 2 item" using l len dim by (simp add: layout_defs codec_simps)
  moreover have "length ?b = length item" using l len dim by (simp add: layout_defs)
  ultimately have "decode_element ?b = Inr \<lparr>ev_level = ?b ! E_LEVEL, ev_tid = from_le (slice_at E_TID 8 ?b),
          ev_nbr_addr = (from_le (slice_at E_NBR_BLK 4 ?b), from_le (slice_at E_NBR_OFF 2 ?b)),
          ev_vec = slice_at E_VEC (?dim * 4) ?b, ev_code = drop (E_VEC + ?dim * 4) ?b,
          ev_deleted = (?b ! E_DELETED \<noteq> 0), ev_version = ?b ! E_VERSION\<rparr>"
    using d len dim l by (simp add: decode_element_def Let_def layout_defs codec_simps)
  also have "\<dots> = Inr (ev\<lparr>ev_deleted := False, ev_version := ev_version ev + 1, ev_tid := tid, ev_vec := f32s_bytes v\<rparr>)"
    using l len dim by (simp add: ev layout_defs codec_simps)
  finally show ?thesis using r \<open>length ?b = length item\<close> by simp
qed

section \<open>What enumeration sees\<close>

definition decode_entry :: "bytes \<Rightarrow> page_error + (i64 \<times> f32_bits list) option" where
  "decode_entry item =
     bind_r (tuple_err (decode_element item)) (\<lambda>ev.
       if ev_deleted ev then Inr None else Inr (Some (ev_tid ev, bytes_to_vec (ev_vec ev))))"

definition blocks_ok :: "relation \<Rightarrow> nat list \<Rightarrow> bool" where
  "blocks_ok rel bs \<longleftrightarrow> (\<forall>b \<in> set bs. b < length rel)"

lemma enumerate_blocks_iff:
  "map_r (\<lambda>blk. bind_r (page_items rel blk) (map_r decode_entry)) bs = Inr es \<and> os = concat es \<longrightarrow>
   blocks_ok rel bs \<and> map_r decode_entry (concat (map (read_all_page_items rel) bs)) = Inr os"
proof (induction bs arbitrary: es os)
  case Nil
  then show ?case by (auto simp: blocks_ok_def)
next
  case (Cons b bs)
  show ?case
  proof (intro impI)
    assume "map_r (\<lambda>blk. bind_r (page_items rel blk) (map_r decode_entry)) (b # bs) = Inr es \<and> os = concat es"
    then obtain e es' where e: "b < length rel" "map_r decode_entry (read_all_page_items rel b) = Inr e"
      "map_r (\<lambda>blk. bind_r (page_items rel blk) (map_r decode_entry)) bs = Inr es'" "os = e @ concat es'"
      by (auto simp: bind_r_Inr_iff page_items_def split: if_splits)
    from Cons.IH [of es' "concat es'"] e show "blocks_ok rel (b # bs) \<and>
        map_r decode_entry (concat (map (read_all_page_items rel) (b # bs))) = Inr os"
      by (simp add: blocks_ok_def map_r_append)
  qed
qed

lemma enumerate_blocks_Inr:
  "blocks_ok rel bs \<Longrightarrow> map_r decode_entry (concat (map (read_all_page_items rel) bs)) = Inr os \<Longrightarrow>
   \<exists>es. map_r (\<lambda>blk. bind_r (page_items rel blk) (map_r decode_entry)) bs = Inr es \<and> os = concat es"
proof (induction bs arbitrary: os)
  case Nil
  then show ?case by simp
next
  case (Cons b bs)
  then obtain us vs where u: "map_r decode_entry (read_all_page_items rel b) = Inr us"
    "map_r decode_entry (concat (map (read_all_page_items rel) bs)) = Inr vs" "os = us @ vs"
    by (auto simp: map_r_append bind_r_Inr_iff)
  from Cons.IH [OF _ u(2)] Cons.prems(1) obtain es where
    "map_r (\<lambda>blk. bind_r (page_items rel blk) (map_r decode_entry)) bs = Inr es" "vs = concat es"
    by (auto simp: blocks_ok_def)
  with u Cons.prems(1) show ?case by (simp add: page_items_def blocks_ok_def)
qed

definition elem_blocks :: "hnsw_meta \<Rightarrow> nat list" where
  "elem_blocks meta = block_range (hm_elem_first meta) (hm_elem_npages meta)"

text \<open>In the f32 and SBQ layouts, enumeration succeeds exactly when every element item decodes, and lists
  the live ones in storage order.\<close>

lemma enumerate_iff:
  assumes "hm_raw_npages meta = 0"
  shows "enumerate_entries rel meta = Inr xs \<longleftrightarrow>
    blocks_ok rel (elem_blocks meta) \<and> (\<exists>os. map_r decode_entry (concat (map (read_all_page_items rel) (elem_blocks meta))) = Inr os \<and>
      xs = List.map_filter (\<lambda>e. e) os)"
proof -
  have "entry_of_item rel False = decode_entry" by (simp add: entry_of_item_def decode_entry_def fun_eq_iff)
  then have e: "enumerate_entries rel meta =
      bind_r (map_r (\<lambda>blk. bind_r (page_items rel blk) (map_r decode_entry)) (elem_blocks meta))
        (\<lambda>es. Inr (List.map_filter (\<lambda>e. e) (concat es)))"
    using assms by (simp add: enumerate_entries_def elem_blocks_def)
  show ?thesis
  proof
    assume "enumerate_entries rel meta = Inr xs"
    then obtain es where es: "map_r (\<lambda>blk. bind_r (page_items rel blk) (map_r decode_entry)) (elem_blocks meta) = Inr es"
      "xs = List.map_filter (\<lambda>e. e) (concat es)" by (auto simp: e bind_r_Inr_iff)
    from mp [OF enumerate_blocks_iff conjI [OF es(1) refl]] es(2)
    show "blocks_ok rel (elem_blocks meta) \<and> (\<exists>os. map_r decode_entry (concat (map (read_all_page_items rel) (elem_blocks meta))) = Inr os \<and>
      xs = List.map_filter (\<lambda>e. e) os)" by blast
  next
    assume "blocks_ok rel (elem_blocks meta) \<and> (\<exists>os. map_r decode_entry (concat (map (read_all_page_items rel) (elem_blocks meta))) = Inr os \<and>
      xs = List.map_filter (\<lambda>e. e) os)"
    then obtain os where os: "blocks_ok rel (elem_blocks meta)" "xs = List.map_filter (\<lambda>e. e) os"
      "map_r decode_entry (concat (map (read_all_page_items rel) (elem_blocks meta))) = Inr os" by blast
    from enumerate_blocks_Inr [OF os(1,3)] os(2) show "enumerate_entries rel meta = Inr xs" by (auto simp: e)
  qed
qed

section \<open>The sweep removes exactly the dead entries\<close>

lemma decode_sweep:
  assumes "decode_entry item = Inr e"
  shows "decode_entry (fst (sweep_item is_dead item)) =
      Inr (case e of Some (t, v) \<Rightarrow> if is_dead t then None else Some (t, v) | None \<Rightarrow> None)"
    and "snd (sweep_item is_dead item) \<longleftrightarrow> (\<exists>t v. e = Some (t, v) \<and> is_dead t)"
proof -
  from assms obtain ev where ev: "decode_element item = Inr ev"
    "e = (if ev_deleted ev then None else Some (ev_tid ev, bytes_to_vec (ev_vec ev)))"
    by (cases "decode_element item") (auto simp: decode_entry_def split: if_splits)
  have h: "\<not> length item < ELEM_HEADER" "item ! E_TAG = ELEM_TAG" "ev_deleted ev = (item ! E_DELETED \<noteq> 0)"
    "ev_tid ev = from_le (slice_at E_TID 8 item)"
    using ev(1) by (auto simp: decode_element_def Let_def split: if_splits)
  note t = tombstone_view [OF ev(1)]
  show "decode_entry (fst (sweep_item is_dead item)) =
      Inr (case e of Some (t, v) \<Rightarrow> if is_dead t then None else Some (t, v) | None \<Rightarrow> None)"
    using ev h t by (auto simp: sweep_item_def decode_entry_def)
  show "snd (sweep_item is_dead item) \<longleftrightarrow> (\<exists>t v. e = Some (t, v) \<and> is_dead t)"
    using ev h t by (auto simp: sweep_item_def)
qed

lemma sweep_nonempty: "fst (sweep_item is_dead item) = [] \<longleftrightarrow> item = []"
  by (auto simp: sweep_item_def mark_tombstone_in_place_def)

lemma sweep_unchanged: "\<not> snd (sweep_item is_dead item) \<Longrightarrow> fst (sweep_item is_dead item) = item"
  by (auto simp: sweep_item_def mark_tombstone_in_place_def split: if_splits)

definition sweep_page :: "(i64 \<Rightarrow> bool) \<Rightarrow> page \<Rightarrow> page" where
  "sweep_page is_dead page = map (\<lambda>item. if item = [] then item else fst (sweep_item is_dead item)) page"

lemma modify_sweep:
  "modify_items_under_wal (sweep_item is_dead) rel b =
     (rel[b := sweep_page is_dead (rel ! b)],
      length (filter (\<lambda>item. snd (sweep_item is_dead item)) (read_all_page_items rel b)))"
proof -
  let ?f = "\<lambda>item. if item = [] then (item, False) else sweep_item is_dead item"
  have n: "length (filter snd (map ?f page)) =
      length (filter (\<lambda>item. snd (sweep_item is_dead item)) (filter (\<lambda>item. item \<noteq> []) page))" for page
    by (induction page) simp_all
  have e: "map fst (map ?f page) = sweep_page is_dead page" for page
    by (induction page) (simp_all add: sweep_page_def)
  have same: "sweep_page is_dead page = page" if "filter snd (map ?f page) = []" for page
    using that by (induction page) (auto simp: sweep_page_def sweep_unchanged split: if_splits)
  show ?thesis
  proof (cases "filter snd (map ?f (rel ! b)) = []")
    case True
    then show ?thesis using same [OF True] n [of "rel ! b"]
      by (simp add: modify_items_under_wal_def Let_def read_all_page_items_def)
  next
    case False
    then show ?thesis using e [of "rel ! b"] n [of "rel ! b"]
      by (simp add: modify_items_under_wal_def Let_def read_all_page_items_def)
  qed
qed

lemma sweep_blocks_eq:
  "blocks_ok rel bs \<Longrightarrow> distinct bs \<Longrightarrow>
   \<exists>rel'. tombstone_sweep_blocks is_dead bs rel = Inr (rel', length (filter (\<lambda>item. snd (sweep_item is_dead item))
       (concat (map (read_all_page_items rel) bs)))) \<and>
     length rel' = length rel \<and>
     (\<forall>j < length rel. rel' ! j = (if j \<in> set bs then sweep_page is_dead (rel ! j) else rel ! j))"
proof (induction bs arbitrary: rel)
  case Nil
  then show ?case by simp
next
  case (Cons b bs)
  let ?rel = "rel[b := sweep_page is_dead (rel ! b)]"
  have b: "b < length rel" "b \<notin> set bs" using Cons.prems by (simp_all add: blocks_ok_def)
  have ok: "blocks_ok ?rel bs" and dist: "distinct bs" using Cons.prems by (simp_all add: blocks_ok_def)
  have same: "map (read_all_page_items ?rel) bs = map (read_all_page_items rel) bs"
  proof (rule map_cong [OF refl])
    fix x assume "x \<in> set bs"
    with b(2) have "b \<noteq> x" by blast
    then show "read_all_page_items ?rel x = read_all_page_items rel x" by (simp add: read_all_page_items_def)
  qed
  from Cons.IH [OF ok dist, unfolded same] obtain rel' where r: "tombstone_sweep_blocks is_dead bs ?rel = Inr (rel',
      length (filter (\<lambda>item. snd (sweep_item is_dead item)) (concat (map (read_all_page_items rel) bs))))"
    "length rel' = length rel"
    "\<And>j. j < length rel \<Longrightarrow> rel' ! j = (if j \<in> set bs then sweep_page is_dead (?rel ! j) else ?rel ! j)"
    by auto
  have "rel' ! j = (if j \<in> set (b # bs) then sweep_page is_dead (rel ! j) else rel ! j)" if "j < length rel" for j
    using r(3) [OF that] b that by (cases "j = b") simp_all
  with r b show ?case by (simp add: modify_sweep)
qed

lemma read_all_sweep_page:
  "filter (\<lambda>item. item \<noteq> []) (sweep_page is_dead page) =
   map (\<lambda>item. fst (sweep_item is_dead item)) (filter (\<lambda>item. item \<noteq> []) page)"
  by (induction page) (simp_all add: sweep_page_def sweep_nonempty)

definition drop_dead :: "(i64 \<Rightarrow> bool) \<Rightarrow> (i64 \<times> f32_bits list) option \<Rightarrow> (i64 \<times> f32_bits list) option" where
  "drop_dead is_dead e = (case e of Some (t, v) \<Rightarrow> if is_dead t then None else Some (t, v) | None \<Rightarrow> None)"

lemma map_r_sweep:
  "map_r decode_entry items = Inr os \<Longrightarrow>
   map_r decode_entry (map (\<lambda>item. fst (sweep_item is_dead item)) items) = Inr (map (drop_dead is_dead) os) \<and>
   length (filter (\<lambda>item. snd (sweep_item is_dead item)) items) =
     length (filter (\<lambda>e. is_dead (fst e)) (List.map_filter (\<lambda>e. e) os))"
proof (induction items arbitrary: os)
  case Nil
  then show ?case by (simp add: List.map_filter_def)
next
  case (Cons item items)
  then obtain e es where e: "decode_entry item = Inr e" "map_r decode_entry items = Inr es" "os = e # es"
    by (auto simp: bind_r_Inr_iff)
  from Cons.IH [OF e(2)] decode_sweep [OF e(1), of is_dead] e show ?case
    by (auto simp: drop_dead_def List.map_filter_def split: option.splits)
qed

lemma map_filter_drop_dead:
  "List.map_filter (\<lambda>e. e) (map (drop_dead is_dead) os) = filter (\<lambda>e. \<not> is_dead (fst e)) (List.map_filter (\<lambda>e. e) os)"
  by (induction os) (auto simp: List.map_filter_def drop_dead_def split: option.splits)

lemma sweep_entries:
  assumes raw: "hm_raw_npages meta = 0" and xs: "enumerate_entries rel meta = Inr xs"
  shows "\<exists>rel'. tombstone_sweep rel meta is_dead = Inr (rel', length (filter (\<lambda>e. is_dead (fst e)) xs)) \<and>
    enumerate_entries rel' meta = Inr (filter (\<lambda>e. \<not> is_dead (fst e)) xs) \<and> length rel' = length rel \<and>
    (\<forall>j < length rel. j \<notin> set (elem_blocks meta) \<longrightarrow> rel' ! j = rel ! j)"
proof -
  let ?bs = "elem_blocks meta"
  from xs [unfolded enumerate_iff [OF raw]] obtain os where os: "blocks_ok rel ?bs"
    "map_r decode_entry (concat (map (read_all_page_items rel) ?bs)) = Inr os" "xs = List.map_filter (\<lambda>e. e) os"
    by blast
  have "distinct ?bs" by (simp add: elem_blocks_def block_range_def)
  from sweep_blocks_eq [OF os(1) this, of is_dead] obtain rel' where
    r: "tombstone_sweep rel meta is_dead = Inr (rel', length (filter (\<lambda>item. snd (sweep_item is_dead item))
         (concat (map (read_all_page_items rel) ?bs))))" "length rel' = length rel"
      "\<And>j. j < length rel \<Longrightarrow> rel' ! j = (if j \<in> set ?bs then sweep_page is_dead (rel ! j) else rel ! j)"
    by (auto simp: tombstone_sweep_def elem_blocks_def)
  have ok: "blocks_ok rel' ?bs" using os(1) r(2) by (simp add: blocks_ok_def)
  have "map (read_all_page_items rel') ?bs =
      map (map (\<lambda>item. fst (sweep_item is_dead item))) (map (read_all_page_items rel) ?bs)"
    using r(3) os(1) by (auto simp: read_all_page_items_def blocks_ok_def read_all_sweep_page)
  then have "concat (map (read_all_page_items rel') ?bs) =
      map (\<lambda>item. fst (sweep_item is_dead item)) (concat (map (read_all_page_items rel) ?bs))"
    by (simp only: map_concat)
  with map_r_sweep [OF os(2), of is_dead] map_filter_drop_dead [of is_dead os] os(3) ok r show ?thesis
    by (intro exI [of _ rel']) (auto simp: enumerate_iff [OF raw])
qed

section \<open>Reusing a slot adds exactly the new entry\<close>

text \<open>Two relations whose items decode alike, block by block.\<close>

definition same_entries :: "relation \<Rightarrow> relation \<Rightarrow> bool" where
  "same_entries rel rel' \<longleftrightarrow> length rel' = length rel \<and>
     (\<forall>b < length rel. map decode_entry (read_all_page_items rel' b) = map decode_entry (read_all_page_items rel b))"

lemma same_entries_refl [simp]: "same_entries rel rel"
  by (simp add: same_entries_def)

lemma same_entries_trans: "same_entries r1 r2 \<Longrightarrow> same_entries r2 r3 \<Longrightarrow> same_entries r1 r3"
  by (simp add: same_entries_def)

lemma map_r_map: "map_r f xs = map_r (\<lambda>x. x) (map f xs)"
  by (induction xs) simp_all

lemma same_entries_enumerate:
  assumes "same_entries rel rel'" and "hm_raw_npages meta = 0"
  shows "enumerate_entries rel' meta = Inr xs \<longleftrightarrow> enumerate_entries rel meta = Inr xs"
proof -
  have "map decode_entry (concat (map (read_all_page_items rel') bs)) =
      map decode_entry (concat (map (read_all_page_items rel) bs))" if "blocks_ok rel bs" for bs
    using that assms(1) by (induction bs) (simp_all add: blocks_ok_def same_entries_def)
  moreover have "blocks_ok rel' bs = blocks_ok rel bs" for bs
    using assms(1) by (simp add: blocks_ok_def same_entries_def)
  ultimately show ?thesis
    unfolding enumerate_iff [OF assms(2)] map_r_map [of decode_entry] by (metis (no_types, lifting))
qed

lemma put_at_first: "\<lbrakk>0 < p; p < length b\<rbrakk> \<Longrightarrow> put_at p bs b ! 0 = b ! 0"
  by (simp add: put_at_def nth_append)

lemma put_slots_header:
  "NBR_HEADER + (s + n) * SLOT \<le> length b \<Longrightarrow>
   length (put_slots s as n b) = length b \<and> put_slots s as n b ! 0 = b ! 0"
proof (induction s as n b rule: put_slots.induct)
  case (1 s as b)
  then show ?case by simp
next
  case (2 s as n b)
  let ?a = "case as of [] \<Rightarrow> (0, 0) | a # _ \<Rightarrow> a" and ?off = "NBR_HEADER + s * SLOT"
  let ?b = "put_at (?off + 4) (to_le (snd ?a)) (put_at ?off (to_le (fst ?a)) b)"
  have fit: "?off + SLOT \<le> length b" using "2.prems" by (simp add: layout_defs)
  then have "put_at (?off + 4) (to_le (snd a)) (put_at ?off (to_le (fst a)) b) ! 0 = b ! 0" for a :: addr
    by (simp add: put_at_first layout_defs)
  with fit have "length ?b = length b" "?b ! 0 = b ! 0" by (simp_all add: layout_defs)
  moreover have "length (put_slots (Suc s) (tl as) n ?b) = length ?b \<and> put_slots (Suc s) (tl as) n ?b ! 0 = ?b ! 0"
    by (rule "2.IH") (use "2.prems" \<open>length ?b = length b\<close> in simp_all)
  ultimately show ?case by (simp add: Let_def)
qed

lemma ground_item_entry:
  assumes "snd (ground_item level m m0 ns b)"
  shows "fst (ground_item level m m0 ns b) \<noteq> []"
    and "decode_entry (fst (ground_item level m m0 ns b)) = decode_entry b"
proof -
  have b: "\<not> length b < NBR_HEADER" "b ! 0 = NBR_TAG" "\<not> length b < NBR_HEADER + (level * m + m0) * SLOT"
    using assms by (auto simp: ground_item_def Let_def split: if_splits)
  then have h: "length (fst (ground_item level m m0 ns b)) = length b" "fst (ground_item level m m0 ns b) ! 0 = b ! 0"
    using put_slots_header [of "level * m" m0 b ns] by (simp_all add: ground_item_def Let_def)
  then show "fst (ground_item level m m0 ns b) \<noteq> []" using b(1) by (auto simp: layout_defs)
  show "decode_entry (fst (ground_item level m m0 ns b)) = decode_entry b"
    using h b(2) by (simp add: decode_entry_def decode_element_def E_TAG_def NBR_TAG_def ELEM_TAG_def)
qed

lemma filter_update_same:
  assumes "k < length p \<Longrightarrow> p ! k \<noteq> [] \<and> item \<noteq> [] \<and> d item = d (p ! k)"
  shows "map d (filter (\<lambda>i. i \<noteq> []) (p[k := item])) = map d (filter (\<lambda>i. i \<noteq> []) p)"
  using assms
proof (induction p arbitrary: k)
  case (Cons x p)
  then show ?case by (cases k) auto
qed simp

lemma modify_item_at_cases:
  assumes "modify_item_at f rel block off = Inr (rel', changed)"
  obtains (same) "\<not> changed" "rel' = rel"
    | (edit) "changed" "block < length rel" "1 \<le> off" "off \<le> length (rel ! block)"
        "rel ! block ! (off - 1) \<noteq> []" "snd (f (rel ! block ! (off - 1)))"
        "rel' = rel[block := (rel ! block)[off - 1 := fst (f (rel ! block ! (off - 1)))]]"
proof -
  let ?i = "item_at (rel ! block) off"
  from assms have r: "block < length rel" "changed \<longleftrightarrow> ?i \<noteq> [] \<and> snd (f ?i)"
    "rel' = (if changed then rel[block := (rel ! block)[off - 1 := fst (f ?i)]] else rel)"
    by (auto simp: modify_item_at_def Let_def split_beta split: if_splits)
  show thesis
  proof (cases changed)
    case True
    then have "1 \<le> off" "off \<le> length (rel ! block)" "?i = rel ! block ! (off - 1)"
      using r(2) by (auto simp: item_at_def split: if_splits)
    with True r show thesis by (intro edit) simp_all
  next
    case False
    with r(3) show thesis by (intro same) simp_all
  qed
qed

lemma modify_item_at_same:
  assumes "\<And>item. snd (f item) \<Longrightarrow> fst (f item) \<noteq> [] \<and> decode_entry (fst (f item)) = decode_entry item"
    and "modify_item_at f rel block off = Inr (rel', changed)"
  shows "same_entries rel rel'"
  using assms(2)
proof (cases rule: modify_item_at_cases)
  case edit
  let ?p = "rel ! block" and ?k = "off - 1"
  from assms(1) [OF edit(6)] edit(5) have "map decode_entry (filter (\<lambda>i. i \<noteq> []) (?p[?k := fst (f (?p ! ?k))])) =
      map decode_entry (filter (\<lambda>i. i \<noteq> []) ?p)" by (intro filter_update_same) simp
  then have "map decode_entry (read_all_page_items (rel[block := ?p[?k := fst (f (?p ! ?k))]]) b) =
      map decode_entry (read_all_page_items rel b)" if "b < length rel" for b
    using that by (cases "b = block") (simp_all add: read_all_page_items_def)
  then show ?thesis by (simp add: edit(7) same_entries_def)
qed (simp add: same_entries_def)

lemma set_ground_same:
  "set_ground_neighbors_inplace rel a level m m0 ns = Inr (rel', changed) \<Longrightarrow> same_entries rel rel'"
  unfolding set_ground_neighbors_inplace_def
  by (erule modify_item_at_same [rotated]) (use ground_item_entry in blast)

lemma link_back_same: "link_back m m0 slot n rel = Inr rel' \<Longrightarrow> same_entries rel rel'"
  by (auto simp: link_back_def bind_r_Inr_iff Let_def dest: set_ground_same split: if_splits)

lemma link_backs_same: "link_backs m m0 slot ns rel = Inr rel' \<Longrightarrow> same_entries rel rel'"
proof (induction ns arbitrary: rel)
  case (Cons n ns)
  then show ?case by (auto simp: bind_r_Inr_iff dest: link_back_same intro: same_entries_trans)
qed simp

lemma bytes_to_vec_f32s: "bytes_to_vec (f32s_bytes v) = v"
  using f32s_at_bytes [of 0 v "f32s_bytes v"] by (simp add: bytes_to_vec_def)

lemma revived_view:
  assumes "decode_element item = Inr ev" and "ev_deleted ev" and "snd (revive_item tid v item)"
  shows "length (fst (revive_item tid v item)) = length item \<and> ELEM_HEADER \<le> length item \<and>
    decode_element (fst (revive_item tid v item)) =
      Inr (ev\<lparr>ev_deleted := False, ev_version := ev_version ev + 1, ev_tid := tid, ev_vec := f32s_bytes v\<rparr>)"
proof -
  let ?dim = "unat (from_le (slice_at E_DIM 2 item) :: u16)"
  have r: "ELEM_HEADER \<le> length item" "length item = E_VEC + ?dim * 4" "length v = ?dim"
    using assms(3) by (auto simp: revive_item_def Let_def split: if_splits)
  have "ev_code ev = drop (E_VEC + ?dim * 4) item" "ev_vec ev = slice_at E_VEC (?dim * 4) item"
    using assms(1) by (auto simp: decode_element_def Let_def split: if_splits)
  then have "ev_code ev = []" "length v = length (ev_vec ev) div 4" using r by simp_all
  from revive_view [OF assms(1,2) this, of tid] r(1) show ?thesis by simp
qed

lemma revive_entry:
  assumes "decode_element item = Inr ev" and "ev_deleted ev" and "snd (revive_item tid v item)"
  shows "decode_entry item = Inr None" and "decode_entry (fst (revive_item tid v item)) = Inr (Some (tid, v))"
    and "fst (revive_item tid v item) \<noteq> []"
  using assms revived_view [OF assms] by (auto simp: decode_entry_def bytes_to_vec_f32s layout_defs)

lemma find_slot_blocks_Some:
  "find_slot_blocks rel meta lvl bs = Inr (Some (blk, off)) \<Longrightarrow>
   blk \<in> set bs \<and> blk < length rel \<and> 1 \<le> off \<and> off \<le> length (rel ! blk) \<and> rel ! blk ! (off - 1) \<noteq> [] \<and>
   (\<exists>ev. decode_element (rel ! blk ! (off - 1)) = Inr ev \<and> ev_deleted ev)"
proof (induction bs)
  case (Cons b bs)
  show ?case
  proof (cases "filter (reusable meta lvl b) (items_with_off (rel ! b))")
    case Nil
    with Cons show ?thesis by (auto split: if_splits)
  next
    case (Cons ob obs)
    with Cons.prems have b: "b < length rel" "blk = b" "off = fst ob" by (auto split: if_splits prod.splits)
    have "ob \<in> set (filter (reusable meta lvl b) (items_with_off (rel ! b)))" using Cons by simp
    then have ob: "ob \<in> set (items_with_off (rel ! b))" "reusable meta lvl b ob" by auto
    then obtain i where "i < length (rel ! b)" "fst ob = Suc i" "snd ob = rel ! b ! i" "snd ob \<noteq> []"
      by (auto simp: items_with_off_def in_set_zip)
    with ob(2) b show ?thesis by (auto simp: reusable_def split: sum.splits)
  qed
qed simp

lemma read_all_update_other:
  "x \<in> set bs \<Longrightarrow> blk \<notin> set bs \<Longrightarrow> read_all_page_items (rel[blk := p]) x = read_all_page_items rel x"
  by (cases "x = blk") (simp_all add: read_all_page_items_def)

lemma revive_entries:
  assumes raw: "hm_raw_npages meta = 0" and xs: "enumerate_entries rel meta = Inr xs"
    and slot: "find_reusable_slot rel meta lvl = Inr (Some slot)"
    and rev: "write_reused_element rel slot tid v = Inr (rel', True)"
  shows "\<exists>pre post. xs = pre @ post \<and> enumerate_entries rel' meta = Inr (pre @ (tid, v) # post)"
proof -
  obtain blk off where so: "slot = (blk, off)" by (cases slot)
  let ?bs = "elem_blocks meta" and ?p = "rel ! blk" and ?k = "off - 1"
  from find_slot_blocks_Some [of rel meta lvl ?bs blk off] slot so obtain ev where
    f: "blk \<in> set ?bs" "blk < length rel" "?k < length ?p" "?p ! ?k \<noteq> []"
      "decode_element (?p ! ?k) = Inr ev" "ev_deleted ev"
    by (auto simp: find_reusable_slot_def elem_blocks_def)
  define item where "item = fst (revive_item tid v (?p ! ?k))"
  have r: "snd (revive_item tid v (?p ! ?k))" "rel' = rel[blk := ?p[?k := item]]"
    using rev by (auto simp: write_reused_element_def so item_def elim!: modify_item_at_cases)
  note entry = revive_entry [OF f(5,6) r(1), folded item_def]
  define A B where "A = filter (\<lambda>i. i \<noteq> []) (take ?k ?p)" and "B = filter (\<lambda>i. i \<noteq> []) (drop (Suc ?k) ?p)"
  have pg: "read_all_page_items rel blk = A @ ?p ! ?k # B"
    using arg_cong [OF id_take_nth_drop [OF f(3)], of "filter (\<lambda>i. i \<noteq> [])"] f(4)
    by (simp add: read_all_page_items_def A_def B_def)
  have pg': "read_all_page_items rel' blk = A @ item # B"
    using f(2) arg_cong [OF upd_conv_take_nth_drop [OF f(3), of item], of "filter (\<lambda>i. i \<noteq> [])"] entry(3)
    by (simp add: read_all_page_items_def A_def B_def r(2))
  obtain bs1 bs2 where bs: "?bs = bs1 @ blk # bs2" using split_list [OF f(1)] by blast
  have "distinct ?bs" by (simp add: elem_blocks_def block_range_def)
  then have "blk \<notin> set bs1" "blk \<notin> set bs2" by (simp_all add: bs)
  then have others: "map (read_all_page_items rel') bs1 = map (read_all_page_items rel) bs1"
    "map (read_all_page_items rel') bs2 = map (read_all_page_items rel) bs2"
    by (auto simp: r(2) read_all_update_other)
  from xs [unfolded enumerate_iff [OF raw]] obtain os where os: "blocks_ok rel ?bs"
    "map_r decode_entry (concat (map (read_all_page_items rel) ?bs)) = Inr os" "xs = List.map_filter (\<lambda>e. e) os" by blast
  let ?X = "concat (map (read_all_page_items rel) bs1) @ A" and ?Y = "B @ concat (map (read_all_page_items rel) bs2)"
  have all: "concat (map (read_all_page_items rel) ?bs) = ?X @ ?p ! ?k # ?Y"
    "concat (map (read_all_page_items rel') ?bs) = ?X @ item # ?Y"
    by (simp_all add: bs pg pg' others)
  from os(2) [unfolded all map_r_append [of decode_entry ?X]] obtain us ws where
    uw: "map_r decode_entry ?X = Inr us" "map_r decode_entry (?p ! ?k # ?Y) = Inr ws" "os = us @ ws"
    unfolding bind_r_Inr_iff by blast
  from uw(2) entry(1) obtain vs where "map_r decode_entry ?Y = Inr vs" "ws = None # vs"
    by (auto simp: bind_r_Inr_iff)
  with uw have uv: "map_r decode_entry ?X = Inr us" "map_r decode_entry ?Y = Inr vs" "os = us @ None # vs"
    by simp_all
  have "map_r decode_entry (concat (map (read_all_page_items rel') ?bs)) = Inr (us @ Some (tid, v) # vs)"
    unfolding all map_r_append [of decode_entry ?X] uv(1) map_r.simps uv(2) entry(2) by simp
  moreover have "blocks_ok rel' ?bs" using os(1) by (simp add: blocks_ok_def r(2))
  ultimately have "enumerate_entries rel' meta = Inr (List.map_filter (\<lambda>e. e) (us @ Some (tid, v) # vs))"
    by (auto simp: enumerate_iff [OF raw])
  with uv(3) os(3) show ?thesis
    by (intro exI [of _ "List.map_filter (\<lambda>e. e) us"] exI [of _ "List.map_filter (\<lambda>e. e) vs"])
      (simp add: List.map_filter_def)
qed

lemma insert_inplace_entries:
  assumes raw: "hm_raw_npages meta = 0" and xs: "enumerate_entries rel meta = Inr xs"
    and ins: "insert_inplace search rel meta tid v = Inr (rel', reused)"
  shows "if reused then \<exists>pre post. xs = pre @ post \<and> enumerate_entries rel' meta = Inr (pre @ (tid, v) # post)
    else rel' = rel"
proof (cases reused)
  case True
  with ins obtain slot rel1 rel2 ns c and z :: element_view where i: "find_reusable_slot rel meta 0 = Inr (Some slot)"
    "write_reused_element rel slot tid v = Inr (rel1, True)"
    "set_ground_neighbors_inplace rel1 (ev_nbr_addr z) (unat (ev_level z)) (unat (hm_m meta)) (unat (hm_m0 meta)) ns = Inr (rel2, c)"
    "link_backs (unat (hm_m meta)) (unat (hm_m0 meta)) (addr_of slot) ns rel2 = Inr rel'"
    by (auto simp: insert_inplace_def bind_r_Inr_iff Let_def split: if_splits option.splits)
  show ?thesis
    using same_entries_enumerate [OF same_entries_trans [OF set_ground_same [OF i(3)] link_backs_same [OF i(4)]] raw]
      revive_entries [OF raw xs i(1,2)] True by auto
next
  case False
  have "rel1 = rel" if "write_reused_element rel slot tid v = Inr (rel1, False)" for slot rel1
    using that by (auto simp: write_reused_element_def elim!: modify_item_at_cases)
  with False ins show ?thesis
    by (auto simp: insert_inplace_def bind_r_Inr_iff Let_def split: if_splits option.splits)
qed

section \<open>Properties\<close>

lemma decode_entry_encoded:
  assumes "length (node_vector x node) = dim" and "dim < 2 ^ 16"
    and "encode_element x node nbr_addr dim code = Some b"
  shows "decode_entry b = Inr (Some (node_id x node, node_vector x node))" and "b \<noteq> []"
proof -
  from element_roundtrip [OF assms(1,2), of nbr_addr code] assms(3) have
    v: "decode_element b = Inr \<lparr>ev_level = of_nat (node_level x node), ev_tid = node_id x node,
      ev_nbr_addr = nbr_addr, ev_vec = f32s_bytes (node_vector x node), ev_code = code,
      ev_deleted = False, ev_version = 0\<rparr>" "length b = elem_size dim (length code)" by auto
  show "decode_entry b = Inr (Some (node_id x node, node_vector x node))"
    by (simp add: decode_entry_def v(1) bytes_to_vec_f32s)
  show "b \<noteq> []" using v(2) by (auto simp: elem_size_def layout_defs)
qed

text \<open>A one-page store: block 1 holds one element.\<close>

definition one_meta :: hnsw_meta where
  "one_meta = (empty_meta one_node 1)\<lparr>hm_elem_npages := 1, hm_nbr_first := 2\<rparr>"

lemma one_meta_blocks: "elem_blocks one_meta = [1]" "hm_raw_npages one_meta = 0"
  by (simp_all add: one_meta_def empty_meta_def elem_blocks_def block_range_def upt_conv_Cons)

lemma one_store:
  "\<exists>b. encode_element one_node 0 (2, 1) 2 [] = Some b \<and> decode_entry b = Inr (Some (7, [0, 1])) \<and>
     enumerate_entries [[], [b]] one_meta = Inr [(7, [0, 1])] \<and>
     elem_blocks one_meta = [1] \<and> hm_raw_npages one_meta = 0"
proof -
  have len: "length (node_vector one_node 0) = 2" by (simp add: node_vector_def one_node_def)
  obtain b where b: "encode_element one_node 0 (2, 1) 2 [] = Some b"
    using element_roundtrip [OF len, of "(2, 1)" "[]"] by auto
  from decode_entry_encoded [OF len _ b] have e: "decode_entry b = Inr (Some (7, [0, 1]))" "b \<noteq> []"
    by (simp_all add: one_node_def node_vector_def node_id_def)
  note m = one_meta_blocks
  have "enumerate_entries [[], [b]] one_meta = Inr [(7, [0, 1])]"
    unfolding enumerate_iff [OF m(2)] m(1)
    using e by (simp add: blocks_ok_def read_all_page_items_def List.map_filter_def)
  with b e m show ?thesis by blast
qed

text \<open>C21: The VACUUM tombstone sweep removes exactly the dead entries. In the layouts that keep their vectors in the
  element tuples, f32 and SBQ (the meta has no cold raw pages; the v4 layout is not covered), it succeeds on every store
  whose elements decode, reports the number of entries it removed, leaves the live entries in their order, keeps
  the number of pages and touches no page outside the element range.\<close>

theorem tombstone_sweep_entries:
  assumes "hm_raw_npages meta = 0" and "enumerate_entries rel meta = Inr xs"
  shows "\<exists>rel'. tombstone_sweep rel meta is_dead = Inr (rel', length (filter (\<lambda>e. is_dead (fst e)) xs)) \<and>
    enumerate_entries rel' meta = Inr (filter (\<lambda>e. \<not> is_dead (fst e)) xs) \<and> length rel' = length rel \<and>
    (\<forall>j < length rel. j \<notin> set (elem_blocks meta) \<longrightarrow> rel' ! j = rel ! j)"
  by (rule sweep_entries [OF assms])

theorem tombstone_sweep_entries_witness:
  "\<exists>rel rel'. tombstone_sweep rel one_meta (\<lambda>tid. tid = 7) = Inr (rel', 1) \<and>
     enumerate_entries rel one_meta = Inr [(7, [0, 1])] \<and> enumerate_entries rel' one_meta = Inr []"
proof -
  from one_store obtain b where b: "enumerate_entries [[], [b]] one_meta = Inr [(7, [0, 1])]" "hm_raw_npages one_meta = 0"
    by blast
  from tombstone_sweep_entries [OF b(2,1), of "\<lambda>tid. tid = 7"] b(1) show ?thesis by auto
qed

text \<open>C22: An insert that reuses a tombstoned slot adds exactly the new entry: the enumeration afterwards is
  the one before with \<open>(tid, v)\<close> at one position, whatever neighbours the search returned and whichever
  neighbour tuples the back links rewrote; an insert that reports no reuse leaves the relation unchanged.\<close>

theorem slot_reuse_adds_entry:
  assumes "hm_raw_npages meta = 0" and "enumerate_entries rel meta = Inr xs"
    and "insert_inplace search rel meta tid v = Inr (rel', reused)"
  shows "if reused then \<exists>pre post. xs = pre @ post \<and> enumerate_entries rel' meta = Inr (pre @ (tid, v) # post)
    else rel' = rel"
  by (rule insert_inplace_entries [OF assms])

theorem slot_reuse_adds_entry_witness:
  "\<exists>rel rel'. enumerate_entries rel one_meta = Inr [] \<and>
     insert_inplace (\<lambda>_ _ _. Inr []) rel one_meta 8 [3, 4] = Inr (rel', True) \<and>
     enumerate_entries rel' one_meta = Inr [(8, [3, 4])]"
proof -
  let ?ev = "\<lparr>ev_level = 0, ev_tid = 7, ev_nbr_addr = (1, 5), ev_vec = f32s_bytes [0, 1], ev_code = [],
    ev_deleted = True, ev_version = 1\<rparr>"
  have len: "length (node_vector one_node 0) = 2" by (simp add: node_vector_def one_node_def)
  obtain b0 where b0: "decode_element b0 = Inr (?ev\<lparr>ev_deleted := False, ev_version := 0\<rparr>)"
    using element_roundtrip [OF len, of "(1, 5)" "[]"] by (auto simp: one_node_def node_vector_def node_level_def node_id_def)
  obtain b where b: "decode_element b = Inr ?ev" using tombstone_view(1) [OF b0] by auto
  then have "b \<noteq> []" by (auto simp: decode_element_def layout_defs)
  note m = one_meta_blocks
  let ?rel = "[[], [b]]"
  have xs: "enumerate_entries ?rel one_meta = Inr []"
    unfolding enumerate_iff [OF m(2)] m(1) using b \<open>b \<noteq> []\<close>
    by (simp add: blocks_ok_def read_all_page_items_def List.map_filter_def decode_entry_def)
  have slot: "find_reusable_slot ?rel one_meta 0 = Inr (Some (1, 1))"
    using m(1) b \<open>b \<noteq> []\<close> unfolding find_reusable_slot_def elem_blocks_def
    by (simp add: items_with_off_def reusable_def one_meta_def empty_meta_def upt_Suc)
  have "length [3, 4 :: f32_bits] = length (ev_vec ?ev) div 4" by simp
  from revive_view [OF b _ _ this, of 8] have r: "snd (revive_item 8 [3, 4] b)"
    "decode_element (fst (revive_item 8 [3, 4] b)) =
      Inr (?ev\<lparr>ev_deleted := False, ev_version := 1 + 1, ev_tid := 8, ev_vec := f32s_bytes [3, 4]\<rparr>)" by simp_all
  let ?b = "fst (revive_item 8 [3, 4] b)"
  have "insert_inplace (\<lambda>_ _ _. Inr []) ?rel one_meta 8 [3, 4] = Inr ([[], [?b]], True)"
    using slot r \<open>b \<noteq> []\<close> by (simp add: insert_inplace_def one_meta_def empty_meta_def
      write_reused_element_def modify_item_at_def item_at_def split_beta read_page_item_at_def
      set_ground_neighbors_inplace_def)
  with slot_reuse_adds_entry [OF m(2) xs this] xs show ?thesis by auto
qed

end
