(* ===== verification/Fold.thy ===== *)
theory Fold
  imports HnswStore
begin

text \<open>
  The crash-safe VACUUM fold (\<open>am/fold.rs\<close>): the choice of the base block, the order of the page writes,
  and what every crash point leaves on disk. Each page write is one atomic WAL record, so the states a crash
  can leave are the relation after each record: \<open>fold_trace\<close> lists them in order.
\<close>

definition free_region :: "u32 \<Rightarrow> u32 \<Rightarrow> u32 \<Rightarrow> u32" where
  "free_region cur_gen_start nblocks need =
     (if cur_gen_start > 1 \<and> cur_gen_start - 1 \<ge> need then 1 else max nblocks 1)"

definition ivf_gen_base :: "relation \<Rightarrow> page_error + u32" where
  "ivf_gen_base rel =
     bind_r (read_page_item rel 0) (\<lambda>m.
       if length m < 8 \<or> u32_at 0 m \<noteq> IVF_STRUCT_MAGIC then Inl BadIvfMagic
       else let ver = u32_at 4 m in
         if ver = 3 then if length m < 29 then Inl TruncatedIvfMeta else Inr (u32_at 25 m)
         else Inr 1)"

definition cur_gen_start :: "relation \<Rightarrow> u32" where
  "cur_gen_start rel =
     (case peek_magic rel of
        Inr m \<Rightarrow>
          if m = HNSW_STRUCT_MAGIC then (case read_meta rel of Inr meta \<Rightarrow> hm_elem_first meta | Inl _ \<Rightarrow> 1)
          else if m = IVF_STRUCT_MAGIC then (case ivf_gen_base rel of Inr b \<Rightarrow> b | Inl _ \<Rightarrow> 1)
          else 1
      | Inl _ \<Rightarrow> 1)"

text \<open>The states after each body page, the pivot and each reclaimed page. A page that cannot take its items panics: the
  fold stops before it, the states before it are those of the trace, and the pivot is never reached.\<close>

definition write_body_page :: "nat \<Rightarrow> nat \<Rightarrow> page \<Rightarrow> relation \<Rightarrow> page_error + relation" where
  "write_body_page nblocks b items rel =
     (if b < nblocks then reinit_page_with_items rel b items else extend_page_with_items rel items)"

fun fold_body :: "nat \<Rightarrow> nat \<Rightarrow> page list \<Rightarrow> relation \<Rightarrow> relation list" where
  "fold_body nblocks b [] rel = []"
| "fold_body nblocks b (items # body) rel =
     (case write_body_page nblocks b items rel of
        Inl _ \<Rightarrow> []
      | Inr rel \<Rightarrow> rel # fold_body nblocks (Suc b) body rel)"

fun fold_reclaim :: "nat list \<Rightarrow> relation \<Rightarrow> relation list" where
  "fold_reclaim [] rel = []"
| "fold_reclaim (b # bs) rel =
     (case reinit_page_with_items rel b [] of Inl _ \<Rightarrow> [] | Inr rel \<Rightarrow> rel # fold_reclaim bs rel)"

definition fold_trace :: "relation \<Rightarrow> bytes \<Rightarrow> page list \<Rightarrow> u32 \<Rightarrow> relation list" where
  "fold_trace rel meta body base =
     (let written = fold_body (length rel) (unat base) body rel; gen_end = unat base + length body in
      if length written < length body then written
      else case pivot_meta_page (last (rel # written)) meta of
        Inl _ \<Rightarrow> written
      | Inr pivoted \<Rightarrow> written @ pivoted # fold_reclaim [gen_end..<length pivoted] pivoted)"

text \<open>The fold itself, where nothing interrupts it: it panics, or ends in the last state of the trace.\<close>

fun write_body :: "nat \<Rightarrow> nat \<Rightarrow> page list \<Rightarrow> relation \<Rightarrow> page_error + relation" where
  "write_body nblocks b [] rel = Inr rel"
| "write_body nblocks b (items # body) rel =
     bind_r (write_body_page nblocks b items rel) (write_body nblocks (Suc b) body)"

definition gen_fold :: "relation \<Rightarrow> bytes \<Rightarrow> page list \<Rightarrow> u32 \<Rightarrow> page_error + relation" where
  "gen_fold rel meta body base =
     bind_r (write_body (length rel) (unat base) body rel) (\<lambda>rel.
     bind_r (pivot_meta_page rel meta) (\<lambda>rel.
       iter_r (\<lambda>rel b. reinit_page_with_items rel b []) rel [unat base + length body..<length rel]))"

section \<open>The states of a fold\<close>

text \<open>The number of body pages before the first one that does not take its items.\<close>

definition fitting :: "page list \<Rightarrow> nat" where
  "fitting body = length (takeWhile page_fits body)"

lemma fitting_simps:
  "fitting [] = 0" "fitting (items # body) = (if page_fits items then Suc (fitting body) else 0)"
  "fitting body \<le> length body" "fitting body = length body \<longleftrightarrow> (\<forall>items \<in> set body. page_fits items)"
proof -
  show "fitting [] = 0" "fitting (items # body) = (if page_fits items then Suc (fitting body) else 0)"
    "fitting body \<le> length body" by (simp_all add: fitting_def length_takeWhile_le)
  show "fitting body = length body \<longleftrightarrow> (\<forall>items \<in> set body. page_fits items)"
    by (induction body) (auto simp: fitting_def dest: length_takeWhile_le [THEN le_trans])
qed

lemma write_body_page_eq:
  "length rel = max nblocks b \<Longrightarrow> write_body_page nblocks b items rel =
    (if page_fits items then Inr (put_at b [items] rel) else Inl AddItemFailed)"
  by (auto simp: write_body_page_def put_at_def reinit_page_with_items_def extend_page_with_items_def upd_conv_take_nth_drop max_def)

lemma put_at_step:
  "length rel = max nblocks b \<Longrightarrow> length (put_at b [items] rel) = max nblocks (Suc b)"
  "length rel = max nblocks b \<Longrightarrow> put_at (Suc b) xs (put_at b [items] rel) = put_at b (items # xs) rel"
  by (auto simp: put_at_def max_def min_def add.commute)

lemma fold_body_eq:
  "length rel = max nblocks b \<Longrightarrow>
   fold_body nblocks b body rel = map (\<lambda>k. put_at b (take (Suc k) body) rel) [0..<fitting body]"
proof (induction body arbitrary: b rel)
  case Nil
  then show ?case by (simp add: fitting_simps)
next
  case (Cons items body)
  have "[0..<Suc (fitting body)] = 0 # map Suc [0..<fitting body]"
    by (simp add: upt_conv_Cons map_Suc_upt)
  then show ?case
    using Cons.prems by (simp add: write_body_page_eq fitting_simps(2) Cons.IH [OF put_at_step(1)] put_at_step)
qed

lemma put_at_none: "put_at b [] rel = rel"
  by (simp add: put_at_def)

lemma write_body_ok:
  "length rel = max nblocks b \<Longrightarrow> \<forall>items \<in> set body. page_fits items \<Longrightarrow> write_body nblocks b body rel = Inr (put_at b body rel)"
proof (induction body arbitrary: b rel)
  case (Cons items body)
  then show ?case by (simp add: write_body_page_eq put_at_step)
qed (simp add: put_at_none)

lemma reclaim_page: "e < length rel \<Longrightarrow> reinit_page_with_items rel e [] = Inr (put_at e [[]] rel)"
  by (simp add: reinit_page_with_items_def put_at_def upd_conv_take_nth_drop)

lemma reclaim_step:
  "e + Suc n \<le> length rel \<Longrightarrow> Suc e + n \<le> length (put_at e [[]] rel)"
  "e < length rel \<Longrightarrow> put_at (Suc e) xs (put_at e [[]] rel) = put_at e ([] # xs) rel"
  by (simp_all add: put_at_def min_def add.commute)

lemma fold_reclaim_eq:
  "e + n \<le> length rel \<Longrightarrow>
   fold_reclaim [e..<e + n] rel = map (\<lambda>k. put_at e (replicate (Suc k) []) rel) [0..<n]"
proof (induction n arbitrary: e rel)
  case (Suc n)
  have u: "[e..<e + Suc n] = e # [Suc e..<Suc e + n]" by (simp add: upt_conv_Cons)
  have "[0..<Suc n] = 0 # map Suc [0..<n]" by (simp add: upt_conv_Cons map_Suc_upt)
  then show ?case using Suc.IH [OF reclaim_step(1) [OF Suc.prems]] Suc.prems
    by (simp add: u [simplified] reclaim_page reclaim_step(2))
qed simp

lemma reclaim_ok:
  "e + n \<le> length rel \<Longrightarrow>
   iter_r (\<lambda>rel b. reinit_page_with_items rel b []) rel [e..<e + n] = Inr (put_at e (replicate n []) rel)"
proof (induction n arbitrary: e rel)
  case (Suc n)
  have u: "[e..<e + Suc n] = e # [Suc e..<Suc e + n]" by (simp add: upt_conv_Cons)
  show ?case using Suc.IH [OF reclaim_step(1) [OF Suc.prems]] Suc.prems
    by (simp add: u [simplified] reclaim_page reclaim_step(2))
qed (simp add: put_at_none)

text \<open>The states of a fold at a base block inside or at the end of the relation.\<close>

lemma length_put_at_max: "off \<le> length b \<Longrightarrow> length (put_at off xs b) = max (length b) (off + length xs)"
  by (auto simp: put_at_def)

lemma nth_put_at_any:
  "off \<le> length b \<Longrightarrow> i < max (length b) (off + length xs) \<Longrightarrow>
   put_at off xs b ! i = (if off \<le> i \<and> i < off + length xs then xs ! (i - off) else b ! i)"
  by (auto simp: put_at_def nth_append)

text \<open>The trace: the pages before the first one that does not fit and, when all fit, the pivot and the reclaim.\<close>

lemma fold_trace_eq:
  fixes body :: "page list" and meta :: bytes
  assumes "unat base \<le> length rel"
  defines "written \<equiv> put_at (unat base) body rel"
  defines "pivoted \<equiv> written[0 := [meta]]"
  shows "fold_trace rel meta body base =
    map (\<lambda>k. put_at (unat base) (take (Suc k) body) rel) [0..<fitting body] @
    (if fitting body = length body \<and> page_fits [meta] then
      pivoted # map (\<lambda>k. put_at (unat base + length body) (replicate (Suc k) []) pivoted)
        [0..<length written - (unat base + length body)] else [])"
proof -
  let ?b = "unat base" and ?n = "length body"
  have body: "fold_body (length rel) ?b body rel = map (\<lambda>k. put_at ?b (take (Suc k) body) rel) [0..<fitting body]"
    by (rule fold_body_eq) (use assms(1) in simp)
  show ?thesis
  proof (cases "fitting body = ?n")
    case True
    have last: "last (rel # map (\<lambda>k. put_at ?b (take (Suc k) body) rel) [0..<?n]) = written"
      by (cases ?n) (simp_all add: written_def upt_Suc put_at_none)
    have len: "length pivoted = length written" "?b + ?n \<le> length written"
      using assms(1) by (simp_all add: pivoted_def written_def length_put_at_max)
    then have u: "[?b + ?n..<length pivoted] = [?b + ?n..<?b + ?n + (length written - (?b + ?n))]" by simp
    have "fold_reclaim [?b + ?n..<length pivoted] pivoted =
        map (\<lambda>k. put_at (?b + ?n) (replicate (Suc k) []) pivoted) [0..<length written - (?b + ?n)]"
      unfolding u by (rule fold_reclaim_eq) (use len in simp)
    then show ?thesis using True unfolding fold_trace_def Let_def body True last
      by (simp add: pivot_meta_page_def pivoted_def)
  next
    case False
    then show ?thesis using fitting_simps(3) [of body] by (simp add: fold_trace_def Let_def body)
  qed
qed

lemma gen_fold_eq:
  fixes body :: "page list"
  assumes "unat base \<le> length rel" and "\<forall>items \<in> set body. page_fits items" and "page_fits [meta]"
  defines "written \<equiv> put_at (unat base) body rel"
  shows "gen_fold rel meta body base =
    (let e = unat base + length body in
     Inr (take e (written[0 := [meta]]) @ replicate (length written - e) []))"
proof -
  let ?e = "unat base + length body" and ?p = "written[0 := [meta]]"
  have "write_body (length rel) (unat base) body rel = Inr written"
    unfolding written_def by (rule write_body_ok) (use assms(1,2) in simp_all)
  moreover have le: "?e \<le> length written" using assms(1) by (simp add: written_def length_put_at_max)
  moreover have "[?e..<length ?p] = [?e..<?e + (length written - ?e)]" using le by simp
  ultimately show ?thesis
    using reclaim_ok [of ?e "length written - ?e" ?p] assms(3)
    by (simp add: gen_fold_def pivot_meta_page_def Let_def put_at_def)
qed

text \<open>The result of the fold is the last state of its trace.\<close>

lemma gen_fold_last:
  assumes "unat base \<le> length rel" and "\<forall>items \<in> set body. page_fits items" and "page_fits [meta]"
  shows "gen_fold rel meta body base = Inr (last (fold_trace rel meta body base))"
proof -
  let ?w = "put_at (unat base) body rel" and ?e = "unat base + length body"
  have le: "?e \<le> length ?w" using assms(1) by (simp add: length_put_at_max)
  have all: "fitting body = length body" using assms(2) by (simp add: fitting_simps(4))
  show ?thesis
    unfolding gen_fold_eq [OF assms] fold_trace_eq [OF assms(1)]
    using le assms(3) all by (cases "length ?w - ?e") (simp_all add: Let_def upt_Suc put_at_def)
qed

text \<open>The region the fold overwrites before the pivot is free: it ends before block \<open>gs\<close> of the live
  generation or starts at the end of the relation.\<close>

definition free_for :: "relation \<Rightarrow> nat \<Rightarrow> nat \<Rightarrow> nat \<Rightarrow> bool" where
  "free_for rel gs base n \<longleftrightarrow> 1 \<le> base \<and> base \<le> length rel \<and> (base + n \<le> gs \<or> base = length rel)"

lemma free_region_free:
  assumes "rel \<noteq> []" and "length rel < 2 ^ 32" and "n < 2 ^ 32" and "unat gs \<le> length rel"
  shows "free_for rel (unat gs) (unat (free_region gs (of_nat (length rel)) (of_nat n))) n"
proof -
  have u: "unat (of_nat (length rel) :: u32) = length rel" "unat (of_nat n :: u32) = n"
    using assms(2,3) by (simp_all add: unat_of_nat_u32)
  show ?thesis
  proof (cases "gs > 1 \<and> gs - 1 \<ge> of_nat n")
    case True
    then have "1 < unat gs" by (simp add: word_less_nat_alt)
    moreover have "unat (gs - 1) = unat gs - 1"
      using True by (intro unat_minus_one) (auto simp: word_less_nat_alt)
    ultimately have "1 + n \<le> unat gs" using True u(2) unfolding word_le_nat_alt by linarith
    with True assms(4) show ?thesis by (simp add: free_region_def free_for_def)
  next
    case False
    have "unat (max (of_nat (length rel)) 1 :: u32) = length rel"
      using assms(1) u(1) by (simp add: max_def word_le_nat_alt) (metis One_nat_def Suc_leI le_antisym length_greater_0_conv)
    with False assms(1) show ?thesis by (auto simp: free_region_def free_for_def Suc_le_eq)
  qed
qed

text \<open>Every state a crash can leave: block 0 and the live generation untouched, or the new meta over the
  complete new generation.\<close>

definition keeps_old :: "relation \<Rightarrow> nat \<Rightarrow> relation \<Rightarrow> bool" where
  "keeps_old rel gs r \<longleftrightarrow> length rel \<le> length r \<and> r ! 0 = rel ! 0 \<and> (\<forall>j < length rel. gs \<le> j \<longrightarrow> r ! j = rel ! j)"

definition holds_new :: "bytes \<Rightarrow> nat \<Rightarrow> page list \<Rightarrow> relation \<Rightarrow> bool" where
  "holds_new meta base body r \<longleftrightarrow> base + length body \<le> length r \<and> r ! 0 = [meta] \<and>
     (\<forall>i < length body. r ! (base + i) = body ! i)"

lemma fold_states:
  assumes "free_for rel gs (unat base) (length body)" and "r \<in> set (rel # fold_trace rel meta body base)"
  shows "keeps_old rel gs r \<or> holds_new meta (unat base) body r"
proof -
  let ?b = "unat base" and ?n = "length body"
  have b: "1 \<le> ?b" "?b \<le> length rel" "?b + ?n \<le> gs \<or> ?b = length rel" using assms(1) by (simp_all add: free_for_def)
  let ?w = "put_at ?b body rel"
  have len: "length ?w = max (length rel) (?b + ?n)" by (rule length_put_at_max [OF b(2)])
  have piv: "holds_new meta ?b body (?w[0 := [meta]])"
    unfolding holds_new_def
  proof (intro conjI allI impI)
    show "?b + ?n \<le> length (?w[0 := [meta]])" using len by simp
    show "?w[0 := [meta]] ! 0 = [meta]" using len b(1) by (intro nth_list_update_eq) linarith
    show "?w[0 := [meta]] ! (?b + i) = body ! i" if "i < ?n" for i
      using that b(1) nth_put_at_any [OF b(2), of "?b + i" body] by simp
  qed
  consider (old) "r = rel" | (body) k where "k < ?n" "r = put_at ?b (take (Suc k) body) rel"
    | (pivot) "r = ?w[0 := [meta]]"
    | (reclaim) k where "k < length ?w - (?b + ?n)" "r = put_at (?b + ?n) (replicate (Suc k) []) (?w[0 := [meta]])"
    using assms(2) unfolding fold_trace_eq [OF b(2)] by (auto split: if_splits) (metis less_le_trans fitting_simps(3))+
  then show ?thesis
  proof cases
    case old
    then show ?thesis by (simp add: keeps_old_def)
  next
    case body
    have "length r = max (length rel) (?b + Suc k)" using body b(2) by (simp add: length_put_at_max)
    moreover have same: "r ! j = rel ! j" if "j < length rel" "j = 0 \<or> gs \<le> j" for j
      using body b that by (auto simp: nth_put_at_any)
    moreover have "r ! 0 = rel ! 0"
      by (cases "rel = []") (use same b in auto)
    ultimately have "keeps_old rel gs r" by (simp add: keeps_old_def)
    then show ?thesis ..
  next
    case pivot
    with piv show ?thesis by simp
  next
    case reclaim
    let ?p = "?w[0 := [meta]]" and ?zs = "replicate (Suc k) ([] :: page)"
    have le: "?b + ?n \<le> length ?p" using len by simp
    have "length ?p \<le> length r" by (simp add: reclaim(2) length_put_at_max [OF le])
    moreover have "r ! j = ?p ! j" if "j < ?b + ?n" for j
    proof -
      have "j < max (length ?p) (?b + ?n + length ?zs)" using that by simp
      from nth_put_at_any [OF le this] that show ?thesis unfolding reclaim(2) by simp
    qed
    ultimately have "holds_new meta ?b body r"
      using piv b(1) unfolding holds_new_def by simp
    then show ?thesis ..
  qed
qed

text \<open>What an uninterrupted fold leaves: the new generation, and nothing behind it.\<close>

lemma gen_fold_final:
  assumes "free_for rel gs (unat base) (length body)" and "gen_fold rel meta body base = Inr r"
    and fits: "\<forall>items \<in> set body. page_fits items" "page_fits [meta]"
  shows "holds_new meta (unat base) body r" and "unat base + length body \<le> j \<Longrightarrow> j < length r \<Longrightarrow> r ! j = []"
proof -
  let ?e = "unat base + length body" and ?w = "put_at (unat base) body rel"
  have b: "1 \<le> unat base" "unat base \<le> length rel" using assms(1) by (simp_all add: free_for_def)
  have fin: "r = take ?e (?w[0 := [meta]]) @ replicate (length ?w - ?e) []"
    using assms(2) by (simp add: gen_fold_eq [OF b(2) fits] Let_def)
  have len: "?e \<le> length ?w" by (simp add: length_put_at_max [OF b(2)])
  show "holds_new meta (unat base) body r"
    unfolding holds_new_def
  proof (intro conjI allI impI)
    show "?e \<le> length r" using len by (simp add: fin)
    have "0 < length ?w" "0 < ?e" using b(1) len by linarith+
    then show "r ! 0 = [meta]" using len by (simp add: fin nth_append)
    show "r ! (unat base + i) = body ! i" if "i < length body" for i
      using that b(1) len nth_put_at_any [OF b(2), of "unat base + i" body] by (simp add: fin nth_append)
  qed
  show "?e \<le> j \<Longrightarrow> j < length r \<Longrightarrow> r ! j = []" using len by (simp add: fin nth_append)
qed

section \<open>Properties\<close>

text \<open>C11: The VACUUM fold is atomic at every crash point. Whatever the current generation and the size of the
  new one, \<open>free_region\<close> picks a base such that after each WAL record of the fold either block 0 and every
  block of the current generation and of the pending region are unchanged, or block 0 is exactly the new
  meta and the new generation is complete behind it.\<close>

theorem fold_crash_atomic:
  assumes "rel \<noteq> []" and "length rel < 2 ^ 32" and "length body < 2 ^ 32" and "unat gs \<le> length rel"
  shows "let base = free_region gs (of_nat (length rel)) (of_nat (length body)) in
    \<forall>r \<in> set (rel # fold_trace rel meta body base).
      (length rel \<le> length r \<and> r ! 0 = rel ! 0 \<and> (\<forall>j < length rel. unat gs \<le> j \<longrightarrow> r ! j = rel ! j)) \<or>
      (r ! 0 = [meta] \<and> (\<forall>i < length body. unat base + i < length r \<and> r ! (unat base + i) = body ! i))"
  using fold_states [OF free_region_free [OF assms]] unfolding Let_def keeps_old_def holds_new_def by fastforce

theorem fold_crash_atomic_witness:
  "list_all (\<lambda>r. (r ! 0 = [[1]] \<and> r ! 1 = [[2]]) \<or> (r ! 0 = [[9]] \<and> r ! 2 = [[7]]))
     (fold_trace [[[1]], [[2]]] [9] [[[7]]] (free_region 1 2 1))"
proof -
  let ?rel = "[[[1]], [[2]]] :: relation"
  have f: "free_region 1 2 1 = 2" "unat (free_region 1 2 1) = 2" by (simp_all add: free_region_def max_def word_le_nat_alt)
  show ?thesis
    unfolding list_all_iff
  proof
    fix r assume "r \<in> set (fold_trace ?rel [9] [[[7]]] (free_region 1 2 1))"
    with fold_crash_atomic [of ?rel "[[[7]]]" 1 "[9]"]
    have "(length ?rel \<le> length r \<and> r ! 0 = ?rel ! 0 \<and> (\<forall>j < length ?rel. unat (1 :: u32) \<le> j \<longrightarrow> r ! j = ?rel ! j)) \<or>
        (r ! 0 = [[9]] \<and> (\<forall>i < length [[[7 :: u8]]]. 2 + i < length r \<and> r ! (2 + i) = [[[7]]] ! i))"
      by (simp add: Let_def f)
    then show "(r ! 0 = [[1]] \<and> r ! 1 = [[2]]) \<or> (r ! 0 = [[9]] \<and> r ! 2 = [[7]])" by auto
  qed
qed

end
