(* ===== verification/HnswParallel.thy ===== *)
theory HnswParallel
  imports HnswBuild "HOL-Library.Multiset"
begin

text \<open>
  The parallel build of \<open>src/theodb_rs/src/ann/hnsw_parallel.rs\<close>. A worker is a program over the shared
  graph: the code between two lock acquisitions is deterministic, so a program is a tree whose inner nodes
  are the critical sections (\<open>neighbors[i].read()\<close>, \<open>neighbors[i].write()\<close>, \<open>state.read()\<close>,
  \<open>state.write()\<close>), a read continuing with what it saw. A schedule picks the worker that takes its next
  critical section; the shared graph is the \<open>hnsw_index\<close> of the sequential build, whose \<open>hx_entry\<close> and
  \<open>hx_max_level\<close> are the \<open>state\<close> lock. No lock is held across two critical sections, so every
  execution of the threads is one of these interleavings. Proved for every schedule: the build ends, no worker
  panics, and the graph is well-formed.
\<close>

section \<open>Workers as programs\<close>

datatype prog =
    PDone
  | PPanic
  | PRead nat "nat list list \<Rightarrow> prog"  \<comment> \<open>\<open>neighbors[i].read()\<close>, cloned\<close>
  | PWrite nat nat "nat list" prog  \<comment> \<open>\<open>nn[layer] = selected\<close> under the node's write lock\<close>
  | PLink nat nat nat nat prog  \<comment> \<open>the back link of a neighbour under its write lock\<close>
  | PSnap "nat \<times> nat \<Rightarrow> prog"  \<comment> \<open>\<open>*state.read()\<close>\<close>
  | PPromote nat nat prog  \<comment> \<open>\<open>if level > st.1 { *st = (node, level) }\<close>\<close>

text \<open>\<open>or_panic\<close> for the tree: an index out of range between two critical sections.\<close>

definition p_opt :: "'a option \<Rightarrow> ('a \<Rightarrow> prog) \<Rightarrow> prog" where
  "p_opt r k = (case r of None \<Rightarrow> PPanic | Some v \<Rightarrow> k v)"

lemma p_opt_simps [simp]: "p_opt None k = PPanic" "p_opt (Some v) k = k v"
  by (simp_all add: p_opt_def)

lemma p_opt_cong [fundef_cong]: "r = r' \<Longrightarrow> (\<And>v. r' = Some v \<Longrightarrow> k v = k' v) \<Longrightarrow> p_opt r k = p_opt r' k'"
  by (cases r') simp_all

subsection \<open>Greedy descent\<close>

text \<open>Between two rounds the lists may have changed, so termination rests on the distance alone.\<close>

definition closer :: "kernel \<Rightarrow> f32_bits list list \<Rightarrow> f32_bits list \<Rightarrow> f64_bits \<Rightarrow> nat set" where
  "closer D vs q b = {i. i < length vs \<and> f64_lt (D q (vs ! i)) b}"

lemma closer_scan:
  assumes "descend_scan D vs q nbs (b, e, False) = Some (b', e', True)"
  shows "card (closer D vs q b') < card (closer D vs q b)"
proof -
  from descend_scan_result [OF assms] have e: "e' < length vs" "b' = D q (vs ! e')" "f64_lt b' b" by auto
  have "closer D vs q b' \<subset> closer D vs q b"
  proof (rule psubsetI)
    show "closer D vs q b' \<subseteq> closer D vs q b" using e(3) by (auto simp: closer_def f64_lt_def)
    have "e' \<in> closer D vs q b" "e' \<notin> closer D vs q b'" using e by (auto simp: closer_def f64_lt_def)
    then show "closer D vs q b' \<noteq> closer D vs q b" by blast
  qed
  then show ?thesis by (intro psubset_card_mono) (simp_all add: closer_def)
qed

function p_greedy :: "kernel \<Rightarrow> f32_bits list list \<Rightarrow> f32_bits list \<Rightarrow> nat \<Rightarrow> (nat \<Rightarrow> prog) \<Rightarrow> f64_bits \<Rightarrow> nat \<Rightarrow> prog" where
  "p_greedy D vs q layer k best_d ep =
     PRead ep (\<lambda>layers.
       p_opt (idx_get layers (min layer (length layers - 1))) (\<lambda>nbs.
       p_opt (descend_scan D vs q nbs (best_d, ep, False)) (\<lambda>(b, e, improved).
         if improved then p_greedy D vs q layer k b e else k e)))"
  by pat_completeness auto
termination
  by (relation "measure (\<lambda>(D, vs, q, layer, k, best_d, ep). card (closer D vs q best_d))") (auto intro: closer_scan)

declare p_greedy.simps [simp del]

definition p_greedy_descend :: "kernel \<Rightarrow> f32_bits list list \<Rightarrow> f32_bits list \<Rightarrow> nat \<Rightarrow> nat \<Rightarrow> (nat \<Rightarrow> prog) \<Rightarrow> prog" where
  "p_greedy_descend D vs q ep layer k = p_opt (idx_get vs ep) (\<lambda>v. p_greedy D vs q layer k (D q v) ep)"

fun p_descend :: "kernel \<Rightarrow> f32_bits list list \<Rightarrow> f32_bits list \<Rightarrow> nat \<Rightarrow> nat \<Rightarrow> (nat \<Rightarrow> prog) \<Rightarrow> nat \<Rightarrow> prog" where
  "p_descend D vs q stop 0 k ep = k ep"
| "p_descend D vs q stop (Suc n) k ep = p_greedy_descend D vs q ep (stop + Suc n) (p_descend D vs q stop n k)"

subsection \<open>Beam search of one layer\<close>

function p_beam :: "kernel \<Rightarrow> hnsw_index \<Rightarrow> f32_bits list \<Rightarrow> nat \<Rightarrow> nat \<Rightarrow> (cand list \<Rightarrow> prog) \<Rightarrow> beam \<Rightarrow> prog" where
  "p_beam D x q ef layer k s =
     (case bm_cand s of [] \<Rightarrow> k (bm_result s)
      | c # cs \<Rightarrow>
          let s1 = s\<lparr>bm_cand := cs\<rparr> in
          if f64_lt (worst_dist (bm_result s)) (cd c) \<and> length (bm_result s) \<ge> ef then k (bm_result s)
          else PRead (ci c) (\<lambda>layers.
            if layer \<ge> length layers then p_beam D x q ef layer k s1
            else p_opt (beam_expand D x q ef (layers ! layer) s1) (p_beam D x q ef layer k)))"
  by pat_completeness auto
termination
  by (relation "measure (\<lambda>(D, x, q, ef, layer, k, s). unvisited (bm_visited s) + length (bm_cand s))")
    (auto dest: beam_expand_measure)

declare p_beam.simps [simp del]

definition p_search_layer :: "kernel \<Rightarrow> hnsw_index \<Rightarrow> f32_bits list \<Rightarrow> nat list \<Rightarrow> nat \<Rightarrow> nat \<Rightarrow> (cand list \<Rightarrow> prog) \<Rightarrow> prog" where
  "p_search_layer D x q entries ef layer k =
     p_beam D x q ef layer k (beam_seed D x q entries
        \<lparr>bm_visited = replicate (length (hx_vectors x)) False, bm_cand = [], bm_result = []\<rparr>)"

subsection \<open>Linking\<close>

fun p_extend :: "kernel \<Rightarrow> hnsw_index \<Rightarrow> f32_bits list \<Rightarrow> nat \<Rightarrow> nat list \<Rightarrow> (cand list \<Rightarrow> prog) \<Rightarrow> cand list \<Rightarrow> prog" where
  "p_extend D x q layer [] k cs = k cs"
| "p_extend D x q layer (b # bs) k cs =
     PRead b (\<lambda>layers. p_opt (extend_nbs D x q (if layer < length layers then layers ! layer else []) cs)
       (p_extend D x q layer bs k))"

fun p_links :: "nat \<Rightarrow> nat \<Rightarrow> nat \<Rightarrow> nat list \<Rightarrow> prog \<Rightarrow> prog" where
  "p_links node layer m_layer [] k = k"
| "p_links node layer m_layer (nb # nbs) k = PLink nb node layer m_layer (p_links node layer m_layer nbs k)"

definition p_layer :: "kernel \<Rightarrow> bool \<Rightarrow> hnsw_index \<Rightarrow> nat \<Rightarrow> f32_bits list \<Rightarrow> nat \<Rightarrow> nat list \<Rightarrow> (nat list \<Rightarrow> prog) \<Rightarrow> prog" where
  "p_layer D ext x node q layer entries k =
     p_search_layer D x q entries (hx_efc x) layer (\<lambda>candidates.
       let next_entries = map ci candidates; m_layer = layer_degree x layer;
           link = (\<lambda>candidates. p_opt (select_from D x candidates m_layer) (\<lambda>selected.
             PWrite node layer selected (p_links node layer m_layer selected
               (k (if next_entries \<noteq> [] then next_entries else entries)))))
       in if ext then p_extend D x q layer next_entries link candidates else link candidates)"

text \<open>\<open>while lc >= 0\<close>, from layer \<open>n - 1\<close> down to the ground.\<close>

fun p_layers :: "kernel \<Rightarrow> bool \<Rightarrow> hnsw_index \<Rightarrow> nat \<Rightarrow> f32_bits list \<Rightarrow> nat \<Rightarrow> prog \<Rightarrow> nat list \<Rightarrow> prog" where
  "p_layers D ext x node q 0 k entries = k"
| "p_layers D ext x node q (Suc lc) k entries = p_layer D ext x node q lc entries (p_layers D ext x node q lc k)"

definition insert_node :: "kernel \<Rightarrow> bool \<Rightarrow> hnsw_index \<Rightarrow> nat \<Rightarrow> prog" where
  "insert_node D ext x node =
     p_opt (idx_get (hx_levels x) node) (\<lambda>level.
     p_opt (idx_get (hx_vectors x) node) (\<lambda>q.
       PSnap (\<lambda>(ep, max_level).
         p_descend D (hx_vectors x) q level (max_level - level) (\<lambda>ep.
           p_layers D ext x node q (min level max_level + 1)
             (if level > max_level then PPromote node level PDone else PDone) [ep]) ep)))"

section \<open>Critical sections\<close>

text \<open>One critical section of a program; \<open>None\<close> is a panic.\<close>

fun exec :: "kernel \<Rightarrow> prog \<Rightarrow> hnsw_index \<Rightarrow> (prog \<times> hnsw_index) option" where
  "exec D PDone x = Some (PDone, x)"
| "exec D PPanic x = None"
| "exec D (PRead i k) x = Option.bind (idx_get (hx_neighbors x) i) (\<lambda>layers. Some (k layers, x))"
| "exec D (PWrite i layer nbs k) x =
     Option.bind (idx_get (hx_neighbors x) i) (\<lambda>layers.
       if layer < length layers then Option.bind (adj_set x i layer nbs) (\<lambda>x. Some (k, x)) else Some (k, x))"
| "exec D (PLink nb node layer m_layer k) x =
     Option.bind (idx_get (hx_neighbors x) nb) (\<lambda>layers.
       if layer \<ge> length layers then Some (k, x)
       else Option.bind (back_link D node layer m_layer nb x) (\<lambda>x. Some (k, x)))"
| "exec D (PSnap k) x = Option.bind (hx_entry x) (\<lambda>e. Some (k (e, hx_max_level x), x))"
| "exec D (PPromote node level k) x =
     Some (k, if level > hx_max_level x then x\<lparr>hx_entry := Some node, hx_max_level := level\<rparr> else x)"

text \<open>A batch: the workers still in their loop, each with the node it is inserting, and the shared counter. A
  worker that has finished its node takes the next one, or leaves the loop.\<close>

record pool =
  po_workers :: "(nat \<times> prog) list"
  po_counter :: nat
  po_graph :: hnsw_index

definition worker_step :: "kernel \<Rightarrow> bool \<Rightarrow> nat \<Rightarrow> nat \<Rightarrow> pool \<Rightarrow> pool option" where
  "worker_step D ext stop i po =
     (let (node, p) = po_workers po ! i; rest = (\<lambda>ws. take i (po_workers po) @ ws @ drop (Suc i) (po_workers po)) in
      case p of
        PDone \<Rightarrow>
          let next_node = po_counter po in
          Some (po\<lparr>po_counter := Suc next_node, po_workers := rest (if next_node \<ge> stop then []
              else [(next_node, insert_node D ext (po_graph po) next_node)])\<rparr>)
      | _ \<Rightarrow> Option.bind (exec D p (po_graph po)) (\<lambda>(p, x).
          Some (po\<lparr>po_graph := x, po_workers := rest [(node, p)]\<rparr>)))"

text \<open>A schedule names at every step the worker that moves, counted among those still running.\<close>

type_synonym schedule = "nat \<Rightarrow> nat"

subsection \<open>Every batch ends\<close>

inductive_set prog_less :: "(prog \<times> prog) set" where
  "(k layers, PRead i k) \<in> prog_less"
| "(k, PWrite i layer nbs k) \<in> prog_less"
| "(k, PLink nb node layer m_layer k) \<in> prog_less"
| "(k e, PSnap k) \<in> prog_less"
| "(k, PPromote node level k) \<in> prog_less"

inductive_cases prog_lessE: "(p, PDone) \<in> prog_less" "(p, PPanic) \<in> prog_less" "(p, PRead i k) \<in> prog_less"
  "(p, PWrite i layer nbs k) \<in> prog_less" "(p, PLink nb node layer m_layer k) \<in> prog_less"
  "(p, PSnap k) \<in> prog_less" "(p, PPromote node level k) \<in> prog_less"

lemma wf_prog_less: "wf prog_less"
proof (rule wfUNIVI)
  fix P :: "prog \<Rightarrow> bool" and p assume I: "\<forall>p. (\<forall>r. (r, p) \<in> prog_less \<longrightarrow> P r) \<longrightarrow> P p"
  show "P p" by (induction p) (rule I [rule_format], auto elim: prog_lessE)+
qed

lemma exec_less: "exec D p x = Some (p', x') \<Longrightarrow> p \<noteq> PDone \<Longrightarrow> (p', p) \<in> prog_less"
  by (cases p) (auto simp: bind_eq_Some_conv intro: prog_less.intros split: if_splits)

definition pool_rank :: "nat \<Rightarrow> pool \<Rightarrow> nat \<times> prog multiset" where
  "pool_rank stop po = (stop - po_counter po, mset (map snd (po_workers po)))"

definition rank_less :: "((nat \<times> prog multiset) \<times> (nat \<times> prog multiset)) set" where
  "rank_less = less_than <*lex*> mult prog_less"

lemma wf_rank_less: "wf rank_less"
  by (simp add: rank_less_def wf_mult wf_prog_less wf_lex_prod)

lemma mult_remove: "(M, add_mset p M) \<in> mult r"
  unfolding mult_def by (intro r_into_trancl mult1I [of _ p M _ "{#}"]) simp_all

lemma mult_replace: "(p', p) \<in> r \<Longrightarrow> (add_mset p' M, add_mset p M) \<in> mult r"
  unfolding mult_def by (intro r_into_trancl mult1I [of _ p M _ "{#p'#}"]) simp_all

lemma mset_split: "i < length ws \<Longrightarrow> mset ws = add_mset (ws ! i) (mset (take i ws @ drop (Suc i) ws))"
  by (subst id_take_nth_drop [of i ws]) simp_all

lemma pool_rank_split:
  assumes "i < length (po_workers po)" and "po_workers po ! i = (node, p)"
  defines "others \<equiv> mset (map snd (take i (po_workers po) @ drop (Suc i) (po_workers po)))"
  shows "pool_rank stop po = (stop - po_counter po, add_mset p others)"
    and "pool_rank stop (po\<lparr>po_counter := c, po_workers := take i (po_workers po) @ ws @ drop (Suc i) (po_workers po)\<rparr>) =
      (stop - c, mset (map snd ws) + others)"
proof -
  have "mset (map snd (po_workers po)) = image_mset snd (add_mset (po_workers po ! i) (mset (take i (po_workers po) @ drop (Suc i) (po_workers po))))"
    by (subst mset_split [OF assms(1), symmetric]) (rule mset_map)
  then show "pool_rank stop po = (stop - po_counter po, add_mset p others)" using assms(2) by (simp add: pool_rank_def others_def)
  show "pool_rank stop (po\<lparr>po_counter := c, po_workers := take i (po_workers po) @ ws @ drop (Suc i) (po_workers po)\<rparr>) =
      (stop - c, mset (map snd ws) + others)"
    by (simp add: pool_rank_def others_def)
qed

lemma worker_step_cases:
  "po_workers po ! i = (node, PDone) \<Longrightarrow> worker_step D ext stop i po =
    Some (po\<lparr>po_counter := Suc (po_counter po), po_workers := take i (po_workers po) @
      (if po_counter po \<ge> stop then [] else [(po_counter po, insert_node D ext (po_graph po) (po_counter po))]) @
      drop (Suc i) (po_workers po)\<rparr>)"
  "po_workers po ! i = (node, p) \<Longrightarrow> p \<noteq> PDone \<Longrightarrow> worker_step D ext stop i po =
    Option.bind (exec D p (po_graph po)) (\<lambda>(p, x).
      Some (po\<lparr>po_graph := x, po_workers := take i (po_workers po) @ [(node, p)] @ drop (Suc i) (po_workers po)\<rparr>))"
  by (simp add: worker_step_def Let_def) (cases p; simp add: worker_step_def Let_def del: exec.simps)

lemma worker_step_less:
  assumes step: "worker_step D ext stop i po = Some po'" and i: "i < length (po_workers po)"
  shows "(pool_rank stop po', pool_rank stop po) \<in> rank_less"
proof -
  obtain node p where w: "po_workers po ! i = (node, p)" by (cases "po_workers po ! i")
  note old = pool_rank_split(1) [OF i w, of stop] and upd = pool_rank_split(2) [OF i w, of stop]
  show ?thesis
  proof (cases "p = PDone")
    case True
    define ws where "ws = (if po_counter po \<ge> stop then [] else [(po_counter po, insert_node D ext (po_graph po) (po_counter po))])"
    have "po' = po\<lparr>po_counter := Suc (po_counter po), po_workers := take i (po_workers po) @ ws @ drop (Suc i) (po_workers po)\<rparr>"
      using step w True by (simp add: worker_step_def Let_def ws_def)
    then have "pool_rank stop po' = (stop - Suc (po_counter po), mset (map snd ws) +
        mset (map snd (take i (po_workers po) @ drop (Suc i) (po_workers po))))" by (simp only: upd)
    then show ?thesis unfolding old rank_less_def by (cases "stop \<le> po_counter po") (auto simp: ws_def mult_remove)
  next
    case False
    with step w obtain p' x where e: "exec D p (po_graph po) = Some (p', x)"
      "po' = po\<lparr>po_graph := x, po_workers := take i (po_workers po) @ [(node, p')] @ drop (Suc i) (po_workers po)\<rparr>"
      by (auto simp: worker_step_cases(2) bind_eq_Some_conv)
    have "pool_rank stop po' = pool_rank stop (po\<lparr>po_counter := po_counter po,
        po_workers := take i (po_workers po) @ [(node, p')] @ drop (Suc i) (po_workers po)\<rparr>)"
      by (simp add: e(2) pool_rank_def)
    then show ?thesis unfolding old upd rank_less_def using exec_less [OF e(1) False] by (simp add: mult_replace)
  qed
qed

function run_batch :: "kernel \<Rightarrow> bool \<Rightarrow> nat \<Rightarrow> schedule \<Rightarrow> nat \<Rightarrow> pool \<Rightarrow> (nat \<times> hnsw_index) option" where
  "run_batch D ext stop sched t po =
     (if po_workers po = [] then Some (t, po_graph po)
      else case worker_step D ext stop (sched t mod length (po_workers po)) po of
        None \<Rightarrow> None
      | Some po' \<Rightarrow> run_batch D ext stop sched (Suc t) po')"
  by pat_completeness auto
termination
  by (relation "inv_image rank_less (\<lambda>(D, ext, stop, sched, t, po). pool_rank stop po)")
    (simp_all add: wf_rank_less worker_step_less)

declare run_batch.simps [simp del]

section \<open>The build\<close>

definition CANCEL_CHECK_BATCH :: nat where "CANCEL_CHECK_BATCH = 4096"

text \<open>One batch of nodes after the other, every worker joined in between. The schedule goes on where the
  batch before left it.\<close>

function par_batches :: "kernel \<Rightarrow> bool \<Rightarrow> nat \<Rightarrow> nat \<Rightarrow> schedule \<Rightarrow> nat \<Rightarrow> nat \<Rightarrow> hnsw_index \<Rightarrow> hnsw_index option" where
  "par_batches D ext nthreads n sched t start x =
     (if start < n then
        let stop = min (start + CANCEL_CHECK_BATCH) n in
        case run_batch D ext stop sched t \<lparr>po_workers = replicate nthreads (0, PDone), po_counter = start, po_graph = x\<rparr> of
          None \<Rightarrow> None
        | Some (t, x) \<Rightarrow> par_batches D ext nthreads n sched t stop x
      else Some x)"
  by pat_completeness auto
termination
  by (relation "measure (\<lambda>(D, ext, nthreads, n, sched, t, start, x). n - start)")
    (auto simp: CANCEL_CHECK_BATCH_def)

declare par_batches.simps [simp del]

text \<open>The graph before the parallel phase: node 0 placed, no links.\<close>

definition par_seed :: "(i64 \<times> f32_bits list) list \<Rightarrow> nat \<Rightarrow> nat \<Rightarrow> metric \<Rightarrow> nat list \<Rightarrow> hnsw_index" where
  "par_seed corpus m efc metric levels =
     \<lparr>hx_metric = metric, hx_m = m, hx_m0 = m * 2, hx_efc = max efc m, hx_vectors = map snd corpus,
       hx_ids = map fst corpus, hx_levels = levels, hx_neighbors = map (\<lambda>l. replicate (l + 1) []) levels,
       hx_entry = Some 0, hx_max_level = levels ! 0\<rparr>"

text \<open>\<open>levels[0]\<close> panics on an empty corpus; \<open>cores\<close> is \<open>available_parallelism\<close>.\<close>

definition build_parallel :: "kernel \<Rightarrow> bool \<Rightarrow> nat \<Rightarrow> schedule \<Rightarrow> (i64 \<times> f32_bits list) list \<Rightarrow> nat \<Rightarrow> nat \<Rightarrow> metric \<Rightarrow>
    nat list \<Rightarrow> hnsw_index option" where
  "build_parallel D ext cores sched corpus m efc metric levels =
     Option.bind (idx_get levels 0) (\<lambda>_.
       par_batches D ext (min (max cores 1) (max (length corpus) 1)) (length corpus) sched 0 1 (par_seed corpus m efc metric levels))"

text \<open>\<open>build_owned\<close>: the levels drawn in node order from the seed (\<open>level_of m\<close> is the floating-point
  formula on one output of the generator), then the sequential or the parallel build by size.\<close>

definition HNSW_MAX_LEVEL :: nat where "HNSW_MAX_LEVEL = 32"
definition PARALLEL_BUILD_THRESHOLD :: nat where "PARALLEL_BUILD_THRESHOLD = 4096"

fun draw_levels :: "(u64 \<Rightarrow> nat) \<Rightarrow> u64 \<Rightarrow> nat \<Rightarrow> nat list" where
  "draw_levels level_of s 0 = []"
| "draw_levels level_of s (Suc n) =
     (let (s, z) = rng_next_u64 s in min (level_of z) HNSW_MAX_LEVEL # draw_levels level_of s n)"

record build_env =
  be_kernel :: kernel
  be_level_of :: "nat \<Rightarrow> u64 \<Rightarrow> nat"  \<comment> \<open>\<open>m\<close> and one output of the generator\<close>
  be_extend :: bool  \<comment> \<open>\<open>extend_candidates()\<close>\<close>
  be_threshold :: nat  \<comment> \<open>\<open>parallel_threshold()\<close>\<close>
  be_cores :: nat
  be_sched :: schedule

definition build_owned :: "build_env \<Rightarrow> nat \<Rightarrow> nat \<Rightarrow> u64 \<Rightarrow> metric \<Rightarrow> (i64 \<times> f32_bits list) list \<Rightarrow> hnsw_index option" where
  "build_owned env m efc seed metric corpus =
     (let n = length corpus; levels = draw_levels (be_level_of env m) seed n in
      if n < be_threshold env then build_sequential (be_kernel env) (be_extend env) corpus m efc metric levels
      else build_parallel (be_kernel env) (be_extend env) (be_cores env) (be_sched env) corpus m efc metric levels)"

section \<open>Programs that keep the graph well-formed\<close>

text \<open>What every interleaving leaves fixed, and the invariant of the shared graph.\<close>

definition same_corpus :: "hnsw_index \<Rightarrow> hnsw_index \<Rightarrow> bool" where
  "same_corpus x y \<longleftrightarrow> hx_vectors y = hx_vectors x \<and> hx_ids y = hx_ids x \<and> hx_levels y = hx_levels x \<and>
     hx_m y = hx_m x \<and> hx_m0 y = hx_m0 x \<and> hx_efc y = hx_efc x \<and> hx_metric y = hx_metric x"

definition shared_ok :: "hnsw_index \<Rightarrow> bool" where
  "shared_ok x \<longleftrightarrow> core_wf x \<and>
     (\<exists>e. hx_entry x = Some e \<and> e < length (hx_vectors x) \<and> hx_levels x ! e = hx_max_level x)"

definition lists_ok :: "hnsw_index \<Rightarrow> nat \<Rightarrow> nat list list \<Rightarrow> bool" where
  "lists_ok x i layers \<longleftrightarrow> length layers = hx_levels x ! i + 1 \<and>
     (\<forall>l \<le> hx_levels x ! i. \<forall>nb \<in> set (layers ! l). on_layer x l nb)"

lemma lists_okD:
  "lists_ok x i layers \<Longrightarrow> on_layer x layer i \<Longrightarrow> layer < length layers"
  "lists_ok x i layers \<Longrightarrow> on_layer x layer i \<Longrightarrow> \<forall>nb \<in> set (layers ! layer). on_layer x layer nb"
  unfolding lists_ok_def on_layer_def by auto

text \<open>\<open>prog_ok x node lo p\<close>: from any graph with the corpus of \<open>x\<close> whose top level is at least \<open>lo\<close>,
  whatever the other workers do in between, \<open>p\<close> never panics, keeps the graph well-formed, and when it is done
  the top level has reached the level of \<open>node\<close>.\<close>

primrec prog_ok :: "hnsw_index \<Rightarrow> nat \<Rightarrow> nat \<Rightarrow> prog \<Rightarrow> bool" where
  "prog_ok x node lo PDone \<longleftrightarrow> hx_levels x ! node \<le> lo"
| "prog_ok x node lo PPanic \<longleftrightarrow> False"
| "prog_ok x node lo (PRead i k) \<longleftrightarrow> i < length (hx_vectors x) \<and> (\<forall>layers. lists_ok x i layers \<longrightarrow> prog_ok x node lo (k layers))"
| "prog_ok x node lo (PWrite i layer nbs k) \<longleftrightarrow> on_layer x layer i \<and> (\<forall>nb \<in> set nbs. on_layer x layer nb) \<and>
     length nbs \<le> layer_degree x layer \<and> prog_ok x node lo k"
| "prog_ok x node lo (PLink nb i layer m_layer k) \<longleftrightarrow> on_layer x layer nb \<and> on_layer x layer i \<and>
     m_layer = layer_degree x layer \<and> prog_ok x node lo k"
| "prog_ok x node lo (PSnap k) \<longleftrightarrow> (\<forall>e top. e < length (hx_vectors x) \<longrightarrow> hx_levels x ! e = top \<longrightarrow> lo \<le> top \<longrightarrow>
     prog_ok x node top (k (e, top)))"
| "prog_ok x node lo (PPromote i level k) \<longleftrightarrow> i < length (hx_vectors x) \<and> level = hx_levels x ! i \<and> prog_ok x node (max lo level) k"

lemma prog_ok_mono: "prog_ok x node lo p \<Longrightarrow> lo \<le> hi \<Longrightarrow> prog_ok x node hi p"
proof (induction p arbitrary: lo hi)
  case (PSnap k)
  then have "\<forall>e top. e < length (hx_vectors x) \<longrightarrow> hx_levels x ! e = top \<longrightarrow> lo \<le> top \<longrightarrow> prog_ok x node top (k (e, top))"
    by (simp only: prog_ok.simps)
  with PSnap.prems(2) show ?case unfolding prog_ok.simps by (meson order_trans)
next
  case (PRead i k)
  from PRead.prems(1) have r: "i < length (hx_vectors x)" "\<And>layers. lists_ok x i layers \<Longrightarrow> prog_ok x node lo (k layers)" by simp_all
  show ?case unfolding prog_ok.simps using r PRead.IH [OF rangeI r(2) PRead.prems(2)] by blast
next
  case (PPromote i level k)
  have "max lo level \<le> max hi level" using PPromote.prems(2) by simp
  with PPromote show ?case by (simp only: prog_ok.simps) blast
next
  case (PWrite i layer nbs k)
  then show ?case by (simp only: prog_ok.simps) blast
next
  case (PLink nb i layer m_layer k)
  then show ?case by (simp only: prog_ok.simps) blast
qed simp_all

lemma on_layer_corpus: "same_corpus x y \<Longrightarrow> on_layer y = on_layer x \<and> layer_degree y = layer_degree x \<and> lists_ok y = lists_ok x"
proof -
  assume "same_corpus x y"
  then have s: "hx_vectors y = hx_vectors x" "hx_levels y = hx_levels x" "hx_m y = hx_m x" "hx_m0 y = hx_m0 x"
    by (simp_all add: same_corpus_def)
  have on: "on_layer y = on_layer x" by (simp add: fun_eq_iff on_layer_def s)
  moreover have "layer_degree y = layer_degree x" by (simp add: fun_eq_iff layer_degree_def s)
  moreover have "lists_ok y = lists_ok x" by (simp add: fun_eq_iff lists_ok_def s on)
  ultimately show ?thesis by blast
qed

lemma prog_ok_corpus: "same_corpus x y \<Longrightarrow> prog_ok y node lo p = prog_ok x node lo p"
proof -
  assume c: "same_corpus x y"
  then have s: "hx_vectors y = hx_vectors x" "hx_levels y = hx_levels x" by (simp_all add: same_corpus_def)
  show ?thesis
  proof (induction p arbitrary: lo)
    case (PSnap k)
    then show ?case unfolding prog_ok.simps s by (metis rangeI)
  next
    case (PRead i k)
    then show ?case unfolding prog_ok.simps s by (metis rangeI on_layer_corpus [OF c])
  qed (simp_all add: s on_layer_corpus [OF c])
qed

lemma same_corpus_refl [simp]: "same_corpus x x"
  by (simp add: same_corpus_def)

lemma same_corpus_trans: "same_corpus x y \<Longrightarrow> same_corpus y z \<Longrightarrow> same_corpus x z"
  by (simp add: same_corpus_def)

lemma same_nodes_corpus: "same_nodes x y \<Longrightarrow> same_corpus x y"
  by (simp add: same_corpus_def same_nodes_fields)

lemma core_wf_lists: "core_wf x \<Longrightarrow> i < length (hx_vectors x) \<Longrightarrow> lists_ok x i (hx_neighbors x ! i)"
proof -
  assume "core_wf x" "i < length (hx_vectors x)"
  then have "node_wf x i" by (simp add: core_wf_def)
  then show ?thesis unfolding node_wf_def lists_ok_def on_layer_def by blast
qed

lemma exec_ok:
  assumes wf: "shared_ok x" and p: "prog_ok x node lo p" "lo \<le> hx_max_level x" and run: "p \<noteq> PDone"
  shows "\<exists>p' y. exec D p x = Some (p', y) \<and> shared_ok y \<and> same_corpus x y \<and> hx_max_level x \<le> hx_max_level y \<and>
    prog_ok x node (hx_max_level y) p'"
proof -
  have core: "core_wf x" and len: "length (hx_neighbors x) = length (hx_vectors x)" using wf by (simp_all add: shared_ok_def core_wf_def)
  have keep: "shared_ok y \<and> same_corpus x y \<and> hx_max_level x \<le> hx_max_level y" if "core_wf y" "same_nodes x y" for y
    using wf that by (simp add: shared_ok_def same_nodes_fields same_nodes_corpus)
  have mono: "prog_ok x node (hx_max_level x) p'" if "prog_ok x node lo p'" for p' by (rule prog_ok_mono [OF that p(2)])
  show ?thesis
  proof (cases p)
    case PDone
    with run show ?thesis by simp
  next
    case PPanic
    with p show ?thesis by simp
  next
    case (PRead i k)
    with p(1) have "i < length (hx_vectors x)" "\<And>layers. lists_ok x i layers \<Longrightarrow> prog_ok x node lo (k layers)" by simp_all
    with core_wf_lists [OF core, of i] have "prog_ok x node (hx_max_level x) (k (hx_neighbors x ! i))" by (blast intro: mono)
    with PRead len wf \<open>i < length (hx_vectors x)\<close> show ?thesis by simp
  next
    case (PWrite i layer nbs k)
    with p(1) have w: "on_layer x layer i" "\<forall>nb \<in> set nbs. on_layer x layer nb" "length nbs \<le> layer_degree x layer"
      "prog_ok x node lo k" by simp_all
    from adj_set_wf [OF core w(1-3)] obtain y where y: "adj_set x i layer nbs = Some y" "core_wf y" "same_nodes x y" by blast
    have "i < length (hx_neighbors x)" using w(1) len by (simp add: on_layer_def)
    with y on_layer_step(1) [OF core w(1)] keep [OF y(2,3)] mono [OF w(4)] show ?thesis
      by (simp add: PWrite same_nodes_fields [OF y(3)])
  next
    case (PLink nb i layer m_layer k)
    with p(1) have w: "on_layer x layer nb" "on_layer x layer i" "m_layer = layer_degree x layer" "prog_ok x node lo k" by simp_all
    from back_link_total [OF core w(1-3), of D] obtain y where
      y: "back_link D i layer m_layer nb x = Some y" "core_wf y" "same_nodes x y" by blast
    have "nb < length (hx_neighbors x)" using w(1) len by (simp add: on_layer_def)
    with y on_layer_step(1) [OF core w(1)] keep [OF y(2,3)] mono [OF w(4)] show ?thesis
      by (simp add: PLink same_nodes_fields [OF y(3)])
  next
    case (PSnap k)
    from wf obtain e where e: "hx_entry x = Some e" "e < length (hx_vectors x)" "hx_levels x ! e = hx_max_level x"
      by (auto simp: shared_ok_def)
    with p have "prog_ok x node (hx_max_level x) (k (e, hx_max_level x))" unfolding PSnap prog_ok.simps by blast
    with e(1) wf show ?thesis by (simp add: PSnap)
  next
    case (PPromote i level k)
    let ?y = "if level > hx_max_level x then x\<lparr>hx_entry := Some i, hx_max_level := level\<rparr> else x"
    have "same_corpus x ?y" by (simp add: same_corpus_def)
    moreover have "shared_ok ?y"
    proof (cases "level > hx_max_level x")
      case True
      then show ?thesis using wf p(1) by (simp add: PPromote shared_ok_def)
    qed (use wf in simp)
    moreover have "max lo level \<le> hx_max_level ?y" "hx_max_level x \<le> hx_max_level ?y" using p(2) by simp_all
    moreover have "prog_ok x node (max lo level) k" using p(1) unfolding PPromote prog_ok.simps by blast
    moreover have "exec D p x = Some (k, ?y)" by (simp add: PPromote)
    ultimately show ?thesis using prog_ok_mono by blast
  qed
qed

section \<open>The insertion of a node is such a program\<close>

lemma p_greedy_ok:
  assumes "on_layer x layer ep" and "\<And>e. on_layer x layer e \<Longrightarrow> prog_ok x node lo (k e)"
  shows "prog_ok x node lo (p_greedy D (hx_vectors x) q layer k best_d ep)"
  using assms
proof (induction "card (closer D (hx_vectors x) q best_d)" arbitrary: best_d ep rule: less_induct)
  case less
  have "prog_ok x node lo (p_opt (idx_get layers (min layer (length layers - 1))) (\<lambda>nbs.
       p_opt (descend_scan D (hx_vectors x) q nbs (best_d, ep, False)) (\<lambda>(b, e, improved).
         if improved then p_greedy D (hx_vectors x) q layer k b e else k e)))"
    if l: "lists_ok x ep layers" for layers
  proof -
    have len: "layer < length layers" by (rule lists_okD(1) [OF l less.prems(1)])
    then have li: "min layer (length layers - 1) = layer" by simp
    have nbs: "\<forall>nb \<in> set (layers ! layer). on_layer x layer nb" by (rule lists_okD(2) [OF l less.prems(1)])
    then have "\<forall>nb \<in> set (layers ! layer). nb < length (hx_vectors x)" by (simp add: on_layer_def)
    from descend_scan_total [OF this, of D q "(best_d, ep, False)"] obtain b e imp where
      s: "descend_scan D (hx_vectors x) q (layers ! layer) (best_d, ep, False) = Some (b, e, imp)" by auto
    have e: "on_layer x layer e" using descend_scan_result [OF s] less.prems(1) nbs by auto
    have "prog_ok x node lo (p_greedy D (hx_vectors x) q layer k b e)" if imp
      by (rule less.hyps [OF _ e less.prems(2)]) (use s that closer_scan in auto)
    with less.prems(2) [OF e] show ?thesis unfolding li by (simp add: len s)
  qed
  then show ?case using less.prems(1) by (subst p_greedy.simps) (simp add: on_layer_def)
qed

lemma p_descend_ok:
  assumes "on_layer x (stop + n) ep" and "\<And>e. on_layer x stop e \<Longrightarrow> prog_ok x node lo (k e)"
  shows "prog_ok x node lo (p_descend D (hx_vectors x) q stop n k ep)"
  using assms
proof (induction n arbitrary: ep)
  case (Suc n)
  have "prog_ok x node lo (p_greedy D (hx_vectors x) q (stop + Suc n) (p_descend D (hx_vectors x) q stop n k) b ep)" for b
  proof (rule p_greedy_ok [OF Suc.prems(1)])
    fix e assume "on_layer x (stop + Suc n) e"
    then have "on_layer x (stop + n) e" by (rule on_layer_mono) simp
    then show "prog_ok x node lo (p_descend D (hx_vectors x) q stop n k e)" by (rule Suc.IH [OF _ Suc.prems(2)])
  qed
  moreover have "ep < length (hx_vectors x)" using Suc.prems(1) by (simp add: on_layer_def)
  ultimately show ?case by (simp add: p_greedy_descend_def)
qed simp

text \<open>The invariant of a beam does not mention the lists, so it survives the other workers.\<close>

lemma p_beam_ok:
  assumes "beam_inv D x q s" and "beam_on x layer s"
    and "\<And>cs. true_cands D x q cs \<Longrightarrow> \<forall>c \<in> set cs. on_layer x layer (ci c) \<Longrightarrow> prog_ok x node lo (k cs)"
  shows "prog_ok x node lo (p_beam D x q ef layer k s)"
  using assms
proof (induction "unvisited (bm_visited s) + length (bm_cand s)" arbitrary: s rule: less_induct)
  case less
  have res: "prog_ok x node lo (k (bm_result s))"
    by (rule less.prems(3)) (use less.prems(1,2) in \<open>auto simp: beam_inv_def beam_on_def true_cands_def\<close>)
  show ?case
  proof (cases "bm_cand s")
    case Nil
    with res show ?thesis by (subst p_beam.simps) simp
  next
    case (Cons c cs)
    let ?s1 = "s\<lparr>bm_cand := cs\<rparr>"
    have inv: "beam_inv D x q ?s1" by (rule beam_inv_pop [OF less.prems(1) Cons])
    have on: "on_layer x layer (ci c)" "beam_on x layer ?s1" using less.prems(2) Cons by (simp_all add: beam_on_def)
    have "prog_ok x node lo (if layer \<ge> length layers then p_beam D x q ef layer k ?s1
        else p_opt (beam_expand D x q ef (layers ! layer) ?s1) (p_beam D x q ef layer k))"
      if l: "lists_ok x (ci c) layers" for layers
    proof -
      have len: "layer < length layers" and nbs: "\<forall>nb \<in> set (layers ! layer). on_layer x layer nb"
        by (rule lists_okD [OF l on(1)])+
      from nbs have "\<forall>nb \<in> set (layers ! layer). nb < length (hx_vectors x)" by (simp add: on_layer_def)
      from beam_expand_total [OF inv this, of ef] obtain s2 where
        s2: "beam_expand D x q ef (layers ! layer) ?s1 = Some s2" "beam_inv D x q s2" by blast
      have "prog_ok x node lo (p_beam D x q ef layer k s2)"
        by (rule less.hyps [OF _ s2(2) beam_expand_on [OF on(2) nbs s2(1)] less.prems(3)])
          (use beam_expand_measure [OF s2(1)] Cons in simp_all)
      with len s2(1) show ?thesis by simp
    qed
    moreover have "ci c < length (hx_vectors x)" using on(1) by (simp add: on_layer_def)
    ultimately show ?thesis using res Cons by (subst p_beam.simps) (simp add: Let_def)
  qed
qed

lemma p_search_layer_ok:
  assumes "distinct entries" and "\<forall>e \<in> set entries. on_layer x layer e"
    and "\<And>cs. true_cands D x q cs \<Longrightarrow> \<forall>c \<in> set cs. on_layer x layer (ci c) \<Longrightarrow> prog_ok x node lo (k cs)"
  shows "prog_ok x node lo (p_search_layer D x q entries ef layer k)"
proof -
  let ?s0 = "\<lparr>bm_visited = replicate (length (hx_vectors x)) False, bm_cand = [], bm_result = []\<rparr>"
  have "beam_inv D x q (beam_seed D x q entries ?s0)"
    by (rule beam_seed_inv) (use assms(1) in \<open>auto simp: beam_inv_def fresh_def\<close>)
  moreover have "beam_on x layer (beam_seed D x q entries ?s0)"
    by (rule beam_seed_on [OF _ assms(2)]) (simp add: beam_on_def)
  ultimately show ?thesis unfolding p_search_layer_def by (rule p_beam_ok [OF _ _ assms(3)])
qed

lemma p_extend_ok:
  assumes "\<forall>b \<in> set bs. on_layer x layer b" and "\<forall>c \<in> set cs. on_layer x layer (ci c)"
    and "\<And>cs. \<forall>c \<in> set cs. on_layer x layer (ci c) \<Longrightarrow> prog_ok x node lo (k cs)"
  shows "prog_ok x node lo (p_extend D x q layer bs k cs)"
  using assms(1,2)
proof (induction bs arbitrary: cs)
  case Nil
  then show ?case by (simp add: assms(3))
next
  case (Cons b bs)
  have b: "on_layer x layer b" and bs: "\<forall>b \<in> set bs. on_layer x layer b" using Cons.prems(1) by simp_all
  have "prog_ok x node lo (p_opt (extend_nbs D x q (if layer < length layers then layers ! layer else []) cs)
       (p_extend D x q layer bs k))" if l: "lists_ok x b layers" for layers
  proof -
    have "layer < length layers" "\<forall>nb \<in> set (layers ! layer). on_layer x layer nb"
      by (rule lists_okD [OF l b])+
    with extend_nbs_total [OF this(2) Cons.prems(2), of D q] Cons.IH [OF bs] show ?thesis by auto
  qed
  with b show ?case by (simp add: on_layer_def)
qed

lemma p_links_ok:
  "\<forall>nb \<in> set nbs. on_layer x layer nb \<Longrightarrow> on_layer x layer node' \<Longrightarrow> prog_ok x node lo k \<Longrightarrow>
   prog_ok x node lo (p_links node' layer (layer_degree x layer) nbs k)"
  by (induction nbs) simp_all

lemma p_layer_ok:
  assumes node: "on_layer x layer i" and ent: "distinct entries" "\<forall>e \<in> set entries. on_layer x layer e"
    and k: "\<And>es. distinct es \<Longrightarrow> \<forall>e \<in> set es. on_layer x layer e \<Longrightarrow> prog_ok x node lo (k es)"
  shows "prog_ok x node lo (p_layer D ext x i q layer entries k)"
  unfolding p_layer_def
proof (rule p_search_layer_ok [OF ent])
  fix cs assume cs: "true_cands D x q cs" "\<forall>c \<in> set cs. on_layer x layer (ci c)"
  let ?es = "if map ci cs \<noteq> [] then map ci cs else entries"
  define link where "link = (\<lambda>candidates. p_opt (select_from D x candidates (layer_degree x layer)) (\<lambda>selected.
      PWrite i layer selected (p_links i layer (layer_degree x layer) selected (k ?es))))"
  have "distinct (map ci cs)" using cs(1) by (simp add: true_cands_def)
  then have k: "prog_ok x node lo (k ?es)" by (intro k) (use ent cs(2) in auto)
  have link: "prog_ok x node lo (link cs')" if "\<forall>c \<in> set cs'. on_layer x layer (ci c)" for cs'
  proof -
    have "\<forall>c \<in> set cs'. ci c < length (hx_vectors x)" using that by (simp add: on_layer_def)
    from select_from_total [OF this, of D "layer_degree x layer"] obtain ks where
      ks: "select_from D x cs' (layer_degree x layer) = Some ks" "set ks \<subseteq> ci ` set cs'" "length ks \<le> layer_degree x layer"
      by blast
    have on: "\<forall>nb \<in> set ks. on_layer x layer nb" using ks(2) that by auto
    with p_links_ok [OF on node k] node ks(1,3) show ?thesis by (simp add: link_def)
  qed
  have "\<forall>b \<in> set (map ci cs). on_layer x layer b" using cs(2) by simp
  from p_extend_ok [OF this cs(2) link] link [OF cs(2)]
  show "prog_ok x node lo (let next_entries = map ci cs; m_layer = layer_degree x layer;
      link = (\<lambda>candidates. p_opt (select_from D x candidates m_layer) (\<lambda>selected.
        PWrite i layer selected (p_links i layer m_layer selected (k (if next_entries \<noteq> [] then next_entries else entries)))))
    in if ext then p_extend D x q layer next_entries link cs else link cs)"
    unfolding Let_def link_def by simp
qed

lemma p_layers_ok:
  "n = Suc tp \<Longrightarrow> on_layer x tp i \<Longrightarrow> distinct entries \<Longrightarrow> \<forall>e \<in> set entries. on_layer x tp e \<Longrightarrow> prog_ok x node lo k \<Longrightarrow>
   prog_ok x node lo (p_layers D ext x i q n k entries)"
proof (induction n arbitrary: tp entries)
  case (Suc n)
  then have n: "n = tp" by simp
  have "prog_ok x node lo (p_layer D ext x i q tp entries (p_layers D ext x i q n k))"
  proof (rule p_layer_ok [OF Suc.prems(2-4)])
    fix es assume es: "distinct es" "\<forall>e \<in> set es. on_layer x tp e"
    show "prog_ok x node lo (p_layers D ext x i q n k es)"
    proof (cases tp)
      case 0
      with n Suc.prems(5) show ?thesis by simp
    next
      case (Suc t)
      show ?thesis
        by (rule Suc.IH [of t]) (use Suc n es Suc.prems(2,5) in \<open>auto intro: on_layer_mono\<close>)
    qed
  qed
  then show ?case by (simp add: n)
qed simp

lemma insert_node_ok:
  assumes "node < length (hx_vectors x)" and "length (hx_levels x) = length (hx_vectors x)"
  shows "prog_ok x node lo (insert_node D ext x node)"
proof -
  let ?level = "hx_levels x ! node" and ?q = "hx_vectors x ! node"
  have "prog_ok x node top (p_descend D (hx_vectors x) ?q ?level (top - ?level) (\<lambda>ep.
      p_layers D ext x node ?q (min ?level top + 1) (if ?level > top then PPromote node ?level PDone else PDone) [ep]) e)"
    if e: "e < length (hx_vectors x)" "hx_levels x ! e = top" for e top
  proof -
    let ?low = "min ?level top" and ?k = "if ?level > top then PPromote node ?level PDone else PDone"
    have k: "prog_ok x node top ?k" using assms(1) by simp
    have go: "prog_ok x node top (p_layers D ext x node ?q (?low + 1) ?k [ep])" if "on_layer x ?low ep" for ep
      by (rule p_layers_ok [where tp = ?low]) (use that k assms(1) in \<open>simp_all add: on_layer_def\<close>)
    show ?thesis
    proof (cases "?level \<le> top")
      case True
      then have "on_layer x (?level + (top - ?level)) e" using e by (simp add: on_layer_def)
      then show ?thesis by (rule p_descend_ok) (use go True in \<open>simp add: min_def\<close>)
    next
      case False
      have "on_layer x ?low e" using e by (simp add: on_layer_def)
      with go False show ?thesis by simp
    qed
  qed
  then show ?thesis using assms by (simp add: insert_node_def)
qed

section \<open>Every schedule\<close>

text \<open>The invariant of a batch over the corpus of \<open>x0\<close>: every worker's program is good, and a node before
  the counter has been inserted or is in the hands of a worker.\<close>

definition pool_ok :: "hnsw_index \<Rightarrow> nat \<Rightarrow> pool \<Rightarrow> bool" where
  "pool_ok x0 stop po \<longleftrightarrow> same_corpus x0 (po_graph po) \<and> shared_ok (po_graph po) \<and>
     (\<forall>(node, p) \<in> set (po_workers po). prog_ok x0 node (hx_max_level (po_graph po)) p) \<and>
     (\<forall>i < min (po_counter po) stop. hx_levels x0 ! i \<le> hx_max_level (po_graph po) \<or> i \<in> fst ` set (po_workers po)) \<and>
     (po_workers po = [] \<longrightarrow> stop \<le> po_counter po)"

lemma set_split: "i < length ws \<Longrightarrow> set ws = insert (ws ! i) (set (take i ws @ drop (Suc i) ws))"
  using arg_cong [OF mset_split, of i ws set_mset] by simp

lemma worker_step_ok:
  assumes ok: "pool_ok x0 stop po" and i: "i < length (po_workers po)" and stop: "stop \<le> length (hx_vectors x0)"
    and lev: "length (hx_levels x0) = length (hx_vectors x0)"
  shows "\<exists>po'. worker_step D ext stop i po = Some po' \<and> pool_ok x0 stop po'"
proof -
  let ?x = "po_graph po" and ?rest = "take i (po_workers po) @ drop (Suc i) (po_workers po)"
  obtain node p where w: "po_workers po ! i = (node, p)" by (cases "po_workers po ! i")
  have ws: "set (po_workers po) = insert (node, p) (set ?rest)" using set_split [OF i] w by simp
  from ok have same: "same_corpus x0 ?x" and sh: "shared_ok ?x"
    and progs: "\<And>j r. (j, r) \<in> insert (node, p) (set ?rest) \<Longrightarrow> prog_ok x0 j (hx_max_level ?x) r"
    and cover: "\<And>j. j < min (po_counter po) stop \<Longrightarrow> hx_levels x0 ! j \<le> hx_max_level ?x \<or> j = node \<or> j \<in> fst ` set ?rest"
    unfolding pool_ok_def ws by auto
  have p: "prog_ok x0 node (hx_max_level ?x) p" by (rule progs) simp
  show ?thesis
  proof (cases "p = PDone")
    case True
    let ?new = "if po_counter po \<ge> stop then [] else [(po_counter po, insert_node D ext ?x (po_counter po))]"
    let ?po = "po\<lparr>po_counter := Suc (po_counter po), po_workers := take i (po_workers po) @ ?new @ drop (Suc i) (po_workers po)\<rparr>"
    have node: "hx_levels x0 ! node \<le> hx_max_level ?x" using p True by simp
    have new: "prog_ok x0 j (hx_max_level ?x) r" if "(j, r) \<in> set ?new" for j r
    proof -
      from that have j: "j < stop" "r = insert_node D ext ?x j" by (auto split: if_splits)
      have "prog_ok ?x j (hx_max_level ?x) (insert_node D ext ?x j)"
        by (rule insert_node_ok) (use j(1) stop lev same in \<open>simp_all add: same_corpus_def\<close>)
      then show ?thesis by (simp add: j(2) prog_ok_corpus [OF same])
    qed
    have "\<forall>(j, r) \<in> set (po_workers ?po). prog_ok x0 j (hx_max_level ?x) r"
    proof (intro ballI, clarify)
      fix j r assume "(j, r) \<in> set (po_workers ?po)"
      then consider "(j, r) \<in> set ?rest" | "(j, r) \<in> set ?new" by auto
      then show "prog_ok x0 j (hx_max_level ?x) r" by cases (use progs new in blast)+
    qed
    moreover have "hx_levels x0 ! j \<le> hx_max_level ?x \<or> j \<in> fst ` set (po_workers ?po)" if "j < min (Suc (po_counter po)) stop" for j
      using cover [of j] node that by (cases "j = po_counter po") auto
    ultimately have "pool_ok x0 stop ?po"
      unfolding pool_ok_def using same sh by (auto split: if_splits)
    then show ?thesis using worker_step_cases(1) [of po i node] w True by blast
  next
    case False
    have p': "prog_ok ?x node (hx_max_level ?x) p" using p by (simp add: prog_ok_corpus [OF same])
    from exec_ok [OF sh p' order.refl False] obtain p2 y where e: "exec D p ?x = Some (p2, y)" "shared_ok y" "same_corpus ?x y"
      "hx_max_level ?x \<le> hx_max_level y" "prog_ok ?x node (hx_max_level y) p2" by blast
    let ?po = "po\<lparr>po_graph := y, po_workers := take i (po_workers po) @ [(node, p2)] @ drop (Suc i) (po_workers po)\<rparr>"
    have set: "set (po_workers ?po) = insert (node, p2) (set ?rest)" by auto
    have "\<forall>(j, r) \<in> insert (node, p2) (set ?rest). prog_ok x0 j (hx_max_level y) r"
    proof (intro ballI, clarify)
      fix j r assume "(j, r) \<in> insert (node, p2) (set ?rest)"
      then consider "j = node" "r = p2" | "(j, r) \<in> set ?rest" by blast
      then show "prog_ok x0 j (hx_max_level y) r"
      proof cases
        case 1
        with e(5) show ?thesis by (simp add: prog_ok_corpus [OF same])
      next
        case 2
        then have "prog_ok x0 j (hx_max_level ?x) r" by (intro progs) simp
        then show ?thesis by (rule prog_ok_mono [OF _ e(4)])
      qed
    qed
    moreover have "hx_levels x0 ! j \<le> hx_max_level y \<or> j \<in> insert node (fst ` set ?rest)" if "j < min (po_counter po) stop" for j
      using cover [OF that] e(4) by (auto intro: order_trans)
    moreover have "same_corpus x0 y" using same e(3) by (rule same_corpus_trans)
    ultimately have "pool_ok x0 stop ?po"
      unfolding pool_ok_def set by (simp add: e(2))
    then show ?thesis using e(1) worker_step_cases(2) [of po i node p, OF w False] by auto
  qed
qed

lemma run_batch_ok:
  assumes "pool_ok x0 stop po" and "stop \<le> length (hx_vectors x0)" and "length (hx_levels x0) = length (hx_vectors x0)"
  shows "\<exists>t' y. run_batch D ext stop sched t po = Some (t', y) \<and> same_corpus x0 y \<and> shared_ok y \<and>
    (\<forall>i < stop. hx_levels x0 ! i \<le> hx_max_level y)"
  using assms
proof (induction D ext stop sched t po rule: run_batch.induct)
  case (1 D ext stop sched t po)
  show ?case
  proof (cases "po_workers po = []")
    case True
    with "1.prems"(1) show ?thesis by (subst run_batch.simps) (auto simp: pool_ok_def)
  next
    case False
    let ?i = "sched t mod length (po_workers po)"
    have "?i < length (po_workers po)" using False by simp
    from worker_step_ok [OF "1.prems"(1) this "1.prems"(2,3)] obtain po' where
      s: "worker_step D ext stop ?i po = Some po'" "pool_ok x0 stop po'" by blast
    from "1.IH" [OF False s(1) s(2) "1.prems"(2,3)] s(1) False show ?thesis by (subst run_batch.simps) simp
  qed
qed

lemma par_batches_ok:
  assumes "shared_ok x" and "same_corpus x0 x" and "n = length (hx_vectors x0)" and "length (hx_levels x0) = n" and "0 < nthreads"
    and "0 < start" and "\<forall>i < min start n. hx_levels x0 ! i \<le> hx_max_level x"
  shows "\<exists>y. par_batches D ext nthreads n sched t start x = Some y \<and> same_corpus x0 y \<and> shared_ok y \<and>
    (\<forall>i < n. hx_levels x0 ! i \<le> hx_max_level y)"
  using assms
proof (induction "n - start" arbitrary: t start x rule: less_induct)
  case less
  show ?case
  proof (cases "start < n")
    case False
    with less.prems show ?thesis by (subst par_batches.simps) (simp add: min_def)
  next
    case True
    let ?stop = "min (start + CANCEL_CHECK_BATCH) n"
    let ?po = "\<lparr>po_workers = replicate nthreads (0, PDone), po_counter = start, po_graph = x\<rparr>"
    have zero: "hx_levels x0 ! 0 \<le> hx_max_level x" using less.prems(6,7) True by simp
    have b: "start < ?stop" "?stop \<le> n" using True by (simp_all add: CANCEL_CHECK_BATCH_def)
    have "pool_ok x0 ?stop ?po"
      unfolding pool_ok_def using less.prems zero b(1) by auto
    from run_batch_ok [OF this, of D ext sched t] less.prems(3,4) b(2) obtain t' y where
      y: "run_batch D ext ?stop sched t ?po = Some (t', y)" "same_corpus x0 y" "shared_ok y" "\<forall>i < ?stop. hx_levels x0 ! i \<le> hx_max_level y"
      by auto
    have "\<exists>z. par_batches D ext nthreads n sched t' ?stop y = Some z \<and> same_corpus x0 z \<and> shared_ok z \<and>
        (\<forall>i < n. hx_levels x0 ! i \<le> hx_max_level z)"
      by (rule less.hyps [OF _ y(3,2) less.prems(3-5)]) (use b y(4) less.prems(6) True in simp_all)
    then show ?thesis using True y(1) by (subst par_batches.simps) (simp add: Let_def)
  qed
qed

lemma par_seed_ok:
  assumes "corpus \<noteq> []" and "length levels = length corpus"
  shows "shared_ok (par_seed corpus m efc metric levels)"
proof -
  let ?x = "par_seed corpus m efc metric levels"
  have "node_wf ?x i" if "i < length corpus" for i
    using that assms(2) by (auto simp: node_wf_def par_seed_def nth_append simp del: replicate_Suc)
  then show ?thesis using assms by (auto simp: shared_ok_def core_wf_def par_seed_def)
qed

lemma build_parallel_ok:
  assumes "corpus \<noteq> []" and "length levels = length corpus"
  shows "\<exists>x. build_parallel D ext cores sched corpus m efc metric levels = Some x \<and> hnsw_wf x \<and>
    same_corpus (par_seed corpus m efc metric levels) x"
proof -
  let ?x0 = "par_seed corpus m efc metric levels"
  have n: "length (hx_vectors ?x0) = length corpus" "hx_levels ?x0 = levels" "hx_max_level ?x0 = levels ! 0"
    by (simp_all add: par_seed_def)
  have "\<exists>y. par_batches D ext (min (max cores 1) (max (length corpus) 1)) (length corpus) sched 0 1 ?x0 = Some y \<and>
      same_corpus ?x0 y \<and> shared_ok y \<and> (\<forall>i < length corpus. hx_levels ?x0 ! i \<le> hx_max_level y)"
    by (rule par_batches_ok [OF par_seed_ok [OF assms]]) (use assms(2) n in auto)
  then obtain y where y: "par_batches D ext (min (max cores 1) (max (length corpus) 1)) (length corpus) sched 0 1 ?x0 = Some y"
    "same_corpus ?x0 y" "shared_ok y" "\<forall>i < length corpus. hx_levels ?x0 ! i \<le> hx_max_level y" by blast
  have "hnsw_wf y" using y(2-4) n(1) by (auto simp: hnsw_wf_def shared_ok_def entry_wf_def same_corpus_def)
  with y(1,2) assms show ?thesis by (cases levels) (auto simp: build_parallel_def)
qed

lemma length_draw_levels [simp]: "length (draw_levels level_of s n) = n"
  by (induction n arbitrary: s) (simp_all add: split_beta Let_def)

lemma draw_levels_cap: "l \<in> set (draw_levels level_of s n) \<Longrightarrow> l \<le> HNSW_MAX_LEVEL"
  by (induction n arbitrary: s) (auto simp: split_beta Let_def)

text \<open>Either branch of the build, for any threshold but 0 with an empty corpus.\<close>

lemma build_owned_ok:
  assumes "corpus \<noteq> [] \<or> 0 < be_threshold env"
  shows "\<exists>x. build_owned env m efc seed metric corpus = Some x \<and> hnsw_wf x \<and> hx_metric x = metric \<and> hx_m x = m \<and>
    hx_m0 x = 2 * m \<and> hx_ids x = map fst corpus \<and> hx_vectors x = map snd corpus \<and>
    hx_levels x = draw_levels (be_level_of env m) seed (length corpus)"
proof -
  let ?n = "length corpus" and ?levels = "draw_levels (be_level_of env m) seed (length corpus)"
  show ?thesis
  proof (cases "?n < be_threshold env")
    case True
    have "?n \<le> length ?levels" by simp
    from insert_all_total [OF empty_index_wf this, of "be_kernel env" "be_extend env" metric m efc] True show ?thesis
      by (auto simp: build_owned_def build_sequential_def empty_index_def)
  next
    case False
    then have "corpus \<noteq> []" using assms by auto
    from build_parallel_ok [OF this, of ?levels "be_kernel env" "be_extend env" "be_cores env" "be_sched env" m efc metric] False
    show ?thesis by (auto simp: build_owned_def same_corpus_def par_seed_def)
  qed
qed

text \<open>\<open>THEODB_HNSW_PARALLEL_THRESHOLD=0\<close> sends the empty corpus to the parallel build, where \<open>levels[0]\<close>
  panics: a VACUUM rebuild of an index whose rows are all dead ends in it.\<close>

lemma empty_parallel_panics: "be_threshold env = 0 \<Longrightarrow> build_owned env m efc seed metric [] = None"
  by (simp add: build_owned_def build_parallel_def idx_get_def)

section \<open>Properties\<close>

text \<open>C2: The build of the HNSW graph is total and well-formed under every thread schedule: whatever the distance
  kernel, the number of cores, the interleaving of the workers' critical sections, the level formula, the seed and the
  size at which the parallel build takes over (except threshold 0 with an empty corpus), every batch ends, no worker panics, and
  the result holds exactly the corpus with one adjacency list per layer of a level, references on their layer, the degree
  bounds and an entry point of the top level; it passes the checks of the blob reader and every search over it returns.\<close>

theorem build_any_schedule:
  assumes "corpus \<noteq> [] \<or> 0 < be_threshold env"
  shows "\<exists>x. build_owned env m efc seed metric corpus = Some x \<and> hnsw_wf x \<and> hx_ids x = map fst corpus \<and>
    hx_vectors x = map snd corpus \<and> hx_m x = m \<and> hx_m0 x = 2 * m \<and> (\<forall>l \<in> set (hx_levels x). l \<le> HNSW_MAX_LEVEL) \<and>
    hnsw_validate x = Inr x \<and> (\<forall>D q k ef. \<exists>r. hnsw_search D x q k ef = Some r \<and> length r \<le> k)"
proof -
  from build_owned_ok [OF assms, of m efc seed metric] obtain x where
    x: "build_owned env m efc seed metric corpus = Some x" "hnsw_wf x" "hx_ids x = map fst corpus" "hx_vectors x = map snd corpus"
      "hx_m x = m" "hx_m0 x = 2 * m" "hx_levels x = draw_levels (be_level_of env m) seed (length corpus)" by blast
  have v: "hnsw_validate x = Inr x" by (rule hnsw_wf_validate [OF x(2)])
  have refs: "refs_ok x" using x(2) by (intro core_wf_refs) (simp add: hnsw_wf_def)
  have "\<exists>r. hnsw_search D x q k ef = Some r \<and> length r \<le> k" for D q k ef
    using hnsw_search_total [OF refs hnsw_validate_refs(2,4) [OF v], of D q k ef] by auto
  with x v show ?thesis using draw_levels_cap by metis
qed

definition racy_env :: build_env where
  "racy_env = \<lparr>be_kernel = \<lambda>_ _. 0, be_level_of = \<lambda>_ z. unat z mod 3, be_extend = True, be_threshold = 1, be_cores = 2,
    be_sched = \<lambda>t. t\<rparr>"

theorem build_any_schedule_witness:
  "\<exists>x. build_owned racy_env 16 64 42 L2 [(7, [1]), (8, [2]), (9, [3])] = Some x \<and> hx_ids x = [7, 8, 9] \<and> hnsw_wf x"
  using build_any_schedule [of "[(7, [1]), (8, [2]), (9, [3])]" racy_env 16 64 42 L2] by auto

end
