(* ===== verification/HnswAm.thy ===== *)
theory HnswAm
  imports Fold HnswParallel
begin

text \<open>
  The HNSW access method over its relation (\<open>am/build.rs\<close>): INSERT, the VACUUM tombstone sweep with its
  churn trigger, and the VACUUM rebuild with its crash-safe fold. The contents of an index are the stored
  entries and the pending ones; the lemmas say how every operation changes them and what a crash leaves.
  The quantizers (\<open>quant\<close>, \<open>aq\<close>), the neighbour search of an insert and the free-space behaviour of a
  page are parameters.
\<close>

section \<open>Build options and the built graph\<close>

definition DEFAULT_HNSW_M :: int where "DEFAULT_HNSW_M = 16"
definition MIN_HNSW_M :: int where "MIN_HNSW_M = 2"
definition MAX_HNSW_M :: int where "MAX_HNSW_M = 39"

text \<open>\<open>None\<close>: the relation has no options.\<close>

definition hnsw_m_from_relation :: "int option \<Rightarrow> nat" where
  "hnsw_m_from_relation rd_options =
     (case rd_options of None \<Rightarrow> nat DEFAULT_HNSW_M
      | Some m \<Rightarrow> if MIN_HNSW_M \<le> m \<and> m \<le> MAX_HNSW_M then nat m else nat DEFAULT_HNSW_M)"

type_synonym entry = "i64 \<times> f32_bits list"

section \<open>VACUUM\<close>

datatype am_error = PageErr page_error | PackErr pack_error | UnknownMetricTag | BuildPanic

definition page_err :: "page_error + 'a \<Rightarrow> am_error + 'a" where
  "page_err r = (case r of Inl e \<Rightarrow> Inl (PageErr e) | Inr x \<Rightarrow> Inr x)"

definition pack_err :: "pack_error + 'a \<Rightarrow> am_error + 'a" where
  "pack_err r = (case r of Inl e \<Rightarrow> Inl (PackErr e) | Inr x \<Rightarrow> Inr x)"

lemma am_err_simps [simp]:
  "page_err (Inr x) = Inr x" "page_err (Inl e) = Inl (PageErr e)"
  "pack_err (Inr x) = Inr x" "pack_err (Inl f) = Inl (PackErr f)"
  by (simp_all add: page_err_def pack_err_def)

type_synonym quantizer = "hnsw_index \<Rightarrow> code_kind \<Rightarrow> pack_error + code_spec"

definition pack_fold_layout :: "quantizer \<Rightarrow> (bytes \<Rightarrow> pack_error + u8 \<times> f32_bits) \<Rightarrow> hnsw_index \<Rightarrow> nat \<Rightarrow> hnsw_meta \<Rightarrow>
    pack_error + packed" where
  "pack_fold_layout quant aq x base meta =
     (if hm_aq_m meta = 0 then pack_at (train_codes quant) x base (hm_sbq_bits meta)
      else bind_r (aq (hm_aq_codebook meta)) (\<lambda>(bits, aq_threshold).
        pack_aq (train_codes quant) x base (unat (hm_aq_m meta)) bits aq_threshold))"

text \<open>The rebuild: the images of the new generation, their base and the number of live entries.\<close>

definition rebuild_plan :: "(metric \<Rightarrow> entry list \<Rightarrow> hnsw_index option) \<Rightarrow> quantizer \<Rightarrow>
    (bytes \<Rightarrow> pack_error + u8 \<times> f32_bits) \<Rightarrow> relation \<Rightarrow> (i64 \<Rightarrow> bool) \<Rightarrow> am_error + packed \<times> u32 \<times> nat" where
  "rebuild_plan build quant aq rel dead =
     bind_r (page_err (read_meta rel)) (\<lambda>meta.
     case metric_from_tag (hm_metric_tag meta) of None \<Rightarrow> Inl UnknownMetricTag
     | Some metric \<Rightarrow>
       bind_r (page_err (enumerate_entries rel meta)) (\<lambda>all.
       bind_r (page_err (read_pending rel)) (\<lambda>p.
       let live = filter (\<lambda>e. \<not> dead (fst e)) (all @ p) in
       case build metric live of None \<Rightarrow> Inl BuildPanic
       | Some x \<Rightarrow>
         bind_r (pack_err (pack_fold_layout quant aq x 1 meta)) (\<lambda>probe.
         let need = of_nat (length (pk_pages probe)); nblocks = of_nat (length rel);
             base = free_region (cur_gen_start rel) nblocks need
         in bind_r (if base = 1 then Inr probe else pack_err (pack_fold_layout quant aq x (unat base) meta))
              (\<lambda>packed. Inr (packed, base, length live))))))"

definition vacuum_rebuild_hnsw_structured :: "(metric \<Rightarrow> entry list \<Rightarrow> hnsw_index option) \<Rightarrow> quantizer \<Rightarrow>
    (bytes \<Rightarrow> pack_error + u8 \<times> f32_bits) \<Rightarrow> relation \<Rightarrow> (i64 \<Rightarrow> bool) \<Rightarrow> am_error + relation \<times> nat" where
  "vacuum_rebuild_hnsw_structured build quant aq rel dead =
     bind_r (rebuild_plan build quant aq rel dead) (\<lambda>(packed, base, live_len).
       bind_r (page_err (gen_fold rel (pk_meta packed) (pk_pages packed) base)) (\<lambda>rel. Inr (rel, live_len)))"

text \<open>The states of the relation while the rebuild runs, one per WAL record.\<close>

definition rebuild_states :: "(metric \<Rightarrow> entry list \<Rightarrow> hnsw_index option) \<Rightarrow> quantizer \<Rightarrow>
    (bytes \<Rightarrow> pack_error + u8 \<times> f32_bits) \<Rightarrow> relation \<Rightarrow> (i64 \<Rightarrow> bool) \<Rightarrow> relation list" where
  "rebuild_states build quant aq rel dead =
     rel # (case rebuild_plan build quant aq rel dead of Inl _ \<Rightarrow> []
       | Inr (packed, base, _) \<Rightarrow> fold_trace rel (pk_meta packed) (pk_pages packed) base)"

text \<open>The dispatch: \<open>ivf\<close> and \<open>blob\<close> are the rebuilds of the other layouts.\<close>

definition vacuum_rebuild :: "(relation \<Rightarrow> (i64 \<Rightarrow> bool) \<Rightarrow> am_error + relation \<times> nat) \<Rightarrow>
    (relation \<Rightarrow> (i64 \<Rightarrow> bool) \<Rightarrow> am_error + relation \<times> nat) \<Rightarrow>
    (relation \<Rightarrow> (i64 \<Rightarrow> bool) \<Rightarrow> am_error + relation \<times> nat) \<Rightarrow> nat \<Rightarrow> relation \<Rightarrow> (i64 \<Rightarrow> bool) \<Rightarrow>
    am_error + relation \<times> nat" where
  "vacuum_rebuild hnsw ivf blob fold_cap_mb rel dead =
     bind_r (page_err (peek_magic rel)) (\<lambda>magic.
       if magic = 0 then Inr (rel, 0)
       else let idx_bytes = length rel * 8192 in
         if fold_cap_mb > 0 \<and> idx_bytes > fold_cap_mb * (1024 * 1024) then Inr (rel, 0)
         else if magic = IVF_STRUCT_MAGIC then ivf rel dead
         else if magic = HNSW_STRUCT_MAGIC then hnsw rel dead
         else blob rel dead)"

definition vacuum_delete_inplace :: "(relation \<Rightarrow> (i64 \<Rightarrow> bool) \<Rightarrow> am_error + relation \<times> nat) \<Rightarrow> nat \<Rightarrow>
    relation \<Rightarrow> (i64 \<Rightarrow> bool) \<Rightarrow> am_error + relation \<times> nat" where
  "vacuum_delete_inplace rebuild pct rel dead =
     bind_r (page_err (peek_magic rel)) (\<lambda>magic.
       if magic \<noteq> HNSW_STRUCT_MAGIC then rebuild rel dead
       else bind_r (page_err (read_meta rel)) (\<lambda>meta.
         bind_r (page_err (tombstone_sweep rel meta dead)) (\<lambda>(rel, _).
         bind_r (page_err (count_tombstones rel meta)) (\<lambda>total_tomb.
         bind_r (page_err (count_churned rel meta)) (\<lambda>churned.
         let node_count = unat (hm_node_count meta) in
           if pct > 0 \<and> node_count > 0 \<and> churned * 100 > node_count * pct then rebuild rel dead
           else Inr (rel, node_count - total_tomb))))))"

section \<open>INSERT\<close>

definition aminsert :: "(page \<Rightarrow> nat) \<Rightarrow> (page \<Rightarrow> bytes \<Rightarrow> bool) \<Rightarrow>
    (relation \<Rightarrow> hnsw_meta \<Rightarrow> f32_bits list \<Rightarrow> page_error + addr list) \<Rightarrow> bool \<Rightarrow> relation \<Rightarrow> i64 \<Rightarrow>
    f32_bits list option \<Rightarrow> page_error + relation \<times> bool" where
  "aminsert free can_add search slot_reuse rel encoded value =
     (case value of None \<Rightarrow> Inr (rel, False)
      | Some v \<Rightarrow>
        let append = (\<lambda>rel. bind_r (append_pending free can_add rel encoded v) (\<lambda>rel. Inr (rel, True))) in
        if slot_reuse then
          case peek_magic rel of Inl _ \<Rightarrow> append rel
          | Inr magic \<Rightarrow>
            if magic = HNSW_STRUCT_MAGIC then
              case read_meta rel of Inl _ \<Rightarrow> append rel
              | Inr meta \<Rightarrow>
                  bind_r (insert_inplace search rel meta encoded v) (\<lambda>(rel, reused).
                    if reused then Inr (rel, True) else append rel)
            else append rel
        else append rel)"

section \<open>Sizes that fit a page\<close>

text \<open>The dimensions whose f32 element tuple fits a page: up to 2035. No code under \<open>am/\<close> checks the bound; beyond it the
  writers panic on \<open>PageAddItem\<close>.\<close>

definition dim_fits :: "nat \<Rightarrow> bool" where
  "dim_fits d \<longleftrightarrow> ITEMID + maxalign (elem_size d 0) \<le> USABLE"

lemma dim_fits_bound: "dim_fits d \<longleftrightarrow> d \<le> 2035"
  by (simp add: dim_fits_def elem_size_def maxalign_def layout_defs) presburger

lemma dim_fits_16: "dim_fits d \<Longrightarrow> d < 2 ^ 16"
  using dim_fits_bound [of d] by simp

lemma dim_fits_pending: "dim_fits (length v) \<Longrightarrow> page_fits [encode_pending tid v]"
  by (simp add: dim_fits_bound page_fits_one encode_pending_def maxalign_def)

lemma dim_fits_pos: "dim_fits d \<Longrightarrow> d < 2 ^ 32"
  using dim_fits_bound [of d] by simp

lemma plain_meta_fits:
  "hm_aq_m m = 0 \<Longrightarrow> hm_sbq_bits m = 0 \<Longrightarrow> page_fits [encode_meta m]"
  by (rule page_fits_small) (simp add: encode_meta_def Let_def)

lemma pack_plain_meta:
  assumes "train x NoCode = Inr no_codes" and "pack_kind train x base NoCode = Inr p"
  shows "page_fits [pk_meta p]"
  using assms by (auto simp: pack_kind_def Let_def bind_r_Inr_iff no_codes_def empty_meta_def
      intro!: plain_meta_fits split: if_splits option.splits)

section \<open>The contents of an index\<close>

text \<open>\<open>stored rel meta xs ps\<close>: the relation holds an f32 HNSW index with the stored entries \<open>xs\<close> and the
  pending entries \<open>ps\<close>. The generation lies behind the meta block and in front of the pending region, and
  the neighbour tuple of every element lies inside it.\<close>

definition links_ok :: "relation \<Rightarrow> hnsw_meta \<Rightarrow> bool" where
  "links_ok rel meta \<longleftrightarrow> (\<forall>blk \<in> set (elem_blocks meta). \<forall>item \<in> set (rel ! blk). \<forall>ev. decode_element item = Inr ev \<longrightarrow>
     unat (hm_elem_first meta) \<le> unat (fst (ev_nbr_addr ev)) \<and>
     unat (fst (ev_nbr_addr ev)) < unat (pending_start meta))"

definition layout_ok :: "relation \<Rightarrow> hnsw_meta \<Rightarrow> bool" where
  "layout_ok rel meta \<longleftrightarrow> read_meta rel = Inr meta \<and> hm_aq_m meta = 0 \<and> hm_sbq_bits meta = 0 \<and>
     hm_raw_npages meta = 0 \<and> metric_from_tag (hm_metric_tag meta) \<noteq> None \<and>
     1 \<le> unat (hm_elem_first meta) \<and>
     unat (hm_elem_first meta) + unat (hm_elem_npages meta) \<le> unat (pending_start meta) \<and>
     unat (pending_start meta) \<le> length rel \<and> links_ok rel meta"

definition stored :: "relation \<Rightarrow> hnsw_meta \<Rightarrow> entry list \<Rightarrow> entry list \<Rightarrow> bool" where
  "stored rel meta xs ps \<longleftrightarrow> layout_ok rel meta \<and> enumerate_entries rel meta = Inr xs \<and> read_pending rel = Inr ps"

lemma elem_blocks_range:
  assumes "unat (hm_elem_first meta) + unat (hm_elem_npages meta) < 2 ^ 32"
  shows "elem_blocks meta = [unat (hm_elem_first meta)..<unat (hm_elem_first meta) + unat (hm_elem_npages meta)]"
proof -
  have "unat (hm_elem_first meta + hm_elem_npages meta) = unat (hm_elem_first meta) + unat (hm_elem_npages meta)"
    using assms by (subst unat_add_lem [symmetric]) simp
  then show ?thesis by (simp add: elem_blocks_def block_range_def)
qed

lemma layout_elem_blocks:
  assumes "layout_ok rel meta"
  shows "elem_blocks meta = [unat (hm_elem_first meta)..<unat (hm_elem_first meta) + unat (hm_elem_npages meta)]"
    and "b \<in> set (elem_blocks meta) \<Longrightarrow> 1 \<le> b \<and> unat (hm_elem_first meta) \<le> b \<and> b < unat (pending_start meta) \<and> b < length rel"
proof -
  have "unat (pending_start meta) < 2 ^ 32" by (rule order_less_le_trans [OF unsigned_less]) simp
  with assms show e: "elem_blocks meta = [unat (hm_elem_first meta)..<unat (hm_elem_first meta) + unat (hm_elem_npages meta)]"
    by (intro elem_blocks_range) (simp add: layout_ok_def)
  show "1 \<le> b \<and> unat (hm_elem_first meta) \<le> b \<and> b < unat (pending_start meta) \<and> b < length rel" if "b \<in> set (elem_blocks meta)"
    using that assms unfolding e layout_ok_def by auto
qed

section \<open>What the readers depend on\<close>

text \<open>Without a codebook the meta is a function of the first item of block 0.\<close>

lemma read_meta_iff:
  assumes "hm_aq_m meta = 0"
  shows "read_meta rel = Inr meta \<longleftrightarrow> rel \<noteq> [] \<and> rel ! 0 \<noteq> [] \<and> decode_meta (page_data (rel ! 0)) = Inr meta"
proof (cases "rel \<noteq> [] \<and> rel ! 0 \<noteq> []")
  case True
  then have "read_page_item_at rel 0 1 = Inr (page_data (rel ! 0))"
    by (cases "rel ! 0") (simp_all add: read_page_item_at_def)
  then have r: "read_meta rel = bind_r (meta_err (decode_meta (page_data (rel ! 0)))) (\<lambda>meta.
      if hm_aq_m meta \<noteq> 0 then
        bind_r (meta_err (decode_aq_descriptor (page_data (rel ! 0)) (hm_raw_npages meta \<noteq> 0))) (\<lambda>d.
        bind_r (read_codebook_pages rel (hm_aq_cb_first meta) (hm_aq_cb_npages meta) (ad_cb_len d)) (\<lambda>cb.
        Inr (meta\<lparr>hm_aq_codebook := cb\<rparr>)))
      else Inr meta)" by (simp add: read_meta_def)
  show ?thesis
  proof (cases "decode_meta (page_data (rel ! 0))")
    case (Inl e)
    then show ?thesis by (simp add: r)
  next
    case (Inr m)
    then show ?thesis using True assms by (cases "hm_aq_m m = 0") (auto simp: r bind_r_Inr_iff)
  qed
next
  case False
  then show ?thesis by (auto simp: read_meta_def read_page_item_at_def bind_r_Inr_iff)
qed

lemma read_meta_cong: "rel' ! 0 = rel ! 0 \<Longrightarrow> rel' \<noteq> [] \<Longrightarrow> hm_aq_m meta = 0 \<Longrightarrow>
   read_meta rel = Inr meta \<Longrightarrow> read_meta rel' = Inr meta"
  by (simp add: read_meta_iff)

lemma read_meta_nonempty: "read_meta rel = Inr meta \<Longrightarrow> rel \<noteq> []"
  by (auto simp: read_meta_def read_page_item_at_def)

lemma decode_meta_read:
  "rel \<noteq> [] \<Longrightarrow> rel ! 0 = [b] \<Longrightarrow> decode_meta b = Inr meta \<Longrightarrow> hm_aq_m meta = 0 \<Longrightarrow> read_meta rel = Inr meta"
  by (simp add: read_meta_iff)

lemma decode_meta_magic: "decode_meta b = Inr meta \<Longrightarrow> META_LEN \<le> length b \<and> u32_at 0 b = HNSW_STRUCT_MAGIC"
  by (auto simp: decode_meta_def u32_at_def split: if_splits)

lemma stored_magic:
  assumes "read_meta rel = Inr meta" and "hm_aq_m meta = 0"
  shows "peek_magic rel = Inr HNSW_STRUCT_MAGIC" and "cur_gen_start rel = hm_elem_first meta"
    and "pending_layout rel = Inr (pending_start meta, length rel)"
proof -
  note ne = read_meta_nonempty [OF assms(1)]
  have d: "decode_meta (page_data (rel ! 0)) = Inr meta" using assms by (simp add: read_meta_iff)
  note m = decode_meta_magic [OF d]
  have r: "read_page_item rel 0 = Inr (page_data (rel ! 0))" using ne by (simp add: read_page_item_eq)
  have l: "4 \<le> length (page_data (rel ! 0))" using m by (simp add: META_LEN_def)
  show p: "peek_magic rel = Inr HNSW_STRUCT_MAGIC" using ne m l by (simp add: peek_magic_def r)
  show "cur_gen_start rel = hm_elem_first meta" by (simp add: cur_gen_start_def p assms(1))
  show "pending_layout rel = Inr (pending_start meta, length rel)"
    using ne m l d by (simp add: pending_layout_def main_index_pages_def r HNSW_STRUCT_MAGIC_def IVF_STRUCT_MAGIC_def)
qed

lemma enumerate_cong:
  assumes "hm_raw_npages meta = 0" and "\<And>b. b \<in> set (elem_blocks meta) \<Longrightarrow> b < length rel \<Longrightarrow> b < length rel' \<and> rel' ! b = rel ! b"
    and "enumerate_entries rel meta = Inr xs"
  shows "enumerate_entries rel' meta = Inr xs"
proof -
  from assms(3) [unfolded enumerate_iff [OF assms(1)]] obtain os where os: "blocks_ok rel (elem_blocks meta)"
    "map_r decode_entry (concat (map (read_all_page_items rel) (elem_blocks meta))) = Inr os" "xs = List.map_filter (\<lambda>e. e) os"
    by blast
  have same: "map (read_all_page_items rel') (elem_blocks meta) = map (read_all_page_items rel) (elem_blocks meta)"
    using assms(2) os(1) by (auto simp: blocks_ok_def read_all_page_items_def)
  have "blocks_ok rel' (elem_blocks meta)" using assms(2) os(1) by (auto simp: blocks_ok_def)
  with os(2,3) show ?thesis unfolding enumerate_iff [OF assms(1)] same by blast
qed

lemma read_pending_layout:
  assumes "pending_layout rel = Inr (p, length rel)" and "p \<noteq> 0" and "unat p \<le> length rel"
  shows "read_pending rel = map_r decode_pending (concat (map (read_all_page_items rel) [unat p..<length rel]))"
  by (rule read_pending_eq [OF assms])

text \<open>Writes inside the generation keep the pending entries.\<close>

lemma read_pending_cong:
  assumes "pending_layout rel = Inr (p, length rel)" "pending_layout rel' = Inr (p, length rel')"
    and "p \<noteq> 0" and "unat p \<le> length rel" and "length rel' = length rel"
    and "\<And>j. unat p \<le> j \<Longrightarrow> j < length rel \<Longrightarrow> rel' ! j = rel ! j"
  shows "read_pending rel' = read_pending rel"
proof -
  have "map (read_all_page_items rel') [unat p..<length rel'] = map (read_all_page_items rel) [unat p..<length rel]"
    using assms(5,6) by (simp add: read_all_page_items_def)
  then show ?thesis
    using read_pending_layout [OF assms(1,3,4)] read_pending_layout [OF assms(2,3)] assms(4,5) by metis
qed

lemma layout_pending_start:
  assumes "layout_ok rel meta"
  shows "pending_start meta \<noteq> 0"
proof -
  have "1 \<le> unat (hm_elem_first meta)"
    "unat (hm_elem_first meta) + unat (hm_elem_npages meta) \<le> unat (pending_start meta)"
    using assms by (simp_all only: layout_ok_def)
  then show ?thesis by (metis add_leE not_one_le_zero unsigned_0 le_zero_eq)
qed

text \<open>The frame rule of the in-place operations: the meta block and everything outside the generation
  unchanged, the element items still pointing into the generation.\<close>

definition same_frame :: "hnsw_meta \<Rightarrow> relation \<Rightarrow> relation \<Rightarrow> bool" where
  "same_frame meta rel rel' \<longleftrightarrow> length rel' = length rel \<and>
     (\<forall>j < length rel. j < unat (hm_elem_first meta) \<or> unat (pending_start meta) \<le> j \<longrightarrow> rel' ! j = rel ! j)"

lemma same_frame_refl [simp]: "same_frame meta rel rel"
  by (simp add: same_frame_def)

lemma same_frame_trans: "same_frame meta r1 r2 \<Longrightarrow> same_frame meta r2 r3 \<Longrightarrow> same_frame meta r1 r3"
  by (simp add: same_frame_def)

lemma layout_frame:
  assumes "layout_ok rel meta" and "same_frame meta rel rel'" and "links_ok rel' meta"
  shows "layout_ok rel' meta" and "read_pending rel' = read_pending rel"
proof -
  from assms(1) have l: "read_meta rel = Inr meta" "hm_aq_m meta = 0" "1 \<le> unat (hm_elem_first meta)"
    "unat (pending_start meta) \<le> length rel" by (simp_all add: layout_ok_def)
  have ne: "rel \<noteq> []" "rel' \<noteq> []" using read_meta_nonempty [OF l(1)] assms(2) by (auto simp: same_frame_def)
  have "rel' ! 0 = rel ! 0" using assms(2) l(3) ne by (simp add: same_frame_def)
  from read_meta_cong [OF this ne(2) l(2,1)] have m: "read_meta rel' = Inr meta" .
  with assms show "layout_ok rel' meta" by (simp add: layout_ok_def same_frame_def)
  show "read_pending rel' = read_pending rel"
    by (rule read_pending_cong [OF stored_magic(3) [OF l(1,2)] stored_magic(3) [OF m l(2)] layout_pending_start [OF assms(1)] l(4)])
      (use assms(2) in \<open>simp_all add: same_frame_def\<close>)
qed

lemma stored_frame:
  assumes "stored rel meta xs ps" and "same_frame meta rel rel'" and "links_ok rel' meta"
    and "enumerate_entries rel' meta = Inr xs'"
  shows "stored rel' meta xs' ps"
  using layout_frame [OF _ assms(2,3)] assms(1,4) by (simp add: stored_def)

section \<open>Every operation on the contents\<close>

lemma sweep_item_links:
  assumes "decode_element (fst (sweep_item dead item)) = Inr ev"
  shows "\<exists>ev'. decode_element item = Inr ev' \<and> ev_nbr_addr ev' = ev_nbr_addr ev"
proof (cases "sweep_item dead item = (item, False)")
  case True
  with assms show ?thesis by auto
next
  case False
  then have m: "sweep_item dead item = mark_tombstone_in_place item" "snd (mark_tombstone_in_place item)"
    by (auto simp: sweep_item_def mark_tombstone_in_place_def split: if_splits)
  then have t: "ELEM_HEADER \<le> length item" "item ! E_TAG = ELEM_TAG"
    by (auto simp: mark_tombstone_in_place_def split: if_splits)
  have "\<exists>ev'. decode_element item = Inr ev'"
    using assms t unfolding m(1)
    by (auto simp: mark_tombstone_in_place_def decode_element_def Let_def layout_defs codec_simps split: if_splits)
  then obtain ev' where e: "decode_element item = Inr ev'" ..
  from tombstone_view(1) [OF e] assms e show ?thesis by (auto simp: m(1))
qed

lemma sweep_page_links:
  assumes "links_ok rel meta" and "\<And>b. b \<in> set (elem_blocks meta) \<Longrightarrow> rel' ! b = sweep_page dead (rel ! b)"
  shows "links_ok rel' meta"
  unfolding links_ok_def
proof (intro ballI allI impI)
  fix b item ev assume b: "b \<in> set (elem_blocks meta)" "item \<in> set (rel' ! b)" "decode_element item = Inr ev"
  then obtain item0 where i: "item0 \<in> set (rel ! b)" "item = (if item0 = [] then item0 else fst (sweep_item dead item0))"
    by (auto simp: assms(2) sweep_page_def)
  have "\<exists>ev0. decode_element item0 = Inr ev0 \<and> ev_nbr_addr ev0 = ev_nbr_addr ev"
    using b(3) i(2) sweep_item_links [of dead item0 ev] by (cases "item0 = []") auto
  with assms(1) b(1) i(1) show "unat (hm_elem_first meta) \<le> unat (fst (ev_nbr_addr ev)) \<and>
      unat (fst (ev_nbr_addr ev)) < unat (pending_start meta)"
    unfolding links_ok_def by metis
qed

lemma sweep_stored:
  assumes "stored rel meta xs ps"
  shows "\<exists>rel'. tombstone_sweep rel meta dead = Inr (rel', length (filter (\<lambda>e. dead (fst e)) xs)) \<and>
    stored rel' meta (filter (\<lambda>e. \<not> dead (fst e)) xs) ps"
proof -
  from assms have l: "layout_ok rel meta" and xs: "enumerate_entries rel meta = Inr xs" and raw: "hm_raw_npages meta = 0"
    by (simp_all add: stored_def layout_ok_def)
  have ok: "blocks_ok rel (elem_blocks meta)" using xs by (auto simp: enumerate_iff [OF raw])
  have "distinct (elem_blocks meta)" by (simp add: elem_blocks_def block_range_def)
  from sweep_blocks_eq [OF ok this, of dead] sweep_entries [OF raw xs, of dead] obtain rel' where
    r: "tombstone_sweep rel meta dead = Inr (rel', length (filter (\<lambda>e. dead (fst e)) xs))"
      "enumerate_entries rel' meta = Inr (filter (\<lambda>e. \<not> dead (fst e)) xs)" "length rel' = length rel"
      "\<forall>j < length rel. rel' ! j = (if j \<in> set (elem_blocks meta) then sweep_page dead (rel ! j) else rel ! j)"
    by (auto simp: tombstone_sweep_def elem_blocks_def)
  have "same_frame meta rel rel'"
    using r(3,4) layout_elem_blocks(2) [OF l] unfolding same_frame_def by (metis leD)
  moreover have "links_ok rel' meta"
    by (rule sweep_page_links [of rel _ _ dead]) (use l r(4) layout_elem_blocks(2) [OF l] in \<open>auto simp: layout_ok_def\<close>)
  ultimately show ?thesis using stored_frame [OF assms _ _ r(2)] r(1) by blast
qed

lemma append_stored:
  assumes "stored rel meta xs ps" and v: "dim_fits (length v)"
  shows "\<exists>rel'. append_pending free can_add rel tid v = Inr rel' \<and> stored rel' meta xs (ps @ [(tid, v)])"
proof -
  from assms(1) have l: "layout_ok rel meta" and xs: "enumerate_entries rel meta = Inr xs" and ps: "read_pending rel = Inr ps"
    and m: "read_meta rel = Inr meta" "hm_aq_m meta = 0" "hm_raw_npages meta = 0" "unat (pending_start meta) \<le> length rel"
    by (simp_all add: stored_def layout_ok_def)
  note lay = stored_magic(3) [OF m(1,2)] and nz = layout_pending_start [OF l]
  obtain rel' where a: "append_pending free can_add rel tid v = Inr rel'"
    using nz by (cases "append_pending free can_add rel tid v")
      (auto simp: append_pending_def lay Let_def split_beta extend_item_ok [OF dim_fits_pending [OF v]] split: if_splits)
  from append_pending_items [OF lay nz m(4) a] have r: "length rel \<le> length rel'"
    "take (unat (pending_start meta)) rel' = take (unat (pending_start meta)) rel" by simp_all
  have below: "rel' ! j = rel ! j" if "j < unat (pending_start meta)" for j
    using arg_cong [OF r(2), of "\<lambda>t. t ! j"] that by simp
  have ne: "rel \<noteq> []" "rel' \<noteq> []" using read_meta_nonempty [OF m(1)] r(1) by auto
  have "0 < unat (pending_start meta)" using nz by (simp add: unat_gt_0)
  with read_meta_cong [OF below ne(2) m(2,1)] have m': "read_meta rel' = Inr meta" by simp
  have blk: "b < unat (pending_start meta)" if "b \<in> set (elem_blocks meta)" for b
    using layout_elem_blocks(2) [OF l that] by simp
  have "links_ok rel' meta" using l below blk by (auto simp: links_ok_def layout_ok_def)
  with l m' m(4) r(1) have "layout_ok rel' meta" by (simp add: layout_ok_def)
  moreover have "enumerate_entries rel' meta = Inr xs"
    by (rule enumerate_cong [OF m(3) _ xs]) (use below blk r(1) in auto)
  moreover have "read_pending rel' = Inr (ps @ [(tid, v)])" by (rule read_pending_append [OF ps lay m(4) a dim_fits_pos [OF v]])
  ultimately show ?thesis using a by (auto simp: stored_def)
qed

text \<open>A ground item is a neighbour tuple before and after: no element appears or disappears.\<close>

lemma ground_item_not_element:
  assumes "snd (ground_item level m m0 ns b)"
  shows "\<exists>e. decode_element (fst (ground_item level m m0 ns b)) = Inl e"
proof -
  have b: "\<not> length b < NBR_HEADER" "b ! 0 = NBR_TAG" "\<not> length b < NBR_HEADER + (level * m + m0) * SLOT"
    using assms by (auto simp: ground_item_def Let_def split: if_splits)
  then have "fst (ground_item level m m0 ns b) ! 0 = NBR_TAG"
    using put_slots_header [of "level * m" m0 b ns] by (simp add: ground_item_def Let_def)
  then show ?thesis by (simp add: decode_element_def E_TAG_def NBR_TAG_def ELEM_TAG_def)
qed

lemma set_ground_frame:
  assumes "links_ok rel meta" and "set_ground_neighbors_inplace rel a level m m0 ns = Inr (rel', c)"
    and "unat (hm_elem_first meta) \<le> unat (fst a)" and "unat (fst a) < unat (pending_start meta)"
  shows "same_frame meta rel rel' \<and> links_ok rel' meta"
  using assms(2) unfolding set_ground_neighbors_inplace_def
proof (cases rule: modify_item_at_cases)
  case same
  with assms(1) show ?thesis by simp
next
  case edit
  let ?blk = "unat (fst a)" and ?f = "ground_item level m m0 ns"
  have "same_frame meta rel rel'"
    unfolding same_frame_def using assms(3,4) by (simp add: edit(7))
  moreover have "links_ok rel' meta"
    unfolding links_ok_def
  proof (intro ballI allI impI)
    fix b item ev assume b: "b \<in> set (elem_blocks meta)" "item \<in> set (rel' ! b)" "decode_element item = Inr ev"
    have "item \<in> set (rel ! b)"
    proof (cases "b = ?blk")
      case True
      then have "item \<in> set ((rel ! ?blk)[unat (snd a) - 1 := fst (?f (rel ! ?blk ! (unat (snd a) - 1)))])"
        using b(2) edit(2) by (simp add: edit(7))
      moreover have "item \<noteq> fst (?f (rel ! ?blk ! (unat (snd a) - 1)))"
        using ground_item_not_element [OF edit(6)] b(3) by auto
      ultimately show ?thesis using True set_update_subset_insert by fastforce
    next
      case False
      with b(2) show ?thesis by (simp add: edit(7))
    qed
    with assms(1) b(1,3) show "unat (hm_elem_first meta) \<le> unat (fst (ev_nbr_addr ev)) \<and>
        unat (fst (ev_nbr_addr ev)) < unat (pending_start meta)" unfolding links_ok_def by blast
  qed
  ultimately show ?thesis ..
qed

lemma read_page_item_at_in: "read_page_item_at rel b off = Inr item \<Longrightarrow> b < length rel \<and> item \<in> set (rel ! b)"
  by (auto simp: read_page_item_at_def split: if_splits)

lemma links_okD:
  assumes "links_ok rel meta" and "b \<in> set (elem_blocks meta)" and "item \<in> set (rel ! b)" and "decode_element item = Inr ev"
  shows "unat (hm_elem_first meta) \<le> unat (fst (ev_nbr_addr ev))" and "unat (fst (ev_nbr_addr ev)) < unat (pending_start meta)"
  using assms unfolding links_ok_def by blast+

lemma tuple_err_Inr: "tuple_err r = Inr x \<longleftrightarrow> r = Inr x"
  by (cases r) simp_all

lemma link_back_frame:
  assumes "links_ok rel meta" and "unat (fst n) \<in> set (elem_blocks meta)" and "link_back m m0 slot n rel = Inr rel'"
  shows "same_frame meta rel rel' \<and> links_ok rel' meta"
proof (cases "rel' = rel")
  case True
  with assms(1) show ?thesis by simp
next
  case False
  with assms(3) obtain nb level ns c and ne :: element_view where n: "read_at rel n = Inr nb" "decode_element nb = Inr ne"
    "set_ground_neighbors_inplace rel (ev_nbr_addr ne) level m m0 ns = Inr (rel', c)"
    by (auto simp: link_back_def bind_r_Inr_iff Let_def tuple_err_Inr split: if_splits)
  from n(1) have "nb \<in> set (rel ! unat (fst n))" unfolding read_at_def by (blast dest: read_page_item_at_in)
  from set_ground_frame [OF assms(1) n(3) links_okD [OF assms(1,2) this n(2)]] show ?thesis .
qed

lemma link_backs_frame:
  "\<lbrakk>links_ok rel meta; \<forall>n \<in> set ns. unat (fst n) \<in> set (elem_blocks meta); link_backs m m0 slot ns rel = Inr rel'\<rbrakk> \<Longrightarrow>
   same_frame meta rel rel' \<and> links_ok rel' meta"
proof (induction ns arbitrary: rel)
  case (Cons n ns)
  from Cons.prems(3) obtain rel1 where r: "link_back m m0 slot n rel = Inr rel1" "link_backs m m0 slot ns rel1 = Inr rel'"
    by (auto simp: bind_r_Inr_iff)
  have n: "unat (fst n) \<in> set (elem_blocks meta)" using Cons.prems(2) by simp
  note f = link_back_frame [OF Cons.prems(1) n r(1)]
  from Cons.IH [OF conjunct2 [OF f] _ r(2)] Cons.prems(2) f show ?case by (auto intro: same_frame_trans)
qed simp

lemma revive_frame:
  assumes "layout_ok rel meta" and slot: "find_reusable_slot rel meta lvl = Inr (Some slot)"
    and rev: "write_reused_element rel slot tid v = Inr (rel', True)"
  shows "same_frame meta rel rel' \<and> links_ok rel' meta"
proof -
  obtain blk off where so: "slot = (blk, off)" by (cases slot)
  from find_slot_blocks_Some [of rel meta lvl "elem_blocks meta" blk off] slot so obtain ev where
    f: "blk \<in> set (elem_blocks meta)" "decode_element (rel ! blk ! (off - 1)) = Inr ev" "ev_deleted ev"
    by (auto simp: find_reusable_slot_def elem_blocks_def)
  let ?item = "rel ! blk ! (off - 1)" and ?new = "fst (revive_item tid v (rel ! blk ! (off - 1)))"
  from rev have e: "blk < length rel" "off - 1 < length (rel ! blk)" "snd (revive_item tid v ?item)"
    "rel' = rel[blk := (rel ! blk)[off - 1 := ?new]]"
    by (auto simp: write_reused_element_def so elim!: modify_item_at_cases)
  note blk = layout_elem_blocks(2) [OF assms(1) f(1)]
  have "same_frame meta rel rel'" using blk by (simp add: same_frame_def e(4))
  moreover have "links_ok rel' meta"
    unfolding links_ok_def
  proof (intro ballI allI impI)
    fix b item ev' assume b: "b \<in> set (elem_blocks meta)" "item \<in> set (rel' ! b)" "decode_element item = Inr ev'"
    consider "item \<in> set (rel ! b)" | "b = blk" "item = ?new"
      using b(2) e(1) set_update_subset_insert [of "rel ! blk" "off - 1" ?new] unfolding e(4)
      by (cases "b = blk") auto
    then have "\<exists>item0 ev0. item0 \<in> set (rel ! b) \<and> decode_element item0 = Inr ev0 \<and> ev_nbr_addr ev0 = ev_nbr_addr ev'"
    proof cases
      case 2
      have "ev_nbr_addr ev = ev_nbr_addr ev'" using revived_view [OF f(2,3) e(3)] b(3) 2(2) by auto
      with 2(1) f(2) e(2) show ?thesis using nth_mem by blast
    qed (use b(3) in blast)
    moreover have "links_ok rel meta" using assms(1) by (simp add: layout_ok_def)
    ultimately show "unat (hm_elem_first meta) \<le> unat (fst (ev_nbr_addr ev')) \<and>
        unat (fst (ev_nbr_addr ev')) < unat (pending_start meta)"
      using b(1) unfolding links_ok_def by metis
  qed
  ultimately show ?thesis ..
qed

text \<open>The search of an insert returns addresses of element tuples.\<close>

definition search_ok :: "(relation \<Rightarrow> hnsw_meta \<Rightarrow> f32_bits list \<Rightarrow> page_error + addr list) \<Rightarrow> bool" where
  "search_ok search \<longleftrightarrow> (\<forall>rel meta v ns. search rel meta v = Inr ns \<longrightarrow>
     (\<forall>n \<in> set ns. unat (fst n) \<in> set (elem_blocks meta)))"

lemma insert_inplace_stored:
  assumes st: "stored rel meta xs ps" and search: "search_ok search"
    and ins: "insert_inplace search rel meta tid v = Inr (rel', True)"
  shows "\<exists>pre post. xs = pre @ post \<and> stored rel' meta (pre @ (tid, v) # post) ps"
proof -
  from ins obtain slot rel1 rel2 ns c zb and z :: element_view where i: "find_reusable_slot rel meta 0 = Inr (Some slot)"
    "search rel meta v = Inr ns" "write_reused_element rel slot tid v = Inr (rel1, True)"
    "read_page_item_at rel1 (fst slot) (snd slot) = Inr zb" "decode_element zb = Inr z"
    "set_ground_neighbors_inplace rel1 (ev_nbr_addr z) (unat (ev_level z)) (unat (hm_m meta)) (unat (hm_m0 meta)) ns = Inr (rel2, c)"
    "link_backs (unat (hm_m meta)) (unat (hm_m0 meta)) (addr_of slot) ns rel2 = Inr rel'"
    by (auto simp: insert_inplace_def bind_r_Inr_iff Let_def tuple_err_Inr split: if_splits option.splits)
  from st have l: "layout_ok rel meta" and xs: "enumerate_entries rel meta = Inr xs" and raw: "hm_raw_npages meta = 0"
    by (simp_all add: stored_def layout_ok_def)
  have slot: "fst slot \<in> set (elem_blocks meta)"
    using find_slot_blocks_Some [of rel meta 0 "elem_blocks meta" "fst slot" "snd slot"] i(1)
    by (simp add: find_reusable_slot_def elem_blocks_def)
  note f1 = revive_frame [OF l i(1,3)]
  have "zb \<in> set (rel1 ! fst slot)" using read_page_item_at_in [OF i(4)] by simp
  note f2 = set_ground_frame [OF conjunct2 [OF f1] i(6) links_okD [OF conjunct2 [OF f1] slot this i(5)]]
  have ns: "\<forall>n \<in> set ns. unat (fst n) \<in> set (elem_blocks meta)" using search i(2) by (simp add: search_ok_def)
  note f3 = link_backs_frame [OF conjunct2 [OF f2] ns i(7)]
  have frame: "same_frame meta rel rel'" using f1 f2 f3 by (blast intro: same_frame_trans)
  from insert_inplace_entries [OF raw xs ins] obtain pre post where
    "xs = pre @ post" "enumerate_entries rel' meta = Inr (pre @ (tid, v) # post)" by auto
  with stored_frame [OF st frame conjunct2 [OF f3]] show ?thesis by blast
qed

section \<open>The new generation\<close>

lemma element_of_entry:
  "element_of x lo hi i b \<Longrightarrow> b \<noteq> [] \<and> decode_entry b = Inr (Some (hx_ids x ! i, hx_vectors x ! i))"
  by (auto simp: element_of_def decode_entry_def bytes_to_vec_f32s split: sum.splits)

lemma element_of_link:
  "element_of x lo hi i b \<Longrightarrow> b \<noteq> [] \<and> (\<forall>ev. decode_element b = Inr ev \<longrightarrow>
     lo \<le> unat (fst (ev_nbr_addr ev)) \<and> unat (fst (ev_nbr_addr ev)) < hi)"
  by (auto simp: element_of_def)

lemma holds_elements_blocks:
  assumes "holds_elements x base pages meta" and "\<And>i. i < length pages \<Longrightarrow> base + i < length r \<and> r ! (base + i) = pages ! i"
  shows "elem_blocks meta = [base..<base + unat (hm_elem_npages meta)]" and "blocks_ok r (elem_blocks meta)"
    and "concat (map ((!) r) (elem_blocks meta)) = concat (take (unat (hm_elem_npages meta)) pages)"
proof -
  let ?n = "unat (hm_elem_npages meta)"
  from assms(1) have h: "unat (hm_elem_first meta) = base" "?n \<le> length pages" "base + length pages < 2 ^ 32"
    by (simp_all add: holds_elements_def)
  show e: "elem_blocks meta = [base..<base + ?n]"
    using elem_blocks_range [of meta] h by simp
  show "blocks_ok r (elem_blocks meta)"
    unfolding e blocks_ok_def
  proof
    fix b assume "b \<in> set [base..<base + ?n]"
    then have "b - base < length pages" "base \<le> b" using h(2) by auto
    with assms(2) [of "b - base"] show "b < length r" by simp
  qed
  have "map ((!) r) [base..<base + ?n] = take ?n pages"
    by (rule nth_equalityI) (use h(2) assms(2) in auto)
  then show "concat (map ((!) r) (elem_blocks meta)) = concat (take ?n pages)" by (simp add: e)
qed

lemma enumerate_packed:
  assumes h: "holds_elements x base pages meta" and r: "\<And>i. i < length pages \<Longrightarrow> base + i < length r \<and> r ! (base + i) = pages ! i"
    and x: "length (hx_ids x) = length (hx_vectors x)" and ps: "unat (pending_start meta) = base + length pages"
  shows "enumerate_entries r meta = Inr (zip (hx_ids x) (hx_vectors x)) \<and> links_ok r meta"
proof -
  let ?items = "concat (map ((!) r) (elem_blocks meta))" and ?n = "node_count x"
  note b = holds_elements_blocks [OF h r]
  have raw: "hm_raw_npages meta = 0" and el: "list_all2 (element_of x base (base + length pages)) [0..<?n] ?items"
    using h by (simp_all add: holds_elements_def b(3))
  have "\<forall>item \<in> set ?items. \<exists>i. element_of x base (base + length pages) i item"
    using el by (metis list_all2_conv_all_nth in_set_conv_nth)
  then have items: "\<forall>item \<in> set ?items. item \<noteq> [] \<and> (\<forall>ev. decode_element item = Inr ev \<longrightarrow>
      base \<le> unat (fst (ev_nbr_addr ev)) \<and> unat (fst (ev_nbr_addr ev)) < base + length pages)"
    using element_of_link by blast
  have "concat (map (read_all_page_items r) bs) = filter (\<lambda>i. i \<noteq> []) (concat (map ((!) r) bs))" for bs
    by (induction bs) (simp_all add: read_all_page_items_def)
  then have all: "concat (map (read_all_page_items r) (elem_blocks meta)) = ?items"
    using items by (simp del: set_concat set_map)
  let ?es = "map (\<lambda>i. Some (hx_ids x ! i, hx_vectors x ! i)) [0..<?n]"
  have "map_r decode_entry ?items = Inr ?es"
    unfolding map_r_Inr_iff using el element_of_entry by (fastforce simp: list_all2_conv_all_nth)
  moreover have "List.map_filter (\<lambda>e. e) ?es = zip (hx_ids x) (hx_vectors x)"
  proof -
    have "List.map_filter (\<lambda>e. e) ?es = map (\<lambda>i. (hx_ids x ! i, hx_vectors x ! i)) [0..<?n]"
      by (simp add: List.map_filter_def o_def)
    also have "\<dots> = zip (hx_ids x) (hx_vectors x)"
      by (rule nth_equalityI) (simp_all add: x node_count_def)
    finally show ?thesis .
  qed
  moreover have "links_ok r meta"
    unfolding links_ok_def
  proof (intro ballI allI impI)
    fix blk item ev assume "blk \<in> set (elem_blocks meta)" "item \<in> set (r ! blk)" "decode_element item = Inr ev"
    moreover from this have "item \<in> set ?items" by auto
    moreover have "unat (hm_elem_first meta) = base" using h by (simp add: holds_elements_def)
    ultimately show "unat (hm_elem_first meta) \<le> unat (fst (ev_nbr_addr ev)) \<and>
        unat (fst (ev_nbr_addr ev)) < unat (pending_start meta)" using items ps by simp
  qed
  ultimately show ?thesis using b(2) all unfolding enumerate_iff [OF raw] by auto
qed

lemma spec_ok_no_codes: "spec_ok x no_codes"
  by (simp add: spec_ok_def no_codes_def)

lemma pack_fold_layout_ok:
  assumes x: "hnsw_wf x" "uniform_dim x" "levels_fit x" and meta: "hm_aq_m meta = 0" "hm_sbq_bits meta = 0"
    and size: "base + 2 * node_count x < 2 ^ 32" and dim: "dim_fits (hnsw_dim x)"
  shows "\<exists>p meta'. pack_fold_layout quant aq x base meta = Inr p \<and> decode_meta (pk_meta p) = Inr meta' \<and>
    holds_elements x base (pk_pages p) meta' \<and> unat (pending_start meta') = base + length (pk_pages p) \<and> hm_sbq_bits meta' = 0 \<and>
    page_fits [pk_meta p] \<and> (\<forall>page \<in> set (pk_pages p). page_fits page)"
proof -
  have pk: "pack_fold_layout quant aq x base meta = pack_kind (train_codes quant) x base NoCode"
    using meta by (simp add: pack_fold_layout_def pack_at_def)
  show ?thesis
  proof (cases "hx_vectors x = []")
    case False
    have t: "train_codes quant x NoCode = Inr no_codes" by (simp add: train_codes_def)
    from pack_kind_represents [where train = "train_codes quant" and kind = NoCode, OF x(1) False x(2,3) disjI1 [OF refl] t
        spec_ok_no_codes size] pack_plain_meta [where train = "train_codes quant", OF t] dim show ?thesis
      unfolding pk by (auto simp: no_codes_def page_fits_def dim_fits_def)
  next
    case True
    let ?m = "empty_meta x base"
    have "decode_meta (encode_meta ?m) = Inr ?m"
      using meta_roundtrip [of ?m] by (simp add: meta_wf_def empty_meta_def)
    moreover have u: "unat (of_nat base :: u32) = base" using size by (intro unat_of_nat_u32) linarith
    then have "holds_elements x base [] ?m" using True size
      by (simp add: holds_elements_def empty_meta_def node_count_def)
    moreover have "unat (pending_start ?m) = base" using u by (simp add: pending_start_def empty_meta_def)
    moreover have "page_fits [encode_meta ?m]" by (rule plain_meta_fits) (simp_all add: empty_meta_def)
    ultimately show ?thesis using True unfolding pk
      by (simp add: pack_kind_def node_count_def empty_meta_def Let_def)
  qed
qed

text \<open>The parameters fit their fields in the meta and in an element tuple.\<close>

definition params_fit :: "hnsw_index \<Rightarrow> bool" where
  "params_fit x \<longleftrightarrow> hx_m x < 2 ^ 16 \<and> hx_m0 x < 2 ^ 16 \<and> (\<forall>l \<in> set (hx_levels x). l < 2 ^ 7)"

text \<open>What a crash inside the rebuild can leave: the meta, the stored entries and, unless the fold has already extended
  the relation, the pending entries of the old index; or the meta and the stored entries of the new one.\<close>

definition crash_state :: "relation \<Rightarrow> hnsw_meta \<Rightarrow> entry list \<Rightarrow> entry list \<Rightarrow> hnsw_meta \<Rightarrow> entry list \<Rightarrow> relation \<Rightarrow> bool" where
  "crash_state rel meta xs ps meta' live r \<longleftrightarrow>
     read_meta r = Inr meta \<and> enumerate_entries r meta = Inr xs \<and> (length r = length rel \<longrightarrow> read_pending r = Inr ps) \<or>
     read_meta r = Inr meta' \<and> enumerate_entries r meta' = Inr live"

text \<open>What the rebuild needs of a graph builder: it keeps the corpus in order and returns a well-formed
  graph whose neighbour tuples fit a page. \<open>empty_ok\<close>: it can build the empty graph.\<close>

locale graph_builder =
  fixes build :: "metric \<Rightarrow> entry list \<Rightarrow> hnsw_index option" and empty_ok :: bool
  assumes build_ok: "corpus \<noteq> [] \<or> empty_ok \<Longrightarrow> \<exists>x. build metric corpus = Some x \<and> hnsw_wf x \<and> levels_fit x \<and>
    params_fit x \<and> hx_metric x = metric \<and> hx_ids x = map fst corpus \<and> hx_vectors x = map snd corpus"
begin

lemma rebuild_plan_ok:
  assumes st: "stored rel meta xs ps"
    and dims: "\<forall>e \<in> set (filter (\<lambda>e. \<not> dead (fst e)) (xs @ ps)). length (snd e) = d" "dim_fits d"
    and size: "length rel + 2 * length (xs @ ps) + 1 < 2 ^ 32"
    and some: "filter (\<lambda>e. \<not> dead (fst e)) (xs @ ps) \<noteq> [] \<or> empty_ok"
  defines "live \<equiv> filter (\<lambda>e. \<not> dead (fst e)) (xs @ ps)"
  shows "\<exists>packed base meta'. rebuild_plan build quant aq rel dead = Inr (packed, base, length live) \<and>
    free_for rel (unat (hm_elem_first meta)) (unat base) (length (pk_pages packed)) \<and>
    decode_meta (pk_meta packed) = Inr meta' \<and> hm_sbq_bits meta' = 0 \<and> metric_from_tag (hm_metric_tag meta') \<noteq> None \<and>
    hm_aq_m meta' = 0 \<and> hm_raw_npages meta' = 0 \<and> unat (hm_elem_first meta') = unat base \<and>
    unat (pending_start meta') = unat base + length (pk_pages packed) \<and>
    unat (hm_elem_npages meta') \<le> length (pk_pages packed) \<and>
    page_fits [pk_meta packed] \<and> (\<forall>page \<in> set (pk_pages packed). page_fits page) \<and>
    (\<forall>r. holds_new (pk_meta packed) (unat base) (pk_pages packed) r \<longrightarrow>
      enumerate_entries r meta' = Inr live \<and> links_ok r meta' \<and> read_meta r = Inr meta')"
proof -
  from st have l: "layout_ok rel meta" and xs: "enumerate_entries rel meta = Inr xs" and ps: "read_pending rel = Inr ps"
    and m: "read_meta rel = Inr meta" "hm_aq_m meta = 0" "hm_sbq_bits meta = 0" "1 \<le> unat (hm_elem_first meta)"
      "unat (hm_elem_first meta) \<le> length rel" "metric_from_tag (hm_metric_tag meta) \<noteq> None"
    by (auto simp: stored_def layout_ok_def)
  note ne = read_meta_nonempty [OF m(1)]
  obtain metric where metric: "metric_from_tag (hm_metric_tag meta) = Some metric" using m(6) by blast
  obtain x where x: "build metric live = Some x" "hnsw_wf x" "levels_fit x" "hx_metric x = metric"
    "hx_ids x = map fst live" "hx_vectors x = map snd live" using build_ok some unfolding live_def by blast
  have n: "node_count x = length live" "length live \<le> length (xs @ ps)"
    unfolding node_count_def x(6) by (simp_all only: live_def length_map length_filter_le)
  have "hnsw_dim x = (if live = [] then 0 else d)"
    using dims(1) unfolding live_def [symmetric] by (cases live) (simp_all add: hnsw_dim_def x(6))
  then have dim: "uniform_dim x" "dim_fits (hnsw_dim x)"
    using dims dim_fits_16 [OF dims(2)] unfolding live_def [symmetric]
    by (auto simp: uniform_dim_def x(6) dim_fits_bound)
  have pack: "\<exists>p meta'. pack_fold_layout quant aq x base meta = Inr p \<and> decode_meta (pk_meta p) = Inr meta' \<and>
      holds_elements x base (pk_pages p) meta' \<and> unat (pending_start meta') = base + length (pk_pages p) \<and> hm_sbq_bits meta' = 0 \<and>
      page_fits [pk_meta p] \<and> (\<forall>page \<in> set (pk_pages p). page_fits page)"
    if "base \<le> length rel + 1" for base
    by (rule pack_fold_layout_ok [OF x(2) dim(1) x(3) m(2,3) _ dim(2)]) (use that size n in linarith)
  obtain probe meta1 where probe: "pack_fold_layout quant aq x 1 meta = Inr probe" "holds_elements x 1 (pk_pages probe) meta1"
    using pack [of 1] by auto
  define base where "base = free_region (cur_gen_start rel) (of_nat (length rel)) (of_nat (length (pk_pages probe)))"
  have free: "free_for rel (unat (hm_elem_first meta)) (unat base) (length (pk_pages probe))"
    unfolding base_def stored_magic(2) [OF m(1,2)]
    by (rule free_region_free [OF ne]) (use size m(5) probe(2) in \<open>simp_all add: holds_elements_def\<close>)
  obtain packed meta' where p: "(if base = 1 then Inr probe else pack_err (pack_fold_layout quant aq x (unat base) meta)) = Inr packed"
    "decode_meta (pk_meta packed) = Inr meta'" "holds_elements x (unat base) (pk_pages packed) meta'"
    "unat (pending_start meta') = unat base + length (pk_pages packed)" "hm_sbq_bits meta' = 0"
    "page_fits [pk_meta packed]" "\<forall>page \<in> set (pk_pages packed). page_fits page"
  proof (cases "base = 1")
    case True
    obtain q meta' where "pack_fold_layout quant aq x 1 meta = Inr q" "decode_meta (pk_meta q) = Inr meta'"
      "holds_elements x 1 (pk_pages q) meta'" "unat (pending_start meta') = 1 + length (pk_pages q)" "hm_sbq_bits meta' = 0"
      "page_fits [pk_meta q]" "\<forall>page \<in> set (pk_pages q). page_fits page"
      using pack [of 1] by auto
    with True probe(1) that [of probe meta'] show thesis by auto
  next
    case False
    obtain q meta' where "pack_fold_layout quant aq x (unat base) meta = Inr q" "decode_meta (pk_meta q) = Inr meta'"
      "holds_elements x (unat base) (pk_pages q) meta'" "unat (pending_start meta') = unat base + length (pk_pages q)" "hm_sbq_bits meta' = 0"
      "page_fits [pk_meta q]" "\<forall>page \<in> set (pk_pages q). page_fits page"
      using pack [of "unat base"] free by (auto simp: free_for_def)
    with False that [of q meta'] show thesis by auto
  qed
  have free': "free_for rel (unat (hm_elem_first meta)) (unat base) (length (pk_pages packed))"
  proof (cases "base = 1")
    case True
    with p(1) free show ?thesis by simp
  next
    case False
    then have "unat base = length rel"
      using ne size by (auto simp: base_def free_region_def max_def unat_of_nat_u32 split: if_splits)
    with ne show ?thesis by (simp add: free_for_def Suc_le_eq)
  qed
  have plan: "rebuild_plan build quant aq rel dead = Inr (packed, base, length live)"
    unfolding rebuild_plan_def m(1) xs ps am_err_simps bind_r_simps metric option.case Let_def live_def [symmetric] x(1)
      probe(1) base_def [symmetric] p(1) ..
  have h: "hm_aq_m meta' = 0" "hm_raw_npages meta' = 0" "hm_metric_tag meta' = metric_tag metric"
    "unat (hm_elem_first meta') = unat base" "unat (hm_elem_npages meta') \<le> length (pk_pages packed)"
    using p(3) x(4) by (simp_all add: holds_elements_def)
  have new: "enumerate_entries r meta' = Inr live \<and> links_ok r meta' \<and> read_meta r = Inr meta'"
    if "holds_new (pk_meta packed) (unat base) (pk_pages packed) r" for r
  proof -
    from that have r: "unat base + length (pk_pages packed) \<le> length r" "r ! 0 = [pk_meta packed]"
      "\<And>i. i < length (pk_pages packed) \<Longrightarrow> r ! (unat base + i) = pk_pages packed ! i"
      by (simp_all add: holds_new_def)
    have "zip (hx_ids x) (hx_vectors x) = live" by (simp add: x(5,6) zip_map_fst_snd)
    with enumerate_packed [OF p(3) _ _ p(4), of r] r x(5,6) have "enumerate_entries r meta' = Inr live \<and> links_ok r meta'"
      by simp
    moreover have "1 \<le> unat base" using free by (simp add: free_for_def)
    then have "r \<noteq> []" using r(1) by auto
    then have "read_meta r = Inr meta'" by (rule decode_meta_read [OF _ r(2) p(2) h(1)])
    ultimately show ?thesis by blast
  qed
  show ?thesis
    using plan free' p(2,4-7) h new by (intro exI [of _ packed] exI [of _ base] exI [of _ meta']) simp
qed

lemma rebuild_ok:
  assumes st: "stored rel meta xs ps"
    and dims: "\<forall>e \<in> set (filter (\<lambda>e. \<not> dead (fst e)) (xs @ ps)). length (snd e) = d" "dim_fits d"
    and size: "length rel + 2 * length (xs @ ps) + 1 < 2 ^ 32"
    and some: "filter (\<lambda>e. \<not> dead (fst e)) (xs @ ps) \<noteq> [] \<or> empty_ok"
  defines "live \<equiv> filter (\<lambda>e. \<not> dead (fst e)) (xs @ ps)"
  shows "\<exists>rel' meta'. vacuum_rebuild_hnsw_structured build quant aq rel dead = Inr (rel', length live) \<and> stored rel' meta' live [] \<and>
    (\<forall>r \<in> set (rebuild_states build quant aq rel dead). crash_state rel meta xs ps meta' live r)"
proof -
  from st have l: "layout_ok rel meta" and xs: "enumerate_entries rel meta = Inr xs" and ps: "read_pending rel = Inr ps"
    and m: "read_meta rel = Inr meta" "hm_aq_m meta = 0" "hm_raw_npages meta = 0" "unat (pending_start meta) \<le> length rel"
      "unat (hm_elem_first meta) + unat (hm_elem_npages meta) \<le> unat (pending_start meta)" by (simp_all add: stored_def layout_ok_def)
  note ne = read_meta_nonempty [OF m(1)]
  from rebuild_plan_ok [OF st dims size some, of quant aq] obtain packed base meta' where p:
    "rebuild_plan build quant aq rel dead = Inr (packed, base, length live)"
    "free_for rel (unat (hm_elem_first meta)) (unat base) (length (pk_pages packed))"
    "hm_sbq_bits meta' = 0" "metric_from_tag (hm_metric_tag meta') \<noteq> None"
    "hm_aq_m meta' = 0" "hm_raw_npages meta' = 0" "unat (hm_elem_first meta') = unat base"
    "unat (pending_start meta') = unat base + length (pk_pages packed)"
    "unat (hm_elem_npages meta') \<le> length (pk_pages packed)"
    "\<And>r. holds_new (pk_meta packed) (unat base) (pk_pages packed) r \<Longrightarrow>
      enumerate_entries r meta' = Inr live \<and> links_ok r meta' \<and> read_meta r = Inr meta'"
    and fit: "page_fits [pk_meta packed]" "\<forall>page \<in> set (pk_pages packed). page_fits page"
    unfolding live_def by blast
  let ?e = "unat base + length (pk_pages packed)"
  have old: "read_meta r = Inr meta \<and> enumerate_entries r meta = Inr xs \<and> (length r = length rel \<longrightarrow> read_pending r = Inr ps)"
    if "keeps_old rel (unat (hm_elem_first meta)) r" for r
  proof (intro conjI impI)
    from that have r: "length rel \<le> length r" "r ! 0 = rel ! 0"
      "\<And>j. j < length rel \<Longrightarrow> unat (hm_elem_first meta) \<le> j \<Longrightarrow> r ! j = rel ! j" by (simp_all add: keeps_old_def)
    show rm: "read_meta r = Inr meta" by (rule read_meta_cong [OF r(2) _ m(2,1)]) (use ne r(1) in auto)
    show "enumerate_entries r meta = Inr xs"
      by (rule enumerate_cong [OF m(3) _ xs]) (use r(1,3) layout_elem_blocks(2) [OF l] in \<open>auto intro: order_less_le_trans\<close>)
    assume len: "length r = length rel"
    have "read_pending r = read_pending rel"
      by (rule read_pending_cong [OF stored_magic(3) [OF m(1,2)] stored_magic(3) [OF rm m(2)] layout_pending_start [OF l] m(4) len])
        (use r(3) m(5) in simp)
    then show "read_pending r = Inr ps" by (simp add: ps)
  qed
  have states: "\<forall>r \<in> set (rebuild_states build quant aq rel dead). crash_state rel meta xs ps meta' live r"
  proof
    fix r assume "r \<in> set (rebuild_states build quant aq rel dead)"
    then have "r \<in> set (rel # fold_trace rel (pk_meta packed) (pk_pages packed) base)" by (simp add: rebuild_states_def p(1))
    from fold_states [OF p(2) this] show "crash_state rel meta xs ps meta' live r"
      unfolding crash_state_def using old p(10) by blast
  qed
  have "unat base \<le> length rel" using p(2) by (simp add: free_for_def)
  from gen_fold_eq [OF this fit(2,1)] obtain rel' where gen: "gen_fold rel (pk_meta packed) (pk_pages packed) base = Inr rel'"
    by (auto simp: Let_def)
  note fin = gen_fold_final [OF p(2) gen fit(2,1)]
  note hn = fin(1)
  note new = p(10) [OF hn]
  have ok: "layout_ok rel' meta'"
    using new p hn by (simp add: layout_ok_def holds_new_def free_for_def)
  moreover have "read_pending rel' = Inr []"
  proof -
    have lay: "pending_layout rel' = Inr (pending_start meta', length rel')" using stored_magic(3) new p(5) by blast
    have le: "unat (pending_start meta') \<le> length rel'" using hn p(8) by (simp add: holds_new_def)
    show ?thesis by (rule read_pending_none [OF lay layout_pending_start [OF ok] le]) (use fin(2) p(8) in simp)
  qed
  ultimately have "stored rel' meta' live []" using new by (simp add: stored_def)
  with states gen show ?thesis
    by (auto simp: vacuum_rebuild_hnsw_structured_def p(1))
qed

end

section \<open>The build is such a builder\<close>

lemma hnsw_m_range: "2 \<le> hnsw_m_from_relation opt \<and> hnsw_m_from_relation opt \<le> 39"
  by (auto simp: hnsw_m_from_relation_def MIN_HNSW_M_def MAX_HNSW_M_def DEFAULT_HNSW_M_def split: option.split)

lemma nbr_tuple_fits:
  assumes "m \<le> 39" and "level \<le> HNSW_MAX_LEVEL"
  shows "ITEMID + maxalign (nbr_size level m (2 * m)) \<le> USABLE"
proof -
  have "level * m \<le> 32 * 39" using assms by (intro mult_le_mono) (simp_all add: HNSW_MAX_LEVEL_def)
  then have "nbr_size level m (2 * m) \<le> 7960" using assms(1) by (simp add: nbr_size_def nbr_slots_def layout_defs)
  then have "maxalign (nbr_size level m (2 * m)) \<le> maxalign 7960"
    unfolding maxalign_def by (intro mult_le_mono1 div_le_mono) simp
  then show ?thesis by (simp add: maxalign_def layout_defs)
qed

lemma build_owned_builds:
  assumes "m \<le> 39" and "corpus \<noteq> [] \<or> 0 < be_threshold env"
  shows "\<exists>x. build_owned env m efc seed metric corpus = Some x \<and> hnsw_wf x \<and> levels_fit x \<and> params_fit x \<and> hx_metric x = metric \<and>
    hx_ids x = map fst corpus \<and> hx_vectors x = map snd corpus"
proof -
  from build_owned_ok [OF assms(2), of m efc seed metric] obtain x where x: "build_owned env m efc seed metric corpus = Some x"
    "hnsw_wf x" "hx_metric x = metric" "hx_m x = m" "hx_m0 x = 2 * m" "hx_ids x = map fst corpus" "hx_vectors x = map snd corpus"
    "hx_levels x = draw_levels (be_level_of env m) seed (length corpus)" by blast
  have lev: "l \<le> HNSW_MAX_LEVEL" if "l \<in> set (hx_levels x)" for l using that draw_levels_cap by (simp add: x(8))
  have "levels_fit x" using nbr_tuple_fits [OF assms(1)] lev by (simp add: levels_fit_def x(4,5))
  moreover have "params_fit x" using lev assms(1) by (fastforce simp: params_fit_def x(4,5) HNSW_MAX_LEVEL_def)
  ultimately show ?thesis using x by blast
qed

text \<open>Under every schedule of the parallel build, at every size.\<close>

interpretation owned: graph_builder "build_owned env (hnsw_m_from_relation opt) efc seed" "0 < be_threshold env"
  for env opt efc seed
  by unfold_locales (use build_owned_builds hnsw_m_range in blast)

section \<open>Properties\<close>

text \<open>No \<open>m\<close> the options let through produces a neighbour tuple that overflows a page: for every accepted
  option value (absent or out-of-range values fall back to the default) and every level up to the cap the
  tuple fits, and 39 is the largest such \<open>m\<close>: at 40 the tuple of a node at the level cap does not fit.\<close>

theorem hnsw_m_bound:
  "(\<forall>opt level. level \<le> HNSW_MAX_LEVEL \<longrightarrow>
      ITEMID + maxalign (nbr_size level (hnsw_m_from_relation opt) (2 * hnsw_m_from_relation opt)) \<le> USABLE) \<and>
   USABLE < ITEMID + maxalign (nbr_size HNSW_MAX_LEVEL 40 (2 * 40))"
  using nbr_tuple_fits hnsw_m_range
  by (simp add: nbr_size_def nbr_slots_def HNSW_MAX_LEVEL_def layout_defs maxalign_def)

theorem hnsw_m_bound_witness:
  "ITEMID + maxalign (nbr_size 32 (hnsw_m_from_relation (Some 39)) (2 * hnsw_m_from_relation (Some 39))) \<le> USABLE"
  using hnsw_m_bound by (simp add: HNSW_MAX_LEVEL_def)

text \<open>C10: The VACUUM rebuild of a plain f32 HNSW index loses no live row. For every stored f32 (version 1) index whose live
  vectors have one dimension that fits a page, with room for the new generation below block \<open>2 ^ 32\<close>, it succeeds under
  every schedule of the build (not an empty rebuild at parallel threshold 0), reports the number of live entries, and leaves an index that stores exactly
  the live entries, those of the main index first and those of the pending region after, in their order, with an
  empty pending region. After every WAL record inside the rebuild the meta and the stored entries read are those of the old
  index in full or those of the new one in full. The pending region is covered only while the fold has not extended the relation:
  from then on the old index's pending range holds new body pages, and until the reclaim is done the new index's holds old pages,
  which a scan reports as corrupt or, by the orphan property, can misread.\<close>

theorem vacuum_rebuild_correct:
  assumes "stored rel meta xs ps" and "live = filter (\<lambda>e. \<not> dead (fst e)) (xs @ ps)" and "\<forall>e \<in> set live. length (snd e) = d"
    and "ITEMID + maxalign (elem_size d 0) \<le> USABLE" and "length rel + 2 * length (xs @ ps) + 1 < 2 ^ 32"
    and "live \<noteq> [] \<or> 0 < be_threshold env"
  shows "\<exists>rel' meta'. let build = build_owned env (hnsw_m_from_relation opt) efc seed in
    vacuum_rebuild_hnsw_structured build quant aq rel dead = Inr (rel', length live) \<and>
    enumerate_entries rel' meta' = Inr live \<and> read_meta rel' = Inr meta' \<and> read_pending rel' = Inr [] \<and>
    (\<forall>r \<in> set (rebuild_states build quant aq rel dead).
      read_meta r = Inr meta \<and> enumerate_entries r meta = Inr xs \<and> (length r = length rel \<longrightarrow> read_pending r = Inr ps) \<or>
      read_meta r = Inr meta' \<and> enumerate_entries r meta' = Inr live)"
proof -
  obtain rel' meta' where "vacuum_rebuild_hnsw_structured (build_owned env (hnsw_m_from_relation opt) efc seed) quant aq rel dead =
      Inr (rel', length live)" "stored rel' meta' live []"
    "\<forall>r \<in> set (rebuild_states (build_owned env (hnsw_m_from_relation opt) efc seed) quant aq rel dead).
      crash_state rel meta xs ps meta' live r"
    using owned.rebuild_ok [OF assms(1) _ _ assms(5), of dead d env opt efc seed quant aq] assms(2-4,6)
    unfolding dim_fits_def by metis
  then show ?thesis
    unfolding Let_def crash_state_def by (intro exI [of _ rel'] exI [of _ meta']) (simp add: stored_def layout_ok_def)
qed

text \<open>An index without rows: a meta block only.\<close>

definition fresh_meta :: hnsw_meta where
  "fresh_meta = empty_meta (empty_index L2 16 64) 1"

lemma empty_stored: "stored [[encode_meta fresh_meta]] fresh_meta [] []"
proof -
  note m = fresh_meta_def empty_meta_def empty_index_def
  have f: "hm_aq_m fresh_meta = 0" "hm_raw_npages fresh_meta = 0" "hm_sbq_bits fresh_meta = 0" "hm_elem_first fresh_meta = 1"
    "hm_elem_npages fresh_meta = 0" "hm_metric_tag fresh_meta = 0" "pending_start fresh_meta = 1" "elem_blocks fresh_meta = []"
    by (simp_all add: m pending_start_def elem_blocks_def block_range_def)
  have "decode_meta (encode_meta fresh_meta) = Inr fresh_meta"
    using meta_roundtrip [of fresh_meta] by (simp add: meta_wf_def m)
  then have r: "read_meta [[encode_meta fresh_meta]] = Inr fresh_meta" using f(1) by (intro decode_meta_read) simp_all
  have ok: "layout_ok [[encode_meta fresh_meta]] fresh_meta"
    using r f by (simp add: layout_ok_def links_ok_def metric_from_tag_def)
  moreover have "enumerate_entries [[encode_meta fresh_meta]] fresh_meta = Inr []"
    by (simp add: enumerate_iff [OF f(2)] f(8) blocks_ok_def List.map_filter_def)
  moreover have "read_pending [[encode_meta fresh_meta]] = Inr []"
    using read_pending_layout [OF stored_magic(3) [OF r f(1)] layout_pending_start [OF ok]] by (simp add: f(7))
  ultimately show ?thesis by (simp add: stored_def)
qed

lemma small_dims: "dim_fits 2" "dim_fits (Suc (Suc 0))" "dim_fits 1"
  by (simp_all add: dim_fits_bound)

theorem vacuum_rebuild_correct_witness:
  "\<exists>rel rel' meta'. read_pending rel = Inr [(7, [0, 1]), (8, [2, 3])] \<and>
     vacuum_rebuild_hnsw_structured (build_owned racy_env (hnsw_m_from_relation None) 64 42)
       (\<lambda>_ _. Inl NoEntry) (\<lambda>_. Inl NoEntry) rel (\<lambda>t. t = 7) = Inr (rel', 1) \<and>
     enumerate_entries rel' meta' = Inr [(8, [2, 3])] \<and> read_pending rel' = Inr []"
proof -
  let ?e = "(\<lambda>_. 0) :: page \<Rightarrow> nat" and ?c = "(\<lambda>_ _. True) :: page \<Rightarrow> bytes \<Rightarrow> bool"
  obtain r1 where r1: "append_pending ?e ?c [[encode_meta fresh_meta]] 7 [0, 1] = Inr r1"
    "stored r1 fresh_meta [] [(7, [0, 1])]"
    using append_stored [OF empty_stored, of "[0, 1]" ?e ?c 7] small_dims by auto
  obtain r2 where r2: "append_pending ?e ?c r1 8 [2, 3] = Inr r2"
    "stored r2 fresh_meta [] [(7, [0, 1]), (8, [2, 3])]"
    using append_stored [OF r1(2), of "[2, 3]" ?e ?c 8] small_dims by auto
  have len: "length r' \<le> Suc (length r)" if "append_pending ?e ?c r t v = Inr r'" for r r' t v
    using that by (auto simp: append_pending_def try_add_to_page_def extend_item_Inr bind_r_Inr_iff Let_def split: if_splits)
  have "length r2 + 2 * length ([] @ [(7 :: i64, [0, 1 :: f32_bits]), (8, [2, 3])]) + 1 < 2 ^ 32"
    using len [OF r1(1)] len [OF r2(1)] by simp
  from vacuum_rebuild_correct [OF r2(2) refl _ _ this, where d = 2 and dead = "\<lambda>t. t = 7" and env = racy_env and opt = None
      and efc = 64 and seed = 42 and quant = "\<lambda>_ _. Inl NoEntry" and aq = "\<lambda>_. Inl NoEntry"] small_dims
  show ?thesis using r2(2) by (auto simp: stored_def Let_def dim_fits_def)
qed

end
