(* ===== verification/BinHeap.thy ===== *)
theory BinHeap
  imports Prelude "HOL-Library.Multiset"
begin

text \<open>
  \<open>std::collections::BinaryHeap\<close> as the standard library implements it, on the list of its vector: \<open>push\<close> appends
  and sifts up, \<open>pop\<close> moves the last element to the root, sifts it down to the bottom along the larger children and
  up again. The element order is given by an integer key (a \<open>Reverse\<close> negates it). Elements that compare equal
  leave in an order that depends on these steps, which is why a sorted list is no model of a heap with ties.
\<close>

section \<open>Operations\<close>

definition heap_parent :: "nat \<Rightarrow> nat" where
  "heap_parent i = (i - 1) div 2"

lemma parent_less [simp]: "0 < i \<Longrightarrow> heap_parent i < i"
  unfolding heap_parent_def by linarith

lemma child_cases: "0 < i \<Longrightarrow> heap_parent i = p \<Longrightarrow> i = 2 * p + 1 \<or> i = 2 * p + 1 + 1"
  unfolding heap_parent_def by linarith

definition swap_at :: "nat \<Rightarrow> nat \<Rightarrow> 'a list \<Rightarrow> 'a list" where
  "swap_at i j xs = xs[i := xs ! j, j := xs ! i]"

fun sift_up :: "('a \<Rightarrow> int) \<Rightarrow> nat \<Rightarrow> 'a list \<Rightarrow> 'a list" where
  "sift_up k pos xs =
     (if pos = 0 then xs
      else let parent = heap_parent pos in
        if k (xs ! pos) \<le> k (xs ! parent) then xs else sift_up k parent (swap_at pos parent xs))"

declare sift_up.simps [simp del]

lemma length_swap_at [simp]: "length (swap_at i j xs) = length xs"
  by (simp add: swap_at_def)

text \<open>The element at \<open>pos\<close> sinks to a leaf; its final position is returned.\<close>

function sift_to_bottom :: "('a \<Rightarrow> int) \<Rightarrow> nat \<Rightarrow> 'a list \<Rightarrow> 'a list \<times> nat" where
  "sift_to_bottom k pos xs =
     (let child = 2 * pos + 1 in
      if child + 2 \<le> length xs then
        let child = (if k (xs ! child) \<le> k (xs ! (child + 1)) then child + 1 else child)
        in sift_to_bottom k child (swap_at pos child xs)
      else if child + 1 = length xs then (swap_at pos child xs, child)
      else (xs, pos))"
  by pat_completeness auto
termination
  by (relation "measure (\<lambda>(k, pos, xs). length xs - pos)") (auto split: if_splits)

declare sift_to_bottom.simps [simp del]

definition heap_push :: "('a \<Rightarrow> int) \<Rightarrow> 'a \<Rightarrow> 'a list \<Rightarrow> 'a list" where
  "heap_push k x xs = sift_up k (length xs) (xs @ [x])"

definition heap_pop :: "('a \<Rightarrow> int) \<Rightarrow> 'a list \<Rightarrow> ('a \<times> 'a list) option" where
  "heap_pop k xs =
     (if xs = [] then None
      else let rest = butlast xs in
        if rest = [] then Some (last xs, [])
        else let (ys, pos) = sift_to_bottom k 0 (rest[0 := last xs]) in Some (hd rest, sift_up k pos ys))"

lemma length_sift_up [simp]: "length (sift_up k p xs) = length xs"
  by (induction k p xs rule: sift_up.induct) (subst sift_up.simps, simp add: Let_def)

lemma length_sift_to_bottom: "length (fst (sift_to_bottom k p xs)) = length xs"
proof (induction k p xs rule: sift_to_bottom.induct)
  case (1 k p xs)
  then show ?case by (subst sift_to_bottom.simps) (simp add: Let_def)
qed

lemma length_heap_pop: "heap_pop k xs = Some (x, ys) \<Longrightarrow> length xs = Suc (length ys)"
  using length_sift_to_bottom [of k 0 "(butlast xs)[0 := last xs]"]
  by (cases xs rule: rev_cases) (auto simp: heap_pop_def Let_def split: prod.splits if_splits)

section \<open>The heap property\<close>

definition heap_ok :: "('a \<Rightarrow> int) \<Rightarrow> 'a list \<Rightarrow> bool" where
  "heap_ok k xs \<longleftrightarrow> (\<forall>i < length xs. 0 < i \<longrightarrow> k (xs ! i) \<le> k (xs ! (heap_parent i)))"

text \<open>The heap property except around \<open>p\<close>, whose children are still below its parent.\<close>

definition heap_but :: "('a \<Rightarrow> int) \<Rightarrow> nat \<Rightarrow> 'a list \<Rightarrow> bool" where
  "heap_but k p xs \<longleftrightarrow> p < length xs \<and>
     (\<forall>i < length xs. 0 < i \<and> i \<noteq> p \<and> heap_parent i \<noteq> p \<longrightarrow> k (xs ! i) \<le> k (xs ! (heap_parent i))) \<and>
     (\<forall>i < length xs. 0 < i \<and> heap_parent i = p \<and> 0 < p \<longrightarrow> k (xs ! i) \<le> k (xs ! (heap_parent p)))"

lemma heap_butD:
  assumes "heap_but k p xs" and "i < length xs" and "0 < i"
  shows "i \<noteq> p \<Longrightarrow> heap_parent i \<noteq> p \<Longrightarrow> k (xs ! i) \<le> k (xs ! (heap_parent i))"
    and "heap_parent i = p \<Longrightarrow> 0 < p \<Longrightarrow> k (xs ! i) \<le> k (xs ! (heap_parent p))"
  using assms unfolding heap_but_def by blast+

lemma mset_swap_at [simp]: "i < length xs \<Longrightarrow> j < length xs \<Longrightarrow> mset (swap_at i j xs) = mset xs"
  by (simp add: swap_at_def mset_swap)

lemma nth_swap_at:
  "i < length xs \<Longrightarrow> j < length xs \<Longrightarrow> l < length xs \<Longrightarrow>
   swap_at i j xs ! l = (if l = j then xs ! i else if l = i then xs ! j else xs ! l)"
  by (auto simp: swap_at_def nth_list_update)

lemma sift_up_ok:
  assumes "heap_but k p xs"
    and "\<And>i. i < length xs \<Longrightarrow> 0 < i \<Longrightarrow> heap_parent i = p \<Longrightarrow> k (xs ! i) \<le> k (xs ! p)"
  shows "heap_ok k (sift_up k p xs) \<and> mset (sift_up k p xs) = mset xs"
  using assms
proof (induction k p xs rule: sift_up.induct)
  case (1 k p xs)
  let ?q = "heap_parent p"
  have p: "p < length xs" using "1.prems"(1) by (simp add: heap_but_def)
  note but = heap_butD [OF "1.prems"(1)]
  show ?case
  proof (cases "p = 0 \<or> k (xs ! p) \<le> k (xs ! ?q)")
    case True
    then have e: "sift_up k p xs = xs" by (subst sift_up.simps) (auto simp: Let_def)
    have "heap_ok k xs"
      unfolding heap_ok_def
    proof (intro allI impI)
      fix i assume i: "i < length xs" "0 < i"
      show "k (xs ! i) \<le> k (xs ! (heap_parent i))"
        using but(1) [OF i] "1.prems"(2) [OF i] True i(2) by (cases "i = p"; cases "heap_parent i = p") auto
    qed
    with e show ?thesis by simp
  next
    case False
    then have pos: "0 < p" and less: "k (xs ! ?q) < k (xs ! p)" by auto
    have q: "?q < p" by (rule parent_less [OF pos])
    let ?ys = "swap_at p ?q xs"
    have e: "sift_up k p xs = sift_up k ?q ?ys"
      using pos less by (subst sift_up.simps) (simp add: Let_def)
    have n: "?ys ! l = (if l = ?q then xs ! p else if l = p then xs ! ?q else xs ! l)" if "l < length xs" for l
      using nth_swap_at [of p xs ?q l] p q that by simp
    have up: "k (xs ! i) \<le> k (xs ! ?q)" if "i < length xs" "0 < i" "heap_parent i = ?q" "i \<noteq> p" for i
      using but(1) [OF that(1,2)] that q by auto
    have b: "heap_but k ?q ?ys"
      unfolding heap_but_def
    proof (intro conjI allI impI)
      show "?q < length ?ys" using p q by simp
    next
      fix i assume i: "i < length ?ys" and c: "0 < i \<and> i \<noteq> ?q \<and> heap_parent i \<noteq> ?q"
      have ip: "i \<noteq> p" using c by auto
      have l: "i < length xs" "heap_parent i < length xs" using i c less_trans [OF parent_less, of i "length xs"] by auto
      show "k (?ys ! i) \<le> k (?ys ! (heap_parent i))"
        using but [OF l(1)] c ip pos by (auto simp: n l)
    next
      fix i assume i: "i < length ?ys" and c: "0 < i \<and> heap_parent i = ?q \<and> 0 < ?q"
      let ?g = "heap_parent ?q"
      have g: "?g < ?q" using parent_less [of ?q] c by simp
      have qg: "k (xs ! ?q) \<le> k (xs ! ?g)" using but(1) [of ?q] c g q p by auto
      have gi: "?ys ! ?g = xs ! ?g" using g q p by (simp add: n)
      show "k (?ys ! i) \<le> k (?ys ! ?g)"
      proof (cases "i = p")
        case True
        then have "?ys ! i = xs ! ?q" using q p by (simp add: n)
        then show ?thesis using qg gi by simp
      next
        case False
        moreover have "i \<noteq> ?q" using c parent_less [of i] by auto
        ultimately have "?ys ! i = xs ! i" using i by (simp add: n)
        moreover have "k (xs ! i) \<le> k (xs ! ?q)" by (rule up) (use i c False in simp_all)
        ultimately show ?thesis using qg gi by simp
      qed
    qed
    have ch: "k (?ys ! i) \<le> k (?ys ! ?q)" if i: "i < length ?ys" "0 < i" "heap_parent i = ?q" for i
    proof (cases "i = p")
      case True
      then show ?thesis using less q p by (simp add: n)
    next
      case False
      moreover have "i \<noteq> ?q" using i parent_less [of i] by auto
      ultimately have "?ys ! i = xs ! i" using i(1) by (simp add: n)
      moreover have "?ys ! ?q = xs ! p" using q p by (simp add: n)
      moreover have "k (xs ! i) \<le> k (xs ! ?q)" by (rule up) (use i False in simp_all)
      ultimately show ?thesis using less by simp
    qed
    have "\<not> p = 0" "\<not> k (xs ! p) \<le> k (xs ! ?q)" using pos less by simp_all
    from "1.IH" [OF this(1) refl this(2) b ch]
    have "heap_ok k (sift_up k ?q ?ys) \<and> mset (sift_up k ?q ?ys) = mset ?ys" .
    moreover have "mset ?ys = mset xs" using p q by (intro mset_swap_at) simp_all
    ultimately show ?thesis unfolding e by simp
  qed
qed

lemma sift_to_bottom_ok:
  assumes "heap_but k p xs" and "sift_to_bottom k p xs = (ys, r)"
  shows "heap_but k r ys \<and> length ys \<le> 2 * r + 1 \<and> mset ys = mset xs \<and> length ys = length xs"
  using assms
proof (induction k p xs arbitrary: ys r rule: sift_to_bottom.induct)
  case (1 k p xs)
  let ?c = "2 * p + 1"
  let ?m = "if k (xs ! ?c) \<le> k (xs ! (?c + 1)) then ?c + 1 else ?c"
  have p: "p < length xs" using "1.prems"(1) by (simp add: heap_but_def)
  note but = heap_butD [OF "1.prems"(1)]
  have sink: "heap_but k m (swap_at p m xs)"
    if m: "m < length xs" "heap_parent m = p" "0 < m"
      and mx: "\<And>i. i < length xs \<Longrightarrow> 0 < i \<Longrightarrow> heap_parent i = p \<Longrightarrow> k (xs ! i) \<le> k (xs ! m)" for m
  proof -
    let ?ys = "swap_at p m xs"
    have pm: "p < m" using m(2,3) parent_less by blast
    have n: "?ys ! l = (if l = m then xs ! p else if l = p then xs ! m else xs ! l)" if "l < length xs" for l
      using nth_swap_at [of p xs m l] p m that by simp
    show ?thesis
      unfolding heap_but_def
    proof (intro conjI allI impI)
      show "m < length ?ys" using m by simp
    next
      fix i assume i: "i < length ?ys" and c: "0 < i \<and> i \<noteq> m \<and> heap_parent i \<noteq> m"
      have l: "i < length xs" "heap_parent i < length xs" using i c less_trans [OF parent_less, of i "length xs"] by auto
      consider (sib) "heap_parent i = p" | (self) "i = p" | (other) "i \<noteq> p" "heap_parent i \<noteq> p" by blast
      then show "k (?ys ! i) \<le> k (?ys ! (heap_parent i))"
      proof cases
        case sib
        then have "i \<noteq> p" using c parent_less [of i] by auto
        then show ?thesis using mx [OF l(1)] sib c p pm l by (simp add: n)
      next
        case self
        then have "heap_parent i < p" using c parent_less [of i] by simp
        then show ?thesis using but(2) [OF m(1,3,2)] self c l by (simp add: n)
      next
        case other
        then show ?thesis using but(1) [OF l(1)] c l by (simp add: n)
      qed
    next
      fix i assume i: "i < length ?ys" and c: "0 < i \<and> heap_parent i = m \<and> 0 < m"
      have "m < i" using c parent_less by blast
      then have "i \<noteq> m" "i \<noteq> p" using pm by auto
      then show "k (?ys ! i) \<le> k (?ys ! (heap_parent m))"
        using but(1) [of i] c i m pm p by (simp add: n)
    qed
  qed
  have cs: "heap_parent ?c = p" "heap_parent (?c + 1) = p" by (simp_all add: heap_parent_def)
  show ?case
  proof (cases "?c + 2 \<le> length xs")
    case True
    have "heap_but k ?m (swap_at p ?m xs)"
    proof (rule sink)
      show "heap_parent ?m = p" using cs by simp
      show "k (xs ! i) \<le> k (xs ! ?m)" if "0 < i" "heap_parent i = p" for i using child_cases [OF that] by auto
    qed (use True in auto)
    moreover have "sift_to_bottom k ?m (swap_at p ?m xs) = (ys, r)"
      using "1.prems"(2) True by (subst (asm) sift_to_bottom.simps) (simp only: Let_def if_True)
    ultimately have "heap_but k r ys \<and> length ys \<le> 2 * r + 1 \<and> mset ys = mset (swap_at p ?m xs) \<and>
      length ys = length (swap_at p ?m xs)"
      by (rule "1.IH" [OF refl True refl])
    moreover have "mset (swap_at p ?m xs) = mset xs" using True p by (intro mset_swap_at) auto
    ultimately show ?thesis by simp
  next
    case False
    show ?thesis
    proof (cases "?c + 1 = length xs")
      case True
      have "heap_but k ?c (swap_at p ?c xs)"
      proof (rule sink)
        show "heap_parent ?c = p" by (rule cs)
        show "k (xs ! i) \<le> k (xs ! ?c)" if "i < length xs" "0 < i" "heap_parent i = p" for i
          using child_cases [OF that(2,3)] that(1) True by auto
      qed (use True in auto)
      moreover have "ys = swap_at p ?c xs \<and> r = ?c"
        using "1.prems"(2) True False by (subst (asm) sift_to_bottom.simps) (auto simp only: Let_def if_True if_False prod.inject refl)
      moreover have "mset (swap_at p ?c xs) = mset xs" using True p by (intro mset_swap_at) auto
      ultimately show ?thesis using True by simp
    next
      case none: False
      have "ys = xs \<and> r = p"
        using "1.prems"(2) none False by (subst (asm) sift_to_bottom.simps) (auto simp only: Let_def if_False prod.inject)
      with none False "1.prems"(1) p show ?thesis by simp
    qed
  qed
qed

lemma heap_ok_Nil [simp]: "heap_ok k []"
  by (simp add: heap_ok_def)

lemma heap_push_ok:
  assumes "heap_ok k xs"
  shows "heap_ok k (heap_push k x xs)" and "mset (heap_push k x xs) = add_mset x (mset xs)"
proof -
  have "heap_but k (length xs) (xs @ [x])"
    unfolding heap_but_def
  proof (intro conjI allI impI)
    fix i assume i: "i < length (xs @ [x])" and c: "0 < i \<and> i \<noteq> length xs \<and> heap_parent i \<noteq> length xs"
    then have "i < length xs" "heap_parent i < length xs" using less_trans [OF parent_less, of i "length xs"] by auto
    then show "k ((xs @ [x]) ! i) \<le> k ((xs @ [x]) ! (heap_parent i))"
      using assms c by (simp add: heap_ok_def nth_append)
  next
    fix i assume i: "i < length (xs @ [x])" and c: "0 < i \<and> heap_parent i = length xs \<and> 0 < length xs"
    have "heap_parent i < i" by (rule parent_less) (use c in blast)
    then have "length xs < i" using c by simp
    then show "k ((xs @ [x]) ! i) \<le> k ((xs @ [x]) ! heap_parent (length xs))" using i c by simp
  qed simp
  then have "heap_ok k (sift_up k (length xs) (xs @ [x])) \<and> mset (sift_up k (length xs) (xs @ [x])) = mset (xs @ [x])"
    by (rule sift_up_ok) (metis length_append_singleton less_Suc_eq_le less_irrefl less_le_trans parent_less)
  then show "heap_ok k (heap_push k x xs)" "mset (heap_push k x xs) = add_mset x (mset xs)"
    by (simp_all add: heap_push_def)
qed

lemma heap_ok_hd:
  assumes "heap_ok k xs" and "i < length xs"
  shows "k (xs ! i) \<le> k (xs ! 0)"
  using assms(2)
proof (induction i rule: less_induct)
  case (less i)
  show ?case
  proof (cases "i = 0")
    case False
    then have p: "heap_parent i < i" by (simp add: parent_less)
    then have "k (xs ! (heap_parent i)) \<le> k (xs ! 0)" using less by simp
    moreover have "k (xs ! i) \<le> k (xs ! (heap_parent i))" using assms(1) less.prems False by (simp add: heap_ok_def)
    ultimately show ?thesis by simp
  qed simp
qed

lemma heap_ok_max: "heap_ok k xs \<Longrightarrow> x \<in> set xs \<Longrightarrow> k x \<le> k (hd xs)"
proof -
  assume "heap_ok k xs" and x: "x \<in> set xs"
  moreover obtain i where "i < length xs" "x = xs ! i" using x by (auto simp: in_set_conv_nth)
  moreover have "hd xs = xs ! 0" using x by (cases xs) simp_all
  ultimately show ?thesis using heap_ok_hd by metis
qed

lemma heap_pop_ok:
  assumes "heap_ok k xs" and "heap_pop k xs = Some (x, ys)"
  shows "heap_ok k ys" and "mset xs = add_mset x (mset ys)" and "x = hd xs" and "\<And>y. y \<in> set xs \<Longrightarrow> k y \<le> k x"
    and "length xs = Suc (length ys)"
proof -
  have ne: "xs \<noteq> []" using assms(2) by (auto simp: heap_pop_def)
  let ?rest = "butlast xs"
  have split: "mset xs = add_mset (last xs) (mset ?rest)"
    using arg_cong [OF append_butlast_last_id [OF ne], of mset] by simp
  have "heap_ok k ys \<and> mset xs = add_mset x (mset ys) \<and> x = hd xs"
  proof (cases "?rest = []")
    case True
    then have "xs = [last xs]" using ne by (metis append_Nil append_butlast_last_id)
    then have "hd xs = last xs" by (metis list.sel(1))
    then show ?thesis using assms(2) ne True split by (auto simp: heap_pop_def Let_def)
  next
    case False
    obtain zs r where b: "sift_to_bottom k 0 (?rest[0 := last xs]) = (zs, r)" by (cases "sift_to_bottom k 0 (?rest[0 := last xs])")
    have out: "x = hd ?rest" "ys = sift_up k r zs" using assms(2) ne False b by (simp_all add: heap_pop_def Let_def)
    have "heap_but k 0 (?rest[0 := last xs])"
      unfolding heap_but_def
    proof (intro conjI allI impI)
      fix i assume i: "i < length (?rest[0 := last xs])" and c: "0 < i \<and> i \<noteq> 0 \<and> heap_parent i \<noteq> 0"
      have p: "heap_parent i < i" using c by (simp add: parent_less)
      have "k (xs ! i) \<le> k (xs ! (heap_parent i))" using assms(1) i c by (simp add: heap_ok_def)
      then show "k (?rest[0 := last xs] ! i) \<le> k (?rest[0 := last xs] ! (heap_parent i))"
        using i c p by (simp add: nth_butlast)
    qed (use False in \<open>auto simp flip: length_greater_0_conv\<close>)
    note bottom = sift_to_bottom_ok [OF this b]
    have "heap_ok k ys \<and> mset ys = mset zs"
      unfolding out(2)
    proof (rule sift_up_ok)
      show "k (zs ! i) \<le> k (zs ! r)" if "i < length zs" "0 < i" "heap_parent i = r" for i
        using child_cases [OF that(2,3)] that(1) bottom by auto
    qed (use bottom in blast)
    moreover have "mset (?rest[0 := last xs]) = add_mset (last xs) (mset ?rest - {#hd ?rest#})"
      using mset_update [of 0 ?rest "last xs"] False length_greater_0_conv [of ?rest] by (simp add: hd_conv_nth del: length_butlast)
    moreover have "hd ?rest \<in># mset ?rest" using False by simp
    moreover have "hd ?rest = hd xs" using False ne by (metis append_butlast_last_id hd_append2)
    ultimately show ?thesis using split bottom out(1) by (auto simp: add_mset_commute)
  qed
  then show "heap_ok k ys" "mset xs = add_mset x (mset ys)" "x = hd xs" by simp_all
  with heap_ok_max [OF assms(1)] show "\<And>y. y \<in> set xs \<Longrightarrow> k y \<le> k x" by simp
  show "length xs = Suc (length ys)" using \<open>mset xs = add_mset x (mset ys)\<close> by (metis size_add_mset size_mset)
qed

lemma heap_pop_None [simp]: "heap_pop k xs = None \<longleftrightarrow> xs = []" "heap_pop k [] = None"
  by (auto simp: heap_pop_def Let_def split: prod.splits)

lemma heap_push_empty [simp]: "heap_push k x [] = [x]"
  by (simp add: heap_push_def sift_up.simps)

lemma heap_pop_one [simp]: "heap_pop k [x] = Some (x, [])"
  by (simp add: heap_pop_def)

lemma heap_push_one: "heap_push k x [y] = (if k x \<le> k y then [y, x] else [x, y])"
  by (simp add: heap_push_def sift_up.simps [of k "Suc 0"] sift_up.simps [of k 0] heap_parent_def swap_at_def Let_def)

lemma heap_pop_two: "heap_pop k [x, y] = Some (x, [y])"
  by (simp add: heap_pop_def sift_to_bottom.simps [of k 0 "[y]"] sift_up.simps [of k 0])

end
