(* ===== verification/GroundSearch.thy ===== *)
theory GroundSearch
  imports BinHeap AnnCore "HOL-Library.Product_Lexorder"
begin

text \<open>
  The ground-layer search of \<open>ann/scan_core.rs\<close>, over any \<open>NeighborSource\<close>: the one-shot beam \<open>ground_search_nodes\<close>
  and the resumable one of the iterative scan. The source is a record of the trait's methods; \<open>neighbors_into\<close> and
  \<open>load\<close> may fail. \<open>Ranked\<close> orders by \<open>total_cmp\<close> on the distance alone, so equal distances leave the heaps in the
  order the heap's vector gives. \<open>presize\<close> and \<open>m0\<close> set only capacities and are not modelled.
\<close>

section \<open>The search\<close>

record ('n, 'r, 'e) neighbor_source =
  ns_dist :: "'n \<Rightarrow> f64_bits"
  ns_tid :: "'n \<Rightarrow> i64"
  ns_node_key :: "'n \<Rightarrow> u64"
  ns_ref_key :: "'r \<Rightarrow> u64"
  ns_neighbors :: "'n \<Rightarrow> 'e + 'r list"
  ns_load :: "'r \<Rightarrow> 'e + 'n"
  ns_emittable :: "'n \<Rightarrow> bool"

type_synonym 'n ranked = "f64_bits \<times> 'n"

definition ranked_key :: "'n ranked \<Rightarrow> int" where
  "ranked_key r = f64_total_key (fst r)"

definition reverse_key :: "'n ranked \<Rightarrow> int" where
  "reverse_key r = - f64_total_key (fst r)"

record 'n ground =
  gs_visited :: "u64 set"
  gs_cands :: "'n ranked list"
  gs_result :: "'n ranked list"

text \<open>\<open>result.peek().map(|w| w.d).unwrap_or(f64::INFINITY)\<close>\<close>

definition peek_worst :: "'n ranked list \<Rightarrow> f64_bits" where
  "peek_worst result = (case result of [] \<Rightarrow> f64_infinity | r # _ \<Rightarrow> fst r)"

definition push_result :: "nat \<Rightarrow> 'n ranked \<Rightarrow> 'n ranked list \<Rightarrow> 'n ranked list" where
  "push_result ef r result =
     (let res = heap_push ranked_key r result in
      if length res > ef then (case heap_pop ranked_key res of None \<Rightarrow> res | Some (_, rest) \<Rightarrow> rest) else res)"

definition push_cand :: "'n ranked \<Rightarrow> 'n ranked list \<Rightarrow> 'n ranked list" where
  "push_cand r cands = heap_push reverse_key r cands"

fun ground_expand :: "('n, 'r, 'e) neighbor_source \<Rightarrow> nat \<Rightarrow> 'r list \<Rightarrow> 'n ground \<Rightarrow> 'e + 'n ground" where
  "ground_expand src ef [] s = Inr s"
| "ground_expand src ef (r # rs) s =
     (if ns_ref_key src r \<in> gs_visited s then ground_expand src ef rs s
      else
        let s = s\<lparr>gs_visited := insert (ns_ref_key src r) (gs_visited s)\<rparr> in
        bind_r (ns_load src r) (\<lambda>cand.
            let nd = ns_dist src cand; worst = peek_worst (gs_result s) in
            if f64_lt nd worst \<or> length (gs_result s) < ef then
              ground_expand src ef rs (s\<lparr>gs_cands := push_cand (nd, cand) (gs_cands s),
                gs_result := if ns_emittable src cand then push_result ef (nd, cand) (gs_result s) else gs_result s\<rparr>)
            else ground_expand src ef rs s))"

text \<open>Every visited key is one of the \<open>2^64\<close>, and a reference is pushed only when its key is new.\<close>

definition work_left :: "'n ground \<Rightarrow> nat" where
  "work_left s = (2 ^ 64 - card (gs_visited s)) + length (gs_cands s)"

lemma card_visited: "card (V :: u64 set) \<le> 2 ^ 64"
proof -
  have "card V \<le> card (UNIV :: u64 set)" by (rule card_mono) simp_all
  then show ?thesis by (simp add: card_word)
qed

lemma work_visit: "k \<notin> gs_visited s \<Longrightarrow> Suc (2 ^ 64 - card (insert k (gs_visited s))) = 2 ^ 64 - card (gs_visited s)"
  using card_visited [of "insert k (gs_visited s)"] by simp

lemma length_push_cand [simp]: "length (push_cand r cs) = Suc (length cs)"
  by (simp add: push_cand_def heap_push_def)

lemma ground_expand_work: "ground_expand src ef rs s = Inr s' \<Longrightarrow> work_left s' \<le> work_left s"
proof (induction rs arbitrary: s)
  case Nil
  then show ?case by simp
next
  case (Cons r rs)
  show ?case
  proof (cases "ns_ref_key src r \<in> gs_visited s")
    case True
    with Cons show ?thesis by simp
  next
    case False
    note w = work_visit [OF False]
    from Cons.prems False show ?thesis
      by (auto simp: Let_def bind_r_Inr_iff split: if_splits dest!: Cons.IH) (use w in \<open>simp_all add: work_left_def\<close>)
  qed
qed

function ground_loop :: "('n, 'r, 'e) neighbor_source \<Rightarrow> nat \<Rightarrow> 'n ground \<Rightarrow> 'e + 'n ground" where
  "ground_loop src ef s =
     (case heap_pop reverse_key (gs_cands s) of None \<Rightarrow> Inr s
      | Some ((dc, c), rest) \<Rightarrow>
          let s1 = s\<lparr>gs_cands := rest\<rparr>; worst = peek_worst (gs_result s) in
          if f64_lt worst dc \<and> length (gs_result s) \<ge> ef then Inr s1
          else bind_r (ns_neighbors src c) (\<lambda>refs. bind_r (ground_expand src ef refs s1) (ground_loop src ef)))"
  by pat_completeness auto
termination
  by (relation "measure (\<lambda>(src, ef, s). work_left s)")
    (auto simp: work_left_def dest!: length_heap_pop ground_expand_work)

declare ground_loop.simps [simp del]

text \<open>The survivors in the order \<open>total_cmp\<close> on the distance, then on the TID; the number of visited keys.\<close>

definition sorted_out :: "('n, 'r, 'e) neighbor_source \<Rightarrow> 'n ranked list \<Rightarrow> ('n \<times> f64_bits) list" where
  "sorted_out src result =
     sort_key (\<lambda>(n, d). (f64_total_key d, sint (ns_tid src n))) (map (\<lambda>(d, n). (n, d)) result)"

definition ground_start :: "('n, 'r, 'e) neighbor_source \<Rightarrow> 'n \<Rightarrow> 'n ground" where
  "ground_start src entry =
     \<lparr>gs_visited = {ns_node_key src entry}, gs_cands = push_cand (ns_dist src entry, entry) [],
      gs_result = if ns_emittable src entry then heap_push ranked_key (ns_dist src entry, entry) [] else []\<rparr>"

definition ground_search_nodes :: "('n, 'r, 'e) neighbor_source \<Rightarrow> 'n \<Rightarrow> nat \<Rightarrow> 'e + ('n \<times> f64_bits) list \<times> nat" where
  "ground_search_nodes src entry ef =
     (let ef = max ef 1 in
      bind_r (ground_loop src ef (ground_start src entry))
        (\<lambda>s. Inr (sorted_out src (gs_result s), card (gs_visited s))))"

definition ground_search :: "('n, 'r, 'e) neighbor_source \<Rightarrow> 'n \<Rightarrow> nat \<Rightarrow> 'e + (i64 \<times> f64_bits) list" where
  "ground_search src entry ef =
     bind_r (ground_search_nodes src entry ef) (\<lambda>(out, _). Inr (map (\<lambda>(n, d). (ns_tid src n, d)) out))"

section \<open>The resumable search\<close>

record 'n resume =
  rg_visited :: "u64 set"
  rg_cands :: "'n ranked list"
  rg_ef :: nat

definition resume_init :: "('n, 'r, 'e) neighbor_source \<Rightarrow> 'n \<Rightarrow> nat \<Rightarrow> 'n resume" where
  "resume_init src entry ef =
     \<lparr>rg_visited = {ns_node_key src entry}, rg_cands = push_cand (ns_dist src entry, entry) [], rg_ef = max ef 1\<rparr>"

definition exhausted :: "'n resume \<Rightarrow> bool" where
  "exhausted rg \<longleftrightarrow> rg_cands rg = []"

definition candidates_seen :: "'n resume \<Rightarrow> nat" where
  "candidates_seen rg = card (rg_visited rg)"

text \<open>\<open>elem\<close> is \<open>size_of::<Reverse<Ranked<N>>>()\<close>.\<close>

definition approx_bytes :: "nat \<Rightarrow> 'n resume \<Rightarrow> nat" where
  "approx_bytes elem rg = min (length (rg_cands rg) * elem) usize_max + min (card (rg_visited rg) * 8) usize_max"

text \<open>A discovered candidate always joins the frontier; it joins the batch when it is near enough and live.\<close>

fun batch_expand :: "('n, 'r, 'e) neighbor_source \<Rightarrow> nat \<Rightarrow> 'r list \<Rightarrow> 'n ground \<Rightarrow> 'e + 'n ground" where
  "batch_expand src ef [] s = Inr s"
| "batch_expand src ef (r # rs) s =
     (if ns_ref_key src r \<in> gs_visited s then batch_expand src ef rs s
      else
        let s = s\<lparr>gs_visited := insert (ns_ref_key src r) (gs_visited s)\<rparr> in
        bind_r (ns_load src r) (\<lambda>cand.
          let nd = ns_dist src cand; worst = peek_worst (gs_result s) in
          batch_expand src ef rs (s\<lparr>gs_cands := push_cand (nd, cand) (gs_cands s),
            gs_result := if (f64_lt nd worst \<or> length (gs_result s) < ef) \<and> ns_emittable src cand
              then push_result ef (nd, cand) (gs_result s) else gs_result s\<rparr>)))"

lemma batch_expand_work: "batch_expand src ef rs s = Inr s' \<Longrightarrow> work_left s' \<le> work_left s"
proof (induction rs arbitrary: s)
  case Nil
  then show ?case by simp
next
  case (Cons r rs)
  show ?case
  proof (cases "ns_ref_key src r \<in> gs_visited s")
    case True
    with Cons show ?thesis by simp
  next
    case False
    note w = work_visit [OF False]
    from Cons.prems False show ?thesis
      by (auto simp: Let_def bind_r_Inr_iff split: if_splits dest!: Cons.IH) (use w in \<open>simp_all add: work_left_def\<close>)
  qed
qed

function batch_loop :: "('n, 'r, 'e) neighbor_source \<Rightarrow> nat \<Rightarrow> 'n ground \<Rightarrow> 'e + 'n ground" where
  "batch_loop src ef s =
     (case heap_pop reverse_key (gs_cands s) of None \<Rightarrow> Inr s
      | Some ((dc, c), rest) \<Rightarrow>
          let worst = peek_worst (gs_result s) in
          if f64_lt worst dc \<and> length (gs_result s) \<ge> ef then Inr (s\<lparr>gs_cands := push_cand (dc, c) rest\<rparr>)
          else let s1 = s\<lparr>gs_cands := rest,
              gs_result := if ns_emittable src c then push_result ef (dc, c) (gs_result s) else gs_result s\<rparr> in
            bind_r (ns_neighbors src c) (\<lambda>refs. bind_r (batch_expand src ef refs s1) (batch_loop src ef)))"
  by pat_completeness auto
termination
  by (relation "measure (\<lambda>(src, ef, s). work_left s)")
    (auto simp: work_left_def dest!: length_heap_pop batch_expand_work)

declare batch_loop.simps [simp del]

definition next_batch :: "('n, 'r, 'e) neighbor_source \<Rightarrow> 'n resume \<Rightarrow> 'e + 'n resume \<times> ('n \<times> f64_bits) list" where
  "next_batch src rg =
     bind_r (batch_loop src (rg_ef rg) \<lparr>gs_visited = rg_visited rg, gs_cands = rg_cands rg, gs_result = []\<rparr>)
       (\<lambda>s. Inr (rg\<lparr>rg_visited := gs_visited s, rg_cands := gs_cands s\<rparr>, sorted_out src (gs_result s)))"

section \<open>The result heap\<close>

text \<open>The rank below which a live candidate is sure to enter the result.\<close>

definition limit :: "nat \<Rightarrow> 'n ranked list \<Rightarrow> int" where
  "limit ef res = (if length res < ef then 2 ^ 63 else f64_rank (peek_worst res))"

lemma f64_rank_less: "f64_rank d < 2 ^ 63"
  by (auto simp: f64_rank_def f64_mag_def)

lemma peek_worst_max: "heap_ok ranked_key res \<Longrightarrow> r \<in> set res \<Longrightarrow> f64_rank (fst r) \<le> f64_rank (peek_worst res)"
  using heap_ok_max [of ranked_key res r]
  by (cases res) (auto simp: peek_worst_def ranked_key_def intro: f64_total_key_rank)

lemma push_result_cases:
  assumes "heap_ok ranked_key res" and "length res \<le> ef"
  obtains (add) "length res < ef" "mset (push_result ef r res) = add_mset r (mset res)"
      "heap_ok ranked_key (push_result ef r res)" "length (push_result ef r res) = Suc (length res)"
  | (trim) x where "length res = ef" "add_mset r (mset res) = add_mset x (mset (push_result ef r res))"
      "\<forall>y \<in> insert r (set res). ranked_key y \<le> ranked_key x" "heap_ok ranked_key (push_result ef r res)"
      "length (push_result ef r res) = ef"
proof -
  let ?h = "heap_push ranked_key r res"
  note push = heap_push_ok [OF assms(1), of r]
  have len: "length ?h = Suc (length res)" by (simp add: heap_push_def)
  have mem: "set ?h = insert r (set res)" using push(2) by (metis set_mset_add_mset_insert set_mset_mset)
  show ?thesis
  proof (cases "length res < ef")
    case True
    then show ?thesis using add push len by (simp add: push_result_def)
  next
    case False
    have "?h \<noteq> []" using len by auto
    then obtain x rest where pop: "heap_pop ranked_key ?h = Some (x, rest)"
      by (metis heap_pop_None not_Some_eq surj_pair)
    have e: "push_result ef r res = rest" using False len assms(2) pop by (simp add: push_result_def)
    note p = heap_pop_ok [OF push(1) pop]
    show ?thesis
      by (rule trim [of x]) (use False assms(2) p e push(2) len mem in \<open>auto\<close>)
  qed
qed

lemma push_result_subset:
  assumes "heap_ok ranked_key res" and "length res \<le> ef"
  shows "set (push_result ef r res) \<subseteq> insert r (set res)"
  using assms
proof (cases rule: push_result_cases [of res ef r])
  case add
  then show ?thesis by (metis order_refl set_mset_add_mset_insert set_mset_mset)
next
  case (trim x)
  then have "set_mset (mset (push_result ef r res)) \<subseteq> set_mset (add_mset r (mset res))" by (metis insert_subset_eq_iff mset_subset_eq_add_right set_mset_mono subset_insertI set_mset_add_mset_insert)
  then show ?thesis by simp
qed

lemma push_result_ok:
  assumes "heap_ok ranked_key res" and "length res \<le> ef"
  shows "heap_ok ranked_key (push_result ef r res)" and "length (push_result ef r res) \<le> ef"
  using push_result_cases [OF assms, of r] by (metis, metis Suc_leI order_refl)

lemma push_result_limit:
  assumes "heap_ok ranked_key res" and "length res \<le> ef" and "1 \<le> ef"
  shows "limit ef (push_result ef r res) \<le> limit ef res"
  using assms(1,2)
proof (cases rule: push_result_cases [of res ef r])
  case add
  then show ?thesis using f64_rank_less [of "peek_worst (push_result ef r res)"] by (simp add: limit_def)
next
  case (trim x)
  let ?res = "push_result ef r res"
  obtain y ys where y: "?res = y # ys" using trim(5) assms(3) by (cases ?res) auto
  have "f64_rank (fst y) \<le> f64_rank (peek_worst res)"
  proof (cases "y \<in> set res")
    case True
    then show ?thesis using peek_worst_max [OF assms(1)] by blast
  next
    case False
    have mem: "insert r (set res) = insert x (set ?res)" using trim(2) by (metis set_mset_add_mset_insert set_mset_mset)
    then have yr: "y = r" using False y by auto
    have "x \<noteq> r"
    proof
      assume "x = r"
      then have "mset res = mset ?res" using trim(2) by simp
      then show False using False y by (metis list.set_intros(1) set_mset_mset)
    qed
    then have "x \<in> set res" using mem by auto
    moreover have "f64_rank (fst y) \<le> f64_rank (fst x)"
      using trim(3) yr by (auto simp: ranked_key_def intro: f64_total_key_rank)
    ultimately show ?thesis using peek_worst_max [OF assms(1)] by fastforce
  qed
  then show ?thesis using trim(1,5) y by (simp add: limit_def peek_worst_def)
qed

lemma push_result_keeps:
  assumes "heap_ok ranked_key res" and "length res \<le> ef" and "1 \<le> ef" and "y \<in> insert r (set res)"
  shows "y \<in> set (push_result ef r res) \<or> limit ef (push_result ef r res) \<le> f64_rank (fst y)"
  using assms(1,2)
proof (cases rule: push_result_cases [of res ef r])
  case add
  then show ?thesis using assms(4) by (metis set_mset_add_mset_insert set_mset_mset)
next
  case (trim x)
  let ?res = "push_result ef r res"
  have mem: "insert r (set res) = insert x (set ?res)" using trim(2) by (metis set_mset_add_mset_insert set_mset_mset)
  obtain z zs where z: "?res = z # zs" using trim(5) assms(3) by (cases ?res) auto
  then have "z \<in> insert r (set res)" using mem by auto
  then have "f64_rank (fst z) \<le> f64_rank (fst x)"
    using trim(3) by (auto simp: ranked_key_def intro!: f64_total_key_rank)
  then have "limit ef ?res \<le> f64_rank (fst x)" using trim(5) z by (simp add: limit_def peek_worst_def)
  then show ?thesis using assms(4) mem by auto
qed

lemma push_result_distinct:
  assumes "heap_ok ranked_key res" and "length res \<le> ef" and "distinct (map f res)" and "f r \<notin> f ` set res"
  shows "distinct (map f (push_result ef r res))"
  using assms(1,2)
proof (cases rule: push_result_cases [of res ef r])
  case add
  then have "mset (map f (push_result ef r res)) = mset (map f (r # res))" by simp
  then have "distinct (map f (push_result ef r res)) \<longleftrightarrow> distinct (map f (r # res))" by (rule mset_eq_imp_distinct_iff)
  then show ?thesis using assms(3,4) by simp
next
  case (trim x)
  then have "mset (map f (x # push_result ef r res)) = mset (map f (r # res))" by (simp flip: trim(2) image_mset_add_mset)
  then have "distinct (map f (x # push_result ef r res)) \<longleftrightarrow> distinct (map f (r # res))" by (rule mset_eq_imp_distinct_iff)
  then show ?thesis using assms(3,4) by simp
qed

lemma push_cand_ok:
  assumes "heap_ok reverse_key cs"
  shows "heap_ok reverse_key (push_cand r cs)" and "set (push_cand r cs) = insert r (set cs)"
  using heap_push_ok [OF assms, of r] unfolding push_cand_def by (simp, metis set_mset_add_mset_insert set_mset_mset)

lemma pop_cand_ok:
  assumes "heap_ok reverse_key cs" and "heap_pop reverse_key cs = Some (r, rest)"
  shows "heap_ok reverse_key rest" and "set cs = insert r (set rest)"
    and "\<And>y. y \<in> set cs \<Longrightarrow> f64_rank (fst r) \<le> f64_rank (fst y)"
proof -
  note p = heap_pop_ok [OF assms]
  show "heap_ok reverse_key rest" by (rule p(1))
  show "set cs = insert r (set rest)" using p(2) by (metis set_mset_add_mset_insert set_mset_mset)
  show "f64_rank (fst r) \<le> f64_rank (fst y)" if "y \<in> set cs" for y
    using p(4) [OF that] by (auto simp: reverse_key_def intro: f64_total_key_rank)
qed

section \<open>The contract of a source\<close>

text \<open>Nodes linked to \<open>e\<close> through nodes that satisfy \<open>P\<close>.\<close>

inductive linked :: "(u64 \<Rightarrow> u64 list) \<Rightarrow> (u64 \<Rightarrow> bool) \<Rightarrow> u64 \<Rightarrow> u64 \<Rightarrow> bool" for adj P e where
  linked_refl: "linked adj P e e"
| linked_step: "linked adj P e k \<Longrightarrow> P k \<Longrightarrow> k' \<in> set (adj k) \<Longrightarrow> linked adj P e k'"

lemma linked_mono: "linked adj P e k \<Longrightarrow> (\<And>k. P k \<Longrightarrow> Q k) \<Longrightarrow> linked adj Q e k"
  by (induction rule: linked.induct) (auto intro: linked.intros)

text \<open>
  What a storage promises: the nodes of \<open>K\<close> are addressed by their keys, listing the neighbours of one succeeds and
  gives references that load to the nodes of their keys.
\<close>

locale neighbor_graph =
  fixes src :: "('n, 'r, 'e) neighbor_source" and node :: "u64 \<Rightarrow> 'n" and K :: "u64 set" and adj :: "u64 \<Rightarrow> u64 list"
  assumes node_key: "k \<in> K \<Longrightarrow> ns_node_key src (node k) = k"
    and neighbors_ok: "k \<in> K \<Longrightarrow> \<exists>refs. ns_neighbors src (node k) = Inr refs \<and> map (ns_ref_key src) refs = adj k \<and>
      (\<forall>r \<in> set refs. ns_ref_key src r \<in> K \<and> ns_load src r = Inr (node (ns_ref_key src r)))"
begin

abbreviation dist_of :: "u64 \<Rightarrow> f64_bits" where
  "dist_of k \<equiv> ns_dist src (node k)"

definition rk :: "u64 \<Rightarrow> 'n ranked" where
  "rk k = (dist_of k, node k)"

definition live :: "u64 \<Rightarrow> bool" where
  "live k \<longleftrightarrow> ns_emittable src (node k)"

definition reach :: "u64 \<Rightarrow> u64 set" where
  "reach e = {k. linked adj (\<lambda>_. True) e k}"

definition real :: bool where
  "real \<longleftrightarrow> (\<forall>k \<in> K. \<not> f64_is_nan (dist_of k))"

lemma fst_rk [simp]: "fst (rk k) = dist_of k" and snd_rk [simp]: "snd (rk k) = node k"
  by (simp_all add: rk_def)

definition rkey :: "'n ranked \<Rightarrow> u64" where
  "rkey r = ns_node_key src (snd r)"

lemma rkey_rk [simp]: "k \<in> K \<Longrightarrow> rkey (rk k) = k"
  by (simp add: rkey_def rk_def node_key)

lemma rk_inj: "inj_on rk K"
  by (rule inj_onI) (metis node_key snd_rk)

lemma adj_K: "k \<in> K \<Longrightarrow> set (adj k) \<subseteq> K"
proof
  fix j assume "k \<in> K" and j: "j \<in> set (adj k)"
  then obtain refs where "map (ns_ref_key src) refs = adj k" and r: "\<forall>r \<in> set refs. ns_ref_key src r \<in> K"
    using neighbors_ok [of k] by blast
  then obtain r where "r \<in> set refs" "j = ns_ref_key src r" using j by (metis image_iff list.set_map)
  then show "j \<in> K" using r by simp
qed

lemma reach_K: "e \<in> K \<Longrightarrow> reach e \<subseteq> K"
proof
  fix k assume "e \<in> K" and "k \<in> reach e"
  then have "linked adj (\<lambda>_. True) e k" by (simp add: reach_def)
  then show "k \<in> K" using \<open>e \<in> K\<close> by induction (use adj_K in auto)
qed

lemma reach_step: "k \<in> reach e \<Longrightarrow> set (adj k) \<subseteq> reach e"
  unfolding reach_def by (auto intro: linked_step)

subsection \<open>The invariants of a beam\<close>

definition beam_ok :: "u64 \<Rightarrow> nat \<Rightarrow> 'n ground \<Rightarrow> bool" where
  "beam_ok e ef s \<longleftrightarrow> gs_visited s \<subseteq> reach e \<and> heap_ok reverse_key (gs_cands s) \<and> heap_ok ranked_key (gs_result s) \<and>
     set (gs_cands s) \<subseteq> rk ` gs_visited s \<and> set (gs_result s) \<subseteq> rk ` {k \<in> gs_visited s. live k} \<and>
     distinct (map rkey (gs_result s)) \<and> length (gs_result s) \<le> ef"

definition beam_full :: "u64 set \<Rightarrow> nat \<Rightarrow> 'n ground \<Rightarrow> bool" where
  "beam_full C ef s \<longleftrightarrow>
     (\<forall>k \<in> gs_visited s. live k \<longrightarrow> rk k \<in> set (gs_result s) \<or> limit ef (gs_result s) \<le> f64_rank (dist_of k)) \<and>
     (\<forall>k \<in> gs_visited s - C. rk k \<in> set (gs_cands s) \<or> set (adj k) \<subseteq> gs_visited s \<or>
        limit ef (gs_result s) \<le> f64_rank (dist_of k))"

lemma admits_limit:
  assumes "real" and "k \<in> K" and "e \<in> K" and "1 \<le> ef" and "beam_ok e ef s"
  shows "f64_lt (dist_of k) (peek_worst (gs_result s)) \<or> length (gs_result s) < ef \<longleftrightarrow>
    f64_rank (dist_of k) < limit ef (gs_result s)"
    and "f64_lt (peek_worst (gs_result s)) (dist_of k) \<and> ef \<le> length (gs_result s) \<longleftrightarrow>
    limit ef (gs_result s) < f64_rank (dist_of k)"
proof -
  have k: "\<not> f64_is_nan (dist_of k)" using assms(1,2) by (simp add: real_def)
  have w: "\<not> f64_is_nan (peek_worst (gs_result s))" if ne: "gs_result s \<noteq> []"
  proof -
    obtain j where "j \<in> gs_visited s" "hd (gs_result s) = rk j"
      using assms(5) hd_in_set [OF ne] by (auto simp: beam_ok_def)
    moreover have "j \<in> K" using calculation(1) assms(3,5) reach_K by (auto simp: beam_ok_def)
    ultimately show ?thesis using assms(1) ne by (cases "gs_result s") (auto simp: peek_worst_def real_def)
  qed
  show "f64_lt (dist_of k) (peek_worst (gs_result s)) \<or> length (gs_result s) < ef \<longleftrightarrow>
      f64_rank (dist_of k) < limit ef (gs_result s)"
    using k w f64_rank_less [of "dist_of k"] assms(4) by (cases "gs_result s = []") (auto simp: limit_def f64_lt_def)
  show "f64_lt (peek_worst (gs_result s)) (dist_of k) \<and> ef \<le> length (gs_result s) \<longleftrightarrow>
      limit ef (gs_result s) < f64_rank (dist_of k)"
    using k w f64_rank_less [of "dist_of k"] assms(4) by (cases "gs_result s = []") (auto simp: limit_def f64_lt_def)
qed

text \<open>One newly visited node: it may join the frontier, and a live one the result.\<close>

abbreviation visit :: "u64 \<Rightarrow> 'n ground \<Rightarrow> 'n ground" where
  "visit k s \<equiv> s\<lparr>gs_visited := insert k (gs_visited s)\<rparr>"

abbreviation enter :: "nat \<Rightarrow> u64 \<Rightarrow> 'n ground \<Rightarrow> 'n ground" where
  "enter ef k s \<equiv> s\<lparr>gs_cands := push_cand (rk k) (gs_cands s),
     gs_result := if live k then push_result ef (rk k) (gs_result s) else gs_result s\<rparr>"

lemma beam_ok_visit: "beam_ok e ef s \<Longrightarrow> k \<in> reach e \<Longrightarrow> beam_ok e ef (visit k s)"
  by (auto simp: beam_ok_def)

lemma beam_ok_enter:
  assumes "beam_ok e ef s" and "k \<in> gs_visited s" and "k \<in> K"
    and fresh: "k \<notin> rkey ` set (gs_result s)"
  shows "beam_ok e ef (enter ef k s)"
proof -
  have h: "heap_ok ranked_key (gs_result s)" "length (gs_result s) \<le> ef" "heap_ok reverse_key (gs_cands s)"
    and d: "distinct (map rkey (gs_result s))"
    using assms(1) by (simp_all add: beam_ok_def)
  have f: "rkey (rk k) \<notin> rkey ` set (gs_result s)"
    using fresh assms(3) by simp
  show ?thesis
    using assms(1,2) push_result_ok [OF h(1,2), of "rk k"] push_result_subset [OF h(1,2), of "rk k"]
      push_result_distinct [OF h(1,2) d f] push_cand_ok [OF h(3), of "rk k"]
    by (auto simp: beam_ok_def)
qed

lemma result_key_visited:
  assumes "beam_ok e ef s" and "e \<in> K" and "k \<in> rkey ` set (gs_result s)"
  shows "k \<in> gs_visited s"
proof -
  obtain r where r: "r \<in> set (gs_result s)" "k = rkey r" using assms(3) by auto
  then obtain j where j: "j \<in> gs_visited s" "r = rk j" using assms(1) by (auto simp: beam_ok_def)
  then have "j \<in> K" using assms(1) reach_K [OF assms(2)] by (auto simp: beam_ok_def)
  then show ?thesis using j r by simp
qed

lemma enter_limit:
  assumes "beam_ok e ef s" and "1 \<le> ef"
  shows "limit ef (gs_result (enter ef k s)) \<le> limit ef (gs_result s)"
  using assms push_result_limit [of "gs_result s" ef "rk k"] by (simp add: beam_ok_def)

lemma enter_keeps:
  assumes "beam_ok e ef s" and "1 \<le> ef" and "y \<in> set (gs_result s) \<or> live k \<and> y = rk k"
  shows "y \<in> set (gs_result (enter ef k s)) \<or> limit ef (gs_result (enter ef k s)) \<le> f64_rank (fst y)"
  using assms push_result_keeps [of "gs_result s" ef y "rk k"] by (auto simp: beam_ok_def)

lemma beam_full_enter:
  assumes "beam_ok e ef s" and "1 \<le> ef" and "beam_full C ef s"
  shows "beam_full C ef (enter ef k (visit k s))"
proof -
  let ?s = "enter ef k (visit k s)"
  have le: "limit ef (gs_result ?s) \<le> limit ef (gs_result s)"
    using enter_limit [OF assms(1,2), of k] by (cases "live k") simp_all
  have c: "set (gs_cands ?s) = insert (rk k) (set (gs_cands s))"
    using assms(1) by (simp add: beam_ok_def push_cand_ok)
  have "rk j \<in> set (gs_result ?s) \<or> limit ef (gs_result ?s) \<le> f64_rank (dist_of j)"
    if j: "j \<in> insert k (gs_visited s)" "live j" for j
  proof (cases "j = k \<or> rk j \<in> set (gs_result s)")
    case True
    then show ?thesis using enter_keeps [OF assms(1,2), of "rk j" k] j(2) by auto
  next
    case False
    then show ?thesis using j le assms(3) by (force simp: beam_full_def)
  qed
  moreover have "rk j \<in> set (gs_cands ?s) \<or> set (adj j) \<subseteq> gs_visited ?s \<or> limit ef (gs_result ?s) \<le> f64_rank (dist_of j)"
    if j: "j \<in> insert k (gs_visited s) - C" for j
    using assms(3) j le c unfolding beam_full_def by fastforce
  ultimately show ?thesis unfolding beam_full_def by simp
qed

lemma beam_full_visit:
  assumes "beam_full C ef s" and "limit ef (gs_result s) \<le> f64_rank (dist_of k)"
  shows "beam_full C ef (visit k s)"
  using assms unfolding beam_full_def by fastforce

subsection \<open>The one-shot search\<close>

lemma ground_expand_ok:
  assumes "beam_ok e ef s" and "e \<in> K" and "1 \<le> ef"
    and "\<forall>r \<in> set refs. ns_ref_key src r \<in> reach e \<and> ns_load src r = Inr (node (ns_ref_key src r))"
  shows "\<exists>s'. ground_expand src ef refs s = Inr s' \<and> beam_ok e ef s' \<and>
    gs_visited s' = gs_visited s \<union> ns_ref_key src ` set refs \<and> (real \<and> beam_full C ef s \<longrightarrow> beam_full C ef s')"
  using assms(1,4)
proof (induction refs arbitrary: s)
  case Nil
  then show ?case by simp
next
  case (Cons r refs)
  let ?k = "ns_ref_key src r"
  have refs: "\<forall>r \<in> set refs. ns_ref_key src r \<in> reach e \<and> ns_load src r = Inr (node (ns_ref_key src r))"
    and k: "?k \<in> reach e" and load: "ns_load src r = Inr (node ?k)" using Cons.prems(2) by simp_all
  have kK: "?k \<in> K" using k reach_K [OF assms(2)] by auto
  show ?case
  proof (cases "?k \<in> gs_visited s")
    case True
    then show ?thesis using Cons.IH [OF Cons.prems(1) refs] by (auto simp: insert_absorb)
  next
    case new: False
    let ?admit = "f64_lt (dist_of ?k) (peek_worst (gs_result s)) \<or> length (gs_result s) < ef"
    let ?s = "if ?admit then enter ef ?k (visit ?k s) else visit ?k s"
    have step: "ground_expand src ef (r # refs) s = ground_expand src ef refs ?s"
      using new load by (simp add: Let_def rk_def live_def)
    have v: "beam_ok e ef (visit ?k s)" by (rule beam_ok_visit [OF Cons.prems(1) k])
    have "?k \<notin> rkey ` set (gs_result s)"
      using new result_key_visited [OF Cons.prems(1) assms(2)] by blast
    then have ent: "beam_ok e ef (enter ef ?k (visit ?k s))"
      by (intro beam_ok_enter [OF v]) (simp_all add: kK)
    have ok: "beam_ok e ef ?s" using v ent by simp
    have full: "beam_full C ef ?s" if re: "real" and f: "beam_full C ef s"
    proof (cases ?admit)
      case True
      then show ?thesis using beam_full_enter [OF Cons.prems(1) assms(3) f] by simp
    next
      case False
      then have "limit ef (gs_result s) \<le> f64_rank (dist_of ?k)"
        using admits_limit(1) [OF re kK assms(2,3) Cons.prems(1)] by linarith
      then show ?thesis using beam_full_visit [OF f] False by simp
    qed
    from Cons.IH [OF ok refs] obtain s' where s': "ground_expand src ef refs ?s = Inr s'" "beam_ok e ef s'"
      "gs_visited s' = gs_visited ?s \<union> ns_ref_key src ` set refs" "real \<and> beam_full C ef ?s \<longrightarrow> beam_full C ef s'" by blast
    have "gs_visited ?s = insert ?k (gs_visited s)" by simp
    then show ?thesis using s' step full by (intro exI [of _ s']) auto
  qed
qed

text \<open>The refs a node lists, ready for the expansion.\<close>

lemma neighbor_refs:
  assumes "k \<in> reach e" and "e \<in> K"
  obtains refs where "ns_neighbors src (node k) = Inr refs" "set (adj k) = ns_ref_key src ` set refs"
    "\<forall>r \<in> set refs. ns_ref_key src r \<in> reach e \<and> ns_load src r = Inr (node (ns_ref_key src r))"
proof -
  have k: "k \<in> K" using assms(1) reach_K [OF assms(2)] by (rule rev_subsetD)
  from neighbors_ok [OF k] obtain refs where refs: "ns_neighbors src (node k) = Inr refs" "map (ns_ref_key src) refs = adj k"
    "\<forall>r \<in> set refs. ns_ref_key src r \<in> K \<and> ns_load src r = Inr (node (ns_ref_key src r))" by blast
  have a: "set (adj k) = ns_ref_key src ` set refs" using refs(2) by (metis list.set_map)
  have "\<forall>r \<in> set refs. ns_ref_key src r \<in> reach e" using reach_step [OF assms(1)] unfolding a by blast
  with refs(3) have "\<forall>r \<in> set refs. ns_ref_key src r \<in> reach e \<and> ns_load src r = Inr (node (ns_ref_key src r))" by blast
  with refs(1) a show ?thesis by (rule that)
qed

definition settled :: "nat \<Rightarrow> 'n ground \<Rightarrow> bool" where
  "settled ef s \<longleftrightarrow>
     (\<forall>k \<in> gs_visited s. live k \<longrightarrow> rk k \<in> set (gs_result s) \<or> limit ef (gs_result s) \<le> f64_rank (dist_of k)) \<and>
     (\<forall>k \<in> gs_visited s. set (adj k) \<subseteq> gs_visited s \<or> limit ef (gs_result s) \<le> f64_rank (dist_of k))"

lemma beam_ok_pop: "beam_ok e ef s \<Longrightarrow> heap_pop reverse_key (gs_cands s) = Some (r, rest) \<Longrightarrow> beam_ok e ef (s\<lparr>gs_cands := rest\<rparr>)"
  using pop_cand_ok(1,2) [of "gs_cands s" r rest] by (auto simp: beam_ok_def)

lemma pop_node:
  assumes "beam_ok e ef s" and "heap_pop reverse_key (gs_cands s) = Some ((dc, c), rest)"
  obtains k where "k \<in> gs_visited s" "c = node k" "dc = dist_of k" "k \<in> reach e" "rk k = (dc, c)"
proof -
  have "(dc, c) \<in> set (gs_cands s)" using pop_cand_ok(2) [OF _ assms(2)] assms(1) by (auto simp: beam_ok_def)
  then obtain k where "k \<in> gs_visited s" "(dc, c) = rk k" using assms(1) by (auto simp: beam_ok_def)
  then show ?thesis using that assms(1) by (auto simp: rk_def beam_ok_def)
qed

lemma ground_loop_ok:
  assumes "beam_ok e ef s" and "e \<in> K" and "1 \<le> ef"
  shows "\<exists>s'. ground_loop src ef s = Inr s' \<and> beam_ok e ef s' \<and> gs_visited s \<subseteq> gs_visited s' \<and>
    (real \<and> beam_full {} ef s \<longrightarrow> settled ef s')"
  using assms(1)
proof (induction "work_left s" arbitrary: s rule: less_induct)
  case less
  note ok = less.prems
  have heap: "heap_ok reverse_key (gs_cands s)" using ok by (simp add: beam_ok_def)
  show ?case
  proof (cases "heap_pop reverse_key (gs_cands s)")
    case None
    then have "ground_loop src ef s = Inr s" by (subst ground_loop.simps) simp
    moreover have "settled ef s" if "beam_full {} ef s"
      using None that by (simp add: settled_def beam_full_def)
    ultimately show ?thesis using ok by blast
  next
    case (Some p)
    then obtain dc c rest where pop: "heap_pop reverse_key (gs_cands s) = Some ((dc, c), rest)" by (cases p) auto
    obtain k where k: "k \<in> gs_visited s" "c = node k" "dc = dist_of k" "k \<in> reach e" "rk k = (dc, c)"
      by (rule pop_node [OF ok pop])
    have kK: "k \<in> K" using k(4) reach_K [OF assms(2)] by auto
    note popped = pop_cand_ok [OF heap pop]
    let ?s1 = "s\<lparr>gs_cands := rest\<rparr>"
    have ok1: "beam_ok e ef ?s1" by (rule beam_ok_pop [OF ok pop])
    show ?thesis
    proof (cases "f64_lt (peek_worst (gs_result s)) dc \<and> ef \<le> length (gs_result s)")
      case True
      then have "ground_loop src ef s = Inr ?s1" using pop by (subst ground_loop.simps) (simp add: Let_def)
      moreover have "settled ef ?s1" if re: real and f: "beam_full {} ef s"
      proof -
        have far: "limit ef (gs_result s) < f64_rank dc"
          using admits_limit(2) [OF re kK assms(2,3) ok] True k(3) by simp
        have "limit ef (gs_result s) \<le> f64_rank (dist_of j)" if "rk j \<in> set (gs_cands s)" for j
          using popped(3) [OF that] far by simp
        then show ?thesis using f unfolding settled_def beam_full_def by fastforce
      qed
      ultimately show ?thesis using ok1 by (intro exI [of _ ?s1]) auto
    next
      case False
      obtain refs where refs: "ns_neighbors src (node k) = Inr refs" "set (adj k) = ns_ref_key src ` set refs"
        "\<forall>r \<in> set refs. ns_ref_key src r \<in> reach e \<and> ns_load src r = Inr (node (ns_ref_key src r))"
        by (rule neighbor_refs [OF k(4) assms(2)])
      from ground_expand_ok [OF ok1 assms(2,3) refs(3), where C = "{k}"] obtain s2 where
        s2: "ground_expand src ef refs ?s1 = Inr s2" "beam_ok e ef s2"
          "gs_visited s2 = gs_visited s \<union> set (adj k)" "real \<and> beam_full {k} ef ?s1 \<longrightarrow> beam_full {k} ef s2"
        unfolding refs(2) by auto
      have step: "ground_loop src ef s = ground_loop src ef s2"
        unfolding ground_loop.simps [of src ef s] using False refs(1) s2(1) k(2) by (auto simp: pop Let_def)
      have "work_left s2 < work_left s"
        using ground_expand_work [OF s2(1)] length_heap_pop [OF pop] by (simp add: work_left_def)
      from less.hyps [OF this s2(2)] obtain s' where s': "ground_loop src ef s2 = Inr s'" "beam_ok e ef s'"
        "gs_visited s2 \<subseteq> gs_visited s'" "real \<and> beam_full {} ef s2 \<longrightarrow> settled ef s'" by blast
      have "beam_full {} ef s2" if re: real and f: "beam_full {} ef s"
      proof -
        have V: "gs_visited s \<subseteq> K" using ok reach_K [OF assms(2)] unfolding beam_ok_def by blast
        have ne: "rk j \<noteq> (dc, c)" if "j \<in> gs_visited s" "j \<noteq> k" for j
          using rk_inj that kK V k(5) by (metis inj_on_eq_iff subsetD)
        have "rk j \<in> set rest \<or> set (adj j) \<subseteq> gs_visited s \<or> limit ef (gs_result s) \<le> f64_rank (dist_of j)"
          if "j \<in> gs_visited s - {k}" for j
          using f popped(2) ne [of j] that unfolding beam_full_def by auto
        then have "beam_full {k} ef ?s1" using f unfolding beam_full_def by simp
        then have "beam_full {k} ef s2" using s2(4) re by blast
        then show ?thesis using s2(3) unfolding beam_full_def by blast
      qed
      then show ?thesis using s' s2(3) step by (intro exI [of _ s']) auto
    qed
  qed
qed

lemma start_ok:
  assumes "e \<in> K" and "1 \<le> ef"
  shows "beam_ok e ef (ground_start src (node e))" and "beam_full {} ef (ground_start src (node e))"
proof -
  let ?s = "ground_start src (node e)"
  have one: "heap_push k x [] = [x]" for k :: "'n ranked \<Rightarrow> int" and x
    by (simp add: heap_push_def sift_up.simps)
  have f: "gs_visited ?s = {e}" "gs_cands ?s = [rk e]" "gs_result ?s = (if live e then [rk e] else [])"
    using assms(1) by (simp_all add: ground_start_def node_key push_cand_def one rk_def live_def)
  show "beam_ok e ef ?s"
    using assms f by (simp add: beam_ok_def heap_ok_def reach_def linked_refl)
  show "beam_full {} ef ?s" using f by (simp add: beam_full_def)
qed

lemma settled_linked:
  assumes "settled ef s" and "e \<in> gs_visited s"
    and "linked adj (\<lambda>k. f64_rank (dist_of k) < limit ef (gs_result s)) e k"
  shows "k \<in> gs_visited s"
  using assms(3)
proof (induction rule: linked.induct)
  case linked_refl
  then show ?case by (rule assms(2))
next
  case (linked_step k k')
  then show ?case using assms(1) unfolding settled_def by (meson leD subsetD)
qed

lemma ground_loop_search:
  assumes "e \<in> K"
  obtains s where "ground_search_nodes src (node e) ef = Inr (sorted_out src (gs_result s), card (gs_visited s))"
    and "beam_ok e (max ef 1) s" and "e \<in> gs_visited s" and "real \<longrightarrow> settled (max ef 1) s"
proof -
  note start = start_ok [OF assms, of "max ef 1"]
  have "1 \<le> max ef 1" by simp
  from ground_loop_ok [OF start(1) [OF this] assms this] start(2) [OF this] obtain s where
    s: "ground_loop src (max ef 1) (ground_start src (node e)) = Inr s" "beam_ok e (max ef 1) s"
      "gs_visited (ground_start src (node e)) \<subseteq> gs_visited s" "real \<longrightarrow> settled (max ef 1) s" by blast
  have "e \<in> gs_visited s" using s(3) assms by (auto simp: ground_start_def node_key)
  with s show ?thesis using that by (simp add: ground_search_nodes_def Let_def)
qed

lemma set_sorted_out: "set (sorted_out src res) = (\<lambda>(d, n). (n, d)) ` set res"
  by (simp add: sorted_out_def)

lemma length_sorted_out [simp]: "length (sorted_out src res) = length res"
  by (simp add: sorted_out_def)

lemma rk_in_out: "(node k, dist_of k) \<in> set (sorted_out src res) \<longleftrightarrow> rk k \<in> set res"
  by (force simp: set_sorted_out rk_def)

lemma keys_sorted_out: "mset (map (ns_node_key src \<circ> fst) (sorted_out src res)) = mset (map rkey res)"
  by (simp add: sorted_out_def multiset.map_comp comp_def rkey_def [abs_def] split_def)

text \<open>Every answer is a live node linked to the entry, once, at its own distance; at most \<open>ef\<close> of them, nearest first.\<close>

lemma ground_search_sound:
  assumes "e \<in> K"
  shows "\<exists>out n. ground_search_nodes src (node e) ef = Inr (out, n) \<and> length out \<le> max ef 1 \<and>
    distinct (map (ns_node_key src \<circ> fst) out) \<and>
    sorted (map (\<lambda>(n, d). (f64_total_key d, sint (ns_tid src n))) out) \<and>
    (\<forall>(x, d) \<in> set out. \<exists>k \<in> reach e. live k \<and> x = node k \<and> d = dist_of k)"
proof -
  obtain s where s: "ground_search_nodes src (node e) ef = Inr (sorted_out src (gs_result s), card (gs_visited s))"
    "beam_ok e (max ef 1) s" by (rule ground_loop_search [OF assms])
  let ?out = "sorted_out src (gs_result s)"
  have "length ?out \<le> max ef 1" using s(2) by (simp add: beam_ok_def)
  moreover have "distinct (map (ns_node_key src \<circ> fst) ?out)"
    using mset_eq_imp_distinct_iff [OF keys_sorted_out [of "gs_result s"]] s(2) by (simp add: beam_ok_def)
  moreover have "sorted (map (\<lambda>(n, d). (f64_total_key d, sint (ns_tid src n))) ?out)"
    unfolding sorted_out_def by (rule sorted_sort_key)
  moreover have "\<exists>k \<in> reach e. live k \<and> x = node k \<and> d = dist_of k" if "(x, d) \<in> set ?out" for x d
  proof -
    have "(d, x) \<in> set (gs_result s)" using that by (auto simp: set_sorted_out)
    then obtain k where "k \<in> gs_visited s" "live k" "(d, x) = rk k" using s(2) unfolding beam_ok_def by blast
    then show ?thesis using s(2) unfolding beam_ok_def rk_def by blast
  qed
  ultimately show ?thesis using s(1) by blast
qed

text \<open>
  With real distances nothing nearer is missed: a live node nearer than the farthest answer (any live node, when fewer
  than \<open>ef\<close> answers come back) is returned if it is linked to the entry through such nodes.
\<close>

lemma ground_search_best:
  assumes "e \<in> K" and "real" and "ground_search_nodes src (node e) ef = Inr (out, n)"
    and lim: "lim = (if length out < max ef 1 then 2 ^ 63 else f64_rank (snd (last out)))"
    and "linked adj (\<lambda>k. f64_rank (dist_of k) < lim) e k" and "live k" and "f64_rank (dist_of k) < lim"
  shows "(node k, dist_of k) \<in> set out"
proof -
  obtain s where s: "ground_search_nodes src (node e) ef = Inr (sorted_out src (gs_result s), card (gs_visited s))"
    "beam_ok e (max ef 1) s" "e \<in> gs_visited s" "settled (max ef 1) s"
    using ground_loop_search [OF assms(1), of ef] assms(2) by metis
  have out: "out = sorted_out src (gs_result s)" using s(1) assms(3) by simp
  have "lim = limit (max ef 1) (gs_result s)"
  proof (cases "length (gs_result s) < max ef 1")
    case True
    then show ?thesis using lim out by (simp add: limit_def)
  next
    case False
    then have ne: "gs_result s \<noteq> []" by auto
    then have on: "out \<noteq> []" using out by (metis length_0_conv length_sorted_out)
    then have "last out \<in> set out" by simp
    then have "f64_rank (snd (last out)) \<le> f64_rank (peek_worst (gs_result s))"
      using s(2) unfolding out set_sorted_out by (auto simp: beam_ok_def dest!: peek_worst_max)
    moreover have "f64_rank (peek_worst (gs_result s)) \<le> f64_rank (snd (last out))"
    proof -
      obtain r where r: "r \<in> set (gs_result s)" "peek_worst (gs_result s) = fst r"
        using ne by (cases "gs_result s") (auto simp: peek_worst_def)
      then have "(snd r, fst r) \<in> set out" by (force simp: out set_sorted_out)
      then obtain i where i: "i < length out" "out ! i = (snd r, fst r)" by (auto simp: in_set_conv_nth)
      let ?f = "\<lambda>(n, d). (f64_total_key d, sint (ns_tid src n))"
      have "sorted (map ?f out)" unfolding out sorted_out_def by (rule sorted_sort_key)
      then have "map ?f out ! i \<le> map ?f out ! (length out - 1)" by (rule sorted_nth_mono) (use i in auto)
      then have "?f (out ! i) \<le> ?f (last out)" using i(1) on by (simp add: last_conv_nth)
      then have "f64_total_key (fst r) \<le> f64_total_key (snd (last out))"
        by (auto simp: i(2) split_def less_eq_prod_def)
      then show ?thesis unfolding r(2) by (rule f64_total_key_rank)
    qed
    ultimately show ?thesis using False lim out by (simp add: limit_def)
  qed
  then have "k \<in> gs_visited s" "f64_rank (dist_of k) < limit (max ef 1) (gs_result s)"
    using settled_linked [OF s(4,3)] assms(5,7) by auto
  then have "rk k \<in> set (gs_result s)" using s(4) assms(6) unfolding settled_def by fastforce
  then show ?thesis unfolding out by (simp add: rk_in_out)
qed

text \<open>A beam at least as wide as the live nodes that are reachable returns all of them.\<close>

lemma ground_search_exact:
  assumes "e \<in> K" and "real" and "ground_search_nodes src (node e) ef = Inr (out, n)"
    and wide: "card {k \<in> reach e. live k} \<le> max ef 1"
  shows "set out = (\<lambda>k. (node k, dist_of k)) ` {k \<in> reach e. live k}"
proof -
  let ?L = "{k \<in> reach e. live k}" and ?g = "\<lambda>k. (node k, dist_of k)"
  obtain m where m: "length out \<le> max ef 1" "distinct (map (ns_node_key src \<circ> fst) out)"
    "\<forall>(x, d) \<in> set out. \<exists>k \<in> reach e. live k \<and> x = node k \<and> d = dist_of k"
    using ground_search_sound [OF assms(1), of ef] assms(3) by auto
  have sub: "set out \<subseteq> ?g ` ?L" using m(3) by fastforce
  have inj: "inj_on ?g ?L" by (rule inj_onI) (metis (lifting) mem_Collect_eq node_key prod.inject reach_K [OF assms(1)] subsetD)
  have "?g ` ?L \<subseteq> set out"
  proof (cases "length out < max ef 1")
    case True
    have "?g k \<in> set out" if "k \<in> ?L" for k
    proof (rule ground_search_best [OF assms(1-3) refl])
      show "linked adj (\<lambda>k. f64_rank (dist_of k) < (if length out < max ef 1 then 2 ^ 63 else f64_rank (snd (last out)))) e k"
        by (rule linked_mono [of _ "\<lambda>_. True"]) (use that True f64_rank_less in \<open>auto simp: reach_def\<close>)
    qed (use that True f64_rank_less in auto)
    then show ?thesis by blast
  next
    case False
    have "card (set out) = length out" using m(2) distinct_card distinct_map by metis
    then have "card (?g ` ?L) \<le> card (set out)" using False wide card_image [OF inj] m(1) by simp
    then have "set out = ?g ` ?L" using card_seteq [OF _ sub] by simp
    then show ?thesis by simp
  qed
  with sub show ?thesis by blast
qed

subsection \<open>The resumable search\<close>

text \<open>What a batch keeps: the frontier and the visited set; a node may enter a batch twice.\<close>

definition batch_ok :: "u64 \<Rightarrow> nat \<Rightarrow> 'n ground \<Rightarrow> bool" where
  "batch_ok e ef s \<longleftrightarrow> gs_visited s \<subseteq> reach e \<and> heap_ok reverse_key (gs_cands s) \<and> heap_ok ranked_key (gs_result s) \<and>
     set (gs_cands s) \<subseteq> rk ` gs_visited s \<and> set (gs_result s) \<subseteq> rk ` {k \<in> gs_visited s. live k} \<and>
     length (gs_result s) \<le> ef"

definition frontier_open :: "u64 set \<Rightarrow> 'n ground \<Rightarrow> bool" where
  "frontier_open C s \<longleftrightarrow> (\<forall>k \<in> gs_visited s - C. rk k \<in> set (gs_cands s) \<or> set (adj k) \<subseteq> gs_visited s)"

definition to_visit :: "u64 \<Rightarrow> 'n ground \<Rightarrow> nat" where
  "to_visit e s = card (reach e - gs_visited s) + length (gs_cands s)"

lemma batch_ok_push:
  assumes "batch_ok e ef s" and "k \<in> gs_visited s" and "live k"
  shows "batch_ok e ef (s\<lparr>gs_result := push_result ef (rk k) (gs_result s)\<rparr>)"
  using assms push_result_ok [of "gs_result s" ef "rk k"] push_result_subset [of "gs_result s" ef "rk k"]
  unfolding batch_ok_def by auto

lemma batch_ok_visit:
  assumes "batch_ok e ef s" and "k \<in> reach e"
  shows "batch_ok e ef (s\<lparr>gs_visited := insert k (gs_visited s), gs_cands := push_cand (rk k) (gs_cands s)\<rparr>)"
  using assms push_cand_ok [of "gs_cands s" "rk k"] unfolding batch_ok_def by auto

lemma batch_expand_ok:
  assumes "batch_ok e ef s" and "frontier_open C s"
    and "\<forall>r \<in> set refs. ns_ref_key src r \<in> reach e \<and> ns_load src r = Inr (node (ns_ref_key src r))"
  shows "\<exists>s'. batch_expand src ef refs s = Inr s' \<and> batch_ok e ef s' \<and> frontier_open C s' \<and>
    gs_visited s' = gs_visited s \<union> ns_ref_key src ` set refs \<and> to_visit e s' \<le> to_visit e s"
  using assms
proof (induction refs arbitrary: s)
  case Nil
  then show ?case by simp
next
  case (Cons r refs)
  let ?k = "ns_ref_key src r"
  have refs: "\<forall>r \<in> set refs. ns_ref_key src r \<in> reach e \<and> ns_load src r = Inr (node (ns_ref_key src r))"
    and k: "?k \<in> reach e" and load: "ns_load src r = Inr (node ?k)" using Cons.prems(3) by simp_all
  show ?case
  proof (cases "?k \<in> gs_visited s")
    case True
    then show ?thesis using Cons.IH [OF Cons.prems(1,2) refs] by (auto simp: insert_absorb)
  next
    case new: False
    let ?v = "s\<lparr>gs_visited := insert ?k (gs_visited s), gs_cands := push_cand (rk ?k) (gs_cands s)\<rparr>"
    let ?in = "(f64_lt (dist_of ?k) (peek_worst (gs_result s)) \<or> length (gs_result s) < ef) \<and> live ?k"
    let ?s = "if ?in then ?v\<lparr>gs_result := push_result ef (rk ?k) (gs_result ?v)\<rparr> else ?v"
    have step: "batch_expand src ef (r # refs) s = batch_expand src ef refs ?s"
      using new load by (simp add: Let_def rk_def live_def)
    have v: "batch_ok e ef ?v" by (rule batch_ok_visit [OF Cons.prems(1) k])
    then have ok: "batch_ok e ef ?s" using batch_ok_push [OF v, of ?k] by simp
    have cs: "set (push_cand (rk ?k) (gs_cands s)) = insert (rk ?k) (set (gs_cands s))"
      using Cons.prems(1) by (simp add: batch_ok_def push_cand_ok)
    have opn: "frontier_open C ?s" using Cons.prems(2) cs unfolding frontier_open_def by auto
    have "finite (reach e - gs_visited s)" and "?k \<in> reach e - gs_visited s" using k new by simp_all
    then have "Suc (card (reach e - gs_visited s - {?k})) = card (reach e - gs_visited s)" by (rule card_Suc_Diff1)
    moreover have "reach e - insert ?k (gs_visited s) = reach e - gs_visited s - {?k}" by blast
    ultimately have w: "to_visit e ?s = to_visit e s" by (simp add: to_visit_def)
    from Cons.IH [OF ok opn refs] obtain s' where s': "batch_expand src ef refs ?s = Inr s'" "batch_ok e ef s'"
      "frontier_open C s'" "gs_visited s' = gs_visited ?s \<union> ns_ref_key src ` set refs" "to_visit e s' \<le> to_visit e ?s" by blast
    have "gs_visited ?s = insert ?k (gs_visited s)" by simp
    then show ?thesis using s' step w by (intro exI [of _ s']) auto
  qed
qed

lemma pop_node_batch:
  assumes "batch_ok e ef s" and "heap_pop reverse_key (gs_cands s) = Some ((dc, c), rest)"
  obtains k where "k \<in> gs_visited s" "c = node k" "dc = dist_of k" "k \<in> reach e" "rk k = (dc, c)"
proof -
  have "(dc, c) \<in> set (gs_cands s)" using pop_cand_ok(2) [OF _ assms(2)] assms(1) by (auto simp: batch_ok_def)
  then obtain k where "k \<in> gs_visited s" "(dc, c) = rk k" using assms(1) by (auto simp: batch_ok_def)
  then show ?thesis using that assms(1) by (auto simp: rk_def batch_ok_def)
qed

lemma batch_loop_ok:
  assumes "batch_ok e ef s" and "frontier_open {} s" and "e \<in> K" and "1 \<le> ef"
  shows "\<exists>s'. batch_loop src ef s = Inr s' \<and> batch_ok e ef s' \<and> frontier_open {} s' \<and> gs_visited s \<subseteq> gs_visited s' \<and>
    to_visit e s' \<le> to_visit e s \<and> (gs_result s = [] \<and> gs_cands s \<noteq> [] \<longrightarrow> to_visit e s' < to_visit e s)"
  using assms(1,2)
proof (induction "work_left s" arbitrary: s rule: less_induct)
  case less
  note ok = less.prems(1)
  have heap: "heap_ok reverse_key (gs_cands s)" using ok by (simp add: batch_ok_def)
  show ?case
  proof (cases "heap_pop reverse_key (gs_cands s)")
    case None
    then have "batch_loop src ef s = Inr s" by (subst batch_loop.simps) simp
    then show ?thesis using less.prems None by auto
  next
    case (Some p)
    then obtain dc c rest where pop: "heap_pop reverse_key (gs_cands s) = Some ((dc, c), rest)" by (cases p) auto
    obtain k where k: "k \<in> gs_visited s" "c = node k" "dc = dist_of k" "k \<in> reach e" "rk k = (dc, c)"
      by (rule pop_node_batch [OF ok pop])
    have kK: "k \<in> K" using k(4) reach_K [OF assms(3)] by auto
    note popped = pop_cand_ok [OF heap pop]
    have len: "length (gs_cands s) = Suc (length rest)" by (rule length_heap_pop [OF pop])
    show ?thesis
    proof (cases "f64_lt (peek_worst (gs_result s)) dc \<and> ef \<le> length (gs_result s)")
      case True
      let ?s1 = "s\<lparr>gs_cands := push_cand (dc, c) rest\<rparr>"
      have cs: "set (push_cand (dc, c) rest) = set (gs_cands s)" "heap_ok reverse_key (push_cand (dc, c) rest)"
        using push_cand_ok [OF popped(1)] popped(2) by simp_all
      have "batch_loop src ef s = Inr ?s1" using pop True by (subst batch_loop.simps) (simp add: Let_def)
      moreover have "batch_ok e ef ?s1" using ok cs by (simp add: batch_ok_def)
      moreover have "frontier_open {} ?s1" using less.prems(2) cs by (simp add: frontier_open_def)
      moreover have "gs_result s \<noteq> []" using True assms(4) by auto
      ultimately show ?thesis using len by (intro exI [of _ ?s1]) (simp add: to_visit_def)
    next
      case False
      let ?r = "s\<lparr>gs_cands := rest\<rparr>"
      let ?s1 = "if live k then ?r\<lparr>gs_result := push_result ef (rk k) (gs_result ?r)\<rparr> else ?r"
      have "batch_ok e ef ?r" using ok popped by (auto simp: batch_ok_def)
      then have ok1: "batch_ok e ef ?s1" using batch_ok_push [of e ef ?r k] k(1) by simp
      have V: "gs_visited s \<subseteq> K" using ok reach_K [OF assms(3)] unfolding batch_ok_def by blast
      have ne: "rk j \<noteq> (dc, c)" if "j \<in> gs_visited s" "j \<noteq> k" for j
        using rk_inj that kK V k(5) by (metis inj_on_eq_iff subsetD)
      have "rk j \<in> set rest \<or> set (adj j) \<subseteq> gs_visited s" if "j \<in> gs_visited s - {k}" for j
        using less.prems(2) popped(2) ne [of j] that unfolding frontier_open_def by auto
      then have opn: "frontier_open {k} ?s1" unfolding frontier_open_def by simp
      obtain refs where refs: "ns_neighbors src (node k) = Inr refs" "set (adj k) = ns_ref_key src ` set refs"
        "\<forall>r \<in> set refs. ns_ref_key src r \<in> reach e \<and> ns_load src r = Inr (node (ns_ref_key src r))"
        by (rule neighbor_refs [OF k(4) assms(3)])
      from batch_expand_ok [OF ok1 opn refs(3)] obtain s2 where
        s2: "batch_expand src ef refs ?s1 = Inr s2" "batch_ok e ef s2" "frontier_open {k} s2"
          "gs_visited s2 = gs_visited ?s1 \<union> set (adj k)" "to_visit e s2 \<le> to_visit e ?s1"
        unfolding refs(2) by auto
      have v1: "gs_visited ?s1 = gs_visited s" "gs_cands ?s1 = rest" by simp_all
      have s1: "?s1 = s\<lparr>gs_cands := rest, gs_result := if ns_emittable src c then push_result ef (dc, c) (gs_result s) else gs_result s\<rparr>"
        using k(2,5) by (simp add: live_def)
      have step: "batch_loop src ef s = batch_loop src ef s2"
        unfolding batch_loop.simps [of src ef s] using False refs(1) s2(1) k(2) s1 by (auto simp: pop Let_def)
      have w1: "to_visit e ?s1 < to_visit e s" using len by (simp add: to_visit_def)
      have "work_left s2 < work_left s"
        using batch_expand_work [OF s2(1)] len by (simp add: work_left_def split: if_splits)
      moreover have "frontier_open {} s2" using s2(3,4) unfolding frontier_open_def by blast
      ultimately obtain s' where s': "batch_loop src ef s2 = Inr s'" "batch_ok e ef s'" "frontier_open {} s'"
        "gs_visited s2 \<subseteq> gs_visited s'" "to_visit e s' \<le> to_visit e s2" using less.hyps [OF _ s2(2)] by blast
      then show ?thesis using s2(4,5) v1 w1 step by (intro exI [of _ s']) auto
    qed
  qed
qed

definition resume_ok :: "u64 \<Rightarrow> 'n resume \<Rightarrow> bool" where
  "resume_ok e rg \<longleftrightarrow> 1 \<le> rg_ef rg \<and>
     batch_ok e (rg_ef rg) \<lparr>gs_visited = rg_visited rg, gs_cands = rg_cands rg, gs_result = []\<rparr> \<and>
     frontier_open {} \<lparr>gs_visited = rg_visited rg, gs_cands = rg_cands rg, gs_result = []\<rparr> \<and> e \<in> rg_visited rg"

definition resume_left :: "u64 \<Rightarrow> 'n resume \<Rightarrow> nat" where
  "resume_left e rg = card (reach e - rg_visited rg) + length (rg_cands rg)"

lemma resume_init_ok:
  assumes "e \<in> K"
  shows "resume_ok e (resume_init src (node e) ef)" and "resume_left e (resume_init src (node e) ef) = card (reach e)"
proof -
  have c: "push_cand (dist_of e, node e) [] = [rk e]"
    by (simp add: push_cand_def heap_push_def sift_up.simps rk_def)
  show "resume_ok e (resume_init src (node e) ef)"
    using assms c by (simp add: resume_ok_def resume_init_def batch_ok_def frontier_open_def heap_ok_def node_key reach_def linked_refl)
  have "e \<in> reach e" by (simp add: reach_def linked_refl)
  then have "Suc (card (reach e - {e})) = card (reach e)" by (intro card_Suc_Diff1) simp_all
  then show "resume_left e (resume_init src (node e) ef) = card (reach e)"
    using assms c by (simp add: resume_left_def resume_init_def node_key)
qed

lemma next_batch_ok:
  assumes "resume_ok e rg" and "e \<in> K"
  shows "\<exists>rg' out. next_batch src rg = Inr (rg', out) \<and> resume_ok e rg' \<and> rg_visited rg \<subseteq> rg_visited rg' \<and>
    length out \<le> rg_ef rg \<and> rg_ef rg' = rg_ef rg \<and>
    sorted (map (\<lambda>(n, d). (f64_total_key d, sint (ns_tid src n))) out) \<and>
    (\<forall>(x, d) \<in> set out. \<exists>k \<in> reach e. live k \<and> x = node k \<and> d = dist_of k) \<and>
    resume_left e rg' \<le> resume_left e rg \<and> (\<not> exhausted rg \<longrightarrow> resume_left e rg' < resume_left e rg)"
proof -
  let ?s = "\<lparr>gs_visited = rg_visited rg, gs_cands = rg_cands rg, gs_result = []\<rparr>"
  have ok: "batch_ok e (rg_ef rg) ?s" "frontier_open {} ?s" "1 \<le> rg_ef rg" and ev: "e \<in> rg_visited rg"
    using assms(1) by (simp_all add: resume_ok_def)
  from batch_loop_ok [OF ok(1,2) assms(2) ok(3)] obtain s' where
    s': "batch_loop src (rg_ef rg) ?s = Inr s'" "batch_ok e (rg_ef rg) s'" "frontier_open {} s'"
      "rg_visited rg \<subseteq> gs_visited s'" "to_visit e s' \<le> to_visit e ?s" "rg_cands rg \<noteq> [] \<longrightarrow> to_visit e s' < to_visit e ?s"
    by auto
  let ?rg = "rg\<lparr>rg_visited := gs_visited s', rg_cands := gs_cands s'\<rparr>" and ?out = "sorted_out src (gs_result s')"
  have "next_batch src rg = Inr (?rg, ?out)" by (simp add: next_batch_def s'(1))
  moreover have "resume_ok e ?rg" using ok(3) s'(2,3,4) ev by (auto simp: resume_ok_def batch_ok_def frontier_open_def)
  moreover have "sorted (map (\<lambda>(n, d). (f64_total_key d, sint (ns_tid src n))) ?out)"
    unfolding sorted_out_def by (rule sorted_sort_key)
  moreover have "\<exists>k \<in> reach e. live k \<and> x = node k \<and> d = dist_of k" if "(x, d) \<in> set ?out" for x d
  proof -
    have "(d, x) \<in> set (gs_result s')" using that by (auto simp: set_sorted_out)
    then obtain k where "k \<in> gs_visited s'" "live k" "(d, x) = rk k" using s'(2) unfolding batch_ok_def by blast
    then show ?thesis using s'(2) unfolding batch_ok_def rk_def by blast
  qed
  moreover have "length ?out \<le> rg_ef rg" using s'(2) by (simp add: batch_ok_def)
  ultimately show ?thesis
    using s'(4,5,6) by (intro exI [of _ ?rg] exI [of _ ?out]) (auto simp: resume_left_def to_visit_def exhausted_def)
qed

lemma exhausted_visits_all:
  assumes "resume_ok e rg" and "exhausted rg"
  shows "rg_visited rg = reach e"
proof
  show "rg_visited rg \<subseteq> reach e" using assms(1) by (simp add: resume_ok_def batch_ok_def)
  have closed: "set (adj k) \<subseteq> rg_visited rg" if "k \<in> rg_visited rg" for k
    using assms that by (simp add: resume_ok_def frontier_open_def exhausted_def)
  show "reach e \<subseteq> rg_visited rg"
  proof
    fix k assume "k \<in> reach e"
    then have "linked adj (\<lambda>_. True) e k" by (simp add: reach_def)
    then show "k \<in> rg_visited rg"
      by induction (use assms(1) closed in \<open>auto simp: resume_ok_def\<close>)
  qed
qed

end

text \<open>Whatever the source answers, a batch shrinks the work that is left while the frontier is not empty.\<close>

lemma batch_loop_work: "batch_loop src ef s = Inr s' \<Longrightarrow> work_left s' \<le> work_left s"
proof (induction src ef s rule: batch_loop.induct)
  case (1 src ef s)
  show ?case
  proof (cases "heap_pop reverse_key (gs_cands s)")
    case None
    with "1.prems" show ?thesis by (subst (asm) batch_loop.simps) simp
  next
    case (Some p)
    then obtain dc c rest where pop: "heap_pop reverse_key (gs_cands s) = Some ((dc, c), rest)" by (cases p) auto
    have len: "length (gs_cands s) = Suc (length rest)" by (rule length_heap_pop [OF pop])
    show ?thesis
    proof (cases "f64_lt (peek_worst (gs_result s)) dc \<and> ef \<le> length (gs_result s)")
      case True
      with "1.prems" len pop show ?thesis by (subst (asm) batch_loop.simps) (auto simp: Let_def work_left_def)
    next
      case False
      let ?s1 = "s\<lparr>gs_cands := rest, gs_result := if ns_emittable src c then push_result ef (dc, c) (gs_result s) else gs_result s\<rparr>"
      from "1.prems" False pop obtain refs s2 where s2: "ns_neighbors src c = Inr refs"
        "batch_expand src ef refs ?s1 = Inr s2" "batch_loop src ef s2 = Inr s'"
        by (subst (asm) batch_loop.simps) (auto simp: Let_def bind_r_Inr_iff split: if_splits)
      have "work_left s' \<le> work_left s2"
        by (rule "1.IH" [OF pop refl refl refl False refl s2])
      then show ?thesis using batch_expand_work [OF s2(2)] len by (simp add: work_left_def)
    qed
  qed
qed

lemma nothing_above_infinity: "\<not> f64_lt f64_infinity d"
proof -
  have "unat f64_infinity = f64_inf_mag"
    unfolding f64_infinity_def by (rule unat_of_nat_u64) (simp add: f64_inf_mag_def)
  then have "f64_rank f64_infinity = int f64_inf_mag"
    by (simp add: f64_rank_def f64_neg_def f64_mag_def f64_inf_mag_def)
  moreover have "f64_rank d \<le> int f64_inf_mag" if "\<not> f64_is_nan d"
    using that by (simp add: f64_rank_def f64_is_nan_def)
  ultimately show ?thesis by (auto simp: f64_lt_def)
qed

definition resume_work :: "'n resume \<Rightarrow> nat" where
  "resume_work rg = (2 ^ 64 - card (rg_visited rg)) + length (rg_cands rg)"

lemma next_batch_work:
  assumes "next_batch src rg = Inr (rg', out)" and "rg_cands rg \<noteq> []"
  shows "resume_work rg' < resume_work rg"
proof -
  let ?s = "\<lparr>gs_visited = rg_visited rg, gs_cands = rg_cands rg, gs_result = []\<rparr>"
  obtain s' where s': "batch_loop src (rg_ef rg) ?s = Inr s'" "rg_visited rg' = gs_visited s'" "rg_cands rg' = gs_cands s'"
    using assms(1) by (auto simp: next_batch_def bind_r_Inr_iff)
  obtain dc c rest where pop: "heap_pop reverse_key (rg_cands rg) = Some ((dc, c), rest)"
  proof (cases "heap_pop reverse_key (rg_cands rg)")
    case None
    then show ?thesis using assms(2) by simp
  next
    case (Some p)
    then show ?thesis using that by (cases p) auto
  qed
  have nolt: "\<not> f64_lt f64_infinity dc" by (rule nothing_above_infinity)
  let ?s1 = "\<lparr>gs_visited = rg_visited rg, gs_cands = rest, gs_result = if ns_emittable src c then push_result (rg_ef rg) (dc, c) [] else []\<rparr>"
  from s'(1) pop nolt obtain refs s2 where s2: "batch_expand src (rg_ef rg) refs ?s1 = Inr s2" "batch_loop src (rg_ef rg) s2 = Inr s'"
    by (subst (asm) batch_loop.simps) (auto simp: Let_def bind_r_Inr_iff peek_worst_def split: if_splits)
  then show ?thesis
    using batch_loop_work [OF s2(2)] batch_expand_work [OF s2(1)] length_heap_pop [OF pop] s'(2,3)
    by (simp add: resume_work_def work_left_def)
qed

text \<open>Two linked nodes and a beam of width one: the batch keeps the nearer node, and nothing is left to resume from.\<close>

lemma pair_batch:
  assumes nb: "ns_neighbors src a = Inr [rb]" "ns_neighbors src b = Inr [ra]" and ld: "ns_load src rb = Inr b"
    and key: "ns_ref_key src rb \<noteq> ns_node_key src a" "ns_ref_key src ra = ns_node_key src a"
    and live: "ns_emittable src a" "ns_emittable src b"
    and near: "f64_lt (ns_dist src b) (ns_dist src a)" "f64_total_key (ns_dist src b) < f64_total_key (ns_dist src a)"
  shows "next_batch src (resume_init src a 1) =
    Inr (\<lparr>rg_visited = {ns_ref_key src rb, ns_node_key src a}, rg_cands = [], rg_ef = 1\<rparr>, [(b, ns_dist src b)])"
proof -
  have r: "\<not> f64_lt (ns_dist src b) (ns_dist src b)" by (simp add: f64_lt_def)
  show ?thesis
    using assms
    by (simp add: next_batch_def resume_init_def push_cand_def batch_loop.simps [of _ "Suc 0"] peek_worst_def push_result_def
        Let_def heap_push_one heap_pop_two ranked_key_def r sorted_out_def)
qed

end
