(* ===== verification/HnswScan.thy ===== *)
theory HnswScan
  imports HnswAm GroundSearch
begin

text \<open>
  Queries over a page-native HNSW index: the page readers, the descent and the production \<open>NeighborSource\<close> of
  \<open>am/hnsw_page/search.rs\<close>, and the scan state machine of \<open>am/scan.rs\<close> for such an index (\<open>amrescan\<close>,
  \<open>amgettuple\<close>). The distance kernels of \<open>vec/kernels.rs\<close> (f32 arithmetic), the SBQ and AQ quantizers' arithmetic and
  the asymmetric-hashing table are parameters; the Hamming distance is modelled. The counters of
  \<open>am/autotune.rs\<close> that the code reports page reads to are not part of the state.
\<close>

section \<open>Scoring\<close>

datatype scan_error = ScanPage page_error | ScanMetricTag | CodeLength nat nat | QuantizerError string
  | CodebookDim nat nat | LutInput string | ScorePanic nat nat | QueryDim nat nat | UnorderedScan

record scan_env =
  score_bytes :: "metric \<Rightarrow> f32_bits list \<Rightarrow> bytes \<Rightarrow> f64_bits"
  metric_dist :: "metric \<Rightarrow> f32_bits list \<Rightarrow> f32_bits list \<Rightarrow> f64_bits"
  sbq_from_meta :: "bytes \<Rightarrow> string + nat \<times> (f32_bits list \<Rightarrow> bytes)"
  aq_from_meta :: "bytes \<Rightarrow> string + nat \<times> (f32_bits list \<Rightarrow> string + nat \<times> (bytes \<Rightarrow> f64_bits))"

text \<open>How a walk scores a stored element: exactly, by Hamming distance of codes, or by a lookup table of \<open>m\<close> subspaces.\<close>

datatype scorer = Exact | SbqCode bytes | AhLut nat "bytes \<Rightarrow> f64_bits"

definition scan_page :: "page_error + 'a \<Rightarrow> scan_error + 'a" where
  "scan_page r = (case r of Inl e \<Rightarrow> Inl (ScanPage e) | Inr x \<Rightarrow> Inr x)"

lemma scan_page_simps [simp]: "scan_page (Inr x) = Inr x" "scan_page (Inl e) = Inl (ScanPage e)"
  by (simp_all add: scan_page_def)

text \<open>\<open>score\<close>; the kernels assert that the stored vector has the query's length.\<close>

definition score :: "scan_env \<Rightarrow> metric \<Rightarrow> f32_bits list \<Rightarrow> bytes \<Rightarrow> scan_error + f64_bits" where
  "score env metric q vb =
     (if length vb \<noteq> length q * 4 then Inl (ScorePanic (length vb) (length q * 4)) else Inr (score_bytes env metric q vb))"

definition count_ones :: "u8 \<Rightarrow> nat" where
  "count_ones b = length (filter (bit b) [0..<8])"

definition hamming_bytes :: "bytes \<Rightarrow> bytes \<Rightarrow> nat" where
  "hamming_bytes a b = sum_list (map (\<lambda>(x, y). count_ones (x XOR y)) (zip a b))"

text \<open>\<open>u32 as f64\<close>, exact.\<close>

definition u32_to_f64 :: "nat \<Rightarrow> f64_bits" where
  "u32_to_f64 n =
     (if n = 0 then 0
      else of_nat ((nat_log2 n + 1023) * 2 ^ 52 + (n - 2 ^ nat_log2 n) * 2 ^ (52 - nat_log2 n)))"

section \<open>Page readers\<close>

record page_cand =
  pc_d :: f64_bits
  pc_addr :: addr
  pc_nbr :: addr
  pc_raw :: addr
  pc_level :: u8
  pc_tid :: i64
  pc_deleted :: bool

definition load_cand :: "scan_env \<Rightarrow> relation \<Rightarrow> metric \<Rightarrow> f32_bits list \<Rightarrow> scorer \<Rightarrow> addr \<Rightarrow> scan_error + page_cand" where
  "load_cand env rel metric q sc a =
     bind_r (scan_page (read_at rel a)) (\<lambda>b.
     case sc of
       AhLut m ah_score \<Rightarrow>
         bind_r (scan_page (tuple_err (decode_element_v4 b))) (\<lambda>ev.
         if length (e4_code ev) \<noteq> div_ceil m 2 then Inl (CodeLength (length (e4_code ev)) (div_ceil m 2))
         else Inr \<lparr>pc_d = ah_score (e4_code ev), pc_addr = a, pc_nbr = e4_nbr_addr ev, pc_raw = e4_raw_addr ev,
           pc_level = e4_level ev, pc_tid = e4_tid ev, pc_deleted = e4_deleted ev\<rparr>)
     | _ \<Rightarrow>
         bind_r (scan_page (tuple_err (decode_element b))) (\<lambda>ev.
         bind_r (case sc of
             SbqCode qc \<Rightarrow>
               (if length (ev_code ev) \<noteq> length qc then Inl (CodeLength (length (ev_code ev)) (length qc))
                else Inr (u32_to_f64 (hamming_bytes qc (ev_code ev))))
           | _ \<Rightarrow> score env metric q (ev_vec ev)) (\<lambda>d.
         Inr \<lparr>pc_d = d, pc_addr = a, pc_nbr = ev_nbr_addr ev, pc_raw = (0, 0), pc_level = ev_level ev,
           pc_tid = ev_tid ev, pc_deleted = ev_deleted ev\<rparr>)))"

definition neighbors_of :: "relation \<Rightarrow> page_cand \<Rightarrow> nat \<Rightarrow> nat \<Rightarrow> nat \<Rightarrow> scan_error + addr list" where
  "neighbors_of rel c layer m m0 =
     bind_r (scan_page (read_at rel (pc_nbr c))) (\<lambda>b.
     scan_page (tuple_err (decode_neighbors b (unat (pc_level c)) layer m m0)))"

definition addr_key :: "addr \<Rightarrow> u64" where
  "addr_key a = push_bit 16 (ucast (fst a)) OR ucast (snd a)"

definition page_source :: "scan_env \<Rightarrow> relation \<Rightarrow> metric \<Rightarrow> f32_bits list \<Rightarrow> scorer \<Rightarrow> nat \<Rightarrow> nat \<Rightarrow>
    (page_cand, addr, scan_error) neighbor_source" where
  "page_source env rel metric q sc m m0 =
     \<lparr>ns_dist = pc_d, ns_tid = pc_tid, ns_node_key = \<lambda>c. addr_key (pc_addr c), ns_ref_key = addr_key,
      ns_neighbors = \<lambda>c. neighbors_of rel c 0 m m0, ns_load = load_cand env rel metric q sc,
      ns_emittable = \<lambda>c. \<not> pc_deleted c\<rparr>"

section \<open>Descent of the upper layers\<close>

fun descend_pass :: "scan_env \<Rightarrow> relation \<Rightarrow> metric \<Rightarrow> f32_bits list \<Rightarrow> scorer \<Rightarrow> addr list \<Rightarrow> page_cand \<times> bool \<Rightarrow>
    scan_error + page_cand \<times> bool" where
  "descend_pass env rel metric q sc [] s = Inr s"
| "descend_pass env rel metric q sc (a # as) (ep, improved) =
     bind_r (load_cand env rel metric q sc a) (\<lambda>cand.
       if f64_lt (pc_d cand) (pc_d ep) then descend_pass env rel metric q sc as (cand, True)
       else descend_pass env rel metric q sc as (ep, improved))"

lemma descend_pass_less:
  "descend_pass env rel metric q sc as (ep, imp) = Inr (ep', imp') \<Longrightarrow>
   ep' = ep \<and> imp' = imp \<or> imp' \<and> f64_lt (pc_d ep') (pc_d ep)"
proof (induction as arbitrary: ep imp)
  case Nil
  then show ?case by simp
next
  case (Cons a as)
  have trans: "f64_lt x y \<Longrightarrow> f64_lt y z \<Longrightarrow> f64_lt x z" for x y z by (auto simp: f64_lt_def)
  from Cons.prems show ?case
    by (auto simp: bind_r_Inr_iff split: if_splits dest!: Cons.IH dest: trans)
qed

function descend_layer :: "scan_env \<Rightarrow> relation \<Rightarrow> metric \<Rightarrow> f32_bits list \<Rightarrow> scorer \<Rightarrow> nat \<Rightarrow> nat \<Rightarrow> nat \<Rightarrow> page_cand \<Rightarrow>
    scan_error + page_cand" where
  "descend_layer env rel metric q sc m m0 lc ep =
     bind_r (neighbors_of rel ep lc m m0) (\<lambda>nbrs.
     bind_r (descend_pass env rel metric q sc nbrs (ep, False)) (\<lambda>(ep', improved).
       if improved then descend_layer env rel metric q sc m m0 lc ep' else Inr ep'))"
  by pat_completeness auto
termination
proof (relation "measure (\<lambda>(env, rel, metric, q, sc, m, m0, lc, ep). card {d. f64_lt d (pc_d ep)})", goal_cases)
  case 1
  show ?case by simp
next
  case (2 env rel metric q sc m m0 lc ep nbrs r ep' improved)
  then have l: "f64_lt (pc_d ep') (pc_d ep)"
    using descend_pass_less [of env rel metric q sc nbrs ep False ep' improved] by auto
  have "{d. f64_lt d (pc_d ep')} \<subset> {d. f64_lt d (pc_d ep)}"
    using l by (auto simp: f64_lt_def)
  then have "card {d. f64_lt d (pc_d ep')} < card {d. f64_lt d (pc_d ep)}"
    by (intro psubset_card_mono) simp_all
  then show ?case by simp
qed

declare descend_layer.simps [simp del]

text \<open>From layer \<open>lc\<close> down to layer 1.\<close>

fun descend_index :: "scan_env \<Rightarrow> relation \<Rightarrow> metric \<Rightarrow> f32_bits list \<Rightarrow> scorer \<Rightarrow> nat \<Rightarrow> nat \<Rightarrow> nat \<Rightarrow> page_cand \<Rightarrow>
    scan_error + page_cand" where
  "descend_index env rel metric q sc m m0 0 ep = Inr ep"
| "descend_index env rel metric q sc m m0 (Suc lc) ep =
     bind_r (descend_layer env rel metric q sc m m0 (Suc lc) ep) (descend_index env rel metric q sc m m0 lc)"

section \<open>The one-shot traversal\<close>

definition query_scorer :: "scan_env \<Rightarrow> hnsw_meta \<Rightarrow> f32_bits list \<Rightarrow> scan_error + scorer" where
  "query_scorer env meta q =
     bind_r (if hm_sbq_bits meta > 0 then
         (case sbq_from_meta env (hm_codebook meta) of Inl e \<Rightarrow> Inl (QuantizerError e)
          | Inr (dim, quantize) \<Rightarrow>
              if dim \<noteq> unat (hm_dim meta) then Inl (CodebookDim dim (unat (hm_dim meta))) else Inr (Some (quantize q)))
       else Inr None) (\<lambda>qcode.
     bind_r (if hm_aq_m meta > 0 then
         (case aq_from_meta env (hm_aq_codebook meta) of Inl e \<Rightarrow> Inl (QuantizerError e)
          | Inr (dim, build_lut16) \<Rightarrow>
              if dim \<noteq> unat (hm_dim meta) then Inl (CodebookDim dim (unat (hm_dim meta)))
              else (case build_lut16 q of Inl e \<Rightarrow> Inl (LutInput e) | Inr lut \<Rightarrow> Inr (Some lut)))
       else Inr None) (\<lambda>lut.
     Inr (case lut of Some (m, ah_score) \<Rightarrow> AhLut m ah_score
       | None \<Rightarrow> (case qcode of Some qc \<Rightarrow> SbqCode qc | None \<Rightarrow> Exact))))"

definition meta_metric :: "hnsw_meta \<Rightarrow> scan_error + metric" where
  "meta_metric meta = (case metric_from_tag (hm_metric_tag meta) of None \<Rightarrow> Inl ScanMetricTag | Some x \<Rightarrow> Inr x)"

text \<open>The loaded entry point after the greedy descent.\<close>

definition descend_entry :: "scan_env \<Rightarrow> relation \<Rightarrow> hnsw_meta \<Rightarrow> metric \<Rightarrow> f32_bits list \<Rightarrow> scorer \<Rightarrow> scan_error + page_cand" where
  "descend_entry env rel meta metric q sc =
     bind_r (load_cand env rel metric q sc (hm_entry_blkno meta, hm_entry_offno meta)) (\<lambda>ep.
     descend_index env rel metric q sc (unat (hm_m meta)) (unat (hm_m0 meta)) (nat (sint (hm_entry_level meta))) ep)"

text \<open>The exact distance of a survivor: from its cold tuple when it has one, else from its element.\<close>

definition rerank_dist :: "scan_env \<Rightarrow> relation \<Rightarrow> metric \<Rightarrow> f32_bits list \<Rightarrow> page_cand \<Rightarrow> scan_error + f64_bits" where
  "rerank_dist env rel metric q c =
     (if fst (pc_raw c) \<noteq> 0 then
        bind_r (scan_page (read_at rel (pc_raw c))) (\<lambda>b.
        bind_r (scan_page (tuple_err (decode_raw_vec b))) (\<lambda>vb. score env metric q vb))
      else
        bind_r (scan_page (read_at rel (pc_addr c))) (\<lambda>b.
        bind_r (scan_page (tuple_err (decode_element b))) (\<lambda>ev. score env metric q (ev_vec ev))))"

definition rerank :: "scan_env \<Rightarrow> relation \<Rightarrow> metric \<Rightarrow> f32_bits list \<Rightarrow> nat \<Rightarrow> (page_cand \<times> f64_bits) list \<Rightarrow>
    scan_error + (i64 \<times> f64_bits) list" where
  "rerank env rel metric q ef nodes =
     bind_r (map_r (\<lambda>(c, _). bind_r (rerank_dist env rel metric q c) (\<lambda>d. Inr (pc_tid c, d))) nodes) (\<lambda>reranked.
     Inr (take ef (sort_key (\<lambda>(t, d). (f64_total_key d, sint t)) reranked)))"

definition traverse_index :: "scan_env \<Rightarrow> relation \<Rightarrow> hnsw_meta \<Rightarrow> f32_bits list \<Rightarrow> nat \<Rightarrow> nat \<Rightarrow>
    scan_error + (i64 \<times> f64_bits) list" where
  "traverse_index env rel meta q ef_search over_fetch =
     (if sint (hm_entry_level meta) < 0 \<or> hm_node_count meta = 0 then Inr []
      else
        bind_r (meta_metric meta) (\<lambda>metric.
        let ef = max ef_search 1; m = unat (hm_m meta); m0 = unat (hm_m0 meta) in
        bind_r (query_scorer env meta q) (\<lambda>sc.
        bind_r (descend_entry env rel meta metric q sc) (\<lambda>ep.
        let src = page_source env rel metric q sc m m0 in
        case sc of
          Exact \<Rightarrow> bind_r (ground_search_nodes src ep ef) (\<lambda>(nodes, _). Inr (map (\<lambda>(n, d). (pc_tid n, d)) nodes))
        | _ \<Rightarrow>
            bind_r (ground_search_nodes src ep (min (ef * max over_fetch 1) usize_max)) (\<lambda>(nodes, _).
            rerank env rel metric q ef nodes)))))"

section \<open>The resumable scan of an exact index\<close>

type_synonym hnsw_resume = "page_cand resume"

definition resumable_init :: "scan_env \<Rightarrow> bool \<Rightarrow> relation \<Rightarrow> hnsw_meta \<Rightarrow> f32_bits list \<Rightarrow> nat \<Rightarrow>
    scan_error + hnsw_resume option" where
  "resumable_init env resume_on rel meta q ef_search =
     (if \<not> resume_on \<or> sint (hm_entry_level meta) < 0 \<or> hm_node_count meta = 0 then Inr None
      else if hm_sbq_bits meta > 0 \<or> hm_aq_m meta > 0 then Inr None
      else
        bind_r (meta_metric meta) (\<lambda>metric.
        let m = unat (hm_m meta); m0 = unat (hm_m0 meta) in
        bind_r (descend_entry env rel meta metric q Exact) (\<lambda>ep.
        Inr (Some (resume_init (page_source env rel metric q Exact m m0) ep (max ef_search 1))))))"

definition resumable_next :: "scan_env \<Rightarrow> relation \<Rightarrow> hnsw_meta \<Rightarrow> f32_bits list \<Rightarrow> hnsw_resume \<Rightarrow>
    scan_error + hnsw_resume \<times> (i64 \<times> f64_bits) list" where
  "resumable_next env rel meta q rg =
     bind_r (meta_metric meta) (\<lambda>metric.
     bind_r (next_batch (page_source env rel metric q Exact (unat (hm_m meta)) (unat (hm_m0 meta))) rg) (\<lambda>(rg, batch).
     Inr (rg, map (\<lambda>(c, d). (pc_tid c, d)) batch)))"

section \<open>The scan state machine\<close>

record scan_config =
  gc_ef_search :: nat
  gc_over_fetch :: nat
  gc_max_scan_tuples :: nat
  gc_resume :: bool
  gc_resume_max_bytes :: nat
  gc_elem_size :: nat

text \<open>\<open>Scored\<close> is ordered by distance and TID, so the min-heap is the list its pops give.\<close>

type_synonym scored = "i64 \<times> f64_bits"

definition scored_key :: "scored \<Rightarrow> int \<times> int" where
  "scored_key r = (f64_total_key (snd r), sint (fst r))"

definition heapify :: "scored list \<Rightarrow> scored list" where
  "heapify candidates = sort_key scored_key candidates"

record scan_state =
  sn_heap :: "scored list"
  sn_query :: "f32_bits list"
  sn_ef :: nat
  sn_emitted :: "i64 set"
  sn_iterative :: bool
  sn_exhausted :: bool
  sn_resume :: "hnsw_resume option"
  sn_unordered :: bool

definition ambeginscan :: scan_state where
  "ambeginscan = \<lparr>sn_heap = [], sn_query = [], sn_ef = 0, sn_emitted = {}, sn_iterative = False,
     sn_exhausted = False, sn_resume = None, sn_unordered = False\<rparr>"

definition check_query_dim :: "hnsw_meta \<Rightarrow> f32_bits list \<Rightarrow> scan_error + unit" where
  "check_query_dim meta q =
     (if hm_node_count meta > 0 \<and> length q \<noteq> unat (hm_dim meta) then Inl (QueryDim (length q) (unat (hm_dim meta)))
      else Inr ())"

definition pending_scored :: "scan_env \<Rightarrow> relation \<Rightarrow> metric \<Rightarrow> f32_bits list \<Rightarrow> scan_error + scored list" where
  "pending_scored env rel metric q =
     bind_r (scan_page (read_pending rel)) (\<lambda>ps. Inr (map (\<lambda>(t, v). (t, metric_dist env metric q v)) ps))"

definition gather_hnsw_candidates :: "scan_env \<Rightarrow> scan_config \<Rightarrow> relation \<Rightarrow> f32_bits list \<Rightarrow> nat \<Rightarrow> scan_error + scored list" where
  "gather_hnsw_candidates env cfg rel q ef =
     bind_r (scan_page (read_meta rel)) (\<lambda>meta.
     bind_r (meta_metric meta) (\<lambda>metric.
     bind_r (check_query_dim meta q) (\<lambda>_.
     bind_r (traverse_index env rel meta q ef (gc_over_fetch cfg)) (\<lambda>results.
     bind_r (pending_scored env rel metric q) (\<lambda>ps. Inr (results @ ps))))))"

text \<open>The HNSW branch of \<open>amrescan\<close>: \<open>order\<close> is the query of the ORDER BY key, or why there is none.\<close>

datatype order_key = NoOrderBy | NullQuery | OrderBy "f32_bits list"

definition rescan_gather :: "scan_env \<Rightarrow> scan_config \<Rightarrow> relation \<Rightarrow> f32_bits list \<Rightarrow> scan_error + scored list \<times> hnsw_resume option" where
  "rescan_gather env cfg rel q =
     bind_r (scan_page (read_meta rel)) (\<lambda>meta.
     bind_r (check_query_dim meta q) (\<lambda>_.
     bind_r (resumable_init env (gc_resume cfg) rel meta q (gc_ef_search cfg)) (\<lambda>start.
     case start of
       Some rg \<Rightarrow>
         bind_r (resumable_next env rel meta q rg) (\<lambda>(rg, batch).
         bind_r (meta_metric meta) (\<lambda>metric.
         bind_r (pending_scored env rel metric q) (\<lambda>ps. Inr (batch @ ps, Some rg))))
     | None \<Rightarrow> bind_r (gather_hnsw_candidates env cfg rel q (gc_ef_search cfg)) (\<lambda>init. Inr (init, None)))))"

definition amrescan :: "scan_env \<Rightarrow> scan_config \<Rightarrow> relation \<Rightarrow> order_key \<Rightarrow> scan_state \<Rightarrow> scan_error + scan_state" where
  "amrescan env cfg rel order st =
     (let st = st\<lparr>sn_heap := [], sn_emitted := {}, sn_exhausted := False, sn_iterative := False, sn_resume := None,
        sn_unordered := (order = NoOrderBy)\<rparr> in
      case order of NoOrderBy \<Rightarrow> Inr st | NullQuery \<Rightarrow> Inr st
      | OrderBy q \<Rightarrow>
          bind_r (rescan_gather env cfg rel q) (\<lambda>(init, resume).
          Inr (st\<lparr>sn_heap := heapify init, sn_query := q, sn_ef := gc_ef_search cfg,
            sn_iterative := (gc_max_scan_tuples cfg > 0), sn_resume := resume\<rparr>)))"

definition fresh_only :: "i64 set \<Rightarrow> scored list \<Rightarrow> scored list" where
  "fresh_only emitted xs = filter (\<lambda>r. fst r \<notin> emitted) xs"

text \<open>The loop over resumed batches: \<open>None\<close> when the scan is exhausted, else a batch with something new.\<close>

function resume_pull :: "scan_env \<Rightarrow> scan_config \<Rightarrow> relation \<Rightarrow> hnsw_meta \<Rightarrow> f32_bits list \<Rightarrow> i64 set \<Rightarrow> hnsw_resume \<Rightarrow>
    scan_error + hnsw_resume \<times> scored list option" where
  "resume_pull env cfg rel meta q emitted rg =
     (if card emitted \<ge> gc_max_scan_tuples cfg then Inr (rg, None)
      else if gc_resume_max_bytes cfg > 0 \<and> approx_bytes (gc_elem_size cfg) rg > gc_resume_max_bytes cfg then Inr (rg, None)
      else bind_r (resumable_next env rel meta q rg) (\<lambda>(rg', batch).
        let new = fresh_only emitted batch in
        if new \<noteq> [] then Inr (rg', Some new)
        else if exhausted rg' then Inr (rg', None)
        else resume_pull env cfg rel meta q emitted rg'))"
  by pat_completeness auto

lemma next_batch_exhausted: "next_batch src rg = Inr (rg', out) \<Longrightarrow> exhausted rg \<Longrightarrow> exhausted rg' \<and> out = []"
  unfolding next_batch_def exhausted_def
  by (subst (asm) batch_loop.simps) (auto simp: sorted_out_def)

lemma resumable_next_work:
  assumes "resumable_next env rel meta q rg = Inr (rg', batch)" and "\<not> exhausted rg'"
  shows "resume_work rg' < resume_work rg"
proof -
  obtain src :: "(page_cand, addr, scan_error) neighbor_source" and out where n: "next_batch src rg = Inr (rg', out)"
    using assms(1) by (auto simp: resumable_next_def bind_r_Inr_iff)
  then have "rg_cands rg \<noteq> []" using next_batch_exhausted assms(2) exhausted_def by blast
  then show ?thesis by (rule next_batch_work [OF n])
qed

termination resume_pull
  by (relation "measure (\<lambda>(env, cfg, rel, meta, q, emitted, rg). resume_work rg)") (auto simp: resumable_next_work)

declare resume_pull.simps [simp del]

text \<open>Refilling the empty heap of an iterative scan: \<open>None\<close> when there is nothing more.\<close>

definition grow :: "scan_env \<Rightarrow> scan_config \<Rightarrow> relation \<Rightarrow> scan_state \<Rightarrow> scan_error + scan_state \<times> bool" where
  "grow env cfg rel st =
     (if card (sn_emitted st) \<ge> gc_max_scan_tuples cfg then Inr (st\<lparr>sn_exhausted := True\<rparr>, False)
      else case sn_resume st of
        Some rg \<Rightarrow>
          bind_r (scan_page (read_meta rel)) (\<lambda>meta.
          bind_r (resume_pull env cfg rel meta (sn_query st) (sn_emitted st) rg) (\<lambda>(rg, found).
          case found of None \<Rightarrow> Inr (st\<lparr>sn_resume := Some rg, sn_exhausted := True\<rparr>, False)
          | Some new \<Rightarrow> Inr (st\<lparr>sn_resume := Some rg, sn_heap := heapify new\<rparr>, True)))
      | None \<Rightarrow>
          let new_ef = min (min (sn_ef st * 2) usize_max) (gc_max_scan_tuples cfg) in
          if new_ef \<le> sn_ef st then Inr (st\<lparr>sn_exhausted := True\<rparr>, False)
          else let st = st\<lparr>sn_ef := new_ef\<rparr> in
            bind_r (gather_hnsw_candidates env cfg rel (sn_query st) new_ef) (\<lambda>all.
            let new = fresh_only (sn_emitted st) all in
            if new = [] then Inr (st\<lparr>sn_exhausted := True\<rparr>, False)
            else Inr (st\<lparr>sn_heap := heapify new\<rparr>, True)))"

lemma resume_pull_work: "resume_pull env cfg rel meta q emitted rg = Inr (rg', Some new) \<Longrightarrow> resume_work rg' < resume_work rg"
proof (induction env cfg rel meta q emitted rg rule: resume_pull.induct)
  case (1 env cfg rel meta q emitted rg)
  from "1.prems" have c: "\<not> gc_max_scan_tuples cfg \<le> card emitted"
      "\<not> (gc_resume_max_bytes cfg > 0 \<and> approx_bytes (gc_elem_size cfg) rg > gc_resume_max_bytes cfg)"
    by (subst (asm) resume_pull.simps, auto split: if_splits)+
  with "1.prems" obtain rg1 batch where n: "resumable_next env rel meta q rg = Inr (rg1, batch)"
    and r: "(if fresh_only emitted batch \<noteq> [] then Inr (rg1, Some (fresh_only emitted batch))
        else if exhausted rg1 then Inr (rg1, None) else resume_pull env cfg rel meta q emitted rg1) = Inr (rg', Some new)"
    by (subst (asm) resume_pull.simps) (auto simp: bind_r_Inr_iff Let_def)
  show ?case
  proof (cases "fresh_only emitted batch \<noteq> []")
    case True
    then have "batch \<noteq> []" by (auto simp: fresh_only_def)
    then obtain src :: "(page_cand, addr, scan_error) neighbor_source" and out where nb: "next_batch src rg = Inr (rg1, out)" "out \<noteq> []"
      using n by (auto simp: resumable_next_def bind_r_Inr_iff)
    then have "rg_cands rg \<noteq> []" using next_batch_exhausted exhausted_def by blast
    then show ?thesis using next_batch_work [OF nb(1)] r True by simp
  next
    case False
    then have ne: "\<not> exhausted rg1" and p: "resume_pull env cfg rel meta q emitted rg1 = Inr (rg', Some new)"
      using r by (auto split: if_splits)
    have "resume_work rg' < resume_work rg1" by (rule "1.IH" [OF c n refl refl _ ne p]) (use False in simp)
    then show ?thesis using resumable_next_work [OF n ne] by simp
  qed
qed

definition growth_left :: "scan_config \<Rightarrow> scan_state \<Rightarrow> nat" where
  "growth_left cfg st = (case sn_resume st of Some rg \<Rightarrow> resume_work rg | None \<Rightarrow> gc_max_scan_tuples cfg - sn_ef st)"

lemma growth_left_heap [simp]: "growth_left cfg (st\<lparr>sn_heap := xs\<rparr>) = growth_left cfg st"
  by (simp add: growth_left_def split: option.split)

lemma grow_left: "grow env cfg rel st = Inr (st', True) \<Longrightarrow> growth_left cfg st' < growth_left cfg st"
  by (auto simp: grow_def growth_left_def bind_r_Inr_iff Let_def resume_pull_work split: if_splits option.splits)

function amgettuple :: "scan_env \<Rightarrow> scan_config \<Rightarrow> relation \<Rightarrow> scan_state \<Rightarrow> scan_error + scan_state \<times> i64 option" where
  "amgettuple env cfg rel st =
     (if sn_unordered st then Inl UnorderedScan
      else case sn_heap st of
        (t, d) # rest \<Rightarrow>
          (let st = st\<lparr>sn_heap := rest\<rparr> in
           if t \<in> sn_emitted st then amgettuple env cfg rel st
           else Inr (st\<lparr>sn_emitted := insert t (sn_emitted st)\<rparr>, Some t))
      | [] \<Rightarrow>
          if \<not> sn_iterative st \<or> sn_exhausted st then Inr (st, None)
          else bind_r (grow env cfg rel st) (\<lambda>(st', more).
            if more then amgettuple env cfg rel st' else Inr (st', None)))"
  by pat_completeness auto
termination
  by (relation "measures [\<lambda>(env, cfg, rel, st). growth_left cfg st, \<lambda>(env, cfg, rel, st). length (sn_heap st)]")
    (auto simp: grow_left)

declare amgettuple.simps [simp del]

text \<open>The TIDs the executor pulls until the scan reports that there are no more, at most \<open>n\<close> of them.\<close>

fun pull_tids :: "scan_env \<Rightarrow> scan_config \<Rightarrow> relation \<Rightarrow> nat \<Rightarrow> scan_state \<Rightarrow> scan_error + i64 list" where
  "pull_tids env cfg rel 0 st = Inr []"
| "pull_tids env cfg rel (Suc n) st =
     bind_r (amgettuple env cfg rel st) (\<lambda>(st', out).
     case out of None \<Rightarrow> Inr [] | Some t \<Rightarrow> bind_r (pull_tids env cfg rel n st') (\<lambda>ts. Inr (t # ts)))"

definition index_scan :: "scan_env \<Rightarrow> scan_config \<Rightarrow> relation \<Rightarrow> order_key \<Rightarrow> nat \<Rightarrow> scan_error + i64 list" where
  "index_scan env cfg rel order n = bind_r (amrescan env cfg rel order ambeginscan) (pull_tids env cfg rel n)"

section \<open>The pages as a source\<close>

definition key_addr :: "u64 \<Rightarrow> addr" where
  "key_addr k = (ucast (drop_bit 16 k), ucast k)"

lemma key_addr_key [simp]: "key_addr (addr_key a) = a"
proof (rule prod_eqI)
  show "fst (key_addr (addr_key a)) = fst a"
    by (rule bit_word_eqI) (auto simp: key_addr_def addr_key_def bit_simps dest: bit_imp_le_length)
  show "snd (key_addr (addr_key a)) = snd a"
    by (rule bit_word_eqI) (auto simp: key_addr_def addr_key_def bit_simps dest: bit_imp_le_length)
qed

lemma addr_key_inj: "addr_key a = addr_key b \<longleftrightarrow> a = b"
  by (metis key_addr_key)

lemma load_cand_addr: "load_cand env rel metric q sc a = Inr c \<Longrightarrow> pc_addr c = a"
  by (cases sc) (auto simp: load_cand_def bind_r_Inr_iff split: if_splits)

text \<open>A set of addresses a walk never leaves and never fails on; the largest one.\<close>

definition walkable :: "scan_env \<Rightarrow> relation \<Rightarrow> metric \<Rightarrow> f32_bits list \<Rightarrow> scorer \<Rightarrow> nat \<Rightarrow> nat \<Rightarrow> addr set \<Rightarrow> bool" where
  "walkable env rel metric q sc m m0 A \<longleftrightarrow>
     (\<forall>a \<in> A. \<exists>c refs. load_cand env rel metric q sc a = Inr c \<and> neighbors_of rel c 0 m m0 = Inr refs \<and> set refs \<subseteq> A)"

definition walk_addrs :: "scan_env \<Rightarrow> relation \<Rightarrow> metric \<Rightarrow> f32_bits list \<Rightarrow> scorer \<Rightarrow> nat \<Rightarrow> nat \<Rightarrow> addr set" where
  "walk_addrs env rel metric q sc m m0 = \<Union> {A. walkable env rel metric q sc m m0 A}"

definition page_node :: "scan_env \<Rightarrow> relation \<Rightarrow> metric \<Rightarrow> f32_bits list \<Rightarrow> scorer \<Rightarrow> u64 \<Rightarrow> page_cand" where
  "page_node env rel metric q sc k = projr (load_cand env rel metric q sc (key_addr k))"

definition page_adj :: "scan_env \<Rightarrow> relation \<Rightarrow> metric \<Rightarrow> f32_bits list \<Rightarrow> scorer \<Rightarrow> nat \<Rightarrow> nat \<Rightarrow> u64 \<Rightarrow> u64 list" where
  "page_adj env rel metric q sc m m0 k =
     map addr_key (projr (neighbors_of rel (page_node env rel metric q sc k) 0 m m0))"

lemma walkable_walk_addrs: "walkable env rel metric q sc m m0 (walk_addrs env rel metric q sc m m0)"
  unfolding walkable_def walk_addrs_def by blast

lemma walkable_graph:
  assumes A: "walkable env rel metric q sc m m0 A"
  shows "neighbor_graph (page_source env rel metric q sc m m0) (page_node env rel metric q sc) (addr_key ` A)
    (page_adj env rel metric q sc m m0)"
proof
  fix k assume "k \<in> addr_key ` A"
  then obtain a where a: "a \<in> A" "k = addr_key a" by blast
  obtain c refs where c: "load_cand env rel metric q sc a = Inr c" "neighbors_of rel c 0 m m0 = Inr refs" "set refs \<subseteq> A"
    using A a(1) unfolding walkable_def by blast
  have node: "page_node env rel metric q sc (addr_key r) = projr (load_cand env rel metric q sc r)" for r
    by (simp add: page_node_def)
  have load: "load_cand env rel metric q sc r = Inr (page_node env rel metric q sc (addr_key r))" if "r \<in> A" for r
    using A that unfolding walkable_def node by fastforce
  show "ns_node_key (page_source env rel metric q sc m m0) (page_node env rel metric q sc k) = k"
    using load_cand_addr [OF c(1)] by (simp add: a(2) page_source_def node c(1))
  show "\<exists>refs. ns_neighbors (page_source env rel metric q sc m m0) (page_node env rel metric q sc k) = Inr refs \<and>
      map (ns_ref_key (page_source env rel metric q sc m m0)) refs = page_adj env rel metric q sc m m0 k \<and>
      (\<forall>r \<in> set refs. ns_ref_key (page_source env rel metric q sc m m0) r \<in> addr_key ` A \<and>
        ns_load (page_source env rel metric q sc m m0) r =
          Inr (page_node env rel metric q sc (ns_ref_key (page_source env rel metric q sc m m0) r)))"
    using c load by (intro exI [of _ refs]) (auto simp: a(2) page_source_def page_adj_def node)
qed

interpretation pages: neighbor_graph "page_source env rel metric q sc m m0" "page_node env rel metric q sc"
  "addr_key ` walk_addrs env rel metric q sc m m0" "page_adj env rel metric q sc m m0"
  for env rel metric q sc m m0
  by (rule walkable_graph [OF walkable_walk_addrs])

section \<open>A stored graph\<close>

text \<open>
  What the pages of an exact index keep: at every address of \<open>A\<close> a complete element of the index's dimension whose
  neighbour tuple lists, on every layer, addresses of \<open>A\<close>. Tombstones are elements like the others.
\<close>

definition node_at :: "relation \<Rightarrow> nat \<Rightarrow> nat \<Rightarrow> nat \<Rightarrow> addr set \<Rightarrow> element_view \<Rightarrow> bool" where
  "node_at rel m m0 dim A v \<longleftrightarrow> length (ev_vec v) = dim * 4 \<and>
     (\<exists>nb. read_at rel (ev_nbr_addr v) = Inr nb \<and>
       (\<forall>lc. \<exists>as. decode_neighbors nb (unat (ev_level v)) lc m m0 = Inr as \<and> set as \<subseteq> A))"

definition graph_at :: "relation \<Rightarrow> nat \<Rightarrow> nat \<Rightarrow> nat \<Rightarrow> addr set \<Rightarrow> bool" where
  "graph_at rel m m0 dim A \<longleftrightarrow>
     (\<forall>a \<in> A. \<exists>b v. read_at rel a = Inr b \<and> decode_element b = Inr v \<and> node_at rel m m0 dim A v)"

definition element_at :: "relation \<Rightarrow> addr \<Rightarrow> element_view \<Rightarrow> bool" where
  "element_at rel a v \<longleftrightarrow> (\<exists>b. read_at rel a = Inr b \<and> decode_element b = Inr v)"

definition cand_of :: "scan_env \<Rightarrow> metric \<Rightarrow> f32_bits list \<Rightarrow> addr \<Rightarrow> element_view \<Rightarrow> page_cand" where
  "cand_of env metric q a v = \<lparr>pc_d = score_bytes env metric q (ev_vec v), pc_addr = a, pc_nbr = ev_nbr_addr v,
     pc_raw = (0, 0), pc_level = ev_level v, pc_tid = ev_tid v, pc_deleted = ev_deleted v\<rparr>"

lemma graph_load:
  assumes "graph_at rel m m0 (length q) A" and "a \<in> A"
  obtains v where "element_at rel a v" "load_cand env rel metric q Exact a = Inr (cand_of env metric q a v)"
    "node_at rel m m0 (length q) A v"
proof -
  obtain b v where v: "read_at rel a = Inr b" "decode_element b = Inr v" "node_at rel m m0 (length q) A v"
    using assms unfolding graph_at_def by blast
  then have "load_cand env rel metric q Exact a = Inr (cand_of env metric q a v)"
    by (simp add: load_cand_def score_def node_at_def cand_of_def)
  with v show ?thesis using that by (auto simp: element_at_def)
qed

lemma node_neighbors_of:
  assumes "node_at rel m m0 dim A v"
  obtains as where "neighbors_of rel (cand_of env metric q a v) lc m m0 = Inr as" "set as \<subseteq> A"
proof -
  obtain nb where nb: "read_at rel (ev_nbr_addr v) = Inr nb"
    and "\<exists>as. decode_neighbors nb (unat (ev_level v)) lc m m0 = Inr as \<and> set as \<subseteq> A"
    using assms unfolding node_at_def by blast
  then obtain as where as: "decode_neighbors nb (unat (ev_level v)) lc m m0 = Inr as" "set as \<subseteq> A" by blast
  have "neighbors_of rel (cand_of env metric q a v) lc m m0 = Inr as"
    using nb as(1) by (simp add: neighbors_of_def cand_of_def)
  with as(2) show ?thesis by (rule that [rotated])
qed

lemma graph_walkable:
  assumes "graph_at rel m m0 (length q) A"
  shows "walkable env rel metric q Exact m m0 A"
  unfolding walkable_def
proof
  fix a assume a: "a \<in> A"
  obtain v where v: "load_cand env rel metric q Exact a = Inr (cand_of env metric q a v)" "node_at rel m m0 (length q) A v"
    by (rule graph_load [OF assms a])
  obtain as where "neighbors_of rel (cand_of env metric q a v) 0 m m0 = Inr as" "set as \<subseteq> A"
    by (rule node_neighbors_of [OF v(2)])
  with v(1) show "\<exists>c refs. load_cand env rel metric q Exact a = Inr c \<and> neighbors_of rel c 0 m m0 = Inr refs \<and> set refs \<subseteq> A"
    by blast
qed

text \<open>A candidate loaded from the graph.\<close>

definition loaded :: "scan_env \<Rightarrow> relation \<Rightarrow> metric \<Rightarrow> f32_bits list \<Rightarrow> addr set \<Rightarrow> page_cand \<Rightarrow> bool" where
  "loaded env rel metric q A c \<longleftrightarrow> pc_addr c \<in> A \<and> load_cand env rel metric q Exact (pc_addr c) = Inr c"

lemma loaded_neighbors:
  assumes g: "graph_at rel m m0 (length q) A" and l: "loaded env rel metric q A c"
  obtains as where "neighbors_of rel c lc m m0 = Inr as" "set as \<subseteq> A"
proof -
  have a: "pc_addr c \<in> A" using l by (simp add: loaded_def)
  obtain v where v: "load_cand env rel metric q Exact (pc_addr c) = Inr (cand_of env metric q (pc_addr c) v)"
    "node_at rel m m0 (length q) A v" by (rule graph_load [OF g a])
  have "c = cand_of env metric q (pc_addr c) v" using l v(1) by (simp add: loaded_def)
  with node_neighbors_of [OF v(2)] that show ?thesis by metis
qed

lemma descend_pass_ok:
  assumes g: "graph_at rel m m0 (length q) A" and "loaded env rel metric q A ep" and "set as \<subseteq> A"
  shows "\<exists>ep' imp'. descend_pass env rel metric q Exact as (ep, imp) = Inr (ep', imp') \<and> loaded env rel metric q A ep'"
  using assms(2,3)
proof (induction as arbitrary: ep imp)
  case Nil
  then show ?case by simp
next
  case (Cons a as)
  have a: "a \<in> A" using Cons.prems(2) by simp
  obtain v where v: "load_cand env rel metric q Exact a = Inr (cand_of env metric q a v)" by (rule graph_load [OF g a])
  have "loaded env rel metric q A (cand_of env metric q a v)" using v a by (simp add: loaded_def cand_of_def)
  with Cons v show ?case by simp
qed

lemma descend_layer_ok:
  assumes g: "graph_at rel m m0 (length q) A" and "loaded env rel metric q A ep"
  shows "\<exists>ep'. descend_layer env rel metric q Exact m m0 lc ep = Inr ep' \<and> loaded env rel metric q A ep'"
  using assms(2)
proof (induction "card {d. f64_lt d (pc_d ep)}" arbitrary: ep rule: less_induct)
  case less
  obtain as where as: "neighbors_of rel ep lc m m0 = Inr as" "set as \<subseteq> A" by (rule loaded_neighbors [OF g less.prems])
  obtain ep' imp' where p: "descend_pass env rel metric q Exact as (ep, False) = Inr (ep', imp')" "loaded env rel metric q A ep'"
    using descend_pass_ok [OF g less.prems as(2)] by blast
  show ?case
  proof (cases imp')
    case True
    then have l: "f64_lt (pc_d ep') (pc_d ep)" using descend_pass_less [OF p(1)] by auto
    then have "{d. f64_lt d (pc_d ep')} \<subset> {d. f64_lt d (pc_d ep)}" by (auto simp: f64_lt_def)
    then have "card {d. f64_lt d (pc_d ep')} < card {d. f64_lt d (pc_d ep)}" by (intro psubset_card_mono) simp_all
    from less.hyps [OF this p(2)] show ?thesis using as(1) p(1) True by (subst descend_layer.simps) simp
  next
    case False
    then show ?thesis using as(1) p by (subst descend_layer.simps) simp
  qed
qed

lemma descend_index_ok:
  assumes "graph_at rel m m0 (length q) A" and "loaded env rel metric q A ep"
  shows "\<exists>ep'. descend_index env rel metric q Exact m m0 lc ep = Inr ep' \<and> loaded env rel metric q A ep'"
  using assms(2)
proof (induction lc arbitrary: ep)
  case 0
  then show ?case by simp
next
  case (Suc lc)
  obtain ep' where "descend_layer env rel metric q Exact m m0 (Suc lc) ep = Inr ep'" "loaded env rel metric q A ep'"
    using descend_layer_ok [OF assms(1) Suc.prems] by blast
  with Suc.IH show ?case by simp
qed

text \<open>The rows of the graph: TID and distance of every element at an address of \<open>A\<close> that is not a tombstone.\<close>

definition live_rows :: "scan_env \<Rightarrow> relation \<Rightarrow> metric \<Rightarrow> f32_bits list \<Rightarrow> addr set \<Rightarrow> scored set" where
  "live_rows env rel metric q A =
     {(ev_tid v, score_bytes env metric q (ev_vec v)) | a v. a \<in> A \<and> element_at rel a v \<and> \<not> ev_deleted v}"

lemma walk_addrs_upper: "walkable env rel metric q sc m m0 A \<Longrightarrow> A \<subseteq> walk_addrs env rel metric q sc m m0"
  by (auto simp: walk_addrs_def)

lemma loaded_node:
  assumes "graph_at rel m m0 (length q) A" and "loaded env rel metric q A c"
  shows "c = page_node env rel metric q Exact (addr_key (pc_addr c))"
    and "addr_key (pc_addr c) \<in> addr_key ` walk_addrs env rel metric q Exact m m0"
  using assms(2) walk_addrs_upper [OF graph_walkable [OF assms(1), of env metric]]
  by (auto simp: loaded_def page_node_def)

lemma page_reach:
  assumes g: "graph_at rel m m0 (length q) A" and "a \<in> A"
  shows "pages.reach env rel metric q Exact m m0 (addr_key a) \<subseteq> addr_key ` A"
proof
  fix k assume "k \<in> pages.reach env rel metric q Exact m m0 (addr_key a)"
  then have "linked (page_adj env rel metric q Exact m m0) (\<lambda>_. True) (addr_key a) k" by (simp add: pages.reach_def)
  then show "k \<in> addr_key ` A"
  proof (induction rule: linked.induct)
    case linked_refl
    then show ?case using assms(2) by simp
  next
    case (linked_step k k')
    then obtain b where b: "b \<in> A" "k = addr_key b" by blast
    obtain v where v: "load_cand env rel metric q Exact b = Inr (cand_of env metric q b v)" "node_at rel m m0 (length q) A v"
      by (rule graph_load [OF g b(1)])
    obtain as where as: "neighbors_of rel (cand_of env metric q b v) 0 m m0 = Inr as" "set as \<subseteq> A"
      by (rule node_neighbors_of [OF v(2)])
    have "page_adj env rel metric q Exact m m0 k = map addr_key as"
      by (simp add: page_adj_def page_node_def b(2) v(1) as(1))
    with linked_step as(2) show ?case by auto
  qed
qed

text \<open>A live node of the locale is a live row of the pages.\<close>

lemma page_live_row:
  assumes g: "graph_at rel m m0 (length q) A" and "a \<in> A"
    and k: "k \<in> pages.reach env rel metric q Exact m m0 (addr_key a)" "pages.live env rel metric q Exact m m0 k"
      "x = page_node env rel metric q Exact k" "d = ns_dist (page_source env rel metric q Exact m m0) x"
  shows "(pc_tid x, d) \<in> live_rows env rel metric q A"
proof -
  obtain b where b: "b \<in> A" "k = addr_key b" using page_reach [OF g assms(2)] k(1) by blast
  obtain v where v: "element_at rel b v" "load_cand env rel metric q Exact b = Inr (cand_of env metric q b v)"
    by (rule graph_load [OF g b(1)])
  have x: "x = cand_of env metric q b v" by (simp add: k(3) b(2) page_node_def v(2))
  have "\<not> pc_deleted x" using k(2,3) unfolding pages.live_def by (simp add: page_source_def)
  then have "\<not> ev_deleted v" by (simp add: x cand_of_def)
  moreover have "pc_tid x = ev_tid v" "d = score_bytes env metric q (ev_vec v)"
    using k(4) by (simp_all add: x cand_of_def page_source_def)
  ultimately show ?thesis using b(1) v(1) unfolding live_rows_def by blast
qed

text \<open>An exact index: its meta, and the graph its entry point belongs to.\<close>

definition exact_index :: "relation \<Rightarrow> hnsw_meta \<Rightarrow> metric \<Rightarrow> addr set \<Rightarrow> bool" where
  "exact_index rel meta metric A \<longleftrightarrow> hm_sbq_bits meta = 0 \<and> hm_aq_m meta = 0 \<and>
     metric_from_tag (hm_metric_tag meta) = Some metric \<and>
     (0 \<le> sint (hm_entry_level meta) \<and> hm_node_count meta \<noteq> 0 \<longrightarrow>
        graph_at rel (unat (hm_m meta)) (unat (hm_m0 meta)) (unat (hm_dim meta)) A \<and>
        (hm_entry_blkno meta, hm_entry_offno meta) \<in> A)"

lemma descend_entry_ok:
  assumes "graph_at rel (unat (hm_m meta)) (unat (hm_m0 meta)) (length q) A" and "(hm_entry_blkno meta, hm_entry_offno meta) \<in> A"
  obtains ep where "descend_entry env rel meta metric q Exact = Inr ep" "loaded env rel metric q A ep"
proof -
  let ?a = "(hm_entry_blkno meta, hm_entry_offno meta)"
  obtain v where v: "load_cand env rel metric q Exact ?a = Inr (cand_of env metric q ?a v)"
    by (rule graph_load [OF assms])
  have "loaded env rel metric q A (cand_of env metric q ?a v)" using v assms(2) by (simp add: loaded_def cand_of_def)
  from descend_index_ok [OF assms(1) this] v that show ?thesis by (fastforce simp: descend_entry_def)
qed

lemma query_scorer_exact: "hm_sbq_bits meta = 0 \<Longrightarrow> hm_aq_m meta = 0 \<Longrightarrow> query_scorer env meta q = Inr Exact"
  by (simp add: query_scorer_def)

text \<open>The dimension of a query matters as soon as the index has a node.\<close>

definition query_fits :: "hnsw_meta \<Rightarrow> f32_bits list \<Rightarrow> bool" where
  "query_fits meta q \<longleftrightarrow> (hm_node_count meta \<noteq> 0 \<longrightarrow> length q = unat (hm_dim meta))"

lemma query_fits_dim: "length q = unat (hm_dim meta) \<Longrightarrow> query_fits meta q"
  by (simp add: query_fits_def)

lemma traverse_exact:
  assumes x: "exact_index rel meta metric A" and q: "query_fits meta q"
  shows "\<exists>out. traverse_index env rel meta q ef over_fetch = Inr out \<and> length out \<le> max ef 1 \<and>
    set out \<subseteq> live_rows env rel metric q A \<and> sorted (map scored_key out)"
proof (cases "0 \<le> sint (hm_entry_level meta) \<and> hm_node_count meta \<noteq> 0")
  case False
  then show ?thesis by (auto simp: traverse_index_def)
next
  case True
  let ?deg = "unat (hm_m meta)" and ?grd = "unat (hm_m0 meta)"
  have g: "graph_at rel ?deg ?grd (length q) A" and ea: "(hm_entry_blkno meta, hm_entry_offno meta) \<in> A"
    using x True q by (simp_all add: exact_index_def query_fits_def)
  obtain ep where ep: "descend_entry env rel meta metric q Exact = Inr ep" "loaded env rel metric q A ep"
    by (rule descend_entry_ok [OF g ea])
  note node = loaded_node [OF g ep(2)]
  let ?src = "page_source env rel metric q Exact ?deg ?grd"
  from pages.ground_search_sound [OF node(2), of "max ef 1"] node(1) obtain out n where s:
    "ground_search_nodes ?src ep (max ef 1) = Inr (out, n)" "length out \<le> max ef 1"
    "sorted (map (\<lambda>(n, d). (f64_total_key d, sint (ns_tid ?src n))) out)"
    "\<forall>(x, d) \<in> set out. \<exists>k \<in> pages.reach env rel metric q Exact ?deg ?grd (addr_key (pc_addr ep)).
       pages.live env rel metric q Exact ?deg ?grd k \<and> x = page_node env rel metric q Exact k \<and>
       d = ns_dist ?src (page_node env rel metric q Exact k)"
    by (auto simp del: max.left_idem)
  let ?rows = "map (\<lambda>(n, d). (pc_tid n, d)) out"
  have a: "pc_addr ep \<in> A" using ep(2) by (simp add: loaded_def)
  have "traverse_index env rel meta q ef over_fetch = Inr ?rows"
    using x True ep(1) s(1) by (simp add: traverse_index_def meta_metric_def exact_index_def query_scorer_exact Let_def not_le [symmetric])
  moreover have "set ?rows \<subseteq> live_rows env rel metric q A"
  proof
    fix r assume "r \<in> set ?rows"
    then obtain x d where r: "(x, d) \<in> set out" "r = (pc_tid x, d)" by auto
    from s(4) r(1) obtain k where "k \<in> pages.reach env rel metric q Exact ?deg ?grd (addr_key (pc_addr ep))"
      "pages.live env rel metric q Exact ?deg ?grd k" "x = page_node env rel metric q Exact k" "d = ns_dist ?src x"
      by fastforce
    from page_live_row [OF g a this] r(2) show "r \<in> live_rows env rel metric q A" by simp
  qed
  moreover have "sorted (map scored_key ?rows)"
    using s(3) by (simp add: scored_key_def page_source_def split_def comp_def)
  ultimately show ?thesis using s(2) by (intro exI [of _ ?rows]) simp
qed

lemma resumable_init_ok:
  assumes x: "exact_index rel meta metric A" and q: "query_fits meta q"
  shows "resumable_init env on rel meta q ef = Inr None \<or>
    (\<exists>ep. loaded env rel metric q A ep \<and> graph_at rel (unat (hm_m meta)) (unat (hm_m0 meta)) (length q) A \<and>
      resumable_init env on rel meta q ef =
        Inr (Some (resume_init (page_source env rel metric q Exact (unat (hm_m meta)) (unat (hm_m0 meta))) ep (max ef 1))))"
proof (cases "on \<and> 0 \<le> sint (hm_entry_level meta) \<and> hm_node_count meta \<noteq> 0")
  case False
  then show ?thesis by (auto simp: resumable_init_def)
next
  case True
  have g: "graph_at rel (unat (hm_m meta)) (unat (hm_m0 meta)) (length q) A" "(hm_entry_blkno meta, hm_entry_offno meta) \<in> A"
    using x True q by (simp_all add: exact_index_def query_fits_def)
  obtain ep where "descend_entry env rel meta metric q Exact = Inr ep" "loaded env rel metric q A ep"
    by (rule descend_entry_ok [OF g])
  with x True g(1) show ?thesis
    by (auto simp: resumable_init_def meta_metric_def exact_index_def Let_def)
qed

section \<open>The scan serves the index\<close>

text \<open>
  The state of a scan over an exact index: its retained frontier belongs to the graph, its candidates and what it has
  handed out are live or pending rows, and every pending row is still to come or handed out.
\<close>

definition frontier_valid :: "scan_env \<Rightarrow> relation \<Rightarrow> hnsw_meta \<Rightarrow> metric \<Rightarrow> f32_bits list \<Rightarrow> addr set \<Rightarrow> hnsw_resume \<Rightarrow> bool" where
  "frontier_valid env rel meta metric q A rg \<longleftrightarrow>
     graph_at rel (unat (hm_m meta)) (unat (hm_m0 meta)) (length q) A \<and>
     (\<exists>ep. loaded env rel metric q A ep \<and>
        pages.resume_ok env rel metric q Exact (unat (hm_m meta)) (unat (hm_m0 meta)) (addr_key (pc_addr ep)) rg)"

definition scan_valid :: "scan_env \<Rightarrow> relation \<Rightarrow> hnsw_meta \<Rightarrow> metric \<Rightarrow> f32_bits list \<Rightarrow> addr set \<Rightarrow> i64 set \<Rightarrow> i64 set \<Rightarrow> scan_state \<Rightarrow> bool" where
  "scan_valid env rel meta metric q A T P st \<longleftrightarrow> \<not> sn_unordered st \<and> sn_query st = q \<and>
     (case sn_resume st of None \<Rightarrow> True | Some rg \<Rightarrow> frontier_valid env rel meta metric q A rg) \<and>
     fst ` set (sn_heap st) \<subseteq> T \<and> sn_emitted st \<subseteq> T \<and> P \<subseteq> fst ` set (sn_heap st) \<union> sn_emitted st"

text \<open>The relation a scan reads.\<close>

definition scanned :: "relation \<Rightarrow> hnsw_meta \<Rightarrow> metric \<Rightarrow> addr set \<Rightarrow> (i64 \<times> f32_bits list) list \<Rightarrow> bool" where
  "scanned rel meta metric A ps \<longleftrightarrow> read_meta rel = Inr meta \<and> exact_index rel meta metric A \<and> read_pending rel = Inr ps"

lemma resumable_next_ok:
  assumes x: "exact_index rel meta metric A" and f: "frontier_valid env rel meta metric q A rg"
  shows "\<exists>rg' batch. resumable_next env rel meta q rg = Inr (rg', batch) \<and> frontier_valid env rel meta metric q A rg' \<and>
    set batch \<subseteq> live_rows env rel metric q A"
proof -
  let ?deg = "unat (hm_m meta)" and ?grd = "unat (hm_m0 meta)"
  obtain ep where g: "graph_at rel ?deg ?grd (length q) A" and ep: "loaded env rel metric q A ep"
    and r: "pages.resume_ok env rel metric q Exact ?deg ?grd (addr_key (pc_addr ep)) rg"
    using f unfolding frontier_valid_def by blast
  have a: "pc_addr ep \<in> A" using ep by (simp add: loaded_def)
  let ?src = "page_source env rel metric q Exact ?deg ?grd"
  from pages.next_batch_ok [OF r loaded_node(2) [OF g ep]] obtain rg' out where n: "next_batch ?src rg = Inr (rg', out)"
    "pages.resume_ok env rel metric q Exact ?deg ?grd (addr_key (pc_addr ep)) rg'"
    "\<forall>(x, d) \<in> set out. \<exists>k \<in> pages.reach env rel metric q Exact ?deg ?grd (addr_key (pc_addr ep)).
       pages.live env rel metric q Exact ?deg ?grd k \<and> x = page_node env rel metric q Exact k \<and>
       d = ns_dist ?src (page_node env rel metric q Exact k)" by blast
  let ?batch = "map (\<lambda>(c, d). (pc_tid c, d)) out"
  have "resumable_next env rel meta q rg = Inr (rg', ?batch)"
    using x n(1) by (simp add: resumable_next_def meta_metric_def exact_index_def)
  moreover have "set ?batch \<subseteq> live_rows env rel metric q A"
  proof
    fix row assume "row \<in> set ?batch"
    then obtain y d where o: "(y, d) \<in> set out" "row = (pc_tid y, d)" by auto
    from n(3) o(1) obtain k where "k \<in> pages.reach env rel metric q Exact ?deg ?grd (addr_key (pc_addr ep))"
      "pages.live env rel metric q Exact ?deg ?grd k" "y = page_node env rel metric q Exact k" "d = ns_dist ?src y"
      by fastforce
    from page_live_row [OF g a this] o(2) show "row \<in> live_rows env rel metric q A" by simp
  qed
  ultimately show ?thesis using n(2) g ep unfolding frontier_valid_def by blast
qed

lemma resume_pull_ok:
  assumes x: "exact_index rel meta metric A" and "frontier_valid env rel meta metric q A rg"
  shows "\<exists>rg' found. resume_pull env cfg rel meta q emitted rg = Inr (rg', found) \<and> frontier_valid env rel meta metric q A rg' \<and>
    (\<forall>new. found = Some new \<longrightarrow> set new \<subseteq> live_rows env rel metric q A)"
  using assms(2)
proof (induction "resume_work rg" arbitrary: rg rule: less_induct)
  case less
  obtain rg' batch where n: "resumable_next env rel meta q rg = Inr (rg', batch)" "frontier_valid env rel meta metric q A rg'"
    "set batch \<subseteq> live_rows env rel metric q A" using resumable_next_ok [OF x less.prems] by blast
  have new: "set (fresh_only emitted batch) \<subseteq> live_rows env rel metric q A" using n(3) by (auto simp: fresh_only_def)
  consider (stop) "gc_max_scan_tuples cfg \<le> card emitted \<or>
      gc_resume_max_bytes cfg > 0 \<and> approx_bytes (gc_elem_size cfg) rg > gc_resume_max_bytes cfg"
    | (batch) "\<not> (gc_max_scan_tuples cfg \<le> card emitted)"
      "\<not> (gc_resume_max_bytes cfg > 0 \<and> approx_bytes (gc_elem_size cfg) rg > gc_resume_max_bytes cfg)"
      "fresh_only emitted batch \<noteq> [] \<or> exhausted rg'"
    | (again) "\<not> (gc_max_scan_tuples cfg \<le> card emitted)"
      "\<not> (gc_resume_max_bytes cfg > 0 \<and> approx_bytes (gc_elem_size cfg) rg > gc_resume_max_bytes cfg)"
      "fresh_only emitted batch = []" "\<not> exhausted rg'" by blast
  then show ?case
  proof cases
    case stop
    then have "resume_pull env cfg rel meta q emitted rg = Inr (rg, None)" by (subst resume_pull.simps) auto
    then show ?thesis using less.prems by auto
  next
    case batch
    then have "resume_pull env cfg rel meta q emitted rg =
        Inr (rg', if fresh_only emitted batch \<noteq> [] then Some (fresh_only emitted batch) else None)"
      unfolding resume_pull.simps [of env cfg rel meta q emitted rg] using n(1) by (auto simp: Let_def)
    then show ?thesis using n(2) new by auto
  next
    case again
    then have "resume_pull env cfg rel meta q emitted rg = resume_pull env cfg rel meta q emitted rg'"
      unfolding resume_pull.simps [of env cfg rel meta q emitted rg] using n(1) by (auto simp: Let_def)
    with less.hyps [OF resumable_next_work [OF n(1) again(4)] n(2)] show ?thesis by simp
  qed
qed

lemma gather_ok:
  assumes s: "scanned rel meta metric A ps" and q: "query_fits meta q"
  shows "\<exists>rows. gather_hnsw_candidates env cfg rel q ef =
      Inr (rows @ map (\<lambda>(t, v). (t, metric_dist env metric q v)) ps) \<and> set rows \<subseteq> live_rows env rel metric q A"
proof -
  have x: "exact_index rel meta metric A" using s by (simp add: scanned_def)
  then have "metric_from_tag (hm_metric_tag meta) = Some metric" by (simp add: exact_index_def)
  with traverse_exact [OF x q, of env ef "gc_over_fetch cfg"] s q show ?thesis
    by (auto simp: gather_hnsw_candidates_def meta_metric_def check_query_dim_def query_fits_def scanned_def pending_scored_def)
qed

lemma set_heapify [simp]: "set (heapify xs) = set xs"
  by (simp add: heapify_def)

lemma grow_ok:
  assumes s: "scanned rel meta metric A ps" and q: "query_fits meta q"
    and v: "scan_valid env rel meta metric q A T P st" and heap: "sn_heap st = []"
    and T: "fst ` live_rows env rel metric q A \<subseteq> T" "fst ` set ps \<subseteq> T"
  shows "\<exists>st' more. grow env cfg rel st = Inr (st', more) \<and> scan_valid env rel meta metric q A T P st' \<and>
    sn_emitted st' = sn_emitted st \<and> (\<not> more \<longrightarrow> sn_heap st' = [])"
proof (cases "gc_max_scan_tuples cfg \<le> card (sn_emitted st)")
  case True
  then show ?thesis using v heap
    by (intro exI [of _ "st\<lparr>sn_exhausted := True\<rparr>"] exI [of _ False]) (simp add: grow_def scan_valid_def)
next
  case False
  have x: "exact_index rel meta metric A" and m: "read_meta rel = Inr meta" using s by (simp_all add: scanned_def)
  show ?thesis
  proof (cases "sn_resume st")
    case (Some rg)
    then have "frontier_valid env rel meta metric q A rg" using v by (simp add: scan_valid_def)
    from resume_pull_ok [OF x this, of cfg "sn_emitted st"] obtain rg' found where
      p: "resume_pull env cfg rel meta q (sn_emitted st) rg = Inr (rg', found)" "frontier_valid env rel meta metric q A rg'"
        "\<forall>new. found = Some new \<longrightarrow> set new \<subseteq> live_rows env rel metric q A" by blast
    show ?thesis
    proof (cases found)
      case None
      with False Some p v heap m show ?thesis
        by (intro exI [of _ "st\<lparr>sn_resume := Some rg', sn_exhausted := True\<rparr>"] exI [of _ False]) (simp add: grow_def scan_valid_def)
    next
      case (Some new)
      then have "fst ` set new \<subseteq> T" using p(3) T(1) by blast
      with False Some \<open>sn_resume st = Some rg\<close> p v heap m show ?thesis by (auto simp: grow_def scan_valid_def)
    qed
  next
    case None
    let ?ef = "min (min (sn_ef st * 2) usize_max) (gc_max_scan_tuples cfg)"
    show ?thesis
    proof (cases "?ef \<le> sn_ef st")
      case True
      with False None v heap show ?thesis
        by (intro exI [of _ "st\<lparr>sn_exhausted := True\<rparr>"] exI [of _ False]) (simp add: grow_def scan_valid_def Let_def)
    next
      case wider: False
      obtain rows where r: "gather_hnsw_candidates env cfg rel q ?ef =
          Inr (rows @ map (\<lambda>(t, v). (t, metric_dist env metric q v)) ps)" "set rows \<subseteq> live_rows env rel metric q A"
        using gather_ok [OF s q] by blast
      let ?all = "rows @ map (\<lambda>(t, v). (t, metric_dist env metric q v)) ps"
      have "fst ` set ?all \<subseteq> T" using r(2) T by force
      then have new: "fst ` set (fresh_only (sn_emitted st) ?all) \<subseteq> T" by (auto simp: fresh_only_def)
      have sq: "sn_query st = q" using v by (simp add: scan_valid_def)
      have "grow env cfg rel st =
          (if fresh_only (sn_emitted st) ?all = [] then Inr (st\<lparr>sn_ef := ?ef, sn_exhausted := True\<rparr>, False)
           else Inr (st\<lparr>sn_ef := ?ef, sn_heap := heapify (fresh_only (sn_emitted st) ?all)\<rparr>, True))"
        using False None wider r(1) sq unfolding grow_def by (simp only: if_False option.case Let_def) simp
      then show ?thesis using v heap new None by (auto simp: scan_valid_def)
    qed
  qed
qed

text \<open>One pull either hands out a new row or, with every pending row handed out, ends the scan.\<close>

definition served :: "i64 set \<Rightarrow> i64 set \<Rightarrow> i64 set \<Rightarrow> scan_state \<Rightarrow> i64 option \<Rightarrow> bool" where
  "served T P emitted st' out \<longleftrightarrow> (case out of None \<Rightarrow> sn_emitted st' = emitted \<and> P \<subseteq> emitted
     | Some t \<Rightarrow> t \<in> T \<and> t \<notin> emitted \<and> sn_emitted st' = insert t emitted)"

lemma amgettuple_ok:
  assumes "scanned rel meta metric A ps" and q: "query_fits meta q"
    and "fst ` live_rows env rel metric q A \<subseteq> T" and "fst ` set ps \<subseteq> T"
    and "scan_valid env rel meta metric q A T P st"
  shows "\<exists>st' out. amgettuple env cfg rel st = Inr (st', out) \<and> scan_valid env rel meta metric q A T P st' \<and>
    served T P (sn_emitted st) st' out"
  using assms(1,3-5)
proof (induction env cfg rel st rule: amgettuple.induct)
  case (1 env cfg rel st)
  note v = "1.prems"(4)
  have u: "\<not> sn_unordered st" using v by (simp add: scan_valid_def)
  show ?case
  proof (cases "sn_heap st")
    case (Cons r rest)
    obtain t d where r: "r = (t, d)" by (cases r)
    let ?st = "st\<lparr>sn_heap := rest\<rparr>"
    show ?thesis
    proof (cases "t \<in> sn_emitted st")
      case True
      have v1: "scan_valid env rel meta metric q A T P ?st" using v Cons r True by (auto simp: scan_valid_def)
      have e: "amgettuple env cfg rel st = amgettuple env cfg rel ?st"
        unfolding amgettuple.simps [of env cfg rel st] using u Cons r True by (simp add: Let_def)
      have "t \<in> sn_emitted ?st" using True by simp
      from "1.IH"(2) [OF u Cons r [symmetric] refl this "1.prems"(1-3) v1] show ?thesis unfolding e by simp
    next
      case False
      then have "amgettuple env cfg rel st = Inr (?st\<lparr>sn_emitted := insert t (sn_emitted st)\<rparr>, Some t)"
        unfolding amgettuple.simps [of env cfg rel st] using u Cons r by (simp add: Let_def)
      then show ?thesis using v Cons r False by (auto simp: scan_valid_def served_def)
    qed
  next
    case Nil
    show ?thesis
    proof (cases "\<not> sn_iterative st \<or> sn_exhausted st")
      case True
      then have "amgettuple env cfg rel st = Inr (st, None)"
        unfolding amgettuple.simps [of env cfg rel st] using u Nil by auto
      then show ?thesis using v Nil by (auto simp: scan_valid_def served_def)
    next
      case False
      obtain st' more where g: "grow env cfg rel st = Inr (st', more)" "scan_valid env rel meta metric q A T P st'"
        "sn_emitted st' = sn_emitted st" "\<not> more \<longrightarrow> sn_heap st' = []"
        using grow_ok [OF "1.prems"(1) q v Nil "1.prems"(2,3)] by blast
      have e: "amgettuple env cfg rel st = (if more then amgettuple env cfg rel st' else Inr (st', None))"
        unfolding amgettuple.simps [of env cfg rel st] using u Nil False g(1) by simp
      show ?thesis
      proof (cases more)
        case True
        from "1.IH"(1) [OF u Nil False g(1) refl True "1.prems"(1-3) g(2)] show ?thesis
          unfolding e using True g(3) by simp
      next
        case False
        then show ?thesis unfolding e using g v Nil by (auto simp: scan_valid_def served_def)
      qed
    qed
  qed
qed

lemma pull_tids_ok:
  assumes s: "scanned rel meta metric A ps" and q: "query_fits meta q"
    and T: "fst ` live_rows env rel metric q A \<subseteq> T" "fst ` set ps \<subseteq> T"
    and "scan_valid env rel meta metric q A T P st"
  shows "\<exists>ts. (\<forall>n > card (T - sn_emitted st). pull_tids env cfg rel n st = Inr ts) \<and> distinct ts \<and>
    set ts \<subseteq> T - sn_emitted st \<and> P \<subseteq> set ts \<union> sn_emitted st"
  using assms(5)
proof (induction "card (T - sn_emitted st)" arbitrary: st rule: less_induct)
  case less
  obtain st' out where g: "amgettuple env cfg rel st = Inr (st', out)" "scan_valid env rel meta metric q A T P st'"
    "served T P (sn_emitted st) st' out"
    using amgettuple_ok [OF s q T less.prems, of cfg] by blast
  show ?case
  proof (cases out)
    case None
    then have "pull_tids env cfg rel n st = Inr []" if "0 < n" for n
      using that g(1) by (cases n) simp_all
    then show ?thesis using g(3) None by (intro exI [of _ "[]"]) (auto simp: served_def)
  next
    case (Some t)
    then have t: "t \<in> T" "t \<notin> sn_emitted st" "sn_emitted st' = insert t (sn_emitted st)" using g(3) by (simp_all add: served_def)
    have m: "T - sn_emitted st = insert t (T - sn_emitted st')" "t \<notin> T - sn_emitted st'" using t by auto
    have "Suc (card (T - sn_emitted st')) = card (T - sn_emitted st)" unfolding m(1) using m(2) by simp
    with less.hyps [OF _ g(2)] obtain ts where ts: "\<forall>n > card (T - sn_emitted st'). pull_tids env cfg rel n st' = Inr ts"
      "distinct ts" "set ts \<subseteq> T - sn_emitted st'" "P \<subseteq> set ts \<union> sn_emitted st'" by force
    have "pull_tids env cfg rel n st = Inr (t # ts)" if "card (T - sn_emitted st) < n" for n
      using that g(1) Some ts(1) \<open>Suc _ = _\<close> by (cases n) simp_all
    then show ?thesis using ts t by (intro exI [of _ "t # ts"]) auto
  qed
qed

lemma rescan_ok:
  fixes env :: scan_env
  assumes s: "scanned rel meta metric A ps" and q: "query_fits meta q"
  defines "T \<equiv> fst ` live_rows env rel metric q A \<union> fst ` set ps"
  shows "\<exists>st. amrescan env cfg rel (OrderBy q) ambeginscan = Inr st \<and> sn_emitted st = {} \<and>
    scan_valid env rel meta metric q A T (fst ` set ps) st"
proof -
  have x: "exact_index rel meta metric A" and m: "read_meta rel = Inr meta" and p: "read_pending rel = Inr ps"
    using s by (simp_all add: scanned_def)
  have tag: "metric_from_tag (hm_metric_tag meta) = Some metric" using x by (simp add: exact_index_def)
  let ?ps = "map (\<lambda>(t, v). (t, metric_dist env metric q v)) ps"
  have fps: "fst ` set ?ps = fst ` set ps" by force
  have "\<exists>rows resume. rescan_gather env cfg rel q = Inr (rows @ ?ps, resume) \<and> set rows \<subseteq> live_rows env rel metric q A \<and>
    (case resume of None \<Rightarrow> True | Some rg \<Rightarrow> frontier_valid env rel meta metric q A rg)"
    using resumable_init_ok [OF x q, of env "gc_resume cfg" "gc_ef_search cfg"]
  proof (elim disjE exE conjE)
    assume "resumable_init env (gc_resume cfg) rel meta q (gc_ef_search cfg) = Inr None"
    with gather_ok [OF s q, of env cfg "gc_ef_search cfg"] m q show ?thesis
      by (auto simp: rescan_gather_def check_query_dim_def query_fits_def)
  next
    fix ep
    let ?rg = "resume_init (page_source env rel metric q Exact (unat (hm_m meta)) (unat (hm_m0 meta))) ep (max (gc_ef_search cfg) 1)"
    assume ep: "loaded env rel metric q A ep"
      and g: "graph_at rel (unat (hm_m meta)) (unat (hm_m0 meta)) (length q) A"
      and i: "resumable_init env (gc_resume cfg) rel meta q (gc_ef_search cfg) = Inr (Some ?rg)"
    have "frontier_valid env rel meta metric q A ?rg"
      unfolding frontier_valid_def
      using pages.resume_init_ok(1) [OF loaded_node(2) [OF g ep]] loaded_node(1) [OF g ep] g ep by metis
    from resumable_next_ok [OF x this] obtain rg' batch where
      "resumable_next env rel meta q ?rg = Inr (rg', batch)" "frontier_valid env rel meta metric q A rg'"
      "set batch \<subseteq> live_rows env rel metric q A" by blast
    then show ?thesis using m q i tag p
      by (intro exI [of _ batch] exI [of _ "Some rg'"])
        (simp add: rescan_gather_def check_query_dim_def query_fits_def meta_metric_def pending_scored_def)
  qed
  then obtain rows resume where r: "rescan_gather env cfg rel q = Inr (rows @ ?ps, resume)"
    "set rows \<subseteq> live_rows env rel metric q A"
    "case resume of None \<Rightarrow> True | Some rg \<Rightarrow> frontier_valid env rel meta metric q A rg" by blast
  have "fst ` set (rows @ ?ps) \<subseteq> T" "fst ` set ps \<subseteq> fst ` set (rows @ ?ps)"
    using r(2) fps by (auto simp: T_def image_Un)
  then show ?thesis
    using r by (simp add: amrescan_def Let_def scan_valid_def ambeginscan_def)
qed

end
