(* ===== verification/HnswQuery.thy ===== *)
theory HnswQuery
  imports HnswScan
begin

text \<open>
  Queries of a built index: the blocks the packer writes for a graph are an index the scan of \<open>HnswScan\<close> walks, so what
  the scan promises of a stored graph holds of the corpus the index was built from.
\<close>

section \<open>A packed graph is a graph of the scan\<close>

text \<open>The element addresses of a graph packed with its first element block at \<open>base\<close>, codes aside.\<close>

definition element_addrs :: "hnsw_index \<Rightarrow> nat \<Rightarrow> addr list" where
  "element_addrs x base = analytic_addrs base (elems_per_page (hnsw_dim x) 0) (node_count x)"

lemma fetch_read_at:
  assumes "holds_new meta base pages r" and "fetch base pages a = Some b"
  shows "read_at r a = Inr b"
proof -
  have "unat (fst a) = base + (unat (fst a) - base)" using assms(2) by (auto simp: fetch_def Let_def split: if_splits)
  with assms show ?thesis
    by (auto simp: fetch_def Let_def holds_new_def read_at_def read_page_item_at_def split: if_splits)
qed

lemma length_element_addrs [simp]: "length (element_addrs x base) = node_count x"
  by (simp add: element_addrs_def)

text \<open>What a node's images make of the pages: its element, live, and its neighbours on every layer.\<close>

definition node_images :: "relation \<Rightarrow> hnsw_index \<Rightarrow> addr list \<Rightarrow> nat \<Rightarrow> bytes \<Rightarrow> element_view \<Rightarrow> bytes \<Rightarrow> bool" where
  "node_images r x ea i b v nb \<longleftrightarrow> read_at r (ea ! i) = Inr b \<and> decode_element b = Inr v \<and>
     ev_level v = of_nat (hx_levels x ! i) \<and> ev_tid v = hx_ids x ! i \<and> ev_vec v = f32s_bytes (hx_vectors x ! i) \<and>
     \<not> ev_deleted v \<and> read_at r (ev_nbr_addr v) = Inr nb \<and> nbr_tuple_ok x ea i nb"

lemma represents_read:
  assumes "holds_new mb base pages r" and "\<forall>i < n. represents_node x ea base pages i" and "i < n"
  obtains b v nb where "node_images r x ea i b v nb"
proof -
  obtain b v nb where "fetch base pages (ea ! i) = Some b" "decode_element b = Inr v"
    "ev_level v = of_nat (hx_levels x ! i)" "ev_tid v = hx_ids x ! i" "ev_vec v = f32s_bytes (hx_vectors x ! i)"
    "\<not> ev_deleted v" "fetch base pages (ev_nbr_addr v) = Some nb" "nbr_tuple_ok x ea i nb"
    using assms(2,3) unfolding represents_node_def by blast
  then have "node_images r x ea i b v nb" using fetch_read_at [OF assms(1)] by (simp add: node_images_def)
  then show ?thesis by (rule that)
qed

lemma images_element: "node_images r x ea i b v nb \<Longrightarrow> element_at r (ea ! i) w \<longleftrightarrow> w = v"
  by (auto simp: node_images_def element_at_def)

lemma packed_graph_at:
  assumes wf: "hnsw_wf x" and dim: "uniform_dim x" and fit: "params_fit x" and r: "holds_new mb base pages r"
    and rep: "\<forall>i < node_count x. represents_node x ea base pages i" and ea: "length ea = node_count x"
  shows "graph_at r (hx_m x) (hx_m0 x) (hnsw_dim x) (set ea)"
  unfolding graph_at_def
proof
  fix a assume "a \<in> set ea"
  then obtain i where i: "i < node_count x" "a = ea ! i" by (auto simp: in_set_conv_nth ea)
  obtain b v nb where im: "node_images r x ea i b v nb" by (rule represents_read [OF r rep i(1)])
  then have v: "read_at r (ea ! i) = Inr b" "decode_element b = Inr v" "ev_level v = of_nat (hx_levels x ! i)"
    "ev_vec v = f32s_bytes (hx_vectors x ! i)" "read_at r (ev_nbr_addr v) = Inr nb" "nbr_tuple_ok x ea i nb"
    by (simp_all add: node_images_def)
  have n: "i < length (hx_vectors x)" using i(1) by (simp add: node_count_def)
  have core: "core_wf x" using wf by (simp add: hnsw_wf_def)
  then have "hx_levels x ! i \<in> set (hx_levels x)" using n by (simp add: core_wf_def)
  then have "hx_levels x ! i < 2 ^ LENGTH(8)" using fit by (fastforce simp: params_fit_def)
  then have l: "unat (ev_level v) = hx_levels x ! i" unfolding v(3) by (simp add: unsigned_of_nat take_bit_nat_eq_self)
  have "\<exists>as. decode_neighbors nb (hx_levels x ! i) lc (hx_m x) (hx_m0 x) = Inr as \<and> set as \<subseteq> set ea" for lc
  proof (cases "lc \<le> hx_levels x ! i")
    case True
    then have "decode_neighbors nb (hx_levels x ! i) lc (hx_m x) (hx_m0 x) = Inr (map ((!) ea) (hx_neighbors x ! i ! lc))"
      using v(6) by (simp add: nbr_tuple_ok_def)
    moreover have "nb' < length ea" if "nb' \<in> set (hx_neighbors x ! i ! lc)" for nb'
      using node_neighbors_wf(3) [OF core n True that] by (simp add: ea node_count_def)
    ultimately show ?thesis by auto
  next
    case False
    have "decode_neighbors nb (hx_levels x ! i) 0 (hx_m x) (hx_m0 x) = Inr (map ((!) ea) (hx_neighbors x ! i ! 0))"
      using v(6) by (simp add: nbr_tuple_ok_def)
    with False show ?thesis by (simp add: decode_neighbors_def split: if_splits)
  qed
  moreover have "length (ev_vec v) = hnsw_dim x * 4"
    using dim n by (simp add: v(4) uniform_dim_def)
  ultimately have "node_at r (hx_m x) (hx_m0 x) (hnsw_dim x) (set ea) v"
    using v(5) by (simp add: node_at_def l)
  with v(1,2) i(2) show "\<exists>b v. read_at r a = Inr b \<and> decode_element b = Inr v \<and> node_at r (hx_m x) (hx_m0 x) (hnsw_dim x) (set ea) v"
    by blast
qed

text \<open>The rows of a corpus: every TID with the distance of its vector to the query.\<close>

definition corpus_rows :: "scan_env \<Rightarrow> metric \<Rightarrow> f32_bits list \<Rightarrow> entry list \<Rightarrow> scored list" where
  "corpus_rows env metric q corpus = map (\<lambda>(tid, v). (tid, score_bytes env metric q (f32s_bytes v))) corpus"

lemma live_rows_iff:
  "p \<in> live_rows env rel metric q A \<longleftrightarrow>
     (\<exists>a \<in> A. \<exists>v. element_at rel a v \<and> \<not> ev_deleted v \<and> p = (ev_tid v, score_bytes env metric q (ev_vec v)))"
  unfolding live_rows_def by blast

lemma packed_live_rows:
  assumes r: "holds_new mb base pages r" and rep: "\<forall>i < node_count x. represents_node x ea base pages i"
    and ea: "length ea = node_count x" and ids: "length (hx_ids x) = length (hx_vectors x)"
  shows "live_rows env r metric q (set ea) = set (corpus_rows env metric q (zip (hx_ids x) (hx_vectors x)))"
proof -
  let ?row = "\<lambda>i. (hx_ids x ! i, score_bytes env metric q (f32s_bytes (hx_vectors x ! i)))"
  have row: "(\<exists>v. element_at r (ea ! i) v \<and> \<not> ev_deleted v \<and> p = (ev_tid v, score_bytes env metric q (ev_vec v))) \<longleftrightarrow> p = ?row i"
    if i: "i < node_count x" for i p
  proof -
    obtain b v nb where im: "node_images r x ea i b v nb" by (rule represents_read [OF r rep i])
    then show ?thesis using images_element [OF im] by (auto simp: node_images_def)
  qed
  have "live_rows env r metric q (set ea) = ?row ` {..<node_count x}"
  proof (rule set_eqI)
    fix p
    have "set ea = (!) ea ` {..<node_count x}" using nth_image [of "length ea" ea] by (simp add: ea lessThan_atLeast0)
    then have "p \<in> live_rows env r metric q (set ea) \<longleftrightarrow> (\<exists>i < node_count x. \<exists>v. element_at r (ea ! i) v \<and> \<not> ev_deleted v \<and>
        p = (ev_tid v, score_bytes env metric q (ev_vec v)))"
      unfolding live_rows_iff by auto
    also have "\<dots> \<longleftrightarrow> (\<exists>i < node_count x. p = ?row i)" using row by blast
    finally show "p \<in> live_rows env r metric q (set ea) \<longleftrightarrow> p \<in> ?row ` {..<node_count x}" by auto
  qed
  also have "\<dots> = set (corpus_rows env metric q (zip (hx_ids x) (hx_vectors x)))"
    using ids by (force simp: corpus_rows_def set_zip node_count_def image_iff)
  finally show ?thesis .
qed

section \<open>The blocks of a built index\<close>

text \<open>What the scan reads of the meta a graph is packed with.\<close>

definition packed_meta :: "hnsw_index \<Rightarrow> nat \<Rightarrow> hnsw_meta \<Rightarrow> bool" where
  "packed_meta x base meta \<longleftrightarrow> hm_aq_m meta = 0 \<and> hm_sbq_bits meta = 0 \<and>
     metric_from_tag (hm_metric_tag meta) = Some (hx_metric x) \<and> unat (hm_dim meta) = hnsw_dim x \<and>
     (hm_node_count meta = 0 \<longleftrightarrow> hx_vectors x = []) \<and>
     (hx_vectors x \<noteq> [] \<longrightarrow> unat (hm_m meta) = hx_m x \<and> unat (hm_m0 meta) = hx_m0 x \<and>
        (\<exists>e < node_count x. hx_entry x = Some e \<and> sint (hm_entry_level meta) = int (hx_levels x ! e) \<and>
           (hm_entry_blkno meta, hm_entry_offno meta) = element_addrs x base ! e))"

lemma packed_meta_entry:
  assumes "packed_meta x base meta" and "hx_vectors x \<noteq> []"
  shows "0 \<le> sint (hm_entry_level meta)" "(hm_entry_blkno meta, hm_entry_offno meta) \<in> set (element_addrs x base)"
  using assms by (auto simp: packed_meta_def)

lemma pack_scannable:
  assumes wf: "hnsw_wf x" and dim: "uniform_dim x" and fit: "levels_fit x" "params_fit x" and size: "base + 2 * node_count x < 2 ^ 32"
  obtains p meta where "pack_at (train_codes quant) x base 0 = Inr p" "decode_meta (pk_meta p) = Inr meta" "packed_meta x base meta"
    "\<forall>i < node_count x. represents_node x (element_addrs x base) base (pk_pages p) i"
    "unat (pending_start meta) = base + length (pk_pages p)"
proof (cases "hx_vectors x = []")
  case False
  have "train_codes quant x NoCode = Inr no_codes" by (simp add: train_codes_def)
  from pack_kind_represents [where train = "train_codes quant" and kind = NoCode, OF wf False dim fit(1) disjI1 [OF refl] this
      spec_ok_no_codes size] obtain p meta e where p: "pack_kind (train_codes quant) x base NoCode = Inr p"
    "\<forall>i < node_count x. represents_node x (element_addrs x base) base (pk_pages p) i"
    "decode_meta (pk_meta p) = Inr meta" "hx_entry x = Some e"
    "(hm_entry_blkno meta, hm_entry_offno meta) = element_addrs x base ! e"
    "unat (pending_start meta) = base + length (pk_pages p)" "holds_elements x base (pk_pages p) meta"
    "hm_sbq_bits meta = 0" "meta_params x e meta"
    by (auto simp: no_codes_def element_addrs_def)
  have core: "core_wf x" and e: "e < node_count x"
    using wf p(4) by (simp_all add: hnsw_wf_def entry_wf_def node_count_def)
  have n: "0 < node_count x" using False by (simp add: node_count_def)
  have "hx_levels x ! e \<in> set (hx_levels x)" using core e by (simp add: core_wf_def node_count_def)
  then have l: "hx_levels x ! e < 2 ^ 7" using fit(2) by (simp add: params_fit_def)
  have "packed_meta x base meta"
    unfolding packed_meta_def
  proof (intro conjI impI)
    have "hx_levels x ! e < 2 ^ (LENGTH(16) - 1)" using l by simp
    then have "sint (of_nat (hx_levels x ! e) :: i16) = int (hx_levels x ! e)"
      by (simp add: signed_of_nat signed_take_bit_int_eq_self)
    then show "\<exists>e < node_count x. hx_entry x = Some e \<and> sint (hm_entry_level meta) = int (hx_levels x ! e) \<and>
        (hm_entry_blkno meta, hm_entry_offno meta) = element_addrs x base ! e"
      using p(4,5,9) e by (simp add: meta_params_def)
    have "unat (of_nat (node_count x) :: u32) = node_count x" using size by (intro unat_of_nat_u32) linarith
    with n have "(of_nat (node_count x) :: u32) \<noteq> 0" by (metis unsigned_0 less_not_refl)
    then show "hm_node_count meta = 0 \<longleftrightarrow> hx_vectors x = []" using p(9) False by (simp add: meta_params_def)
    show "unat (hm_dim meta) = hnsw_dim x" using p(9) dim by (simp add: meta_params_def uniform_dim_def)
    show "unat (hm_m meta) = hx_m x" "unat (hm_m0 meta) = hx_m0 x" using p(9) fit(2) by (simp_all add: meta_params_def params_fit_def)
  qed (use p(7,8) in \<open>simp_all add: holds_elements_def\<close>)
  with p that show ?thesis by (simp add: pack_at_def)
next
  case True
  let ?m = "empty_meta x base"
  have "decode_meta (encode_meta ?m) = Inr ?m"
    using meta_roundtrip [of ?m] by (simp add: meta_wf_def empty_meta_def)
  moreover have "unat (pending_start ?m) = base" using size
    by (simp add: pending_start_def empty_meta_def)
  moreover have "packed_meta x base ?m" using True
    by (simp add: packed_meta_def empty_meta_def hnsw_dim_def)
  ultimately show ?thesis using True by (intro that [of "\<lparr>pk_meta = encode_meta ?m, pk_pages = []\<rparr>" ?m])
    (simp_all add: pack_at_def pack_kind_def node_count_def Let_def)
qed

lemma packed_scanned:
  assumes wf: "hnsw_wf x" and dim: "uniform_dim x" and fit: "params_fit x" and meta: "packed_meta x base meta" "decode_meta mb = Inr meta"
    and rep: "\<forall>i < node_count x. represents_node x (element_addrs x base) base pages i"
    and r: "holds_new mb base pages r" "1 \<le> base" and ps: "read_pending r = Inr ps"
  shows "scanned r meta (hx_metric x) (set (element_addrs x base)) ps"
proof -
  have "r \<noteq> []" "r ! 0 = [mb]" using r by (auto simp: holds_new_def)
  then have "read_meta r = Inr meta" using meta by (intro decode_meta_read) (simp_all add: packed_meta_def)
  moreover have "graph_at r (unat (hm_m meta)) (unat (hm_m0 meta)) (unat (hm_dim meta)) (set (element_addrs x base))" if "hx_vectors x \<noteq> []"
    using packed_graph_at [OF wf dim fit r(1) rep] meta(1) that by (simp add: packed_meta_def)
  ultimately show ?thesis using meta(1) ps packed_meta_entry [OF meta(1)]
    by (auto simp: scanned_def exact_index_def packed_meta_def)
qed

text \<open>An empty fork after the build has written the images: the meta block and the pages behind it.\<close>

abbreviation fork_of :: "packed \<Rightarrow> relation" where
  "fork_of p \<equiv> [pk_meta p] # pk_pages p"

lemma write_structured_fork:
  assumes "page_fits [pk_meta p]" and "\<forall>page \<in> set (pk_pages p). page_fits page"
  shows "write_structured [] p = Inr (fork_of p)"
proof -
  have "iter_r extend_page_with_items rel pages = Inr (rel @ pages)" if "\<forall>page \<in> set pages. page_fits page" for rel pages
    using that by (induction pages arbitrary: rel) (simp_all add: extend_page_with_items_def)
  with assms show ?thesis by (simp add: write_structured_def extend_page_with_items_def)
qed

lemma packed_written:
  assumes "hnsw_wf x" "uniform_dim x" "levels_fit x" and "1 + 2 * node_count x < 2 ^ 32" and "dim_fits (hnsw_dim x)"
    and "pack_at (train_codes quant) x 1 0 = Inr p"
  shows "write_structured [] p = Inr (fork_of p)"
proof -
  have m: "hm_aq_m fresh_meta = 0" "hm_sbq_bits fresh_meta = 0"
    by (simp_all add: fresh_meta_def empty_meta_def)
  from pack_fold_layout_ok [OF assms(1-3) m assms(4,5), of quant "\<lambda>_. Inl NoEntry"] assms(6) m
  have "page_fits [pk_meta p]" "\<forall>page \<in> set (pk_pages p). page_fits page"
    by (auto simp: pack_fold_layout_def)
  then show ?thesis by (rule write_structured_fork)
qed

lemma written_holds: "holds_new (pk_meta p) 1 (pk_pages p) (fork_of p)"
  by (simp add: holds_new_def)

lemma written_pending:
  assumes "decode_meta (pk_meta p) = Inr meta" and "hm_aq_m meta = 0" and "unat (pending_start meta) = 1 + length (pk_pages p)"
  shows "read_pending (fork_of p) = Inr []"
proof -
  let ?r = "fork_of p"
  have "read_meta ?r = Inr meta" using assms(1,2) by (intro decode_meta_read) simp_all
  then have "pending_layout ?r = Inr (pending_start meta, length ?r)" by (rule stored_magic(3) [OF _ assms(2)])
  then show ?thesis using assms(3) by (simp add: read_pending_def)
qed

lemma corpus_dim:
  assumes "hx_vectors x = map snd corpus" and "\<forall>e \<in> set corpus. length (snd e) = d" and "d < 2 ^ 16"
  shows "uniform_dim x" and "corpus \<noteq> [] \<Longrightarrow> hnsw_dim x = d"
proof -
  show d: "hnsw_dim x = d" if "corpus \<noteq> []" using that assms(1,2) by (cases corpus) (auto simp: hnsw_dim_def)
  show "uniform_dim x" using d assms by (cases "corpus = []") (auto simp: uniform_dim_def hnsw_dim_def)
qed

text \<open>A query of the index built from a corpus.\<close>

lemma built_scanned:
  assumes dims: "\<forall>e \<in> set corpus. length (snd e) = d" "d < 2 ^ 16" and size: "1 + 2 * length corpus < 2 ^ 32"
    and some: "corpus \<noteq> [] \<or> 0 < be_threshold benv"
  obtains x p meta where "build_owned benv (hnsw_m_from_relation opt) efc seed metric corpus = Some x"
    "pack_at (train_codes quant) x 1 0 = Inr p" "scanned (fork_of p) meta metric (set (element_addrs x 1)) []"
    "corpus \<noteq> [] \<Longrightarrow> unat (hm_dim meta) = d"
    "\<And>env q. live_rows env (fork_of p) metric q (set (element_addrs x 1)) = set (corpus_rows env metric q corpus)"
proof -
  from owned.build_ok [OF some, of opt efc seed metric] obtain x where
    x: "build_owned benv (hnsw_m_from_relation opt) efc seed metric corpus = Some x" "hnsw_wf x" "levels_fit x"
      "hx_metric x = metric" "hx_ids x = map fst corpus" "hx_vectors x = map snd corpus" and fit: "params_fit x" by blast
  note dim = corpus_dim [OF x(6) dims]
  have n: "1 + 2 * node_count x < 2 ^ 32" using size by (simp add: node_count_def x(6))
  obtain p meta where p: "pack_at (train_codes quant) x 1 0 = Inr p" "decode_meta (pk_meta p) = Inr meta" "packed_meta x 1 meta"
    "\<forall>i < node_count x. represents_node x (element_addrs x 1) 1 (pk_pages p) i"
    "unat (pending_start meta) = 1 + length (pk_pages p)"
    by (rule pack_scannable [OF x(2) dim(1) x(3) fit n])
  have aq: "hm_aq_m meta = 0" using p(3) by (simp add: packed_meta_def)
  have "scanned (fork_of p) meta metric (set (element_addrs x 1)) []"
    using packed_scanned [OF x(2) dim(1) fit p(3,2,4) written_holds _ written_pending [OF p(2) aq p(5)]] by (simp add: x(4))
  moreover have "live_rows env (fork_of p) metric q (set (element_addrs x 1)) = set (corpus_rows env metric q corpus)" for env q
    using packed_live_rows [OF written_holds p(4)] x(5,6) by (simp add: zip_map_fst_snd)
  moreover have "unat (hm_dim meta) = d" if "corpus \<noteq> []" using p(3) dim(2) [OF that] by (simp add: packed_meta_def)
  ultimately show ?thesis using x(1) p(1) by (intro that)
qed

section \<open>A wide beam is an exact query\<close>

text \<open>Every node can be reached from every other over the ground layer.\<close>

definition ground_edges :: "hnsw_index \<Rightarrow> (nat \<times> nat) set" where
  "ground_edges x = {(i, j). i < node_count x \<and> j \<in> set (hx_neighbors x ! i ! 0)}"

definition ground_connected :: "hnsw_index \<Rightarrow> bool" where
  "ground_connected x \<longleftrightarrow> (\<forall>i < node_count x. \<forall>j < node_count x. (i, j) \<in> (ground_edges x)\<^sup>*)"

lemma packed_page_node:
  assumes r: "holds_new mb base pages r" and rep: "\<forall>i < node_count x. represents_node x ea base pages i"
    and core: "core_wf x" and dim: "uniform_dim x" and fit: "params_fit x" and i: "i < node_count x" and q: "length q = hnsw_dim x"
  obtains c where "page_node env r metric q Exact (addr_key (ea ! i)) = c" "\<not> pc_deleted c" "pc_tid c = hx_ids x ! i"
    "pc_d c = score_bytes env metric q (f32s_bytes (hx_vectors x ! i))"
    "neighbors_of r c 0 (hx_m x) (hx_m0 x) = Inr (map ((!) ea) (hx_neighbors x ! i ! 0))"
proof -
  obtain b v nb where im: "node_images r x ea i b v nb" by (rule represents_read [OF r rep i])
  have n: "i < length (hx_vectors x)" using i by (simp add: node_count_def)
  have "hx_levels x ! i \<in> set (hx_levels x)" using n core by (simp add: core_wf_def)
  then have "hx_levels x ! i < 2 ^ 8" using fit by (fastforce simp: params_fit_def)
  then have l: "unat (ev_level v) = hx_levels x ! i" using im by (simp add: node_images_def)
  have "length (ev_vec v) = length q * 4" using im dim n q by (simp add: node_images_def uniform_dim_def)
  then have c: "page_node env r metric q Exact (addr_key (ea ! i)) = cand_of env metric q (ea ! i) v"
    using im by (simp add: page_node_def load_cand_def score_def cand_of_def node_images_def)
  show ?thesis
    by (rule that [OF c]) (use im l in \<open>simp_all add: cand_of_def node_images_def neighbors_of_def nbr_tuple_ok_def\<close>)
qed

lemma packed_reach:
  assumes r: "holds_new mb base pages r" and rep: "\<forall>i < node_count x. represents_node x ea base pages i"
    and core: "core_wf x" and dim: "uniform_dim x" and fit: "params_fit x" and q: "length q = hnsw_dim x"
    and ea: "length ea = node_count x" and conn: "ground_connected x" and a: "a \<in> set ea"
  shows "addr_key ` set ea \<subseteq> pages.reach env r metric q Exact (hx_m x) (hx_m0 x) (addr_key a)"
proof
  fix k assume "k \<in> addr_key ` set ea"
  then obtain i j where ij: "i < node_count x" "a = ea ! i" "j < node_count x" "k = addr_key (ea ! j)"
    using a by (auto simp: in_set_conv_nth ea)
  have "(i, j) \<in> (ground_edges x)\<^sup>*" using conn ij(1,3) by (simp add: ground_connected_def)
  then have "linked (page_adj env r metric q Exact (hx_m x) (hx_m0 x)) (\<lambda>_. True) (addr_key a) (addr_key (ea ! j))"
  proof (induction rule: rtrancl_induct)
    case base
    then show ?case by (simp add: ij(2) linked_refl)
  next
    case (step j k)
    then have j: "j < node_count x" "k \<in> set (hx_neighbors x ! j ! 0)" by (simp_all add: ground_edges_def)
    obtain c where c: "page_node env r metric q Exact (addr_key (ea ! j)) = c"
      "neighbors_of r c 0 (hx_m x) (hx_m0 x) = Inr (map ((!) ea) (hx_neighbors x ! j ! 0))"
      using packed_page_node [OF r rep core dim fit j(1) q] by metis
    have "addr_key (ea ! k) \<in> set (page_adj env r metric q Exact (hx_m x) (hx_m0 x) (addr_key (ea ! j)))"
      using c j(2) by (simp add: page_adj_def)
    then show ?case by (rule linked_step [OF step.IH TrueI])
  qed
  then show "k \<in> pages.reach env r metric q Exact (hx_m x) (hx_m0 x) (addr_key a)" by (simp add: pages.reach_def ij(4))
qed

lemma sort_key_unique:
  assumes "sorted (map f xs)" and "set xs = set ys" and "length xs \<le> card (set ys)" and "inj_on f (set ys)" and "distinct ys"
  shows "xs = sort_key f ys"
proof -
  have "length xs = card (set xs)" using card_length [of xs] assms(2,3) by simp
  then have "distinct xs" by (simp add: card_distinct)
  then have "mset xs = mset ys" using assms(2,5) by (simp add: set_eq_iff_mset_eq_distinct)
  then show ?thesis using assms(1,4) by (intro sort_key_inj_key_eq [symmetric]) simp_all
qed

text \<open>A beam as wide as the graph finds all of it, when the ground layer is connected and no distance is NaN.\<close>

lemma traverse_complete:
  assumes x: "exact_index rel meta metric A" and q: "length q = unat (hm_dim meta)" and fin: "finite A" "card A \<le> max ef 1"
    and ne: "0 \<le> sint (hm_entry_level meta)" "hm_node_count meta \<noteq> 0"
    and reach: "\<And>a. a \<in> A \<Longrightarrow> addr_key ` A \<subseteq>
        pages.reach env rel metric q Exact (unat (hm_m meta)) (unat (hm_m0 meta)) (addr_key a)"
    and nan: "\<And>a v. a \<in> A \<Longrightarrow> element_at rel a v \<Longrightarrow> \<not> f64_is_nan (score_bytes env metric q (ev_vec v))"
    and out: "traverse_index env rel meta q ef over_fetch = Inr out"
  shows "live_rows env rel metric q A \<subseteq> set out" and "length out \<le> card A"
proof -
  let ?deg = "unat (hm_m meta)" and ?grd = "unat (hm_m0 meta)"
  have g: "graph_at rel ?deg ?grd (length q) A" and ea: "(hm_entry_blkno meta, hm_entry_offno meta) \<in> A"
    using x ne q by (simp_all add: exact_index_def)
  obtain ep where ep: "descend_entry env rel meta metric q Exact = Inr ep" "loaded env rel metric q A ep"
    by (rule descend_entry_ok [OF g ea])
  let ?src = "page_source env rel metric q Exact ?deg ?grd" and ?node = "page_node env rel metric q Exact"
    and ?adj = "page_adj env rel metric q Exact ?deg ?grd"
  let ?e = "addr_key (pc_addr ep)"
  have K: "neighbor_graph ?src ?node (addr_key ` A) ?adj" by (rule walkable_graph [OF graph_walkable [OF g]])
  have e: "?e \<in> addr_key ` A" "ep = ?node ?e" "pc_addr ep \<in> A" using ep(2) loaded_node(1) [OF g ep(2)] by (simp_all add: loaded_def)
  have sub: "pages.reach env rel metric q Exact ?deg ?grd ?e \<subseteq> addr_key ` A" by (rule page_reach [OF g e(3)])
  obtain nodes n where s: "ground_search_nodes ?src (?node ?e) (max ef 1) = Inr (nodes, n)"
    "distinct (map (ns_node_key ?src \<circ> fst) nodes)"
    "\<forall>(x, d) \<in> set nodes. \<exists>k \<in> pages.reach env rel metric q Exact ?deg ?grd ?e.
       pages.live env rel metric q Exact ?deg ?grd k \<and> x = ?node k \<and> d = ns_dist ?src (?node k)"
    using pages.ground_search_sound [OF loaded_node(2) [OF g ep(2)], of "max ef 1"] by (auto simp del: max.left_idem)
  have outs: "out = map (\<lambda>(n, d). (pc_tid n, d)) nodes"
    using out x ne ep(1) s(1) e(2) by (simp add: traverse_index_def meta_metric_def exact_index_def query_scorer_exact Let_def not_le [symmetric])
  have real: "neighbor_graph.real ?src ?node (addr_key ` A)"
    unfolding neighbor_graph.real_def [OF K]
  proof
    fix k assume "k \<in> addr_key ` A"
    then obtain a where a: "a \<in> A" "k = addr_key a" by blast
    obtain v where v: "element_at rel a v" "load_cand env rel metric q Exact a = Inr (cand_of env metric q a v)" by (rule graph_load [OF g a(1)])
    from nan [OF a(1) v(1)] v(2) show "\<not> f64_is_nan (ns_dist ?src (?node k))" by (simp add: page_node_def a(2) cand_of_def page_source_def)
  qed
  have "card {k \<in> pages.reach env rel metric q Exact ?deg ?grd ?e. pages.live env rel metric q Exact ?deg ?grd k} \<le> card (addr_key ` A)"
    using sub fin(1) by (intro card_mono) auto
  also have "\<dots> \<le> card A" by (rule card_image_le [OF fin(1)])
  finally have c: "card {k \<in> pages.reach env rel metric q Exact ?deg ?grd ?e. pages.live env rel metric q Exact ?deg ?grd k} \<le> card A" .
  then have "set nodes = (\<lambda>k. (?node k, ns_dist ?src (?node k))) `
      {k \<in> pages.reach env rel metric q Exact ?deg ?grd ?e. pages.live env rel metric q Exact ?deg ?grd k}"
    using neighbor_graph.ground_search_exact [OF K e(1) real s(1)] fin(2) by simp
  note all = this
  have "length nodes = card (set nodes)" using s(2) by (metis distinct_card distinct_map)
  also have "\<dots> \<le> card A" unfolding all
    by (rule order_trans [OF card_image_le c]) (use finite_subset [OF sub] fin(1) in auto)
  finally show "length out \<le> card A" by (simp add: outs)
  show "live_rows env rel metric q A \<subseteq> set out"
  proof
    fix p assume "p \<in> live_rows env rel metric q A"
    then obtain a v where a: "a \<in> A" "element_at rel a v" "\<not> ev_deleted v" "p = (ev_tid v, score_bytes env metric q (ev_vec v))"
      unfolding live_rows_iff by blast
    obtain w where w: "element_at rel a w" "load_cand env rel metric q Exact a = Inr (cand_of env metric q a w)" by (rule graph_load [OF g a(1)])
    have "w = v" using w(1) a(2) by (auto simp: element_at_def)
    then have nd: "?node (addr_key a) = cand_of env metric q a v" using w(2) by (simp add: page_node_def)
    have "pages.live env rel metric q Exact ?deg ?grd (addr_key a)"
      using a(3) unfolding pages.live_def by (simp add: nd cand_of_def page_source_def)
    moreover have "addr_key a \<in> pages.reach env rel metric q Exact ?deg ?grd ?e" using reach [OF e(3)] a(1) by blast
    ultimately have "(?node (addr_key a), ns_dist ?src (?node (addr_key a))) \<in> set nodes" unfolding all by blast
    then show "p \<in> set out" unfolding outs nd
      by (force simp: a(4) cand_of_def page_source_def)
  qed
qed

text \<open>The TIDs a heap without repeated or handed-out TIDs gives come first, in its order.\<close>

lemma pull_heap:
  assumes "\<not> sn_unordered st" and "distinct (map fst (sn_heap st))" and "fst ` set (sn_heap st) \<inter> sn_emitted st = {}"
    and "length (sn_heap st) \<le> n" and "pull_tids env cfg rel n st = Inr ts"
  shows "\<exists>rest. ts = map fst (sn_heap st) @ rest"
  using assms
proof (induction "sn_heap st" arbitrary: st n ts)
  case Nil
  then show ?case by simp
next
  case (Cons r rest)
  obtain t d where r: "r = (t, d)" by fastforce
  obtain k where n: "n = Suc k" using Cons by (cases n) auto
  let ?st = "st\<lparr>sn_heap := rest, sn_emitted := insert t (sn_emitted st)\<rparr>"
  have h: "sn_heap st = (t, d) # rest" using Cons(2) r by simp
  have "t \<notin> sn_emitted st" using Cons.prems(3) by (simp add: h)
  then have "amgettuple env cfg rel st = Inr (?st, Some t)"
    using Cons.prems(1) by (subst amgettuple.simps) (simp add: h)
  with Cons.prems(5) obtain ts' where ts: "pull_tids env cfg rel k ?st = Inr ts'" "ts = t # ts'" by (auto simp: n bind_r_Inr_iff)
  have "\<exists>u. ts' = map fst (sn_heap ?st) @ u"
    by (rule Cons(1) [OF _ _ _ _ _ ts(1)]) (use Cons.prems h n in auto)
  with ts(2) h show ?case by auto
qed

lemma index_scan_ok:
  assumes "scanned rel meta metric A ps" and "query_fits meta q"
  obtains st ts where "amrescan env cfg rel (OrderBy q) ambeginscan = Inr st" "sn_emitted st = {}" "\<not> sn_unordered st"
    "\<And>n. card (fst ` live_rows env rel metric q A \<union> fst ` set ps) < n \<Longrightarrow> pull_tids env cfg rel n st = Inr ts"
    "\<And>n. card (fst ` live_rows env rel metric q A \<union> fst ` set ps) < n \<Longrightarrow> index_scan env cfg rel (OrderBy q) n = Inr ts"
    "distinct ts" "set ts \<subseteq> fst ` live_rows env rel metric q A \<union> fst ` set ps" "fst ` set ps \<subseteq> set ts"
proof -
  let ?T = "fst ` live_rows env rel metric q A \<union> fst ` set ps"
  obtain st where st: "amrescan env cfg rel (OrderBy q) ambeginscan = Inr st" "sn_emitted st = {}"
    "scan_valid env rel meta metric q A ?T (fst ` set ps) st" using rescan_ok [OF assms] by blast
  from pull_tids_ok [OF assms _ _ st(3), of cfg] st(2) obtain ts where
    "\<forall>n > card ?T. pull_tids env cfg rel n st = Inr ts" "distinct ts" "set ts \<subseteq> ?T" "fst ` set ps \<subseteq> set ts" by auto
  with st that show ?thesis by (simp add: index_scan_def scan_valid_def)
qed

section \<open>Properties\<close>

text \<open>C9: A scan of an exact index ends, without an error, for every distance kernel, query and setting of the scan
  parameters. It hands out each TID at most once, only TIDs of live elements of the graph or of pending rows, and every
  pending row.\<close>

theorem hnsw_scan_serves:
  assumes "scanned rel meta metric A ps" and "length q = unat (hm_dim meta)"
  shows "\<exists>ts. (\<forall>n > card (fst ` live_rows env rel metric q A \<union> fst ` set ps). index_scan env cfg rel (OrderBy q) n = Inr ts) \<and>
    distinct ts \<and> set ts \<subseteq> fst ` live_rows env rel metric q A \<union> fst ` set ps \<and> fst ` set ps \<subseteq> set ts"
  using index_scan_ok [OF assms(1) query_fits_dim [OF assms(2)]] by metis

theorem hnsw_scan_serves_witness:
  "\<exists>rel ts. index_scan \<lparr>score_bytes = \<lambda>_ _ _. 0, metric_dist = \<lambda>_ _ _. 0, sbq_from_meta = \<lambda>_. Inl [], aq_from_meta = \<lambda>_. Inl []\<rparr>
      \<lparr>gc_ef_search = 40, gc_over_fetch = 4, gc_max_scan_tuples = 20000, gc_resume = True, gc_resume_max_bytes = 0, gc_elem_size = 64\<rparr>
      rel (OrderBy [3]) 9 = Inr ts \<and> distinct ts \<and> set ts \<subseteq> {7, 8}"
proof -
  obtain p :: packed and A meta where s: "scanned (fork_of p) meta L2 A []" "unat (hm_dim meta) = 1"
    and rows: "\<And>env q. live_rows env (fork_of p) L2 q A = set (corpus_rows env L2 q [(7, [0]), (8, [1])])"
  proof (rule built_scanned [of "[(7, [0]), (8, [1])]" 1 racy_env None 64 42 L2 "\<lambda>_ _. Inl NoEntry"])
    fix x p meta
    assume "scanned (fork_of p) meta L2 (set (element_addrs x 1)) []"
      "[(7 :: i64, [0 :: f32_bits]), (8, [1])] \<noteq> [] \<Longrightarrow> unat (hm_dim meta) = 1"
      "\<And>env q. live_rows env (fork_of p) L2 q (set (element_addrs x 1)) = set (corpus_rows env L2 q [(7, [0]), (8, [1])])"
    then show thesis by (intro that) simp_all
  qed simp_all
  have c: "card {7 :: i64, 8} = 2" by simp
  show ?thesis
    using hnsw_scan_serves [OF s(1), of "[3]" "\<lparr>score_bytes = \<lambda>_ _ _. 0, metric_dist = \<lambda>_ _ _. 0, sbq_from_meta = \<lambda>_. Inl [], aq_from_meta = \<lambda>_. Inl []\<rparr>"
        "\<lparr>gc_ef_search = 40, gc_over_fetch = 4, gc_max_scan_tuples = 20000, gc_resume = True, gc_resume_max_bytes = 0, gc_elem_size = 64\<rparr>"]
    by (auto simp: s(2) rows corpus_rows_def c intro!: exI [of _ "fork_of p"])
qed

text \<open>A wide traversal of the pages of a connected graph returns the whole corpus in order.\<close>

lemma packed_traversal:
  assumes wf: "hnsw_wf x" "uniform_dim x" "levels_fit x" "params_fit x" and conn: "ground_connected x" and ids: "distinct (hx_ids x)"
    and q: "length q = hnsw_dim x" and ef: "node_count x \<le> max ef_search 1"
    and nan: "\<forall>v \<in> set (hx_vectors x). \<not> f64_is_nan (score_bytes env (hx_metric x) q (f32s_bytes v))"
    and meta: "packed_meta x 1 meta" and img: "\<forall>i < node_count x. represents_node x (element_addrs x 1) 1 (pk_pages p) i"
    and s: "scanned (fork_of p) meta (hx_metric x) (set (element_addrs x 1)) []"
  shows "traverse_index env (fork_of p) meta q ef_search over =
    Inr (sort_key scored_key (corpus_rows env (hx_metric x) q (zip (hx_ids x) (hx_vectors x))))"
proof -
  let ?r = "fork_of p" and ?ea = "element_addrs x 1"
    and ?rows = "corpus_rows env (hx_metric x) q (zip (hx_ids x) (hx_vectors x))"
  have q': "length q = unat (hm_dim meta)" using q meta by (simp add: packed_meta_def)
  have core: "core_wf x" using wf(1) by (simp add: hnsw_wf_def)
  then have len: "length (hx_ids x) = length (hx_vectors x)" by (simp add: core_wf_def)
  note rows = packed_live_rows [OF written_holds img length_element_addrs len, of env "hx_metric x" q]
  have tids: "map fst ?rows = hx_ids x" using len by (simp add: corpus_rows_def comp_def split_def)
  obtain out where out: "traverse_index env ?r meta q ef_search over = Inr out"
    and o: "set out \<subseteq> set ?rows" "sorted (map scored_key out)"
    using traverse_exact [of ?r meta "hx_metric x" "set ?ea" q env ef_search over] s query_fits_dim [OF q']
    unfolding rows scanned_def by blast
  have "out = sort_key scored_key ?rows"
  proof (rule sort_key_unique [OF o(2)])
    show d: "distinct ?rows" using ids tids distinct_map by metis
    have card: "card (set ?ea) \<le> card (set ?rows)"
      using card_length [of ?ea] distinct_card [OF d] arg_cong [OF tids, of length] len by (simp add: node_count_def)
    show "inj_on scored_key (set ?rows)"
    proof (rule inj_onI)
      fix a b assume "a \<in> set ?rows" "b \<in> set ?rows" "scored_key a = scored_key b"
      moreover from this have "fst a = fst b" by (auto simp: scored_key_def intro: signed_word_eqI)
      ultimately show "a = b" using ids tids by (metis distinct_map inj_onD)
    qed
    have "set ?rows \<subseteq> set out \<and> length out \<le> card (set ?ea)"
    proof (cases "hx_vectors x = []")
      case True
      then show ?thesis using o(1) meta out len
        by (simp add: corpus_rows_def traverse_index_def packed_meta_def)
    next
      case False
      have ne: "0 \<le> sint (hm_entry_level meta)" "hm_node_count meta \<noteq> 0"
        and deg: "unat (hm_m meta) = hx_m x" "unat (hm_m0 meta) = hx_m0 x"
        using meta False packed_meta_entry(1) [OF meta False] by (simp_all add: packed_meta_def)
      have "card (set ?ea) \<le> max (ef_search) 1" using card_length [of ?ea] ef by simp
      moreover have "\<not> f64_is_nan (score_bytes env (hx_metric x) q (ev_vec v))" if a: "a \<in> set ?ea" "element_at ?r a v" for a v
      proof -
        obtain i where i: "i < node_count x" "a = ?ea ! i" using a(1) by (auto simp: in_set_conv_nth)
        obtain b w nb where im: "node_images ?r x ?ea i b w nb" by (rule represents_read [OF written_holds img i(1)])
        then have "ev_vec v = f32s_bytes (hx_vectors x ! i)" using a(2) images_element [OF im] i(2) by (simp add: node_images_def)
        with nan i(1) show ?thesis by (simp add: node_count_def)
      qed
      ultimately show ?thesis
        using traverse_complete [of ?r meta "hx_metric x" "set ?ea" q ef_search, OF _ q' _ _ ne _ _ out] s
          packed_reach [OF written_holds img core wf(2,4) q length_element_addrs conn]
        unfolding rows scanned_def deg by blast
    qed
    then show "set out = set ?rows" "length out \<le> card (set ?rows)" using o(1) card by auto
  qed
  with out show ?thesis by simp
qed

text \<open>C3: With iterative resuming off (\<open>gc_resume\<close> is the setting \<open>theodb_hnsw.resume\<close>, on by default) the index answers like a
  sequential scan when the beam is wide enough. For a well-formed graph whose ground layer is connected, with distinct TIDs, no NaN distance
  to the query and element tuples that fit a page, packed in the f32 layout and written to an empty fork, a scan whose \<open>ef_search\<close>
  is at least the number of rows returns every row, in the order of its distance, the TID breaking ties, whatever the growth of the
  beam adds after it.\<close>

theorem hnsw_query_exact:
  assumes wf: "hnsw_wf x" "uniform_dim x" "levels_fit x" "params_fit x" and conn: "ground_connected x" and ids: "distinct (hx_ids x)"
    and size: "1 + 2 * node_count x < 2 ^ 32" and dim: "ITEMID + maxalign (elem_size (hnsw_dim x) 0) \<le> USABLE" and q: "length q = hnsw_dim x"
    and ef: "node_count x \<le> max (gc_ef_search cfg) 1" and res: "\<not> gc_resume cfg"
    and nan: "\<forall>v \<in> set (hx_vectors x). \<not> f64_is_nan (score_bytes env (hx_metric x) q (f32s_bytes v))"
  shows "\<exists>p rel. pack_at (train_codes quant) x 1 0 = Inr p \<and> write_structured [] p = Inr rel \<and>
    (\<forall>n > node_count x. index_scan env cfg rel (OrderBy q) n =
       Inr (map fst (sort_key scored_key (corpus_rows env (hx_metric x) q (zip (hx_ids x) (hx_vectors x))))))"
proof -
  obtain p meta where p: "pack_at (train_codes quant) x 1 0 = Inr p" "decode_meta (pk_meta p) = Inr meta" "packed_meta x 1 meta"
    "\<forall>i < node_count x. represents_node x (element_addrs x 1) 1 (pk_pages p) i"
    "unat (pending_start meta) = 1 + length (pk_pages p)"
    by (rule pack_scannable [OF wf size])
  let ?r = "fork_of p" and ?ea = "element_addrs x 1"
    and ?rows = "corpus_rows env (hx_metric x) q (zip (hx_ids x) (hx_vectors x))"
  have aq: "hm_aq_m meta = 0" using p(3) by (simp add: packed_meta_def)
  have s: "scanned ?r meta (hx_metric x) (set ?ea) []"
    by (rule packed_scanned [OF wf(1,2,4) p(3,2,4) written_holds _ written_pending [OF p(2) aq p(5)]]) simp
  have q': "length q = unat (hm_dim meta)" using q p(3) by (simp add: packed_meta_def)
  have len: "length (hx_ids x) = length (hx_vectors x)" using wf(1) by (simp add: hnsw_wf_def core_wf_def)
  note rows = packed_live_rows [OF written_holds p(4) length_element_addrs len, of env "hx_metric x" q]
  have tids: "map fst ?rows = hx_ids x" using len by (simp add: corpus_rows_def comp_def split_def)
  define out where outs: "out = sort_key scored_key ?rows"
  note out = packed_traversal [OF wf conn ids q ef nan p(3,4) s, of "gc_over_fetch cfg", folded outs]
  have o: "sorted (map scored_key out)" unfolding outs by simp
  let ?T = "fst ` live_rows env ?r (hx_metric x) q (set ?ea)"
  have d: "distinct (map fst out)" "set out = set ?rows" "length out = node_count x"
  proof -
    have "mset (map fst out) = mset (map fst ?rows)" by (simp add: outs)
    then show "distinct (map fst out)" using ids unfolding tids by (metis mset_eq_imp_distinct_iff)
  qed (use outs len in \<open>simp_all add: corpus_rows_def node_count_def\<close>)
  then have T: "?T = set (map fst out)" "card ?T = node_count x"
    unfolding rows using distinct_card [OF d(1)] by simp_all
  have "resumable_init env (gc_resume cfg) ?r meta q (gc_ef_search cfg) = Inr None" using res by (simp add: resumable_init_def)
  then have g: "rescan_gather env cfg ?r q = Inr (out, None)"
    using s q' out by (simp add: rescan_gather_def gather_hnsw_candidates_def check_query_dim_def pending_scored_def
        scanned_def exact_index_def meta_metric_def)
  obtain st ts where t: "amrescan env cfg ?r (OrderBy q) ambeginscan = Inr st" "sn_emitted st = {}" "\<not> sn_unordered st"
    "\<And>n. card ?T < n \<Longrightarrow> pull_tids env cfg ?r n st = Inr ts"
    "\<And>n. card ?T < n \<Longrightarrow> index_scan env cfg ?r (OrderBy q) n = Inr ts" "distinct ts" "set ts \<subseteq> ?T"
    by (rule index_scan_ok [OF s query_fits_dim [OF q'], of env cfg]) simp
  have heap: "sn_heap st = out" using t(1) g properties_for_sort_key [OF refl refl o] by (auto simp: amrescan_def heapify_def)
  obtain rest where rest: "ts = map fst out @ rest"
    using pull_heap [OF t(3) _ _ _ t(4) [of "Suc (node_count x)"]] d t(2) heap T(2) by auto
  then have "ts = map fst out" using t(6,7) T(1) by (cases rest) auto
  moreover have "write_structured [] p = Inr ?r" by (rule packed_written [OF wf(1-3) size dim [folded dim_fits_def] p(1)])
  ultimately show ?thesis using p(1) t(5) T(2) outs by auto
qed

lemma two_nodes_wf:
  "hnsw_wf two_nodes" "uniform_dim two_nodes" "levels_fit two_nodes" "params_fit two_nodes"
  by (simp_all add: two_nodes_def hnsw_wf_def core_wf_def entry_wf_def node_wf_def node_count_def uniform_dim_def hnsw_dim_def
      levels_fit_def params_fit_def nbr_size_def nbr_slots_def layout_defs maxalign_def less_Suc_eq layer_degree_def)

lemma two_nodes_size: "1 + 2 * node_count two_nodes < 2 ^ 32"
proof -
  have "node_count two_nodes = 2" by (simp add: two_nodes_def node_count_def)
  then show ?thesis by simp
qed

lemma ground_connected_two: "ground_connected two_nodes"
proof -
  have "(0, 1) \<in> ground_edges two_nodes" "(1, 0) \<in> ground_edges two_nodes"
    by (simp_all add: ground_edges_def two_nodes_def node_count_def)
  then show ?thesis
    by (auto simp: ground_connected_def node_count_def two_nodes_def less_2_cases_iff numeral_2_eq_2 less_Suc_eq)
qed

theorem hnsw_query_exact_witness:
  "\<exists>p rel. write_structured [] p = Inr rel \<and> index_scan \<lparr>score_bytes = \<lambda>_ _ vb. if vb ! 0 = 1 then 0 else 1, metric_dist = \<lambda>_ _ _. 0, sbq_from_meta = \<lambda>_. Inl [], aq_from_meta = \<lambda>_. Inl []\<rparr>
      \<lparr>gc_ef_search = 40, gc_over_fetch = 4, gc_max_scan_tuples = 20000, gc_resume = False, gc_resume_max_bytes = 0, gc_elem_size = 64\<rparr>
      rel (OrderBy [1]) 9 = Inr [8, 7]"
proof -
  let ?env = "\<lparr>score_bytes = \<lambda>_ _ vb. if vb ! 0 = 1 then 0 else 1, metric_dist = \<lambda>_ _ _. 0, sbq_from_meta = \<lambda>_. Inl [], aq_from_meta = \<lambda>_. Inl []\<rparr> :: scan_env"
    and ?cfg = "\<lparr>gc_ef_search = 40, gc_over_fetch = 4, gc_max_scan_tuples = 20000, gc_resume = False, gc_resume_max_bytes = 0, gc_elem_size = 64\<rparr>"
  have b: "f32s_bytes [0] ! 0 = 0" "f32s_bytes [1] ! 0 = 1" by code_simp+
  have nan: "\<not> f64_is_nan 0" "\<not> f64_is_nan 1" "f64_total_key 0 < f64_total_key 1"
    by (simp_all add: f64_is_nan_def f64_total_key_def f64_inf_mag_def f64_mag_def f64_neg_def)
  have x: "hx_metric two_nodes = L2" "hx_vectors two_nodes = [[0], [1]]" "hx_ids two_nodes = [7, 8]" "node_count two_nodes = 2"
    "hnsw_dim two_nodes = 1" by (simp_all add: two_nodes_def node_count_def hnsw_dim_def)
  have sorted: "map fst (sort_key scored_key (corpus_rows ?env L2 [1] (zip [7, 8] [[0], [1]]))) = [8, 7]"
    using nan(3) by (simp add: corpus_rows_def b scored_key_def)
  have real: "\<not> f64_is_nan (if c then 0 else 1)" for c using nan by simp
  have "\<exists>p rel. write_structured [] p = Inr rel \<and> (\<forall>n > 2. index_scan ?env ?cfg rel (OrderBy [1]) n = Inr [8, 7])"
    using hnsw_query_exact [OF two_nodes_wf ground_connected_two, of "[1]" ?cfg ?env "\<lambda>_ _. Inl NoEntry"] small_dims(3) [unfolded dim_fits_def]
    unfolding x sorted by (auto simp: real)
  then show ?thesis by (meson less_numeral_simps rel_simps)
qed

text \<open>
  A NaN distance with the sign bit set (what \<open>0.0 / 0.0\<close> gives on x86, the cosine distance of a zero vector) is ordered
  before every number by \<open>total_cmp\<close>: its row is served first, not last.
\<close>

lemma negative_nan_first:
  assumes "f64_is_nan d" and "f64_neg d" and "\<not> f64_is_nan e"
  shows "heapify [(t, e), (u, d)] = [(u, d), (t, e)]"
proof -
  have "f64_total_key d < f64_total_key e"
    using assms by (auto simp: f64_total_key_def f64_is_nan_def f64_inf_mag_def)
  then show ?thesis by (simp add: heapify_def scored_key_def)
qed

text \<open>The settings of the example: one candidate per search, resuming on, twenty thousand tuples.\<close>

definition near_env :: scan_env where
  "near_env = \<lparr>score_bytes = \<lambda>_ _ vb. if vb ! 0 = 1 then 0 else 1, metric_dist = \<lambda>_ _ _. 0,
     sbq_from_meta = \<lambda>_. Inl [], aq_from_meta = \<lambda>_. Inl []\<rparr>"

definition narrow_cfg :: scan_config where
  "narrow_cfg = \<lparr>gc_ef_search = 1, gc_over_fetch = 4, gc_max_scan_tuples = 20000, gc_resume = True,
     gc_resume_max_bytes = 0, gc_elem_size = 64\<rparr>"

text \<open>Two linked nodes packed on pages, and the frontier of a search with \<open>ef_search = 1\<close> behind its first batch.\<close>

lemma two_nodes_batches:
  obtains p meta rg0 rg where "pack_at (train_codes quant) two_nodes 1 0 = Inr p"
    "scanned (fork_of p) meta L2 (set (element_addrs two_nodes 1)) []" "unat (hm_dim meta) = 1" "metric_from_tag (hm_metric_tag meta) = Some L2"
    "resumable_init near_env True (fork_of p) meta [1] 1 = Inr (Some rg0)"
    "resumable_next near_env (fork_of p) meta [1] rg0 = Inr (rg, [(8, 0)])"
    "resumable_next near_env (fork_of p) meta [1] rg = Inr (rg, [])" "exhausted rg"
proof -
  obtain p meta where p: "pack_at (train_codes quant) two_nodes 1 0 = Inr p" "decode_meta (pk_meta p) = Inr meta"
    "packed_meta two_nodes 1 meta"
    "\<forall>i < node_count two_nodes. represents_node two_nodes (element_addrs two_nodes 1) 1 (pk_pages p) i"
    "unat (pending_start meta) = 1 + length (pk_pages p)"
    by (rule pack_scannable [OF two_nodes_wf two_nodes_size])
  let ?x = two_nodes and ?r = "fork_of p" and ?ea = "element_addrs two_nodes 1"
  let ?src = "page_source near_env ?r L2 [1] Exact 1 2"
    and ?c = "\<lambda>i. page_node near_env ?r L2 [1] Exact (addr_key (?ea ! i))"
  have x: "hx_vectors ?x = [[0], [1]]" "hx_ids ?x = [7, 8]" "hx_neighbors ?x = [[[1]], [[0]]]" "hx_m ?x = 1" "hx_m0 ?x = 2"
    "node_count ?x = 2" "hnsw_dim ?x = 1" "hx_metric ?x = L2" by (simp_all add: two_nodes_def node_count_def hnsw_dim_def)
  have ea: "?ea = [(1, 1), (1, 2)]"
    by (simp add: element_addrs_def x analytic_addrs_def elems_per_page_def elem_size_def layout_defs maxalign_def upt_rec)
  have core: "core_wf ?x" using two_nodes_wf(1) by (simp add: hnsw_wf_def)
  have aq: "hm_aq_m meta = 0" using p(3) by (simp add: packed_meta_def)
  have s: "scanned ?r meta L2 (set ?ea) []"
    using packed_scanned [OF two_nodes_wf(1,2,4) p(3,2,4) written_holds _ written_pending [OF p(2) aq p(5)]] by (simp add: x)
  have g: "graph_at ?r 1 2 (length [1 :: f32_bits]) (set ?ea)"
    using packed_graph_at [OF two_nodes_wf(1,2,4) written_holds p(4)] by (simp add: x)
  have node: "\<not> pc_deleted (?c i)" "pc_tid (?c i) = hx_ids ?x ! i"
    "pc_d (?c i) = score_bytes near_env L2 [1] (f32s_bytes (hx_vectors ?x ! i))"
    "neighbors_of ?r (?c i) 0 1 2 = Inr (map ((!) ?ea) (hx_neighbors ?x ! i ! 0))"
    "load_cand near_env ?r L2 [1] Exact (?ea ! i) = Inr (?c i)" "pc_addr (?c i) = ?ea ! i" if i: "i < 2" for i
  proof -
    have m: "?ea ! i \<in> set ?ea" using i by (simp add: x)
    obtain v where v: "load_cand near_env ?r L2 [1] Exact (?ea ! i) = Inr (cand_of near_env L2 [1] (?ea ! i) v)" by (rule graph_load [OF g m])
    then show "load_cand near_env ?r L2 [1] Exact (?ea ! i) = Inr (?c i)" "pc_addr (?c i) = ?ea ! i"
      by (simp_all add: page_node_def cand_of_def)
    show "\<not> pc_deleted (?c i)" "pc_tid (?c i) = hx_ids ?x ! i"
      "pc_d (?c i) = score_bytes near_env L2 [1] (f32s_bytes (hx_vectors ?x ! i))"
      "neighbors_of ?r (?c i) 0 1 2 = Inr (map ((!) ?ea) (hx_neighbors ?x ! i ! 0))"
      using packed_page_node [OF written_holds p(4) core two_nodes_wf(2,4), of i "[1]" near_env L2] i by (simp_all add: x) metis+
  qed
  have b: "f32s_bytes [0] ! 0 = 0" "f32s_bytes [1] ! 0 = 1" by code_simp+
  have d: "pc_d (?c 0) = 1" "pc_d (?c 1) = 0" using node(3) [of 0] node(3) [of 1] by (simp_all add: near_env_def x b)
  have near: "f64_lt 0 1" "f64_total_key 0 < f64_total_key 1"
    by (simp_all add: f64_lt_def f64_is_nan_def f64_rank_def f64_total_key_def f64_inf_mag_def f64_mag_def f64_neg_def)
  have keys: "addr_key (?ea ! 1) \<noteq> addr_key (?ea ! 0)" unfolding addr_key_inj ea by simp
  have nbr: "map ((!) ?ea) (hx_neighbors ?x ! 0 ! 0) = [?ea ! 1]" "map ((!) ?ea) (hx_neighbors ?x ! 1 ! 0) = [?ea ! 0]" by (simp_all add: x)
  have batch: "next_batch ?src (resume_init ?src (?c 0) 1) =
      Inr (\<lparr>rg_visited = {addr_key (?ea ! 1), addr_key (?ea ! 0)}, rg_cands = [], rg_ef = 1\<rparr>, [(?c 1, 0)])"
    using pair_batch [of ?src "?c 0" "?ea ! 1" "?c 1" "?ea ! 0"] node [of 0] node [of 1] near keys d nbr
    by (simp add: page_source_def)
  obtain e where ent: "hx_entry ?x = Some e" "sint (hm_entry_level meta) = int (hx_levels ?x ! e)"
    "(hm_entry_blkno meta, hm_entry_offno meta) = ?ea ! e" using p(3) x(1) by (auto simp: packed_meta_def)
  then have e: "sint (hm_entry_level meta) = 0" "(hm_entry_blkno meta, hm_entry_offno meta) = ?ea ! 0"
    by (simp_all add: two_nodes_def)
  have m: "unat (hm_m meta) = 1" "unat (hm_m0 meta) = 2" "metric_from_tag (hm_metric_tag meta) = Some L2" "hm_node_count meta \<noteq> 0"
    "hm_sbq_bits meta = 0" "unat (hm_dim meta) = 1" using p(3) by (simp_all add: packed_meta_def x)
  have entry: "descend_entry near_env ?r meta L2 [1] Exact = Inr (?c 0)" using node(5) [of 0] e by (simp add: descend_entry_def)
  let ?rg = "\<lparr>rg_visited = {addr_key (?ea ! 1), addr_key (?ea ! 0)}, rg_cands = [], rg_ef = 1\<rparr> :: hnsw_resume"
  have next1: "resumable_next near_env ?r meta [1] (resume_init ?src (?c 0) 1) = Inr (?rg, [(8, 0)])"
    using batch node(2) [of 1] by (simp add: resumable_next_def meta_metric_def m x)
  have next2: "resumable_next near_env ?r meta [1] ?rg = Inr (?rg, [])"
    by (simp add: resumable_next_def meta_metric_def m next_batch_def batch_loop.simps heap_pop_def sorted_out_def)
  have init: "resumable_init near_env True ?r meta [1] 1 = Inr (Some (resume_init ?src (?c 0) 1))"
    using entry e(1) aq by (simp add: resumable_init_def meta_metric_def m)
  show ?thesis
    by (rule that [OF p(1) s m(6,3) init next1 next2]) (simp add: exhausted_def)
qed

text \<open>C39: The resumable search of the iterative scan loses a live row. Two linked rows, the entry point farther from the query than
  its neighbour, and \<open>ef_search = 1\<close>: the entry leaves the frontier when it is expanded and the batch when the neighbour
  enters it, so the scan ends with the neighbour alone although its budget is 20000 tuples and the frontier is exhausted.\<close>

theorem resume_loses_row:
  "\<exists>p rel. pack_at (train_codes quant) two_nodes 1 0 = Inr p \<and> write_structured [] p = Inr rel \<and> hx_ids two_nodes = [7, 8] \<and>
     (\<forall>n. index_scan near_env narrow_cfg rel (OrderBy [1]) (n + 2) = Inr [8])"
proof -
  obtain p meta rg0 rg where p: "pack_at (train_codes quant) two_nodes 1 0 = Inr p"
    and s: "scanned (fork_of p) meta L2 (set (element_addrs two_nodes 1)) []" and m: "unat (hm_dim meta) = 1" "metric_from_tag (hm_metric_tag meta) = Some L2"
    and init: "resumable_init near_env True (fork_of p) meta [1] 1 = Inr (Some rg0)"
    and nx: "resumable_next near_env (fork_of p) meta [1] rg0 = Inr (rg, [(8, 0)])"
      "resumable_next near_env (fork_of p) meta [1] rg = Inr (rg, [])" "exhausted rg"
    by (rule two_nodes_batches)
  let ?r = "fork_of p"
  let ?st = "\<lparr>sn_heap = [(8, 0)], sn_query = [1], sn_ef = 1, sn_emitted = {}, sn_iterative = True,
     sn_exhausted = False, sn_resume = Some rg, sn_unordered = False\<rparr>"
  have rescan: "amrescan near_env narrow_cfg ?r (OrderBy [1]) ambeginscan = Inr ?st"
    using s init nx(1) by (simp add: amrescan_def rescan_gather_def narrow_cfg_def ambeginscan_def scanned_def check_query_dim_def
        m meta_metric_def pending_scored_def heapify_def)
  let ?st1 = "?st\<lparr>sn_heap := [], sn_emitted := {8}\<rparr>"
  have pull1: "amgettuple near_env narrow_cfg ?r ?st = Inr (?st1, Some 8)" by (subst amgettuple.simps) simp
  have "resume_pull near_env narrow_cfg ?r meta [1] {8} rg = Inr (rg, None)"
    by (subst resume_pull.simps) (simp add: nx(2) [unfolded One_nat_def] nx(3) narrow_cfg_def fresh_only_def)
  then have "grow near_env narrow_cfg ?r ?st1 = Inr (?st1\<lparr>sn_exhausted := True\<rparr>, False)"
    using s by (simp add: grow_def scanned_def narrow_cfg_def)
  then have pull2: "amgettuple near_env narrow_cfg ?r ?st1 = Inr (?st1\<lparr>sn_exhausted := True\<rparr>, None)"
    by (subst amgettuple.simps) simp
  have "index_scan near_env narrow_cfg ?r (OrderBy [1]) (n + 2) = Inr [8]" for n
    using rescan pull1 pull2 by (simp add: index_scan_def numeral_2_eq_2)
  moreover have "write_structured [] p = Inr ?r"
    by (rule packed_written [OF two_nodes_wf(1-3) two_nodes_size _ p]) (simp add: two_nodes_def hnsw_dim_def dim_fits_bound)
  ultimately show ?thesis using p by (auto simp: two_nodes_def)
qed

end
