(* ===== verification/IvfIndex.thy ===== *)
theory IvfIndex
  imports AnnCore Wire "HOL-Library.Multiset" "HOL-Library.Product_Lexorder"
begin

text \<open>
  The inverted-list index of \<open>ann/ivf.rs\<close>: k-means++ centroids, the assignment of every vector to its nearest centroid,
  the SOAR spill, search over the nearest lists and the blob format. Floating-point arithmetic and the distance kernels
  are parameters, comparisons of floats are modelled on their bits; \<open>assign_all_parallel\<close> computes the same list on any
  number of threads (each slot depends on its vector alone) and is modelled by its result.
\<close>

section \<open>Float arithmetic\<close>

record float_ops =
  fp_add :: "f64_bits \<Rightarrow> f64_bits \<Rightarrow> f64_bits"
  fp_sub :: "f64_bits \<Rightarrow> f64_bits \<Rightarrow> f64_bits"
  fp_mul :: "f64_bits \<Rightarrow> f64_bits \<Rightarrow> f64_bits"
  fp_div :: "f64_bits \<Rightarrow> f64_bits \<Rightarrow> f64_bits"
  fp_sub32 :: "f32_bits \<Rightarrow> f32_bits \<Rightarrow> f32_bits"
  fp_narrow :: "f64_bits \<Rightarrow> f32_bits"
  fp_of_usize :: "nat \<Rightarrow> f64_bits"

type_synonym dist_kernel = "f32_bits list \<Rightarrow> f32_bits list \<Rightarrow> f64_bits"

definition f64_le :: "f64_bits \<Rightarrow> f64_bits \<Rightarrow> bool" where
  "f64_le a b \<longleftrightarrow> f64_lt a b \<or> f64_eq a b"

definition f64_max :: "f64_bits \<Rightarrow> f64_bits \<Rightarrow> f64_bits" where
  "f64_max a b = (if f64_is_nan a then b else if f64_is_nan b then a else if f64_lt a b then b else a)"

text \<open>\<open>Rng::next_f64\<close>: \<open>(x >> 11) as f64 / 2^53\<close>, which is exact, and the smallest normal number for zero.\<close>

definition rng_next_f64 :: "u64 \<Rightarrow> u64 \<times> f64_bits" where
  "rng_next_f64 s =
     (let (s, x) = rng_next_u64 s; k = unat (drop_bit 11 x) in
      (s, if k = 0 then 0x0010000000000000
          else of_nat ((nat_log2 k + 970) * 2 ^ 52 + (k - 2 ^ nat_log2 k) * 2 ^ (52 - nat_log2 k))))"

section \<open>The index\<close>

definition LLOYD_ITERS :: nat where "LLOYD_ITERS = 10"
definition KMEANS_TRAIN_SAMPLE :: nat where "KMEANS_TRAIN_SAMPLE = 1100000"

record ivfflat =
  iv_metric :: metric
  iv_centroids :: "f32_bits list list"
  iv_lists :: "nat list list"
  iv_vectors :: "f32_bits list list"
  iv_ids :: "i64 list"

text \<open>The first index of the least distance; a NaN distance is never less, so the default is 0.\<close>

fun nearest_from :: "dist_kernel \<Rightarrow> f32_bits list \<Rightarrow> nat \<Rightarrow> f32_bits list list \<Rightarrow> nat \<Rightarrow> f64_bits \<Rightarrow> nat" where
  "nearest_from D v i [] best bd = best"
| "nearest_from D v i (c # cs) best bd =
     (let d = D v c in if f64_lt d bd then nearest_from D v (Suc i) cs i d else nearest_from D v (Suc i) cs best bd)"

definition nearest_in :: "dist_kernel \<Rightarrow> f32_bits list list \<Rightarrow> f32_bits list \<Rightarrow> nat" where
  "nearest_in D centers v = nearest_from D v 0 centers 0 f64_infinity"

subsection \<open>k-means++ seeding and Lloyd refinement\<close>

definition stride_sample :: "nat \<Rightarrow> 'a list \<Rightarrow> 'a list" where
  "stride_sample k xs = (if length xs > k then map (\<lambda>i. xs ! (i * (length xs div k))) [0..<k] else xs)"

text \<open>The weighted draw: the first point whose weights, subtracted in order, bring the target to zero or below.\<close>

fun draw_point :: "float_ops \<Rightarrow> nat \<Rightarrow> f64_bits list \<Rightarrow> f64_bits \<Rightarrow> nat" where
  "draw_point fp i [] target = 0"
| "draw_point fp i (w # ws) target =
     (let target = fp_sub fp target w in if f64_le target 0 then i else draw_point fp (Suc i) ws target)"

definition square_dist :: "float_ops \<Rightarrow> dist_kernel \<Rightarrow> f32_bits list \<Rightarrow> f32_bits list \<Rightarrow> f64_bits" where
  "square_dist fp l2 c v = (let d = l2 v c in fp_mul fp d d)"

fun seed_centers :: "float_ops \<Rightarrow> dist_kernel \<Rightarrow> f32_bits list list \<Rightarrow> nat \<Rightarrow> u64 \<Rightarrow> f32_bits list list \<Rightarrow> f64_bits list \<Rightarrow>
    f32_bits list list" where
  "seed_centers fp l2 train 0 s centers d2 = centers"
| "seed_centers fp l2 train (Suc left) s centers d2 =
     (let sum = foldl (fp_add fp) 0 d2;
          (s, chosen) = (if f64_le sum 0 then (s, length centers mod length train)
            else let (s, u) = rng_next_f64 s in (s, draw_point fp 0 d2 (fp_mul fp u sum)));
          center = train ! chosen
      in seed_centers fp l2 train left s (centers @ [center])
           (map2 (\<lambda>v w. let dd = square_dist fp l2 center v in if f64_lt dd w then dd else w) train d2))"

definition add_vec :: "float_ops \<Rightarrow> f64_bits list \<Rightarrow> f32_bits list \<Rightarrow> f64_bits list" where
  "add_vec fp acc v = map2 (\<lambda>a x. fp_add fp a (f32_to_f64 x)) acc v"

definition lloyd_step :: "float_ops \<Rightarrow> dist_kernel \<Rightarrow> f32_bits list list \<Rightarrow> nat \<Rightarrow> f32_bits list list \<Rightarrow> f32_bits list list" where
  "lloyd_step fp D train dim centers =
     (let (sums, counts) = foldl (\<lambda>(sums, counts) v. let c = nearest_in D centers v in
            (sums[c := add_vec fp (sums ! c) v], counts[c := Suc (counts ! c)]))
          (map (\<lambda>_. replicate dim 0) centers, map (\<lambda>_. 0) centers) train
      in map (\<lambda>c. if counts ! c > 0 then map (\<lambda>x. fp_narrow fp (fp_div fp x (fp_of_usize fp (counts ! c)))) (sums ! c)
                  else centers ! c) [0..<length centers])"

definition kmeanspp :: "float_ops \<Rightarrow> dist_kernel \<Rightarrow> dist_kernel \<Rightarrow> f32_bits list list \<Rightarrow> nat \<Rightarrow> u64 \<Rightarrow> f32_bits list list" where
  "kmeanspp fp l2 D vectors k seed =
     (let train = stride_sample KMEANS_TRAIN_SAMPLE vectors; (s, x) = rng_next_u64 seed;
          first = train ! (unat x mod length train);
          centers = seed_centers fp l2 train (k - 1) s [first] (map (square_dist fp l2 first) train)
      in (lloyd_step fp D train (length (train ! 0)) ^^ LLOYD_ITERS) centers)"

definition ivf_build_owned :: "float_ops \<Rightarrow> dist_kernel \<Rightarrow> (metric \<Rightarrow> dist_kernel) \<Rightarrow> (i64 \<times> f32_bits list) list \<Rightarrow> nat \<Rightarrow>
    metric \<Rightarrow> u64 \<Rightarrow> ivfflat" where
  "ivf_build_owned fp l2 D corpus nlists metric seed =
     (let n = length corpus; vectors = map snd corpus; ids = map fst corpus in
      if n = 0 then \<lparr>iv_metric = metric, iv_centroids = [], iv_lists = [], iv_vectors = [], iv_ids = []\<rparr>
      else let centroids = kmeanspp fp l2 (D metric) vectors (min (max nlists 1) n) seed;
               assignment = map (nearest_in (D metric) centroids) vectors
           in \<lparr>iv_metric = metric, iv_centroids = centroids,
                iv_lists = map (\<lambda>c. filter (\<lambda>i. assignment ! i = c) [0..<n]) [0..<length centroids],
                iv_vectors = vectors, iv_ids = ids\<rparr>)"

subsection \<open>SOAR spill\<close>

definition soar_loss :: "float_ops \<Rightarrow> f64_bits \<Rightarrow> f32_bits list \<Rightarrow> f64_bits \<Rightarrow> f32_bits list \<Rightarrow> f32_bits list \<Rightarrow> f64_bits" where
  "soar_loss fp lam r r_norm2 v cen =
     (let (d2, dot) = foldl (\<lambda>(d2, dot) (rp, rr). (fp_add fp d2 (fp_mul fp rp rp), fp_add fp dot (fp_mul fp rp (f32_to_f64 rr))))
            (0, 0) (zip (map2 (\<lambda>x cc. f32_to_f64 (fp_sub32 fp x cc)) v cen) r)
      in fp_add fp d2 (fp_div fp (fp_mul fp (fp_mul fp lam dot) dot) r_norm2))"

fun soar_best :: "(f32_bits list \<Rightarrow> f64_bits) \<Rightarrow> nat \<Rightarrow> nat \<Rightarrow> f32_bits list list \<Rightarrow> nat option \<Rightarrow> f64_bits \<Rightarrow> nat option" where
  "soar_best loss c1 j [] best best_loss = best"
| "soar_best loss c1 j (cen # cens) best best_loss =
     (if j = c1 then soar_best loss c1 (Suc j) cens best best_loss
      else if f64_lt (loss cen) best_loss then soar_best loss c1 (Suc j) cens (Some j) (loss cen)
      else soar_best loss c1 (Suc j) cens best best_loss)"

definition soar_second :: "float_ops \<Rightarrow> dist_kernel \<Rightarrow> f64_bits \<Rightarrow> f32_bits list list \<Rightarrow> f32_bits list \<Rightarrow> nat option" where
  "soar_second fp D lam centroids v =
     (let c1 = nearest_in D centroids v; r = map2 (fp_sub32 fp) v (centroids ! c1);
          r_norm2 = f64_max (foldl (fp_add fp) 0 (map (\<lambda>x. fp_mul fp (f32_to_f64 x) (f32_to_f64 x)) r)) 0x3D719799812DEA11
      in soar_best (soar_loss fp lam r r_norm2 v) c1 0 centroids None f64_infinity)"

definition with_soar_spill :: "float_ops \<Rightarrow> (metric \<Rightarrow> dist_kernel) \<Rightarrow> f64_bits \<Rightarrow> ivfflat \<Rightarrow> ivfflat" where
  "with_soar_spill fp D lam x =
     (if f64_le lam 0 \<or> iv_centroids x = [] \<or> iv_vectors x = [] then x
      else x\<lparr>iv_lists := foldl (\<lambda>lists i. case soar_second fp (D (iv_metric x)) lam (iv_centroids x) (iv_vectors x ! i) of
               None \<Rightarrow> lists | Some c \<Rightarrow> lists[c := lists ! c @ [i]]) (iv_lists x) [0..<length (iv_vectors x)]\<rparr>)"

subsection \<open>Search\<close>

text \<open>The order of \<open>Cand\<close> as a key.\<close>

definition cand_key :: "cand \<Rightarrow> int \<times> nat" where
  "cand_key c = (dist_key (cd c), ci c)"

definition cand_of_dist :: "f64_bits \<Rightarrow> nat \<Rightarrow> cand" where
  "cand_of_dist d i = \<lparr>cd = d, ci = i\<rparr>"

definition probe_order :: "dist_kernel \<Rightarrow> f32_bits list list \<Rightarrow> f32_bits list \<Rightarrow> nat list" where
  "probe_order D centroids q =
     map ci (sort_key cand_key (map (\<lambda>i. cand_of_dist (D q (centroids ! i)) i) [0..<length centroids]))"

definition candidate_positions :: "(metric \<Rightarrow> dist_kernel) \<Rightarrow> ivfflat \<Rightarrow> f32_bits list \<Rightarrow> nat \<Rightarrow> nat list" where
  "candidate_positions D x q probes =
     (if iv_vectors x = [] then []
      else let p = min (max probes 1) (max (length (iv_centroids x)) 1) in
        concat (map ((!) (iv_lists x)) (take p (probe_order (D (iv_metric x)) (iv_centroids x) q))))"

definition ivf_search :: "(metric \<Rightarrow> dist_kernel) \<Rightarrow> ivfflat \<Rightarrow> f32_bits list \<Rightarrow> nat \<Rightarrow> nat \<Rightarrow> (i64 \<times> f64_bits) list" where
  "ivf_search D x q k probes =
     (if iv_vectors x = [] \<or> k = 0 then []
      else let p = min (max probes 1) (max (length (iv_centroids x)) 1);
               nodes = concat (map ((!) (iv_lists x)) (take p (probe_order (D (iv_metric x)) (iv_centroids x) q)));
               results = map (\<lambda>node. cand_of_dist (D (iv_metric x) q (iv_vectors x ! node)) node) nodes
           in map (\<lambda>c. (iv_ids x ! ci c, cd c)) (take k (sort_key cand_key results)))"

definition search_merged :: "(metric \<Rightarrow> dist_kernel) \<Rightarrow> ivfflat \<Rightarrow> f32_bits list \<Rightarrow> nat \<Rightarrow> nat \<Rightarrow>
    (i64 \<times> f32_bits list) list \<Rightarrow> (i64 \<times> f64_bits) list" where
  "search_merged D x q k probes pending =
     (let out = ivf_search D x q k probes in
      if pending = [] then out
      else take k (sort_key (\<lambda>r. (f64_total_key (snd r), sint (fst r)))
             (out @ map (\<lambda>(i, v). (i, D (iv_metric x) q v)) pending)))"

definition rebuilt_with :: "float_ops \<Rightarrow> dist_kernel \<Rightarrow> (metric \<Rightarrow> dist_kernel) \<Rightarrow> ivfflat \<Rightarrow> (i64 \<times> f32_bits list) list \<Rightarrow> u64 \<Rightarrow> ivfflat" where
  "rebuilt_with fp l2 D x live seed = ivf_build_owned fp l2 D live (max (length (iv_centroids x)) 1) (iv_metric x) seed"

definition train_sample :: "nat \<Rightarrow> ivfflat \<Rightarrow> f32_bits list list" where
  "train_sample k x = (if iv_vectors x = [] then [] else stride_sample k (iv_vectors x))"

definition list_entries :: "ivfflat \<Rightarrow> (i64 \<times> f32_bits list) list list" where
  "list_entries x = map (map (\<lambda>p. (iv_ids x ! p, iv_vectors x ! p))) (iv_lists x)"

definition ivf_entries :: "ivfflat \<Rightarrow> (i64 \<times> f32_bits list) list" where
  "ivf_entries x = zip (iv_ids x) (iv_vectors x)"

section \<open>The blob\<close>

definition IVF_MAGIC :: u32 where "IVF_MAGIC = 0x54495646"
definition IVF_VERSION :: u32 where "IVF_VERSION = 1"

definition ivf_to_bytes :: "ivfflat \<Rightarrow> bytes" where
  "ivf_to_bytes x =
     (let b = put_u32 [] IVF_MAGIC;
          b = put_u32 b IVF_VERSION;
          b = push_u8 b (metric_tag (iv_metric x));
          b = put_vecs_f32 b (iv_centroids x);
          b = put_vecs_usize b (map (map of_nat) (iv_lists x));
          b = put_vecs_f32 b (iv_vectors x)
      in put_ids b (iv_ids x))"

datatype ivf_error = IvfWire wire_error | IvfBadMagic | IvfBadVersion | IvfBadMetric | IvfCounts | IvfListRef

definition ivf_wire :: "wire_error + 'a \<Rightarrow> ivf_error + 'a" where
  "ivf_wire r = (case r of Inl e \<Rightarrow> Inl (IvfWire e) | Inr x \<Rightarrow> Inr x)"

definition ivf_read :: "cur \<Rightarrow> ivf_error + ivfflat \<times> cur" where
  "ivf_read c =
     bind_r (ivf_wire (cur_u32 c)) (\<lambda>(magic, c).
     if magic \<noteq> IVF_MAGIC then Inl IvfBadMagic else
     bind_r (ivf_wire (cur_u32 c)) (\<lambda>(ver, c).
     if ver \<noteq> IVF_VERSION then Inl IvfBadVersion else
     bind_r (ivf_wire (cur_u8 c)) (\<lambda>(tag, c).
     case metric_from_tag tag of None \<Rightarrow> Inl IvfBadMetric | Some metric \<Rightarrow>
     bind_r (ivf_wire (cur_vecs_f32 c)) (\<lambda>(centroids, c).
     bind_r (ivf_wire (cur_vecs_usize c)) (\<lambda>(lists, c).
     bind_r (ivf_wire (cur_vecs_f32 c)) (\<lambda>(vectors, c).
     bind_r (ivf_wire (cur_i64_vec c)) (\<lambda>(ids, c).
     Inr (\<lparr>iv_metric = metric, iv_centroids = centroids, iv_lists = map (map unat) lists,
           iv_vectors = vectors, iv_ids = ids\<rparr>, c))))))))"

definition ivf_validate :: "ivfflat \<Rightarrow> ivf_error + ivfflat" where
  "ivf_validate x =
     (let n = length (iv_vectors x) in
      if length (iv_ids x) \<noteq> n \<or> length (iv_lists x) \<noteq> length (iv_centroids x) then Inl IvfCounts
      else if list_ex (list_ex (\<lambda>node. node \<ge> n)) (iv_lists x) then Inl IvfListRef
      else Inr x)"

definition ivf_from_bytes :: "bytes \<Rightarrow> ivf_error + ivfflat" where
  "ivf_from_bytes bs = bind_r (ivf_read (cur_new bs)) (\<lambda>(x, _). ivf_validate x)"

section \<open>The lists partition the corpus\<close>

lemma nearest_from_bound: "nearest_from D v i cs best bd < i + length cs \<or> nearest_from D v i cs best bd = best"
proof (induction cs arbitrary: i best bd)
  case (Cons c cs)
  from Cons.IH [of "Suc i" i "D v c"] Cons.IH [of "Suc i" best bd] show ?case by (auto simp: Let_def)
qed simp

lemma nearest_in_bound: "centers \<noteq> [] \<Longrightarrow> nearest_in D centers v < length centers"
  using nearest_from_bound [of D v 0 centers 0 f64_infinity] by (auto simp: nearest_in_def)

lemma length_seed_centers [simp]: "length (seed_centers fp l2 train k s centers d2) = length centers + k"
  by (induction fp l2 train k s centers d2 rule: seed_centers.induct) (simp_all add: Let_def split_def)

lemma length_lloyd_step [simp]: "length (lloyd_step fp D train dim centers) = length centers"
  by (simp add: lloyd_step_def split_def Let_def)

lemma length_kmeanspp: "1 \<le> k \<Longrightarrow> length (kmeanspp fp l2 D vectors k seed) = k"
proof -
  assume k: "1 \<le> k"
  have "length ((lloyd_step fp D train dim ^^ n) centers) = length centers" for train dim n centers
    by (induction n) simp_all
  with k show ?thesis by (simp add: kmeanspp_def Let_def split_def)
qed

text \<open>The centroids have the dimension of the corpus.\<close>

lemma length_add_vec [simp]: "length (add_vec fp acc v) = min (length acc) (length v)"
  by (simp add: add_vec_def)

lemma draw_point_bound: "draw_point fp i ws t < i + length ws \<or> draw_point fp i ws t = 0"
  by (induction fp i ws t rule: draw_point.induct) (auto simp: Let_def)

lemma seed_centers_dims:
  assumes "train \<noteq> []" and "\<forall>v \<in> set train. length v = d" and "length d2 = length train" and "\<forall>c \<in> set centers. length c = d"
  shows "\<forall>c \<in> set (seed_centers fp l2 train k s centers d2). length c = d"
  using assms
proof (induction fp l2 train k s centers d2 rule: seed_centers.induct)
  case (2 fp l2 train left s centers d2)
  let ?sum = "foldl (fp_add fp) 0 d2"
  obtain s' i where ch: "(if f64_le ?sum 0 then (s, length centers mod length train)
      else let (s, u) = rng_next_f64 s in (s, draw_point fp 0 d2 (fp_mul fp u ?sum))) = (s', i)" by fastforce
  have "i < length train"
    using ch draw_point_bound [of fp 0 d2] "2.prems"(1,3)
    by (auto simp: Let_def split: if_splits prod.splits) (metis length_greater_0_conv)
  then have "length (train ! i) = d" using "2.prems"(2) by simp
  with "2.IH" [OF refl ch [symmetric] refl refl] "2.prems" ch show ?case by (auto simp: Let_def)
qed simp

lemma lloyd_step_dims:
  assumes "\<forall>v \<in> set train. length v = d" and "\<forall>c \<in> set centers. length c = d"
  shows "\<forall>c \<in> set (lloyd_step fp D train d centers). length c = d"
proof -
  let ?f = "\<lambda>(sums, counts) v. let c = nearest_in D centers v in (sums[c := add_vec fp (sums ! c) v], counts[c := Suc (counts ! c)])"
  have inv: "length (fst (foldl ?f z train)) = length (fst z) \<and> (\<forall>s \<in> set (fst (foldl ?f z train)). length s = d)"
    if "\<forall>s \<in> set (fst z). length s = d" for z :: "f64_bits list list \<times> nat list"
    using assms(1) that
  proof (induction train arbitrary: z)
    case (Cons v train)
    have "\<forall>s \<in> set (fst (?f z v)). length s = d"
    proof
      fix s assume "s \<in> set (fst (?f z v))"
      then consider "s \<in> set (fst z)" | "nearest_in D centers v < length (fst z)" "s = add_vec fp (fst z ! nearest_in D centers v) v"
        by (cases "nearest_in D centers v < length (fst z)")
          (auto simp: Let_def split_def list_update_beyond dest: set_update_subset_insert [THEN subsetD])
      then show "length s = d" using Cons.prems by cases auto
    qed
    from Cons.IH [OF _ this] Cons.prems(1) show ?case by (simp add: Let_def split_def)
  qed simp
  show ?thesis
    using inv [of "(map (\<lambda>_. replicate d 0) centers, map (\<lambda>_. 0) centers)"] assms(2)
    by (auto simp: lloyd_step_def Let_def split_def)
qed

lemma kmeanspp_dims:
  assumes "vectors \<noteq> []" and "\<forall>v \<in> set vectors. length v = d"
  shows "\<forall>c \<in> set (kmeanspp fp l2 D vectors k seed). length c = d"
proof -
  let ?train = "stride_sample KMEANS_TRAIN_SAMPLE vectors"
  have "i * (length vectors div KMEANS_TRAIN_SAMPLE) < length vectors" if "i < KMEANS_TRAIN_SAMPLE" "KMEANS_TRAIN_SAMPLE < length vectors" for i
  proof -
    have "0 < length vectors div KMEANS_TRAIN_SAMPLE" using that by (simp add: div_greater_zero_iff)
    then have "i * (length vectors div KMEANS_TRAIN_SAMPLE) < KMEANS_TRAIN_SAMPLE * (length vectors div KMEANS_TRAIN_SAMPLE)"
      using that(1) by simp
    also have "\<dots> \<le> length vectors" by (simp add: mult.commute)
    finally show ?thesis .
  qed
  then have train: "?train \<noteq> []" "\<forall>v \<in> set ?train. length v = d"
    using assms by (auto simp: stride_sample_def KMEANS_TRAIN_SAMPLE_def)
  then have d: "length (?train ! 0) = d" "length (?train ! (i mod length ?train)) = d" for i by simp_all
  have step: "\<forall>c \<in> set ((lloyd_step fp D ?train d ^^ n) cs). length c = d" if "\<forall>c \<in> set cs. length c = d" for n cs
    using lloyd_step_dims [OF train(2)] that by (induction n) simp_all
  show ?thesis
    unfolding kmeanspp_def Let_def split_def d(1)
    by (rule step, rule seed_centers_dims [OF train]) (simp_all add: d(2))
qed

text \<open>What every index built from a corpus keeps: one list per centroid, every position of the corpus in exactly one list.\<close>

definition ivf_partition :: "ivfflat \<Rightarrow> bool" where
  "ivf_partition x \<longleftrightarrow> length (iv_ids x) = length (iv_vectors x) \<and> length (iv_lists x) = length (iv_centroids x) \<and>
     mset (concat (iv_lists x)) = mset [0..<length (iv_vectors x)]"

lemma mset_concat_buckets:
  assumes "\<forall>i \<in> set xs. f i < k"
  shows "mset (concat (map (\<lambda>c. filter (\<lambda>i. f i = c) xs) [0..<k])) = mset xs"
  using assms
proof (induction xs)
  case Nil
  then show ?case by (induction k) simp_all
next
  case (Cons a xs)
  have "mset (concat (map (\<lambda>c. filter (\<lambda>i. f i = c) (a # xs)) [0..<n])) =
      (if f a < n then {#a#} else {#}) + mset (concat (map (\<lambda>c. filter (\<lambda>i. f i = c) xs) [0..<n]))" for n
    by (induction n) (auto simp: less_Suc_eq)
  with Cons show ?case by simp
qed

lemma ivf_build_partition:
  assumes x_def: "x = ivf_build_owned fp l2 D corpus nlists metric seed"
  shows "ivf_partition x" and "iv_vectors x = map snd corpus" and "iv_ids x = map fst corpus" and "iv_metric x = metric"
    and "length (iv_centroids x) = (if corpus = [] then 0 else min (max nlists 1) (length corpus))"
proof -
  have k: "length (kmeanspp fp l2 (D metric) (map snd corpus) (min (max nlists 1) (length corpus)) seed) = min (max nlists 1) (length corpus)"
    if "corpus \<noteq> []" using that by (intro length_kmeanspp) (cases corpus, auto)
  have "mset (concat (map (\<lambda>c. filter (\<lambda>i. map (nearest_in (D metric) centers) (map snd corpus) ! i = c) [0..<length corpus]) [0..<length centers])) =
      mset [0..<length corpus]" if "centers \<noteq> []" for centers
    by (rule mset_concat_buckets) (simp add: nearest_in_bound [OF that])
  moreover have "kmeanspp fp l2 (D metric) (map snd corpus) (min (max nlists 1) (length corpus)) seed \<noteq> []" if "corpus \<noteq> []"
    using k [OF that] that by (cases corpus) auto
  ultimately show "ivf_partition x" unfolding x_def by (simp add: ivf_partition_def ivf_build_owned_def Let_def)
  show "length (iv_centroids x) = (if corpus = [] then 0 else min (max nlists 1) (length corpus))"
    using k unfolding x_def by (simp add: ivf_build_owned_def Let_def)
qed (simp_all add: x_def ivf_build_owned_def Let_def)

text \<open>The spill adds positions behind the primary ones; it loses none.\<close>

lemma soar_best_bound: "(\<forall>c. best = Some c \<longrightarrow> c < j + length cens) \<Longrightarrow> soar_best loss c1 j cens best bl = Some c \<Longrightarrow> c < j + length cens"
  by (induction loss c1 j cens best bl rule: soar_best.induct) (auto split: if_splits)

lemma mset_concat_update:
  "c < length xss \<Longrightarrow> mset (concat (xss[c := xss ! c @ [i]])) = add_mset i (mset (concat xss))"
proof -
  assume c: "c < length xss"
  have "mset (concat (xss[c := xss ! c @ [i]])) = sum_list (map mset (xss[c := xss ! c @ [i]]))" by (simp add: mset_concat)
  also have "\<dots> = sum_list (map mset (take c xss)) + (mset (xss ! c) + {#i#}) + sum_list (map mset (drop (Suc c) xss))"
    using c by (simp add: upd_conv_take_nth_drop)
  also have "\<dots> = add_mset i (sum_list (map mset (take c xss @ xss ! c # drop (Suc c) xss)))" by simp
  also have "take c xss @ xss ! c # drop (Suc c) xss = xss" using c by (rule id_take_nth_drop [symmetric])
  finally show ?thesis by (simp add: mset_concat)
qed

lemma soar_fold:
  assumes "length ls0 = n" and "\<And>i c. f i = Some c \<Longrightarrow> c < n"
  shows "\<exists>M. M \<subseteq># mset is \<and> length (foldl (\<lambda>ls i. case f i of None \<Rightarrow> ls | Some c \<Rightarrow> ls[c := ls ! c @ [i]]) ls0 is) = n \<and>
    mset (concat (foldl (\<lambda>ls i. case f i of None \<Rightarrow> ls | Some c \<Rightarrow> ls[c := ls ! c @ [i]]) ls0 is)) = mset (concat ls0) + M"
  using assms(1)
proof (induction "is" arbitrary: ls0)
  case Nil
  then show ?case by simp
next
  case (Cons i "is")
  show ?case
  proof (cases "f i")
    case None
    obtain M where M: "M \<subseteq># mset is" "length (foldl (\<lambda>ls i. case f i of None \<Rightarrow> ls | Some c \<Rightarrow> ls[c := ls ! c @ [i]]) ls0 is) = n"
      "mset (concat (foldl (\<lambda>ls i. case f i of None \<Rightarrow> ls | Some c \<Rightarrow> ls[c := ls ! c @ [i]]) ls0 is)) = mset (concat ls0) + M"
      using Cons.IH [OF Cons.prems] by blast
    have "M \<subseteq># mset (i # is)" by (rule subset_mset.order_trans [OF M(1)]) simp
    with M(2,3) None show ?thesis by (intro exI [of _ M]) simp
  next
    case (Some c)
    let ?l = "ls0[c := ls0 ! c @ [i]]"
    have c: "c < length ls0" using assms(2) [OF Some] Cons.prems by simp
    obtain M where M: "M \<subseteq># mset is" "length (foldl (\<lambda>ls i. case f i of None \<Rightarrow> ls | Some c \<Rightarrow> ls[c := ls ! c @ [i]]) ?l is) = n"
      "mset (concat (foldl (\<lambda>ls i. case f i of None \<Rightarrow> ls | Some c \<Rightarrow> ls[c := ls ! c @ [i]]) ?l is)) = mset (concat ?l) + M"
      using Cons.IH [of ?l] Cons.prems by auto
    then show ?thesis using Some mset_concat_update [OF c, of i]
      by (intro exI [of _ "add_mset i M"]) simp
  qed
qed

text \<open>After the spill every position is in one or two lists.\<close>

definition ivf_covers :: "ivfflat \<Rightarrow> bool" where
  "ivf_covers x \<longleftrightarrow> length (iv_ids x) = length (iv_vectors x) \<and> length (iv_lists x) = length (iv_centroids x) \<and>
     mset [0..<length (iv_vectors x)] \<subseteq># mset (concat (iv_lists x)) \<and>
     mset (concat (iv_lists x)) \<subseteq># mset [0..<length (iv_vectors x)] + mset [0..<length (iv_vectors x)]"

lemma ivf_partition_covers: "ivf_partition x \<Longrightarrow> ivf_covers x"
  by (simp add: ivf_partition_def ivf_covers_def)

lemma soar_covers:
  assumes "ivf_partition x"
  shows "ivf_covers (with_soar_spill fp D lam x)"
proof (cases "f64_le lam 0 \<or> iv_centroids x = [] \<or> iv_vectors x = []")
  case True
  then show ?thesis using ivf_partition_covers [OF assms] by (simp add: with_soar_spill_def)
next
  case False
  let ?f = "\<lambda>i. soar_second fp (D (iv_metric x)) lam (iv_centroids x) (iv_vectors x ! i)"
  have "?f i = Some c \<Longrightarrow> c < length (iv_centroids x)" for i c
    using soar_best_bound [of None 0 "iv_centroids x"] by (auto simp: soar_second_def Let_def)
  then obtain M where "M \<subseteq># mset [0..<length (iv_vectors x)]" "length (iv_lists (with_soar_spill fp D lam x)) = length (iv_centroids x)"
    "mset (concat (iv_lists (with_soar_spill fp D lam x))) = mset (concat (iv_lists x)) + M"
    using soar_fold [of "iv_lists x" "length (iv_centroids x)" ?f "[0..<length (iv_vectors x)]"] False assms
    by (auto simp: with_soar_spill_def ivf_partition_def)
  then show ?thesis using False assms by (simp add: ivf_covers_def ivf_partition_def with_soar_spill_def)
qed

lemma soar_fields [simp]:
  "iv_vectors (with_soar_spill fp D lam x) = iv_vectors x" "iv_ids (with_soar_spill fp D lam x) = iv_ids x"
  "iv_centroids (with_soar_spill fp D lam x) = iv_centroids x" "iv_metric (with_soar_spill fp D lam x) = iv_metric x"
  by (simp_all add: with_soar_spill_def)

section \<open>Probing every list is a brute-force search\<close>

lemma mset_probe_order: "mset (probe_order D centroids q) = mset [0..<length centroids]"
proof -
  let ?c = "\<lambda>i. cand_of_dist (D q (centroids ! i)) i"
  have "mset (probe_order D centroids q) = image_mset ci (mset (map ?c [0..<length centroids]))"
    unfolding probe_order_def mset_map mset_sort ..
  also have "\<dots> = mset (map ci (map ?c [0..<length centroids]))" unfolding mset_map ..
  also have "map ci (map ?c [0..<length centroids]) = [0..<length centroids]"
    by (rule nth_equalityI) (simp_all add: cand_of_dist_def)
  finally show ?thesis .
qed

lemma mset_concat_perm: "mset is = mset [0..<length xss] \<Longrightarrow> mset (concat (map ((!) xss) is)) = mset (concat xss)"
proof -
  assume "mset is = mset [0..<length xss]"
  then have "image_mset mset (mset (map ((!) xss) is)) = image_mset mset (mset (map ((!) xss) [0..<length xss]))" by simp
  then show ?thesis unfolding map_nth by (simp add: mset_concat sum_mset_sum_list [symmetric] multiset.map_comp)
qed

definition brute_force :: "dist_kernel \<Rightarrow> ivfflat \<Rightarrow> f32_bits list \<Rightarrow> nat \<Rightarrow> (i64 \<times> f64_bits) list" where
  "brute_force D x q k =
     map (\<lambda>c. (iv_ids x ! ci c, cd c))
       (take k (sort_key cand_key (map (\<lambda>i. cand_of_dist (D q (iv_vectors x ! i)) i) [0..<length (iv_vectors x)])))"

lemma ivf_search_all:
  assumes x: "ivf_partition x" and p: "length (iv_centroids x) \<le> probes"
  shows "ivf_search D x q k probes = brute_force (D (iv_metric x)) x q k"
proof (cases "iv_vectors x = [] \<or> k = 0")
  case True
  then show ?thesis by (auto simp: ivf_search_def brute_force_def)
next
  case False
  let ?n = "length (iv_vectors x)" and ?order = "probe_order (D (iv_metric x)) (iv_centroids x) q"
  let ?c = "\<lambda>i. cand_of_dist (D (iv_metric x) q (iv_vectors x ! i)) i"
  let ?nodes = "concat (map ((!) (iv_lists x)) ?order)"
  have len: "length ?order = length (iv_centroids x)" using arg_cong [OF mset_probe_order, of size] by simp
  then have t: "take (min (max probes 1) (max (length (iv_centroids x)) 1)) ?order = ?order" using p by simp
  have "mset ?nodes = mset [0..<?n]"
    using mset_concat_perm [of ?order "iv_lists x"] mset_probe_order x by (simp add: ivf_partition_def)
  then have "mset (map ?c ?nodes) = mset (map ?c [0..<?n])" by (simp del: mset_concat)
  moreover have "inj_on cand_key (set (map ?c ?nodes))"
    by (rule inj_onI) (auto simp: cand_key_def cand_of_dist_def)
  ultimately have "sort_key cand_key (map ?c ?nodes) = sort_key cand_key (map ?c [0..<?n])"
    by (intro sort_key_inj_key_eq) simp_all
  then show ?thesis using False by (simp add: ivf_search_def brute_force_def t [unfolded One_nat_def])
qed

section \<open>The blob reads back\<close>

definition ivf_encodable :: "ivfflat \<Rightarrow> bool" where
  "ivf_encodable x \<longleftrightarrow> fits_u32_2 (iv_centroids x) \<and> fits_u32_2 (iv_lists x) \<and> fits_u32_2 (iv_vectors x) \<and> fits_u32 (iv_ids x) \<and>
     list_all (list_all (\<lambda>i. i < 2 ^ 64)) (iv_lists x) \<and> length (ivf_to_bytes x) \<le> usize_max"

lemma ivf_wire_simps [simp]: "ivf_wire (Inr x) = Inr x" "ivf_wire (Inl e) = Inl (IvfWire e)"
  by (simp_all add: ivf_wire_def)

lemma ivf_to_bytes_fields:
  "ivf_to_bytes x =
     to_le IVF_MAGIC @ to_le IVF_VERSION @ [metric_tag (iv_metric x)] @ put_vecs_f32 [] (iv_centroids x) @
     put_vecs_usize [] (map (map of_nat) (iv_lists x)) @ put_vecs_f32 [] (iv_vectors x) @ put_ids [] (iv_ids x) @ []"
  by (simp add: ivf_to_bytes_def Let_def wire_scalars wire_lists)

lemma ivf_read_to_bytes:
  assumes "ivf_encodable x"
  shows "ivf_read (cur_new (ivf_to_bytes x)) = Inr (x, cur_at (ivf_to_bytes x) [])"
  using assms unfolding ivf_encodable_def
  unfolding ivf_to_bytes_fields
  by (simp add: cur_new_at ivf_read_def wire_reads ids_codec.get_cur_at [where rest = "[]", unfolded append_Nil2]
    comp_def unat_of_nat_lists2)

lemma ivf_blob_roundtrip:
  assumes "ivf_encodable x" and "ivf_covers x"
  shows "ivf_from_bytes (ivf_to_bytes x) = Inr x"
proof -
  have "set_mset (mset (concat (iv_lists x))) \<subseteq> set_mset (mset [0..<length (iv_vectors x)] + mset [0..<length (iv_vectors x)])"
    by (rule set_mset_mono) (use assms(2) in \<open>simp add: ivf_covers_def\<close>)
  then have "ivf_validate x = Inr x"
    using assms(2) by (auto simp: ivf_validate_def ivf_covers_def list_ex_iff not_le Let_def)
  with assms(1) show ?thesis by (simp add: ivf_from_bytes_def ivf_read_to_bytes)
qed

section \<open>Properties\<close>

text \<open>C4: A search that probes as many lists as the index was built with is exact. Whatever the corpus, the metric, the
  arithmetic of the kernels and the seed, it returns the \<open>k\<close> nearest rows in the order of a brute-force sort by distance
  and position: k-means never loses or repeats a row, and the merge of the lists cannot be seen in the result.\<close>

theorem ivf_search_exact:
  assumes "max nlists 1 \<le> probes"
  shows "ivf_search D (ivf_build_owned fp l2 D corpus nlists metric seed) q k probes =
    map (\<lambda>c. (fst (corpus ! ci c), cd c))
      (take k (sort_key cand_key (map (\<lambda>i. cand_of_dist (D metric q (snd (corpus ! i))) i) [0..<length corpus])))"
proof -
  let ?x = "ivf_build_owned fp l2 D corpus nlists metric seed"
  note b = ivf_build_partition [OF refl, of fp l2 D corpus nlists metric seed]
  have "length (iv_centroids ?x) \<le> probes" using assms unfolding b(5) by (simp add: min.coboundedI1)
  moreover have m: "map (\<lambda>i. cand_of_dist (D metric q (map snd corpus ! i)) i) [0..<length corpus] =
      map (\<lambda>i. cand_of_dist (D metric q (snd (corpus ! i))) i) [0..<length corpus]" by simp
  ultimately show ?thesis
    unfolding ivf_search_all [OF b(1) \<open>length (iv_centroids ?x) \<le> probes\<close>] brute_force_def b length_map m
    by (auto simp: cand_of_dist_def dest!: in_set_takeD)
qed

definition word_ops :: float_ops where
  "word_ops = \<lparr>fp_add = (+), fp_sub = (-), fp_mul = (*), fp_div = (div), fp_sub32 = (-), fp_narrow = ucast, fp_of_usize = of_nat\<rparr>"

theorem ivf_search_exact_witness:
  "ivf_search (\<lambda>_ q v. ucast (q ! 0) XOR ucast (v ! 0)) (ivf_build_owned word_ops (\<lambda>q v. ucast (q ! 0) XOR ucast (v ! 0))
     (\<lambda>_ q v. ucast (q ! 0) XOR ucast (v ! 0)) [(7, [5]), (8, [2])] 2 L2 42) [3] 1 2 = [(8, 1)]"
proof -
  have "dist_key 6 = 6" "dist_key 1 = 1"
    by (simp_all add: dist_key_def f64_is_nan_def f64_rank_def f64_inf_mag_def f64_mag_def f64_neg_def)
  then show ?thesis by (subst ivf_search_exact) (simp_all add: cand_of_dist_def cand_key_def)
qed

end
