(* ===== verification/IvfPages.thy ===== *)
theory IvfPages
  imports Fold IvfIndex
begin

text \<open>
  The structured f32 layout of an IVF index (\<open>am/page/ivf.rs\<close>, versions 2 and 3): block 0 is the meta, then come the
  chunks of the directory, of the centroids and of every list, one item per page. Also the pure arithmetic of
  \<open>am/page/ivf_codec.rs\<close> that the storage-separated layouts read single records with.
\<close>

section \<open>Versions\<close>

datatype ivf_version = V3 | V4 | V5 | V6 | V7 | V8

definition map_ivf_version :: "bytes \<Rightarrow> page_error + ivf_version" where
  "map_ivf_version m =
     (if length m < 8 then Inl TruncatedIvfMeta
      else if u32_at 0 m \<noteq> IVF_STRUCT_MAGIC then Inl BadIvfMagic
      else let v = u32_at 4 m in
        if v = 2 \<or> v = 3 then Inr V3 else if v = 4 then Inr V4 else if v = 5 then Inr V5
        else if v = 6 then Inr V6 else if v = 7 then Inr V7 else if v = 8 then Inr V8
        else Inl (UnsupportedIvf v))"

definition ivf_version_of :: "relation \<Rightarrow> page_error + ivf_version" where
  "ivf_version_of rel = bind_r (read_page_item rel 0) map_ivf_version"

section \<open>Writing a generation\<close>

definition encode_list :: "(i64 \<times> f32_bits list) list \<Rightarrow> bytes" where
  "encode_list entries = concat (map (\<lambda>(tid, v). to_le tid @ f32s_bytes v) entries)"

definition push_chunks :: "bytes \<Rightarrow> bytes list" where
  "push_chunks data = (if data = [] then [[]] else chunks CHUNK data)"

type_synonym list_dir = "(u32 \<times> u32 \<times> u32) list"

text \<open>The directory: first block, page count and entry count of every list, from the running block cursor.\<close>

fun list_directory :: "u32 \<Rightarrow> (i64 \<times> f32_bits list) list list \<Rightarrow> list_dir" where
  "list_directory cursor [] = []"
| "list_directory cursor (l # ls) =
     (let np = npages_for (length (encode_list l))
      in (cursor, np, of_nat (length l)) # list_directory (cursor + np) ls)"

definition dir_bytes :: "list_dir \<Rightarrow> bytes" where
  "dir_bytes dir = concat (map (\<lambda>(fb, np, cnt). to_le fb @ to_le np @ to_le cnt) dir)"

definition ivf_meta_bytes :: "u8 \<Rightarrow> u32 \<Rightarrow> u32 \<Rightarrow> u32 \<Rightarrow> u32 \<Rightarrow> u32 \<Rightarrow> bytes" where
  "ivf_meta_bytes mtag dim nlists dir_npages centroid_npages base =
     to_le IVF_STRUCT_MAGIC @ to_le (3 :: u32) @ [mtag] @ to_le dim @ to_le nlists @ to_le dir_npages @
     to_le centroid_npages @ to_le base"

definition structured_page_items :: "u32 \<Rightarrow> u32 \<Rightarrow> u8 \<Rightarrow> f32_bits list list \<Rightarrow> (i64 \<times> f32_bits list) list list \<Rightarrow> bytes list" where
  "structured_page_items base dim mtag centroids ls =
     (let nlists = of_nat (length centroids); cbytes = concat (map f32s_bytes centroids);
          centroid_npages = npages_for (length cbytes); dir_npages = npages_for (unat nlists * 12);
          dir = list_directory (base + dir_npages + centroid_npages) ls
      in ivf_meta_bytes mtag dim nlists dir_npages centroid_npages base #
         push_chunks (dir_bytes dir) @ push_chunks cbytes @ concat (map (\<lambda>l. push_chunks (encode_list l)) ls))"

definition write_ivf_structured :: "relation \<Rightarrow> u32 \<Rightarrow> u8 \<Rightarrow> f32_bits list list \<Rightarrow> (i64 \<times> f32_bits list) list list \<Rightarrow> page_error + relation" where
  "write_ivf_structured rel dim mtag centroids ls =
     iter_r extend_page_with_item rel (structured_page_items 1 dim mtag centroids ls)"

section \<open>Reading it\<close>

record ivf_meta =
  im_dim :: u32
  im_metric_tag :: u8
  im_centroids :: "f32_bits list list"
  im_dir :: list_dir

definition dir_at :: "bytes \<Rightarrow> nat \<Rightarrow> u32 \<times> u32 \<times> u32" where
  "dir_at d i = (let o' = i * 12 in (u32_at o' d, u32_at (o' + 4) d, u32_at (o' + 8) d))"

definition read_ivf_meta :: "relation \<Rightarrow> page_error + ivf_meta" where
  "read_ivf_meta rel =
     bind_r (read_page_item rel 0) (\<lambda>m.
     if length m < 25 then Inl TruncatedIvfMeta
     else if u32_at 0 m \<noteq> IVF_STRUCT_MAGIC then Inl BadIvfMagic
     else let ver = u32_at 4 m in
     if ver \<noteq> 2 \<and> ver \<noteq> 3 then Inl (UnsupportedIvf ver)
     else let mtag = m ! 8; dim = u32_at 9 m; nlists = unat (u32_at 13 m); dir_npages = u32_at 17 m; centroid_npages = u32_at 21 m in
     if ver = 3 \<and> length m < 29 then Inl TruncatedIvfMeta
     else let gen_base = (if ver = 3 then u32_at 25 m else 1) in
     bind_r (read_chunked rel gen_base dir_npages) (\<lambda>dbytes.
     if length dbytes < nlists * 12 then Inl TruncatedDirectory
     else let dir = map (dir_at dbytes) [0..<nlists] in
     bind_r (read_chunked rel (gen_base + dir_npages) centroid_npages) (\<lambda>cbytes.
     let d = unat dim in
     if d = 0 \<or> length cbytes < nlists * d * 4 then
       if nlists = 0 then Inr \<lparr>im_dim = dim, im_metric_tag = mtag, im_centroids = [], im_dir = dir\<rparr>
       else Inl TruncatedCentroids
     else Inr \<lparr>im_dim = dim, im_metric_tag = mtag,
        im_centroids = map (\<lambda>i. f32s_at (i * d * 4) d cbytes) [0..<nlists], im_dir = dir\<rparr>)))"

definition read_ivf_list_bytes :: "relation \<Rightarrow> u32 \<Rightarrow> u32 \<Rightarrow> page_error + bytes" where
  "read_ivf_list_bytes rel first_block npages = read_chunked rel first_block npages"

definition list_entry_at :: "nat \<Rightarrow> bytes \<Rightarrow> nat \<Rightarrow> i64 \<times> f32_bits list" where
  "list_entry_at d bs i = (let o' = i * (8 + d * 4) in (from_le (slice_at o' 8 bs), f32s_at (o' + 8) d bs))"

definition read_ivf_list :: "relation \<Rightarrow> u32 \<Rightarrow> u32 \<Rightarrow> u32 \<Rightarrow> u32 \<Rightarrow> page_error + (i64 \<times> f32_bits list) list" where
  "read_ivf_list rel first_block npages cnt dim =
     bind_r (read_chunked rel first_block npages) (\<lambda>bs.
     let d = unat dim; n = unat cnt in
     if length bs < n * (8 + d * 4) then Inl TruncatedList
     else Inr (map (list_entry_at d bs) [0..<n]))"

text \<open>\<open>ivf_list_count\<close>; \<open>aq\<close> is the number of lists the readers of the AQ layouts find, when one of them succeeds.\<close>

definition ivf_list_count :: "(relation \<Rightarrow> nat option) \<Rightarrow> relation \<Rightarrow> nat" where
  "ivf_list_count aq rel = (case read_ivf_meta rel of Inr m \<Rightarrow> length (im_dir m)
     | Inl _ \<Rightarrow> (case aq rel of Some n \<Rightarrow> n | None \<Rightarrow> 0))"

section \<open>Records of the storage-separated layouts\<close>

definition LABEL_K :: nat where "LABEL_K = 8"

definition encode_labels_fixed :: "i16 list \<Rightarrow> bytes \<Rightarrow> bytes" where
  "encode_labels_fixed labels out =
     out @ to_le (of_nat (min (length labels) LABEL_K) :: u16) @
     concat (map (\<lambda>i. to_le (if i < length labels then labels ! i else 0)) [0..<LABEL_K])"

definition record_span :: "nat \<Rightarrow> nat \<Rightarrow> nat \<Rightarrow> u32 \<Rightarrow> page_error + nat \<times> nat" where
  "record_span ordinal reclen chunk_len npages =
     (if reclen = 0 \<or> chunk_len = 0 then Inl (RecordErr ''zero-length record or chunk'')
      else if ordinal * reclen > usize_max then Inl (RecordErr ''record offset overflows usize'')
      else let off = ordinal * reclen; chunk = off div chunk_len; lo = off mod chunk_len in
        if chunk > u32_max \<or> of_nat chunk \<ge> npages then Inl (RecordErr ''record ordinal out of range'')
        else if reclen > chunk_len then Inl (RecordErr ''record longer than one chunk'')
        else if lo + reclen > chunk_len \<and> of_nat (chunk + 1) \<ge> npages then Inl (RecordErr ''truncated straddled record'')
        else Inr (chunk, lo))"

definition read_record_at :: "relation \<Rightarrow> u32 \<Rightarrow> u32 \<Rightarrow> nat \<Rightarrow> nat \<Rightarrow> page_error + bytes" where
  "read_record_at rel first_block npages ordinal reclen =
     bind_r (record_span ordinal reclen CHUNK npages) (\<lambda>(p0, lo).
     bind_r (read_page_item_into rel (unat (first_block + of_nat p0)) []) (\<lambda>buf.
     if lo + reclen \<le> length buf then Inr (slice_at lo reclen buf)
     else if of_nat (p0 + 1) \<ge> npages then Inl (RecordErr ''truncated straddled record'')
     else if length buf < lo then Inl (RecordErr ''truncated page'')
     else let out = drop lo buf; need = reclen - length out in
       bind_r (read_page_item_into rel (unat (first_block + of_nat (p0 + 1))) []) (\<lambda>buf2.
       if length buf2 < need then Inl (RecordErr ''truncated straddled record'')
       else Inr (out @ take need buf2))))"

definition read_vec_at :: "relation \<Rightarrow> u32 \<Rightarrow> u32 \<Rightarrow> nat \<Rightarrow> nat \<Rightarrow> page_error + bytes" where
  "read_vec_at rel first_block npages ordinal dim = read_record_at rel first_block npages ordinal (dim * 4)"

definition read_sq8_at :: "relation \<Rightarrow> u32 \<Rightarrow> u32 \<Rightarrow> nat \<Rightarrow> nat \<Rightarrow> page_error + bytes" where
  "read_sq8_at rel first_block npages ordinal dim = read_record_at rel first_block npages ordinal dim"

definition read_rabitq_at :: "relation \<Rightarrow> u32 \<Rightarrow> u32 \<Rightarrow> nat \<Rightarrow> nat \<Rightarrow> page_error + bytes" where
  "read_rabitq_at rel first_block npages ordinal dim = read_record_at rel first_block npages ordinal (dim + 8)"

section \<open>A generation reads back\<close>

lemma push_chunks_blob: "push_chunks data = blob_chunks data"
  by (simp add: push_chunks_def blob_chunks_def)

lemma npages_for_chunks: "npages_for (length data) = of_nat (length (push_chunks data))"
  by (simp add: npages_for_def push_chunks_blob blob_chunks(2))

definition generation_body :: "bytes list \<Rightarrow> page list" where
  "generation_body items = map (\<lambda>i. [i]) (tl items)"

text \<open>A run of chunks inside the body of a generation.\<close>

definition chunks_at :: "relation \<Rightarrow> nat \<Rightarrow> bytes list \<Rightarrow> bool" where
  "chunks_at r b cs \<longleftrightarrow> b + length cs \<le> length r \<and> (\<forall>i < length cs. page_data (r ! (b + i)) = cs ! i)"

lemma chunks_at_append: "chunks_at r b (xs @ ys) \<longleftrightarrow> chunks_at r b xs \<and> chunks_at r (b + length xs) ys"
proof
  assume a: "chunks_at r b (xs @ ys)"
  then have n: "page_data (r ! (b + i)) = (xs @ ys) ! i" if "i < length xs + length ys" for i
    using that by (simp add: chunks_at_def)
  have "page_data (r ! (b + i)) = xs ! i" if "i < length xs" for i using n [of i] that by (simp add: nth_append)
  moreover have "page_data (r ! (b + length xs + i)) = ys ! i" if "i < length ys" for i
    using n [of "length xs + i"] that by (simp add: nth_append add.assoc)
  ultimately show "chunks_at r b xs \<and> chunks_at r (b + length xs) ys" using a by (simp add: chunks_at_def)
next
  assume a: "chunks_at r b xs \<and> chunks_at r (b + length xs) ys"
  have "page_data (r ! (b + i)) = (xs @ ys) ! i" if i: "i < length xs + length ys" for i
  proof (cases "i < length xs")
    case True
    with a show ?thesis by (simp add: chunks_at_def nth_append)
  next
    case False
    then have "b + length xs + (i - length xs) = b + i" "i - length xs < length ys" using i by simp_all
    with a False show ?thesis by (auto simp: chunks_at_def nth_append)
  qed
  with a show "chunks_at r b (xs @ ys)" by (simp add: chunks_at_def)
qed

lemma holds_new_chunks: "holds_new mb base (map (\<lambda>i. [i]) cs) r \<Longrightarrow> chunks_at r base cs"
  by (simp add: holds_new_def chunks_at_def)

lemma read_chunks_at:
  assumes "chunks_at r b (push_chunks data)" and "b + length (push_chunks data) < 2 ^ 32"
  shows "read_chunked r (of_nat b) (npages_for (length data)) = Inr data"
proof -
  let ?n = "length (push_chunks data)"
  have u: "unat (of_nat b :: u32) = b" "unat (of_nat b + of_nat ?n :: u32) = b + ?n"
    using assms(2) unat_of_nat_u32 [of "b + ?n"] by simp_all
  have "map page_data (slice_at b ?n r) = push_chunks data"
    by (rule nth_equalityI) (use assms(1) in \<open>auto simp: chunks_at_def slice_at_def\<close>)
  then show ?thesis
    using read_blocks_eq [of b ?n r "[]"] assms(1) unfolding npages_for_chunks
    by (simp add: read_chunked_def u chunks_at_def) (simp add: push_chunks_blob blob_chunks(1))
qed

text \<open>Every list of the directory reads back, from the cursor where its chunks begin.\<close>

lemma list_directory_reads:
  assumes "chunks_at r b (concat (map (\<lambda>l. push_chunks (encode_list l)) ls))"
    and "b + length (concat (map (\<lambda>l. push_chunks (encode_list l)) ls)) < 2 ^ 32"
  shows "list_all2 (\<lambda>(fb, np, cnt) l. read_chunked r fb np = Inr (encode_list l) \<and> cnt = of_nat (length l))
    (list_directory (of_nat b) ls) ls"
  using assms
proof (induction ls arbitrary: b)
  case Nil
  then show ?case by simp
next
  case (Cons l ls)
  let ?c = "push_chunks (encode_list l)"
  have c: "chunks_at r b ?c" "chunks_at r (b + length ?c) (concat (map (\<lambda>l. push_chunks (encode_list l)) ls))"
    using Cons.prems(1) by (simp_all add: chunks_at_append)
  have "list_all2 (\<lambda>(fb, np, cnt) l. read_chunked r fb np = Inr (encode_list l) \<and> cnt = of_nat (length l))
      (list_directory (of_nat (b + length ?c)) ls) ls"
    by (rule Cons.IH [OF c(2)]) (use Cons.prems(2) in simp)
  moreover have "of_nat (b + length ?c) = (of_nat b + npages_for (length (encode_list l)) :: u32)"
    by (simp add: npages_for_chunks)
  ultimately show ?case using read_chunks_at [OF c(1)] Cons.prems(2) by (simp add: Let_def)
qed

lemma length_list_directory [simp]: "length (list_directory c ls) = length ls"
  by (induction ls arbitrary: c) (simp_all add: Let_def)

definition dir_record :: "u32 \<times> u32 \<times> u32 \<Rightarrow> bytes" where
  "dir_record e = (case e of (fb, np, cnt) \<Rightarrow> to_le fb @ to_le np @ to_le cnt)"

lemma dir_bytes_records: "dir_bytes dir = concat (map dir_record dir)"
  by (simp add: dir_bytes_def dir_record_def [abs_def])

lemma slice_at_slice: "a + n \<le> m \<Longrightarrow> slice_at a n (slice_at off m b) = slice_at (off + a) n b"
  by (simp add: slice_at_def drop_take min_def add.commute)

lemma dir_records_length: "\<forall>b \<in> set (map dir_record dir). length b = 12"
  by (auto simp: dir_record_def split: prod.splits)

lemma dir_bytes_length: "length (dir_bytes dir) = length dir * 12"
  using length_concat_uniform [OF dir_records_length [of dir]] by (simp add: dir_bytes_records)

lemma dir_bytes_read: "map (dir_at (dir_bytes dir)) [0..<length dir] = dir"
proof (rule nth_equalityI)
  fix i assume "i < length (map (dir_at (dir_bytes dir)) [0..<length dir])"
  then have i: "i < length dir" by simp
  obtain fb np cnt where e: "dir ! i = (fb, np, cnt)" by (cases "dir ! i")
  have "slice_at (i * 12) 12 (dir_bytes dir) = dir_record (dir ! i)"
    using slice_at_concat [OF dir_records_length, of i dir "[]"] i by (simp add: dir_bytes_records)
  then have "slice_at (i * 12 + k) 4 (dir_bytes dir) = slice_at k 4 (dir_record (dir ! i))" if "k + 4 \<le> 12" for k
    using slice_at_slice [OF that, of "i * 12" "dir_bytes dir"] by simp
  from this [of 0] this [of 4] this [of 8] show "map (dir_at (dir_bytes dir)) [0..<length dir] ! i = dir ! i"
    using i by (simp add: dir_at_def Let_def u32_at_def dir_record_def e field_reads)
qed simp

lemma centroid_bytes_read:
  assumes "\<forall>c \<in> set cs. length c = d"
  shows "length (concat (map f32s_bytes cs)) = length cs * d * 4"
    and "map (\<lambda>i. f32s_at (i * d * 4) d (concat (map f32s_bytes cs))) [0..<length cs] = cs"
proof -
  have u: "\<forall>b \<in> set (map f32s_bytes cs). length b = d * 4" using assms by auto
  show "length (concat (map f32s_bytes cs)) = length cs * d * 4" using length_concat_uniform [OF u] by simp
  show "map (\<lambda>i. f32s_at (i * d * 4) d (concat (map f32s_bytes cs))) [0..<length cs] = cs"
  proof (rule nth_equalityI)
    fix i assume "i < length (map (\<lambda>i. f32s_at (i * d * 4) d (concat (map f32s_bytes cs))) [0..<length cs])"
    then have i: "i < length cs" by simp
    have d: "length (cs ! i) = d" using assms i by simp
    have "slice_at (i * d * 4) (4 * length (cs ! i)) (concat (map f32s_bytes cs)) = f32s_bytes (cs ! i)"
      using slice_at_concat [OF u, of i "[]"] i d by (simp add: ac_simps)
    from f32s_at_bytes [OF this] show "map (\<lambda>i. f32s_at (i * d * 4) d (concat (map f32s_bytes cs))) [0..<length cs] ! i = cs ! i"
      using i d by simp
  qed simp
qed

lemma encode_list_record:
  assumes "\<forall>e \<in> set l. length (snd e) = d"
  shows "length (encode_list l) = length l * (8 + d * 4)"
    and "i < length l \<Longrightarrow> slice_at (i * (8 + d * 4)) 8 (encode_list l) = to_le (fst (l ! i))"
    and "i < length l \<Longrightarrow> slice_at (i * (8 + d * 4) + 8) (4 * d) (encode_list l) = f32s_bytes (snd (l ! i))"
proof -
  let ?enc = "\<lambda>(tid, v). to_le (tid :: i64) @ f32s_bytes v"
  have u: "\<forall>b \<in> set (map ?enc l). length b = 8 + d * 4" using assms by auto
  show "length (encode_list l) = length l * (8 + d * 4)"
    using length_concat_uniform [OF u] by (simp add: encode_list_def)
  assume i: "i < length l"
  obtain tid v where e: "l ! i = (tid, v)" by (cases "l ! i")
  then have d: "length v = d" using assms i by (metis nth_mem snd_conv)
  have rec: "slice_at (i * (8 + d * 4)) (8 + d * 4) (encode_list l) = to_le tid @ f32s_bytes v"
    using slice_at_concat [OF u, of i "[]"] i e by (simp add: encode_list_def)
  show "slice_at (i * (8 + d * 4)) 8 (encode_list l) = to_le (fst (l ! i))"
    using slice_at_slice [of 0 8 "8 + d * 4" "i * (8 + d * 4)" "encode_list l"] unfolding rec by (simp add: field_reads e)
  show "slice_at (i * (8 + d * 4) + 8) (4 * d) (encode_list l) = f32s_bytes (snd (l ! i))"
    using slice_at_slice [of 8 "4 * d" "8 + d * 4" "i * (8 + d * 4)" "encode_list l"] unfolding rec
    by (simp add: field_reads slice_at_def d e)
qed

lemma list_bytes_read:
  assumes "\<forall>e \<in> set l. length (snd e) = d"
  shows "map (list_entry_at d (encode_list l)) [0..<length l] = l"
proof (rule nth_equalityI)
  fix i assume "i < length (map (list_entry_at d (encode_list l)) [0..<length l])"
  then have i: "i < length l" by simp
  then have "length (snd (l ! i)) = d" using assms by simp
  with f32s_at_bytes [of "i * (8 + d * 4) + 8" "snd (l ! i)" "encode_list l"] encode_list_record(3) [OF assms i]
  have "f32s_at (i * (8 + d * 4) + 8) d (encode_list l) = snd (l ! i)" by simp
  then show "map (list_entry_at d (encode_list l)) [0..<length l] ! i = l ! i"
    using i encode_list_record(2) [OF assms i] by (simp add: list_entry_at_def Let_def)
qed simp

text \<open>Where the scan looks for the pending region: behind the last list.\<close>

lemma sat_add_eq: "unat a + unat b < 2 ^ 32 \<Longrightarrow> sat_add a b = a + b"
  by (simp add: sat_add_def)

lemma u32_at_dir_bytes:
  assumes "i < length dir"
  shows "u32_at (i * 12 + 4) (dir_bytes dir) = fst (snd (dir ! i))"
proof -
  have "dir_at (dir_bytes dir) i = dir ! i"
    using arg_cong [OF dir_bytes_read [of dir], of "\<lambda>xs. xs ! i"] assms by simp
  then show ?thesis by (metis dir_at_def fst_conv snd_conv)
qed

lemma sum_entries_dir:
  assumes "k + n \<le> length dir" and "unat acc + (\<Sum>i \<leftarrow> [k..<k + n]. unat (fst (snd (dir ! i)))) < 2 ^ 32"
  shows "unat (sum_entries 12 [4] (dir_bytes dir) [k..<k + n] acc) =
    unat acc + (\<Sum>i \<leftarrow> [k..<k + n]. unat (fst (snd (dir ! i))))"
  using assms
proof (induction n arbitrary: k acc)
  case 0
  then show ?case by simp
next
  case (Suc n)
  let ?np = "fst (snd (dir ! k))"
  have u: "[k..<k + Suc n] = k # [Suc k..<Suc k + n]" by (simp add: upt_rec)
  have s: "sat_add acc ?np = acc + ?np" "unat (acc + ?np) = unat acc + unat ?np"
    using Suc.prems(2) unfolding u by (simp_all add: sat_add_eq unat_word_ariths)
  have "unat (sum_entries 12 [4] (dir_bytes dir) [Suc k..<Suc k + n] (acc + ?np)) =
      unat (acc + ?np) + (\<Sum>i \<leftarrow> [Suc k..<Suc k + n]. unat (fst (snd (dir ! i))))"
  proof (rule Suc.IH)
    show "unat (acc + ?np) + (\<Sum>i \<leftarrow> [Suc k..<Suc k + n]. unat (fst (snd (dir ! i)))) < 2 ^ 32"
      using Suc.prems(2) unfolding u s(2) by (simp only: list.map sum_list.Cons add.assoc)
  qed (use Suc.prems(1) in simp)
  then show ?case
    unfolding u using Suc.prems(1) s by (simp add: u32_at_dir_bytes)
qed

lemma list_directory_pages:
  "length (concat (map (\<lambda>l. push_chunks (encode_list l)) ls)) < 2 ^ 32 \<Longrightarrow>
   (\<Sum>e \<leftarrow> list_directory c ls. unat (fst (snd e))) = length (concat (map (\<lambda>l. push_chunks (encode_list l)) ls))"
  by (induction ls arbitrary: c) (simp_all add: Let_def npages_for_chunks)

text \<open>
  A relation that holds a generation at \<open>base\<close>: the meta, the directory and every list read back as they were written, and
  the pending region starts behind the last chunk.
\<close>

definition generation :: "relation \<Rightarrow> u32 \<Rightarrow> u32 \<Rightarrow> u8 \<Rightarrow> f32_bits list list \<Rightarrow> (i64 \<times> f32_bits list) list list \<Rightarrow> bool" where
  "generation r base dim mtag cs ls \<longleftrightarrow>
     (let items = structured_page_items base dim mtag cs ls in
      holds_new (hd items) (unat base) (map (\<lambda>i. [i]) (tl items)) r \<and> unat base + length (tl items) < 2 ^ 32) \<and>
     1 \<le> unat base \<and> (\<forall>c \<in> set cs. length c = unat dim) \<and> (cs = [] \<or> 0 < dim) \<and> length cs = length ls \<and> length cs < 2 ^ 28"

lemma ivf_meta_fields:
  assumes "m = ivf_meta_bytes mtag dim n dp cp base"
  shows "length m = 29" "u32_at 0 m = IVF_STRUCT_MAGIC" "u32_at 4 m = 3" "m ! 8 = mtag" "u32_at 9 m = dim" "u32_at 13 m = n"
    "u32_at 17 m = dp" "u32_at 21 m = cp" "u32_at 25 m = base"
  by (simp_all add: assms ivf_meta_bytes_def u32_at_def field_reads)

lemma generation_reads:
  assumes g: "generation r base dim mtag cs ls"
  obtains dir where "read_ivf_meta r = Inr \<lparr>im_dim = dim, im_metric_tag = mtag, im_centroids = cs, im_dir = dir\<rparr>"
    "list_all2 (\<lambda>(fb, np, cnt) l. read_chunked r fb np = Inr (encode_list l) \<and> cnt = of_nat (length l)) dir ls"
    "peek_magic r = Inr IVF_STRUCT_MAGIC" "ivf_version_of r = Inr V3" "ivf_gen_base r = Inr base"
    "pending_layout r = Inr (of_nat (unat base + length (tl (structured_page_items base dim mtag cs ls))), length r)"
proof -
  let ?n = "of_nat (length cs) :: u32" and ?cb = "concat (map f32s_bytes cs)"
  have n: "unat ?n = length cs" using g by (intro unat_of_nat_u32) (simp add: generation_def)
  define dp cp where "dp = npages_for (length cs * 12)" and "cp = npages_for (length ?cb)"
  define dir where "dir = list_directory (base + dp + cp) ls"
  define d c L where "d = push_chunks (dir_bytes dir)" and "c = push_chunks ?cb"
    and "L = concat (map (\<lambda>l. push_chunks (encode_list l)) ls)"
  define m where "m = ivf_meta_bytes mtag dim ?n dp cp base"
  have ld: "length dir = length cs" unfolding dir_def length_list_directory using g unfolding generation_def by argo
  have dl: "length (dir_bytes dir) = length cs * 12" using ld by (simp add: dir_bytes_length)
  have items: "structured_page_items base dim mtag cs ls = m # d @ c @ L"
    by (simp add: structured_page_items_def Let_def n m_def d_def c_def L_def dir_def dp_def cp_def)
  have h: "holds_new m (unat base) (map (\<lambda>i. [i]) (d @ c @ L)) r"
    and room: "unat base + length (d @ c @ L) < 2 ^ 32" using g unfolding generation_def items Let_def list.sel by blast+
  have cs: "\<forall>c \<in> set cs. length c = unat dim" "cs = [] \<or> 0 < dim" using g by (simp_all add: generation_def)
  have at: "chunks_at r (unat base) d" "chunks_at r (unat base + length d) c" "chunks_at r (unat base + length d + length c) L"
    using holds_new_chunks [OF h] by (simp_all add: chunks_at_append add.assoc)
  have dp: "dp = of_nat (length d)" using npages_for_chunks [of "dir_bytes dir"] by (simp add: dl dp_def d_def)
  have cp: "cp = of_nat (length c)" unfolding cp_def c_def by (rule npages_for_chunks)
  have rd: "read_chunked r base dp = Inr (dir_bytes dir)"
    using read_chunks_at [OF at(1) [unfolded d_def]] room by (simp add: dl dp_def d_def)
  have rc: "read_chunked r (base + dp) cp = Inr ?cb"
    using read_chunks_at [OF at(2) [unfolded c_def]] room by (simp add: dp cp_def c_def)
  have rl: "list_all2 (\<lambda>(fb, np, cnt) l. read_chunked r fb np = Inr (encode_list l) \<and> cnt = of_nat (length l)) dir ls"
    using list_directory_reads [OF at(3) [unfolded L_def]] room by (simp add: dp cp add.assoc dir_def L_def)
  have "1 \<le> unat base" using g by (simp add: generation_def)
  then have r: "r \<noteq> []" using h by (auto simp: holds_new_def)
  have r0: "read_page_item r 0 = Inr m"
    using h r by (simp add: holds_new_def read_page_item_eq page_data_def)
  note f = ivf_meta_fields [OF m_def]
  have "read_ivf_meta r = Inr \<lparr>im_dim = dim, im_metric_tag = mtag, im_centroids = cs, im_dir = dir\<rparr>"
    using centroid_bytes_read [OF cs(1)] cs(2) dir_bytes_read [of dir] unfolding read_ivf_meta_def r0 ld
    by (auto simp: f Let_def n rd rc dl unat_eq_0)
  moreover have "peek_magic r = Inr IVF_STRUCT_MAGIC" by (simp add: peek_magic_def r r0 f)
  moreover have "ivf_version_of r = Inr V3" by (simp add: ivf_version_of_def r0 map_ivf_version_def f)
  moreover have "ivf_gen_base r = Inr base" by (simp add: ivf_gen_base_def r0 f)
  moreover have "pending_layout r = Inr (of_nat (unat base + length (d @ c @ L)), length r)"
  proof -
    have a: "sat_add (sat_add base dp) cp = of_nat (unat base + length d + length c)"
      using room by (simp add: dp cp sat_add_eq unat_word_ariths)
    have s: "(\<Sum>i \<leftarrow> [0..<0 + length dir]. unat (fst (snd (dir ! i)))) = length L"
    proof -
      have "(\<Sum>i \<leftarrow> [0..<0 + length dir]. unat (fst (snd (dir ! i)))) = (\<Sum>e \<leftarrow> map ((!) dir) [0..<length dir]. unat (fst (snd e)))"
        by (simp add: comp_def)
      also have "\<dots> = length L" unfolding map_nth dir_def L_def by (rule list_directory_pages) (use room in \<open>simp add: L_def\<close>)
      finally show ?thesis .
    qed
    have u: "unat (of_nat (unat base + length d + length c) :: u32) = unat base + length d + length c"
      by (rule unat_of_nat_u32) (use room in simp)
    have "unat (sum_entries 12 [4] (dir_bytes dir) [0..<0 + length dir] (of_nat (unat base + length d + length c))) =
        unat base + length d + length c + length L"
      using sum_entries_dir [of 0 "length dir" dir "of_nat (unat base + length d + length c)"] room unfolding s u by simp
    then have e: "sum_entries 12 [4] (dir_bytes dir) [0..<length cs] (of_nat (unat base + length d + length c)) =
        of_nat (unat base + length (d @ c @ L))"
      unfolding ld add_0 by (subst word_unat_eq_iff) (simp only: unat_of_nat_u32 [OF room [unfolded length_append]] unat_of_nat_u32 [OF room [unfolded length_append add.assoc]] length_append add.assoc)
    show ?thesis
      using r by (simp add: pending_layout_def main_index_pages_def r0 f Let_def pending_start_v2_v3_def rd dl n a e del: of_nat_add)
  qed
  ultimately show ?thesis using rl that unfolding items list.sel by blast
qed

section \<open>Properties\<close>

text \<open>What the reader finds in a relation: the centroids and every list, from the directory.\<close>

definition ivf_holds :: "relation \<Rightarrow> u32 \<Rightarrow> u8 \<Rightarrow> f32_bits list list \<Rightarrow> (i64 \<times> f32_bits list) list list \<Rightarrow> bool" where
  "ivf_holds r dim mtag cs ls \<longleftrightarrow> (\<exists>dir. read_ivf_meta r = Inr \<lparr>im_dim = dim, im_metric_tag = mtag, im_centroids = cs, im_dir = dir\<rparr> \<and>
     length dir = length cs \<and> list_all2 (\<lambda>(fb, np, cnt) l. read_ivf_list r fb np cnt dim = Inr l) dir ls)"

definition lists_ok :: "nat \<Rightarrow> (i64 \<times> f32_bits list) list list \<Rightarrow> bool" where
  "lists_ok d ls \<longleftrightarrow> (\<forall>l \<in> set ls. length l < 2 ^ 32 \<and> (\<forall>e \<in> set l. length (snd e) = d))"

lemma read_ivf_list_encoded:
  assumes "read_chunked r fb np = Inr (encode_list l)" and "length l < 2 ^ 32" and "\<forall>e \<in> set l. length (snd e) = unat dim"
  shows "read_ivf_list r fb np (of_nat (length l)) dim = Inr l"
  using encode_list_record(1) [OF assms(3)] list_bytes_read [OF assms(3)] assms(1,2) by (simp add: read_ivf_list_def Let_def)

lemma generation_holds:
  assumes "generation r base dim mtag cs ls" and "lists_ok (unat dim) ls"
  shows "ivf_holds r dim mtag cs ls"
proof -
  obtain dir where d: "read_ivf_meta r = Inr \<lparr>im_dim = dim, im_metric_tag = mtag, im_centroids = cs, im_dir = dir\<rparr>"
    "list_all2 (\<lambda>(fb, np, cnt) l. read_chunked r fb np = Inr (encode_list l) \<and> cnt = of_nat (length l)) dir ls"
    by (rule generation_reads [OF assms(1)]) (rule that)
  have "list_all2 (\<lambda>(fb, np, cnt) l. read_ivf_list r fb np cnt dim = Inr l) dir ls"
    using d(2) by (rule list.rel_mono_strong) (use assms(2) in \<open>auto simp: lists_ok_def read_ivf_list_encoded\<close>)
  moreover have "length dir = length cs"
    using list_all2_lengthD [OF d(2)] assms(1) unfolding generation_def by argo
  ultimately show ?thesis using d(1) by (auto simp: ivf_holds_def)
qed

text \<open>Every page of a generation takes its item: the meta has 29 bytes and a chunk at most \<open>CHUNK\<close>.\<close>

lemma push_chunks_fit: "c \<in> set (push_chunks data) \<Longrightarrow> page_fits [c]"
  unfolding push_chunks_blob by (rule blob_chunks_fit)

lemma structured_items_fit: "c \<in> set (structured_page_items base dim mtag cs ls) \<Longrightarrow> page_fits [c]"
  by (auto simp: structured_page_items_def Let_def ivf_meta_bytes_def push_chunks_fit intro: page_fits_small)

lemma structured_items_cons:
  "structured_page_items base dim mtag cs ls = hd (structured_page_items base dim mtag cs ls) # tl (structured_page_items base dim mtag cs ls)"
  by (simp add: structured_page_items_def Let_def)

lemma write_ivf_structured_eq:
  "write_ivf_structured rel dim mtag cs ls = Inr (rel @ map (\<lambda>i. [i]) (structured_page_items 1 dim mtag cs ls))"
  unfolding write_ivf_structured_def by (rule extend_items_ok) (simp add: structured_items_fit)

lemma write_ivf_structured_generation:
  assumes "\<forall>c \<in> set cs. length c = unat dim" and "cs = [] \<or> 0 < dim" and "length cs = length ls" and "length cs < 2 ^ 28"
    and "length (structured_page_items 1 dim mtag cs ls) < 2 ^ 32"
  obtains r where "write_ivf_structured [] dim mtag cs ls = Inr r" "generation r 1 dim mtag cs ls"
    "length r = length (structured_page_items 1 dim mtag cs ls)"
proof
  let ?items = "structured_page_items 1 dim mtag cs ls"
  let ?r = "map (\<lambda>i. [i]) ?items"
  show "write_ivf_structured [] dim mtag cs ls = Inr ?r" by (simp add: write_ivf_structured_eq)
  have "?r = [hd ?items] # map (\<lambda>i. [i]) (tl ?items)" by (subst structured_items_cons) simp
  then have "holds_new (hd ?items) 1 (map (\<lambda>i. [i]) (tl ?items)) ?r"
    by (simp add: holds_new_def)
  moreover have "1 + length (tl ?items) < 2 ^ 32" using assms(5) by (subst (asm) structured_items_cons) simp
  ultimately show "generation ?r 1 dim mtag cs ls" using assms by (simp only: generation_def Let_def unsigned_1) simp
qed simp

lemma generation_fresh_pending:
  assumes g: "generation r 1 dim mtag cs ls" and len: "length r = length (structured_page_items 1 dim mtag cs ls)"
    and small: "length r < 2 ^ 32"
  shows "read_pending r = Inr []"
proof -
  have len': "length r = 1 + length (tl (structured_page_items 1 dim mtag cs ls))"
    unfolding len by (subst structured_items_cons) simp
  have p: "pending_layout r = Inr (of_nat (length r), length r)" by (rule generation_reads [OF g], simp add: len')
  have u: "unat (of_nat (length r) :: u32) = length r" by (rule unat_of_nat_u32) (use small in simp)
  then have "(of_nat (length r) :: u32) \<noteq> 0" using len' by (metis One_nat_def add_is_0 nat.distinct(1) unat_eq_zero)
  then show ?thesis by (rule read_pending_none [OF p]) (use u in simp_all)
qed

text \<open>C8: The f32 layout of an IVF index reads back. The write to a fresh relation succeeds, every item within its page, and
  afterwards the meta names the dimension, the metric and every centroid, each directory entry leads to exactly the rows of its
  list, whatever the number of pages they take, the layout is recognised as version 3 and nothing of it is taken for a pending
  row.\<close>

theorem ivf_layout_roundtrip:
  assumes "\<forall>c \<in> set cs. length c = unat dim" and "cs = [] \<or> 0 < dim" and "length cs = length ls" and "length cs < 2 ^ 28"
    and "length (structured_page_items 1 dim mtag cs ls) < 2 ^ 32" and "lists_ok (unat dim) ls"
  shows "\<exists>r. write_ivf_structured [] dim mtag cs ls = Inr r \<and> ivf_holds r dim mtag cs ls \<and>
    ivf_version_of r = Inr V3 \<and> read_pending r = Inr []"
proof -
  obtain r where r: "write_ivf_structured [] dim mtag cs ls = Inr r" "generation r 1 dim mtag cs ls"
    "length r = length (structured_page_items 1 dim mtag cs ls)"
    by (rule write_ivf_structured_generation [OF assms(1-5)])
  have "ivf_version_of r = Inr V3" by (rule generation_reads [OF r(2)])
  with r generation_holds [OF r(2) assms(6)] generation_fresh_pending [OF r(2,3)] assms(5) show ?thesis by simp
qed

theorem ivf_layout_roundtrip_witness:
  "\<exists>r. write_ivf_structured [] 1 0 [[5], [9]] [[(3, [4])], []] = Inr r \<and> ivf_holds r 1 0 [[5], [9]] [[(3, [4])], []] \<and>
   ivf_version_of r = Inr V3 \<and> read_pending r = Inr []"
  by (rule ivf_layout_roundtrip) (simp_all add: lists_ok_def structured_page_items_def Let_def push_chunks_def encode_list_def dir_bytes_def CHUNK_def chunks.simps)

end
