(* ===== verification/IvfAm.thy ===== *)
theory IvfAm
  imports HnswScan IvfPages
begin

text \<open>
  The access method over a structured f32 IVF index: the scan of \<open>am/scan.rs\<close> (\<open>scan_ivf_structured\<close> and the IVF
  branches of \<open>amrescan\<close> and \<open>amgettuple\<close>) and the VACUUM fold of \<open>am/build.rs\<close> (\<open>vacuum_rebuild_structured\<close>). The
  readers of the quantized layouts (versions 4 to 8) are the parameter \<open>aq\<close>. The phase profiler is not modelled.
\<close>

section \<open>The scan of the probed lists\<close>

text \<open>One list: the records up to the count of the directory, or up to the end of the bytes when they are fewer.\<close>

fun score_entries :: "scan_env \<Rightarrow> metric \<Rightarrow> f32_bits list \<Rightarrow> nat \<Rightarrow> bytes \<Rightarrow> nat list \<Rightarrow> scan_error + scored list" where
  "score_entries env metric q entry bs [] = Inr []"
| "score_entries env metric q entry bs (i # is) =
     (let o' = i * entry in
      if length bs < o' + entry then Inr []
      else bind_r (score env metric q (slice_at (o' + 8) (entry - 8) bs)) (\<lambda>d.
        bind_r (score_entries env metric q entry bs is) (\<lambda>rest. Inr ((from_le (slice_at o' 8 bs), d) # rest))))"

definition centroid_order :: "scan_env \<Rightarrow> metric \<Rightarrow> f32_bits list \<Rightarrow> f32_bits list list \<Rightarrow> nat list" where
  "centroid_order env metric q cs =
     map snd (sort_key (\<lambda>r. f64_total_key (fst r)) (map (\<lambda>i. (metric_dist env metric q (cs ! i), i)) [0..<length cs]))"

fun score_lists :: "scan_env \<Rightarrow> relation \<Rightarrow> metric \<Rightarrow> f32_bits list \<Rightarrow> ivf_meta \<Rightarrow> nat list \<Rightarrow> scan_error + scored list" where
  "score_lists env rel metric q meta [] = Inr []"
| "score_lists env rel metric q meta (c # cs) =
     (let (fb, np, cnt) = im_dir meta ! c in
      bind_r (scan_page (read_ivf_list_bytes rel fb np)) (\<lambda>bs.
      bind_r (score_entries env metric q (8 + unat (im_dim meta) * 4) bs [0..<unat cnt]) (\<lambda>rows.
      bind_r (score_lists env rel metric q meta cs) (\<lambda>rest. Inr (rows @ rest)))))"

type_synonym aq_scan = "ivf_version \<Rightarrow> relation \<Rightarrow> f32_bits list \<Rightarrow> nat \<Rightarrow> nat \<Rightarrow> scan_error + scored list"

definition scan_ivf_structured :: "aq_scan \<Rightarrow> scan_env \<Rightarrow> relation \<Rightarrow> f32_bits list \<Rightarrow> nat \<Rightarrow> nat \<Rightarrow> scan_error + scored list" where
  "scan_ivf_structured aq env rel q probes rerank_pool =
     bind_r (scan_page (ivf_version_of rel)) (\<lambda>ver.
     if ver \<noteq> V3 then aq ver rel q probes rerank_pool
     else bind_r (scan_page (read_ivf_meta rel)) (\<lambda>meta.
       case metric_from_tag (im_metric_tag meta) of None \<Rightarrow> Inl ScanMetricTag
       | Some metric \<Rightarrow>
         let order = centroid_order env metric q (im_centroids meta);
             p = min (max probes 1) (max (length (im_centroids meta)) 1)
         in bind_r (score_lists env rel metric q meta (take p order)) (\<lambda>results.
            bind_r (pending_scored env rel metric q) (\<lambda>ps. Inr (results @ ps)))))"

section \<open>The scan state machine of an IVF index\<close>

text \<open>\<open>ScanState\<close> with the fields only an IVF scan uses.\<close>

record ivf_scan_state = scan_state +
  sn_probes :: nat
  sn_rerank_pool :: nat
  sn_lists :: nat
  sn_last_total :: nat

record ivf_config =
  gi_probes :: nat
  gi_over_fetch :: nat
  gi_max_scan_tuples :: nat

definition ivf_beginscan :: ivf_scan_state where
  "ivf_beginscan = scan_state.extend ambeginscan \<lparr>sn_probes = 0, sn_rerank_pool = 0, sn_lists = 0, sn_last_total = 0\<rparr>"

text \<open>\<open>amrescan\<close> on a relation whose magic is that of an IVF index or that is not built yet; \<open>other\<close> is the rest of the dispatch.\<close>

definition amrescan_ivf :: "aq_scan \<Rightarrow> (relation \<Rightarrow> nat option) \<Rightarrow> (ivf_scan_state \<Rightarrow> scan_error + ivf_scan_state) \<Rightarrow> scan_env \<Rightarrow> ivf_config \<Rightarrow>
    relation \<Rightarrow> order_key \<Rightarrow> ivf_scan_state \<Rightarrow> scan_error + ivf_scan_state" where
  "amrescan_ivf aq aq_count other env cfg rel order st =
     (let st = st\<lparr>sn_heap := [], sn_emitted := {}, sn_exhausted := False, sn_iterative := False, sn_resume := None,
        sn_unordered := (order = NoOrderBy)\<rparr> in
      case order of NoOrderBy \<Rightarrow> Inr st | NullQuery \<Rightarrow> Inr st
      | OrderBy q \<Rightarrow>
          bind_r (scan_page (peek_magic rel)) (\<lambda>magic.
          if magic = 0 then Inr st
          else if magic = IVF_STRUCT_MAGIC then
            let probes0 = gi_probes cfg; pool0 = 64 * gi_over_fetch cfg in
            bind_r (scan_ivf_structured aq env rel q probes0 pool0) (\<lambda>init.
            Inr (st\<lparr>sn_query := q, sn_probes := probes0, sn_rerank_pool := pool0, sn_lists := ivf_list_count aq_count rel,
              sn_iterative := (gi_max_scan_tuples cfg > 0), sn_last_total := length init, sn_heap := heapify init\<rparr>))
          else other st))"

text \<open>
  The growth loop doubles the probes and the rerank pool until something new turns up or the scan is saturated. Nothing
  in it bounds the number of rounds, so it is a partial function: \<open>None\<close> would be a loop that never ends.
\<close>

partial_function (option) ivf_pull :: "(f32_bits list \<Rightarrow> nat \<Rightarrow> nat \<Rightarrow> scan_error + scored list) \<Rightarrow> nat \<Rightarrow> ivf_scan_state \<Rightarrow>
    (scan_error + ivf_scan_state \<times> bool) option" where
  "ivf_pull scan cap st =
     (if card (sn_emitted st) \<ge> cap then Some (Inr (st\<lparr>sn_exhausted := True\<rparr>, False))
      else let st = st\<lparr>sn_probes := min (sn_probes st * 2) usize_max, sn_rerank_pool := min (sn_rerank_pool st * 2) usize_max\<rparr> in
        case scan (sn_query st) (sn_probes st) (sn_rerank_pool st) of Inl e \<Rightarrow> Some (Inl e)
        | Inr all \<Rightarrow>
          let new = fresh_only (sn_emitted st) all in
          if new \<noteq> [] then Some (Inr (st\<lparr>sn_heap := heapify new\<rparr>, True))
          else if sn_probes st \<ge> max (sn_lists st) 1 \<and> length all \<le> sn_last_total st then
            Some (Inr (st\<lparr>sn_exhausted := True\<rparr>, False))
          else ivf_pull scan cap (st\<lparr>sn_last_total := length all\<rparr>))"

partial_function (option) amgettuple_ivf :: "(f32_bits list \<Rightarrow> nat \<Rightarrow> nat \<Rightarrow> scan_error + scored list) \<Rightarrow> nat \<Rightarrow> ivf_scan_state \<Rightarrow>
    (scan_error + ivf_scan_state \<times> i64 option) option" where
  "amgettuple_ivf scan cap st =
     (if sn_unordered st then Some (Inl UnorderedScan)
      else case sn_heap st of
        r # rest \<Rightarrow>
          (let st = st\<lparr>sn_heap := rest\<rparr> in
           if fst r \<in> sn_emitted st then amgettuple_ivf scan cap st
           else Some (Inr (st\<lparr>sn_emitted := insert (fst r) (sn_emitted st)\<rparr>, Some (fst r))))
      | [] \<Rightarrow>
          if \<not> sn_iterative st \<or> sn_exhausted st then Some (Inr (st, None))
          else if card (sn_emitted st) \<ge> cap then Some (Inr (st\<lparr>sn_exhausted := True\<rparr>, None))
          else Option.bind (ivf_pull scan cap st) (\<lambda>r.
            case r of Inl e \<Rightarrow> Some (Inl e)
            | Inr (st, found) \<Rightarrow> if found then amgettuple_ivf scan cap st else Some (Inr (st, None))))"

text \<open>A whole scan: the TIDs the executor pulls, at most \<open>n\<close>.\<close>

fun pull_ivf_tids :: "(f32_bits list \<Rightarrow> nat \<Rightarrow> nat \<Rightarrow> scan_error + scored list) \<Rightarrow> nat \<Rightarrow> nat \<Rightarrow> ivf_scan_state \<Rightarrow>
    (scan_error + i64 list) option" where
  "pull_ivf_tids scan cap 0 st = Some (Inr [])"
| "pull_ivf_tids scan cap (Suc n) st =
     Option.bind (amgettuple_ivf scan cap st) (\<lambda>r.
     case r of Inl e \<Rightarrow> Some (Inl e)
     | Inr (st, None) \<Rightarrow> Some (Inr [])
     | Inr (st, Some t) \<Rightarrow> map_option (\<lambda>r. bind_r r (\<lambda>ts. Inr (t # ts))) (pull_ivf_tids scan cap n st))"


section \<open>The growth loop ends\<close>

text \<open>With probes and pool at their ceilings the next round scans the same lists and returns the same total.\<close>

definition growth_room :: "nat \<Rightarrow> nat \<Rightarrow> nat" where
  "growth_room p r = (usize_max - p) + (if r = 0 then 0 else usize_max - r)"

lemma growth_room_doubled:
  assumes "0 < p" and "\<not> (usize_max \<le> p \<and> (r = 0 \<or> usize_max \<le> r))"
  shows "growth_room (min (p * 2) usize_max) (min (r * 2) usize_max) < growth_room p r"
proof -
  have m: "usize_max - min (x * 2) usize_max \<le> usize_max - x" "0 < x \<Longrightarrow> \<not> usize_max \<le> x \<Longrightarrow> usize_max - min (x * 2) usize_max < usize_max - x" for x
    by auto
  let ?room = "\<lambda>r. if r = 0 then 0 else usize_max - r"
  have "0 < usize_max" by (simp add: usize_max_def)
  then have z: "min (r * 2) usize_max = 0 \<longleftrightarrow> r = 0" by auto
  have r: "?room (min (r * 2) usize_max) \<le> ?room r" "r \<noteq> 0 \<Longrightarrow> \<not> usize_max \<le> r \<Longrightarrow> ?room (min (r * 2) usize_max) < ?room r"
    unfolding z using m [of r] by simp_all
  show ?thesis
    unfolding growth_room_def
  proof (cases "usize_max \<le> p")
    case True
    with assms(2) have "r \<noteq> 0" "\<not> usize_max \<le> r" by auto
    from add_le_less_mono [OF m(1) r(2) [OF this]]
    show "usize_max - min (p * 2) usize_max + ?room (min (r * 2) usize_max) < usize_max - p + ?room r" .
  next
    case False
    from add_less_le_mono [OF m(2) [OF assms(1) False] r(1)]
    show "usize_max - min (p * 2) usize_max + ?room (min (r * 2) usize_max) < usize_max - p + ?room r" .
  qed
qed

lemma ivf_pull_saturated:
  assumes p: "usize_max \<le> sn_probes st" and r: "sn_rerank_pool st = 0 \<or> usize_max \<le> sn_rerank_pool st" and l: "sn_lists st \<le> usize_max"
  shows "\<exists>x. ivf_pull scan cap st = Some x"
proof -
  have u: "min (sn_probes st * 2) usize_max = usize_max" "min (usize_max * 2) usize_max = usize_max"
    "min (min (sn_rerank_pool st * 2) usize_max * 2) usize_max = min (sn_rerank_pool st * 2) usize_max" "1 \<le> usize_max"
    using p r by (auto simp: usize_max_def)
  have l': "max (sn_lists st) (Suc 0) \<le> usize_max" using l u(4) by simp
  show ?thesis
    apply (subst ivf_pull.simps)
    apply (subst ivf_pull.simps)
    using l' by (auto simp: Let_def u split: sum.split)
qed

lemma ivf_pull_terminates:
  assumes "0 < sn_probes st" and "sn_lists st \<le> usize_max"
  shows "\<exists>x. ivf_pull scan cap st = Some x"
  using assms
proof (induction "growth_room (sn_probes st) (sn_rerank_pool st)" arbitrary: st rule: less_induct)
  case less
  show ?case
  proof (cases "usize_max \<le> sn_probes st \<and> (sn_rerank_pool st = 0 \<or> usize_max \<le> sn_rerank_pool st)")
    case True
    then show ?thesis using ivf_pull_saturated less.prems by blast
  next
    case False
    let ?st = "\<lambda>t. st\<lparr>sn_probes := min (sn_probes st * 2) usize_max, sn_rerank_pool := min (sn_rerank_pool st * 2) usize_max, sn_last_total := t\<rparr>"
    have p: "0 < min (sn_probes st * 2) usize_max" using less.prems(1) by (simp add: usize_max_def)
    have "\<exists>x. ivf_pull scan cap (?st t) = Some x" for t
      by (rule less.hyps) (use growth_room_doubled [OF less.prems(1) False] p less.prems(2) in simp_all)
    then show ?thesis
      by (subst ivf_pull.simps) (auto simp: Let_def split: sum.split)
  qed
qed

text \<open>What a round that goes on leaves: a heap whose first row is new. A round that ends leaves the heap and marks the end.\<close>

definition pull_result :: "ivf_scan_state \<Rightarrow> ivf_scan_state \<Rightarrow> bool \<Rightarrow> bool" where
  "pull_result st st' found \<longleftrightarrow> sn_emitted st' = sn_emitted st \<and> sn_unordered st' = sn_unordered st \<and> sn_query st' = sn_query st \<and>
    sn_lists st' = sn_lists st \<and> sn_iterative st' = sn_iterative st \<and> (0 < sn_probes st \<longrightarrow> 0 < sn_probes st') \<and>
    (if found then sn_heap st' \<noteq> [] \<and> fst ` set (sn_heap st') \<inter> sn_emitted st = {} \<and> sn_exhausted st' = sn_exhausted st
     else sn_heap st' = sn_heap st \<and> sn_exhausted st')"

lemma ivf_pull_result:
  assumes "ivf_pull scan cap st = Some (Inr (st', found))"
  shows "pull_result st st' found"
  using assms
proof (induction scan cap st "Inr (st', found) :: scan_error + ivf_scan_state \<times> bool" arbitrary: st' found
    rule: ivf_pull.raw_induct [rotated, consumes 1, case_names step])
  case (step pull scan cap st)
  let ?st = "st\<lparr>sn_probes := min (sn_probes st * 2) usize_max, sn_rerank_pool := min (sn_rerank_pool st * 2) usize_max\<rparr>"
  have p: "0 < sn_probes st \<longrightarrow> 0 < sn_probes ?st" by (simp add: usize_max_def)
  show ?case
  proof (cases "card (sn_emitted st) \<ge> cap")
    case True
    with step(2) show ?thesis by (auto simp: pull_result_def)
  next
    case False
    with step(2) obtain all where a: "scan (sn_query ?st) (sn_probes ?st) (sn_rerank_pool ?st) = Inr all"
      by (cases "scan (sn_query ?st) (sn_probes ?st) (sn_rerank_pool ?st)") (simp_all add: Let_def)
    have r: "(if fresh_only (sn_emitted ?st) all \<noteq> [] then Some (Inr (?st\<lparr>sn_heap := heapify (fresh_only (sn_emitted ?st) all)\<rparr>, True))
        else if sn_probes ?st \<ge> max (sn_lists ?st) 1 \<and> length all \<le> sn_last_total ?st then Some (Inr (?st\<lparr>sn_exhausted := True\<rparr>, False))
        else pull scan cap (?st\<lparr>sn_last_total := length all\<rparr>)) = Some (Inr (st', found))"
      using step(2) unfolding Let_def a if_not_P [OF False] sum.case .
    consider (new) "fresh_only (sn_emitted st) all \<noteq> []" "Inr (?st\<lparr>sn_heap := heapify (fresh_only (sn_emitted st) all)\<rparr>, True) = (Inr (st', found) :: scan_error + _)"
      | (full) "Inr (?st\<lparr>sn_exhausted := True\<rparr>, False) = (Inr (st', found) :: scan_error + _)"
      | (grow) "pull scan cap (?st\<lparr>sn_last_total := length all\<rparr>) = Some (Inr (st', found))"
      using r by (simp split: if_split_asm)
    then show ?thesis
    proof cases
      case new
      have "fst ` set (heapify (fresh_only (sn_emitted st) all)) \<inter> sn_emitted st = {}"
        by (auto simp: heapify_def fresh_only_def)
      moreover have "heapify (fresh_only (sn_emitted st) all) \<noteq> []"
        using new(1) by (metis heapify_def set_empty set_sort)
      moreover have "st' = ?st\<lparr>sn_heap := heapify (fresh_only (sn_emitted st) all)\<rparr>" "found" using new(2) by simp_all
      ultimately show ?thesis using p by (simp add: pull_result_def)
    next
      case full
      then have "st' = ?st\<lparr>sn_exhausted := True\<rparr>" "\<not> found" by simp_all
      then show ?thesis using p by (simp add: pull_result_def)
    next
      case grow
      from step(1) [OF grow] p show ?thesis by (simp add: pull_result_def split: if_splits)
    qed
  qed
qed

lemma amgettuple_ivf_terminates:
  assumes "0 < sn_probes st" and "sn_lists st \<le> usize_max"
  shows "\<exists>x. amgettuple_ivf scan cap st = Some x \<and> (\<forall>st' out. x = Inr (st', out) \<longrightarrow> 0 < sn_probes st' \<and> sn_lists st' = sn_lists st)"
  using assms
proof (induction "sn_heap st" arbitrary: st)
  case Nil
  obtain x where x: "ivf_pull scan cap st = Some x" using ivf_pull_terminates [OF Nil.prems] by blast
  show ?case
  proof (cases x)
    case (Inl e)
    then show ?thesis using x Nil by (subst amgettuple_ivf.simps) auto
  next
    case (Inr y)
    obtain st' found where y: "y = (st', found)" by (cases y)
    note r = ivf_pull_result [OF x [unfolded Inr y], unfolded pull_result_def]
    show ?thesis
    proof (cases found)
      case True
      then obtain t d rest where h: "sn_heap st' = (t, d) # rest" "t \<notin> sn_emitted st'"
        using r by (cases "sn_heap st'") (auto simp: disjoint_iff)
      have "amgettuple_ivf scan cap st' = (if sn_unordered st' then Some (Inl UnorderedScan)
          else Some (Inr (st'\<lparr>sn_heap := rest, sn_emitted := insert t (sn_emitted st')\<rparr>, Some t)))"
        by (subst amgettuple_ivf.simps) (simp add: h Let_def)
      then show ?thesis using x Inr y True r Nil by (subst amgettuple_ivf.simps) auto
    next
      case False
      then show ?thesis using x Inr y r Nil by (subst amgettuple_ivf.simps) auto
    qed
  qed
next
  case (Cons row rest)
  let ?st = "st\<lparr>sn_heap := rest\<rparr>"
  have "\<exists>x. amgettuple_ivf scan cap ?st = Some x \<and> (\<forall>st' out. x = Inr (st', out) \<longrightarrow> 0 < sn_probes st' \<and> sn_lists st' = sn_lists ?st)"
    by (rule Cons.hyps(1)) (use Cons.prems in simp_all)
  then show ?case using Cons.hyps(2) [symmetric] Cons.prems
    by (subst amgettuple_ivf.simps) (auto simp: Let_def)
qed

lemma pull_ivf_tids_terminates:
  "0 < sn_probes st \<Longrightarrow> sn_lists st \<le> usize_max \<Longrightarrow> \<exists>x. pull_ivf_tids scan cap n st = Some x"
proof (induction n arbitrary: st)
  case (Suc n)
  obtain x where x: "amgettuple_ivf scan cap st = Some x"
    "\<forall>st' out. x = Inr (st', out) \<longrightarrow> 0 < sn_probes st' \<and> sn_lists st' = sn_lists st"
    using amgettuple_ivf_terminates [OF Suc.prems] by blast
  show ?case
  proof (cases x)
    case (Inr y)
    obtain st' out where y: "y = (st', out)" by (cases y)
    with x(2) Inr Suc.prems have "0 < sn_probes st'" "sn_lists st' \<le> usize_max" by auto
    from Suc.IH [OF this] show ?thesis using x(1) Inr y by (cases out) auto
  qed (use x in simp)
qed simp

section \<open>The rows of a stored index\<close>

text \<open>A relation with a readable f32 generation and its pending rows.\<close>

type_synonym entry_lists = "(i64 \<times> f32_bits list) list list"

definition ivf_stored :: "relation \<Rightarrow> u32 \<Rightarrow> u32 \<Rightarrow> metric \<Rightarrow> f32_bits list list \<Rightarrow> entry_lists \<Rightarrow> (i64 \<times> f32_bits list) list \<Rightarrow> bool" where
  "ivf_stored r base dim metric cs ls ps \<longleftrightarrow> generation r base dim (metric_tag metric) cs ls \<and> lists_ok (unat dim) ls \<and>
     read_pending r = Inr ps"

definition row_scores :: "scan_env \<Rightarrow> metric \<Rightarrow> f32_bits list \<Rightarrow> (i64 \<times> f32_bits list) list \<Rightarrow> scored list" where
  "row_scores env metric q l = map (\<lambda>e. (fst e, score_bytes env metric q (f32s_bytes (snd e)))) l"

lemma score_entries_list:
  assumes l: "\<forall>e \<in> set l. length (snd e) = d" and q: "length q = d" and "\<forall>i \<in> set is. i < length l"
  shows "score_entries env metric q (8 + d * 4) (encode_list l) is = Inr (row_scores env metric q (map ((!) l) is))"
  using assms(3)
proof (induction "is")
  case (Cons i "is")
  then have i: "i < length l" by simp
  then have "Suc i * (8 + d * 4) \<le> length l * (8 + d * 4)" by (intro mult_le_mono1) simp
  then have le: "\<not> length (encode_list l) < i * (8 + d * 4) + (8 + d * 4)"
    unfolding encode_list_record(1) [OF l] by simp
  have "slice_at (i * (8 + d * 4) + 8) (d * 4) (encode_list l) = f32s_bytes (snd (l ! i))"
    using encode_list_record(3) [OF l i] by (simp add: mult.commute)
  with Cons i le encode_list_record(2) [OF l i] l show ?case
    by (simp add: Let_def score_def q row_scores_def)
qed (simp add: row_scores_def)

lemma score_lists_dir:
  assumes dir: "list_all2 (\<lambda>(fb, np, cnt) l. read_chunked r fb np = Inr (encode_list l) \<and> cnt = of_nat (length l)) (im_dir meta) ls"
    and ok: "lists_ok (unat (im_dim meta)) ls" and q: "length q = unat (im_dim meta)" and "\<forall>i \<in> set is. i < length ls"
  shows "score_lists env r metric q meta is = Inr (concat (map (\<lambda>i. row_scores env metric q (ls ! i)) is))"
  using assms(4)
proof (induction "is")
  case (Cons i "is")
  obtain fb np cnt where e: "im_dir meta ! i = (fb, np, cnt)" by (cases "im_dir meta ! i")
  have i: "i < length ls" using Cons.prems by simp
  then have rd: "read_chunked r fb np = Inr (encode_list (ls ! i))" "cnt = of_nat (length (ls ! i))"
    using list_all2_nthD2 [OF dir, of i] e by simp_all
  have l: "length (ls ! i) < 2 ^ 32" "\<forall>e \<in> set (ls ! i). length (snd e) = unat (im_dim meta)"
    using ok nth_mem [OF i] unfolding lists_ok_def by blast+
  have "score_entries env metric q (8 + unat (im_dim meta) * 4) (encode_list (ls ! i)) [0..<unat cnt] = Inr (row_scores env metric q (ls ! i))"
    using score_entries_list [OF l(2) q, of "[0..<length (ls ! i)]"] l(1) by (simp add: rd(2) map_nth)
  with Cons e rd show ?case by (simp add: read_ivf_list_bytes_def)
qed simp

lemma mset_centroid_order: "mset (centroid_order env metric q cs) = mset [0..<length cs]"
proof -
  let ?c = "\<lambda>i. (metric_dist env metric q (cs ! i), i)"
  have "mset (centroid_order env metric q cs) = image_mset snd (mset (map ?c [0..<length cs]))"
    unfolding centroid_order_def mset_map mset_sort ..
  also have "\<dots> = mset (map snd (map ?c [0..<length cs]))" unfolding mset_map ..
  also have "map snd (map ?c [0..<length cs]) = [0..<length cs]" by (rule nth_equalityI) simp_all
  finally show ?thesis .
qed

lemma set_centroid_order: "set (centroid_order env metric q cs) = {0..<length cs}"
  using arg_cong [OF mset_centroid_order, of set_mset] by simp

definition probed :: "scan_env \<Rightarrow> metric \<Rightarrow> f32_bits list \<Rightarrow> f32_bits list list \<Rightarrow> nat \<Rightarrow> nat list" where
  "probed env metric q cs probes = take (min (max probes 1) (max (length cs) 1)) (centroid_order env metric q cs)"

lemma scan_ivf_stored:
  assumes s: "ivf_stored r base dim metric cs ls ps" and q: "length q = unat dim"
  shows "scan_ivf_structured aq env r q probes pool =
    Inr (concat (map (\<lambda>i. row_scores env metric q (ls ! i)) (probed env metric q cs probes)) @
      map (\<lambda>(t, v). (t, metric_dist env metric q v)) ps)"
proof -
  have g: "generation r base dim (metric_tag metric) cs ls" and ok: "lists_ok (unat dim) ls" and p: "read_pending r = Inr ps"
    using s by (simp_all add: ivf_stored_def)
  have len: "length cs = length ls" using g unfolding generation_def by argo
  obtain dir where m: "read_ivf_meta r = Inr \<lparr>im_dim = dim, im_metric_tag = metric_tag metric, im_centroids = cs, im_dir = dir\<rparr>"
    "list_all2 (\<lambda>(fb, np, cnt) l. read_chunked r fb np = Inr (encode_list l) \<and> cnt = of_nat (length l)) dir ls"
    "ivf_version_of r = Inr V3" by (rule generation_reads [OF g]) (rule that)
  have "set (probed env metric q cs probes) \<subseteq> {0..<length ls}"
    unfolding probed_def using set_take_subset set_centroid_order [of env metric q cs] len by metis
  then have "\<forall>i \<in> set (probed env metric q cs probes). i < length ls" by auto
  from score_lists_dir [of r "\<lparr>im_dim = dim, im_metric_tag = metric_tag metric, im_centroids = cs, im_dir = dir\<rparr>" ls q, OF _ _ _ this] m ok q p
  show ?thesis by (simp add: scan_ivf_structured_def pending_scored_def probed_def)
qed

section \<open>A scan hands out every row once\<close>

text \<open>What the growth loop needs of a gather: only rows of \<open>T\<close>, and all of them once every list is probed.\<close>

definition gathers :: "(f32_bits list \<Rightarrow> nat \<Rightarrow> nat \<Rightarrow> scan_error + scored list) \<Rightarrow> f32_bits list \<Rightarrow> i64 set \<Rightarrow> nat \<Rightarrow> bool" where
  "gathers scan q T L \<longleftrightarrow> finite T \<and> L \<le> usize_max \<and>
     (\<forall>p r. \<exists>rows. scan q p r = Inr rows \<and> fst ` set rows \<subseteq> T \<and> (max L 1 \<le> p \<longrightarrow> fst ` set rows = T))"

lemma stored_gathers:
  assumes s: "ivf_stored r base dim metric cs ls ps" and q: "length q = unat dim"
  shows "gathers (scan_ivf_structured aq env r) q (fst ` set (concat ls @ ps)) (length cs)"
proof -
  have len: "length cs = length ls" "length cs < 2 ^ 28" using s unfolding ivf_stored_def generation_def by argo+
  have row: "fst ` set (row_scores env metric q l) = fst ` set l" for l by (simp add: row_scores_def image_image)
  have pend: "fst ` set (map (\<lambda>(t, v). (t, metric_dist env metric q v)) ps) = fst ` set ps" by force
  have fs: "fst ` set (concat (map (\<lambda>i. row_scores env metric q (ls ! i)) is) @ map (\<lambda>(t, v). (t, metric_dist env metric q v)) ps) =
      fst ` (\<Union>i \<in> set is. set (ls ! i)) \<union> fst ` set ps" for "is"
    unfolding set_append image_Un pend by (simp add: image_UN row)
  have all: "(\<Union>i \<in> {0..<length ls}. set (ls ! i)) = \<Union> (set ` set ls)"
    by (metis (no_types) image_image list.set_map map_nth set_upt)
  show ?thesis
    unfolding gathers_def
  proof (intro conjI allI exI impI)
    show "length cs \<le> usize_max" using len(2) by (simp add: usize_max_def)
    show "scan_ivf_structured aq env r q p k = Inr (concat (map (\<lambda>i. row_scores env metric q (ls ! i)) (probed env metric q cs p)) @
        map (\<lambda>(t, v). (t, metric_dist env metric q v)) ps)" for p k by (rule scan_ivf_stored [OF s q])
    have "set (probed env metric q cs p) \<subseteq> {0..<length ls}" for p
      unfolding probed_def using set_take_subset set_centroid_order [of env metric q cs] len(1) by metis
    then show "fst ` set (concat (map (\<lambda>i. row_scores env metric q (ls ! i)) (probed env metric q cs p)) @
        map (\<lambda>(t, v). (t, metric_dist env metric q v)) ps) \<subseteq> fst ` set (concat ls @ ps)" for p
      unfolding fs unfolding set_append image_Un set_concat all [symmetric] by (intro Un_mono image_mono UN_mono) auto
    fix p assume "max (length cs) 1 \<le> p"
    moreover have "length (centroid_order env metric q cs) = length cs"
      using arg_cong [OF mset_centroid_order, of size] by simp
    ultimately have "set (probed env metric q cs p) = {0..<length ls}"
      unfolding probed_def len(1) [symmetric] by (simp add: set_centroid_order max_def)
    then show "fst ` set (concat (map (\<lambda>i. row_scores env metric q (ls ! i)) (probed env metric q cs p)) @
        map (\<lambda>(t, v). (t, metric_dist env metric q v)) ps) = fst ` set (concat ls @ ps)"
      unfolding fs unfolding set_append image_Un set_concat all [symmetric] by simp
  qed simp
qed

lemma if3_cases:
  assumes "(if a then x else if b then y else z) = w"
  obtains "x = w" | "\<not> a" "b" "y = w" | "z = w"
  using assms by (auto split: if_splits)

lemma ivf_pull_gathers:
  assumes "ivf_pull scan cap st = Some y" and "gathers scan (sn_query st) T (sn_lists st)" and "sn_emitted st \<subseteq> T" and "card T \<le> cap"
  shows "\<exists>st' found. y = Inr (st', found) \<and> (if found then fst ` set (sn_heap st') \<subseteq> T else sn_emitted st = T)"
  using assms
proof (induction rule: ivf_pull.raw_induct [rotated, consumes 1, case_names step])
  case (step pull scan cap st y)
  let ?st = "st\<lparr>sn_probes := min (sn_probes st * 2) usize_max, sn_rerank_pool := min (sn_rerank_pool st * 2) usize_max\<rparr>"
  have fin: "finite T" using step.prems(1) by (simp add: gathers_def)
  show ?case
  proof (cases "card (sn_emitted st) \<ge> cap")
    case True
    then have "sn_emitted st = T" using card_seteq [OF fin step.prems(2)] step.prems(3) by linarith
    with step.hyps True show ?thesis by auto
  next
    case False
    have "\<exists>rows. scan (sn_query st) (sn_probes ?st) (sn_rerank_pool ?st) = Inr rows \<and> fst ` set rows \<subseteq> T \<and>
        (max (sn_lists st) 1 \<le> sn_probes ?st \<longrightarrow> fst ` set rows = T)"
      using step.prems(1) unfolding gathers_def by blast
    then obtain all where "scan (sn_query st) (sn_probes ?st) (sn_rerank_pool ?st) = Inr all" and all: "fst ` set all \<subseteq> T"
      "max (sn_lists st) 1 \<le> sn_probes ?st \<longrightarrow> fst ` set all = T" by blast
    then have a: "scan (sn_query ?st) (sn_probes ?st) (sn_rerank_pool ?st) = Inr all" by simp
    have r: "(if fresh_only (sn_emitted ?st) all \<noteq> [] then Some (Inr (?st\<lparr>sn_heap := heapify (fresh_only (sn_emitted ?st) all)\<rparr>, True))
        else if sn_probes ?st \<ge> max (sn_lists ?st) 1 \<and> length all \<le> sn_last_total ?st then Some (Inr (?st\<lparr>sn_exhausted := True\<rparr>, False))
        else pull scan cap (?st\<lparr>sn_last_total := length all\<rparr>)) = Some y"
      using step.hyps unfolding Let_def a if_not_P [OF False] sum.case .
    from r show ?thesis
    proof (rule if3_cases)
      assume "Some (Inr (?st\<lparr>sn_heap := heapify (fresh_only (sn_emitted ?st) all)\<rparr>, True)) = Some y"
      moreover have "fst ` set (heapify (fresh_only (sn_emitted ?st) all)) \<subseteq> T" using all(1) by (auto simp: heapify_def fresh_only_def)
      ultimately show ?thesis
        by (intro exI [of _ "?st\<lparr>sn_heap := heapify (fresh_only (sn_emitted ?st) all)\<rparr>"] exI [of _ True]) simp
    next
      assume n: "\<not> fresh_only (sn_emitted ?st) all \<noteq> []" and f: "sn_probes ?st \<ge> max (sn_lists ?st) 1 \<and> length all \<le> sn_last_total ?st"
        and y: "Some (Inr (?st\<lparr>sn_exhausted := True\<rparr>, False)) = Some y"
      have "fst ` set all = T" using all(2) f by simp
      then have "T \<subseteq> sn_emitted st" using n by (auto simp: fresh_only_def filter_empty_conv)
      with y step.prems(2) show ?thesis by auto
    next
      assume "pull scan cap (?st\<lparr>sn_last_total := length all\<rparr>) = Some y"
      from step.IH [OF this] step.prems show ?thesis by (simp cong: if_cong)
    qed
  qed
qed

text \<open>What holds between two pulls of a scan over the rows \<open>T\<close>.\<close>

definition ivf_scanning :: "(f32_bits list \<Rightarrow> nat \<Rightarrow> nat \<Rightarrow> scan_error + scored list) \<Rightarrow> i64 set \<Rightarrow> ivf_scan_state \<Rightarrow> bool" where
  "ivf_scanning scan T st \<longleftrightarrow> gathers scan (sn_query st) T (sn_lists st) \<and> 0 < sn_probes st \<and> \<not> sn_unordered st \<and> sn_emitted st \<subseteq> T \<and>
     fst ` set (sn_heap st) \<subseteq> T \<and> (sn_iterative st \<or> T = {}) \<and> (sn_exhausted st \<longrightarrow> sn_emitted st = T)"

definition handed_out :: "i64 set \<Rightarrow> i64 set \<Rightarrow> ivf_scan_state \<Rightarrow> i64 option \<Rightarrow> bool" where
  "handed_out T emitted st' out \<longleftrightarrow> (case out of None \<Rightarrow> emitted = T
     | Some t \<Rightarrow> t \<in> T \<and> t \<notin> emitted \<and> sn_emitted st' = insert t emitted)"

lemma amgettuple_ivf_ok:
  assumes "ivf_scanning scan T st" and cap: "card T \<le> cap"
  shows "\<exists>st' out. amgettuple_ivf scan cap st = Some (Inr (st', out)) \<and> (out \<noteq> None \<longrightarrow> ivf_scanning scan T st') \<and>
    handed_out T (sn_emitted st) st' out"
  using assms(1)
proof (induction "sn_heap st" arbitrary: st)
  case Nil
  have fin: "finite T" and L: "sn_lists st \<le> usize_max" and u: "\<not> sn_unordered st"
    using Nil.prems by (simp_all add: ivf_scanning_def gathers_def)
  consider (stop) "\<not> sn_iterative st \<or> sn_exhausted st" | (cap) "sn_iterative st" "\<not> sn_exhausted st" "card (sn_emitted st) \<ge> cap"
    | (pull) "sn_iterative st" "\<not> sn_exhausted st" "\<not> card (sn_emitted st) \<ge> cap" by blast
  then show ?case
  proof cases
    case stop
    then have "sn_emitted st = T" using Nil.prems by (auto simp: ivf_scanning_def)
    then show ?thesis using stop Nil.hyps u by (subst amgettuple_ivf.simps) (auto simp: handed_out_def)
  next
    case cap
    then have "sn_emitted st = T" using card_seteq [OF fin, of "sn_emitted st"] Nil.prems \<open>card T \<le> cap\<close> by (simp add: ivf_scanning_def)
    then show ?thesis using cap Nil.hyps u by (subst amgettuple_ivf.simps) (auto simp: handed_out_def)
  next
    case pull
    obtain y where y: "ivf_pull scan cap st = Some y" using ivf_pull_terminates [of st scan cap] L Nil.prems by (auto simp: ivf_scanning_def)
    have pre: "gathers scan (sn_query st) T (sn_lists st)" "sn_emitted st \<subseteq> T" using Nil.prems by (simp_all add: ivf_scanning_def)
    obtain st' found where f: "y = Inr (st', found)" "if found then fst ` set (sn_heap st') \<subseteq> T else sn_emitted st = T"
      using ivf_pull_gathers [OF y pre cap] by blast
    note r = ivf_pull_result [OF y [unfolded f(1)], unfolded pull_result_def]
    show ?thesis
    proof (cases found)
      case True
      then obtain t d rest where h: "sn_heap st' = (t, d) # rest" "t \<notin> sn_emitted st" "t \<in> T" "fst ` set rest \<subseteq> T"
        using r f(2) by (cases "sn_heap st'") (auto simp: disjoint_iff)
      let ?st = "st'\<lparr>sn_heap := rest, sn_emitted := insert t (sn_emitted st')\<rparr>"
      have "amgettuple_ivf scan cap st' = Some (Inr (?st, Some t))"
        using u r h by (subst amgettuple_ivf.simps) (simp add: Let_def)
      then have "amgettuple_ivf scan cap st = Some (Inr (?st, Some t))"
        using pull Nil.hyps u y f(1) True by (subst amgettuple_ivf.simps) simp
      then show ?thesis using r h Nil.prems True pull by (auto simp: handed_out_def ivf_scanning_def)
    next
      case False
      then have "amgettuple_ivf scan cap st = Some (Inr (st', None))"
        using pull Nil.hyps u y f(1) by (subst amgettuple_ivf.simps) simp
      then show ?thesis using f(2) False by (simp add: handed_out_def)
    qed
  qed
next
  case (Cons row rest)
  let ?st = "st\<lparr>sn_heap := rest\<rparr>"
  have s: "ivf_scanning scan T ?st" using Cons.prems Cons.hyps(2) [symmetric] by (auto simp: ivf_scanning_def)
  show ?case
  proof (cases "fst row \<in> sn_emitted st")
    case True
    have "amgettuple_ivf scan cap st = amgettuple_ivf scan cap ?st"
      using Cons.prems Cons.hyps(2) [symmetric] True by (subst amgettuple_ivf.simps) (simp add: Let_def ivf_scanning_def)
    then show ?thesis using Cons.hyps(1) [OF _ s] by simp
  next
    case False
    have "amgettuple_ivf scan cap st = Some (Inr (?st\<lparr>sn_emitted := insert (fst row) (sn_emitted st)\<rparr>, Some (fst row)))"
      using Cons.prems Cons.hyps(2) [symmetric] False by (subst amgettuple_ivf.simps) (simp add: Let_def ivf_scanning_def)
    then show ?thesis using s False Cons.hyps(2) [symmetric] Cons.prems by (auto simp: handed_out_def ivf_scanning_def)
  qed
qed

lemma pull_ivf_tids_ok:
  assumes "ivf_scanning scan T st" and cap: "card T \<le> cap"
  shows "\<exists>ts. (\<forall>n > card (T - sn_emitted st). pull_ivf_tids scan cap n st = Some (Inr ts)) \<and> distinct ts \<and> set ts = T - sn_emitted st"
  using assms(1)
proof (induction "card (T - sn_emitted st)" arbitrary: st rule: less_induct)
  case less
  obtain st' out where g: "amgettuple_ivf scan cap st = Some (Inr (st', out))" "out \<noteq> None \<longrightarrow> ivf_scanning scan T st'"
    "handed_out T (sn_emitted st) st' out" using amgettuple_ivf_ok [OF less.prems cap] by blast
  have fin: "finite T" using less.prems by (simp add: ivf_scanning_def gathers_def)
  show ?case
  proof (cases out)
    case None
    then have "pull_ivf_tids scan cap n st = Some (Inr [])" if "0 < n" for n
      using that g(1) by (cases n) simp_all
    then show ?thesis using g(3) None by (intro exI [of _ "[]"]) (auto simp: handed_out_def)
  next
    case (Some t)
    then have t: "t \<in> T" "t \<notin> sn_emitted st" "sn_emitted st' = insert t (sn_emitted st)" using g(3) by (simp_all add: handed_out_def)
    have m: "T - sn_emitted st = insert t (T - sn_emitted st')" "t \<notin> T - sn_emitted st'" using t by auto
    have c: "Suc (card (T - sn_emitted st')) = card (T - sn_emitted st)" unfolding m(1) using m(2) fin by simp
    have "ivf_scanning scan T st'" using g(2) Some by simp
    from less.hyps [OF _ this] c obtain ts where ts: "\<forall>n > card (T - sn_emitted st'). pull_ivf_tids scan cap n st' = Some (Inr ts)"
      "distinct ts" "set ts = T - sn_emitted st'" by force
    have "pull_ivf_tids scan cap n st = Some (Inr (t # ts))" if "card (T - sn_emitted st) < n" for n
      using that g(1) Some ts(1) c by (cases n) simp_all
    then show ?thesis using ts(2,3) m by (intro exI [of _ "t # ts"]) simp
  qed
qed

section \<open>VACUUM\<close>







section \<open>The size of a generation\<close>






section \<open>VACUUM rebuilds over the live rows\<close>










text \<open>
  A crash behind the first page of a fold that extends the relation leaves the new directory in the pending region of the old
  index. The pending reader takes it for a row exactly when the first list has three entries for every further list.
\<close>

lemma orphan_directory_as_pending:
  assumes "dir \<noteq> []"
  shows "(\<exists>e. decode_pending (dir_bytes dir) = Inr e) \<longleftrightarrow> unat (snd (snd (dir ! 0))) = 3 * (length dir - 1)"
proof -
  have "dir_at (dir_bytes dir) 0 = dir ! 0"
    using arg_cong [OF dir_bytes_read [of dir], of "\<lambda>xs. xs ! 0"] assms by simp
  then have "u32_at 8 (dir_bytes dir) = snd (snd (dir ! 0))" by (metis add_0 dir_at_def mult_zero_left snd_conv)
  moreover have "1 \<le> length dir" using assms by (cases dir) simp_all
  ultimately show ?thesis by (auto simp: decode_pending_def dir_bytes_length Let_def)
qed

text \<open>The state a rescan of a stored index starts in.\<close>

definition started :: "f32_bits list list \<Rightarrow> scored list \<Rightarrow> f32_bits list \<Rightarrow> ivf_config \<Rightarrow> ivf_scan_state" where
  "started cs rows q cfg = ivf_beginscan\<lparr>sn_heap := heapify rows, sn_query := q, sn_probes := gi_probes cfg,
     sn_rerank_pool := 64 * gi_over_fetch cfg, sn_lists := length cs, sn_iterative := (gi_max_scan_tuples cfg > 0), sn_last_total := length rows\<rparr>"

lemma generation_list_count:
  assumes g: "generation rel base dim mtag cs ls"
  shows "ivf_list_count aq_count rel = length cs"
proof -
  have len: "length cs = length ls" using g unfolding generation_def by argo
  obtain dir where "read_ivf_meta rel = Inr \<lparr>im_dim = dim, im_metric_tag = mtag, im_centroids = cs, im_dir = dir\<rparr>"
    "list_all2 (\<lambda>(fb, np, cnt) l. read_chunked rel fb np = Inr (encode_list l) \<and> cnt = of_nat (length l)) dir ls"
    by (rule generation_reads [OF g]) (rule that)
  then show ?thesis using len list_all2_lengthD by (fastforce simp: ivf_list_count_def)
qed

lemma rescan_stored:
  assumes g: "generation rel base dim (metric_tag metric) cs ls"
    and rows: "scan_ivf_structured aq env rel q (gi_probes cfg) (64 * gi_over_fetch cfg) = Inr rows"
  shows "amrescan_ivf aq aq_count other env cfg rel (OrderBy q) ivf_beginscan = Inr (started cs rows q cfg)"
proof -
  have pm: "peek_magic rel = Inr IVF_STRUCT_MAGIC" by (rule generation_reads [OF g], assumption)
  show ?thesis
    by (simp add: amrescan_ivf_def pm IVF_STRUCT_MAGIC_def Let_def rows generation_list_count [OF g] started_def
        ivf_beginscan_def ambeginscan_def scan_state.defs)
qed

section \<open>A small index\<close>

definition small_lists :: entry_lists where "small_lists = [[(3, [4]), (9, [5])]]"
definition small_rel :: relation where "small_rel = map (\<lambda>i. [i]) (structured_page_items 1 1 0 [[5]] small_lists)"
definition small_cfg :: ivf_config where "small_cfg = \<lparr>gi_probes = 1, gi_over_fetch = 4, gi_max_scan_tuples = 10\<rparr>"
definition first_env :: scan_env where
  "first_env = \<lparr>score_bytes = (\<lambda>_ q v. ucast (v ! 0)), metric_dist = (\<lambda>_ q v. ucast (v ! 0)), sbq_from_meta = (\<lambda>_. Inl ''none''),
     aq_from_meta = (\<lambda>_. Inl ''none'')\<rparr>"

lemma small_items: "length (structured_page_items 1 1 0 [[5]] small_lists) = 4"
  by (simp add: small_lists_def structured_page_items_def Let_def push_chunks_def encode_list_def dir_bytes_def CHUNK_def chunks.simps)

lemma small_written: "write_ivf_structured [] 1 0 [[5]] small_lists = Inr small_rel"
  by (simp add: write_ivf_structured_eq small_rel_def)


lemma small_stored: "ivf_stored small_rel 1 1 L2 [[5]] small_lists []"
proof -
  obtain r where r: "write_ivf_structured [] 1 0 [[5]] small_lists = Inr r" "generation r 1 1 0 [[5]] small_lists"
    "length r = length (structured_page_items 1 1 0 [[5]] small_lists)"
    by (rule write_ivf_structured_generation [of "[[5]]" 1 small_lists 0]) (simp_all add: small_items, simp_all add: small_lists_def)
  have "r = small_rel" using r(1) small_written by simp
  with r(2,3) generation_fresh_pending [OF r(2,3)] show ?thesis
    by (simp add: ivf_stored_def lists_ok_def small_lists_def small_items [unfolded small_lists_def])
qed

section \<open>Properties\<close>

text \<open>C7: An IVF scan always ends. Whatever the relation holds, whatever the readers of the quantized layouts return and however
  often the scan is pulled, no call of \<open>amgettuple\<close> loops: the unbounded growth loop reaches the ceiling of its two knobs and
  then sees the same total twice. It needs what the setting \<open>probes\<close> guarantees, at least one probe.\<close>

theorem ivf_scan_terminates:
  assumes "peek_magic rel = Inr IVF_STRUCT_MAGIC" and "0 < gi_probes cfg" and "ivf_list_count aq_count rel \<le> usize_max"
    and "amrescan_ivf aq aq_count other env cfg rel (OrderBy q) st0 = Inr st"
  shows "pull_ivf_tids (scan_ivf_structured aq env rel) (gi_max_scan_tuples cfg) n st \<noteq> None"
proof -
  have "sn_probes st = gi_probes cfg" "sn_lists st = ivf_list_count aq_count rel"
    using assms(1,4) by (auto simp: amrescan_ivf_def IVF_STRUCT_MAGIC_def Let_def bind_r_Inr_iff)
  then show ?thesis using pull_ivf_tids_terminates [of st] assms(2,3) by (metis option.distinct(1))
qed

theorem ivf_scan_terminates_witness:
  "\<exists>st. amrescan_ivf (\<lambda>_ _ _ _ _. Inr []) (\<lambda>_. None) Inr first_env small_cfg small_rel (OrderBy [7]) ivf_beginscan = Inr st \<and>
    pull_ivf_tids (scan_ivf_structured (\<lambda>_ _ _ _ _. Inr []) first_env small_rel) 10 5 st \<noteq> None"
proof -
  have g: "generation small_rel 1 1 (metric_tag L2) [[5]] small_lists" using small_stored by (simp add: ivf_stored_def)
  have pm: "peek_magic small_rel = Inr IVF_STRUCT_MAGIC" by (rule generation_reads [OF g], assumption)
  have q: "length [7 :: f32_bits] = unat (1 :: u32)" by simp
  note r = rescan_stored [OF g scan_ivf_stored [OF small_stored q, where aq = "\<lambda>_ _ _ _ _. Inr []" and env = first_env],
      where cfg = small_cfg and other = Inr and aq_count = "\<lambda>_. None"]
  have "gi_max_scan_tuples small_cfg = 10" by (simp add: small_cfg_def)
  with ivf_scan_terminates [OF pm _ _ r, of 5] r show ?thesis
    by (auto simp: small_cfg_def generation_list_count [OF g] usize_max_def)
qed

text \<open>C6: An iterative IVF scan hands out every row exactly once. On a stored index with pending rows and a tuple budget that
  covers them, the executor gets each TID of the lists and of the pending region once, nothing else, and then the end of the
  scan, whatever the number of probes it starts with.\<close>

theorem ivf_scan_serves:
  assumes "ivf_stored rel base dim metric cs ls ps" and "length q = unat dim" and "0 < gi_probes cfg"
    and "card (fst ` set (concat ls @ ps)) \<le> gi_max_scan_tuples cfg"
  shows "\<exists>st ts. amrescan_ivf aq aq_count other env cfg rel (OrderBy q) ivf_beginscan = Inr st \<and>
    pull_ivf_tids (scan_ivf_structured aq env rel) (gi_max_scan_tuples cfg) (card (fst ` set (concat ls @ ps)) + 1) st = Some (Inr ts) \<and>
    distinct ts \<and> set ts = fst ` set (concat ls @ ps)"
proof -
  let ?T = "fst ` set (concat ls @ ps)" and ?scan = "scan_ivf_structured aq env rel"
  have g: "generation rel base dim (metric_tag metric) cs ls" using assms(1) by (simp add: ivf_stored_def)
  note ga = stored_gathers [OF assms(1,2), of aq env]
  obtain rows where rows: "?scan q (gi_probes cfg) (64 * gi_over_fetch cfg) = Inr rows" "fst ` set rows \<subseteq> ?T"
    using ga unfolding gathers_def by metis
  note r = rescan_stored [OF g rows(1), where other = other and aq_count = aq_count]
  let ?st = "started cs rows q cfg"
  have "card ?T = 0" if "gi_max_scan_tuples cfg = 0" using that assms(4) by simp
  then have "ivf_scanning ?scan ?T ?st"
    using ga rows(2) assms(3)
    by (auto simp: ivf_scanning_def started_def ivf_beginscan_def ambeginscan_def scan_state.defs set_heapify)
  from pull_ivf_tids_ok [OF this assms(4)] obtain ts where
    "\<forall>n > card (?T - sn_emitted ?st). pull_ivf_tids ?scan (gi_max_scan_tuples cfg) n ?st = Some (Inr ts)" "distinct ts" "set ts = ?T - sn_emitted ?st"
    by blast
  then show ?thesis using r by (auto simp: started_def ivf_beginscan_def ambeginscan_def scan_state.defs)
qed

theorem ivf_scan_serves_witness:
  "\<exists>st ts. amrescan_ivf (\<lambda>_ _ _ _ _. Inr []) (\<lambda>_. None) Inr first_env small_cfg small_rel (OrderBy [7]) ivf_beginscan = Inr st \<and>
    pull_ivf_tids (scan_ivf_structured (\<lambda>_ _ _ _ _. Inr []) first_env small_rel) 10 3 st = Some (Inr ts) \<and>
    distinct ts \<and> set ts = {3, 9}"
  using ivf_scan_serves [OF small_stored, where q = "[7]" and cfg = small_cfg and aq = "\<lambda>_ _ _ _ _. Inr []" and aq_count = "\<lambda>_. None" and other = Inr
      and env = first_env]
  by (simp add: small_cfg_def small_lists_def numeral_3_eq_3 del: pull_ivf_tids.simps)



end
