(* ===== verification/ColumnarCodec.thy ===== *)
theory ColumnarCodec
  imports Pages FloatBits
begin

text \<open>
  The on-disk codec of the columnar table access method (\<open>am/columnar_codec.rs\<close>): the stripe header, the
  directory of chunk entries, the null bitmap and value stream of a column chunk, and the per-chunk minimum
  and maximum that the zone map prunes with.
\<close>

section \<open>Stripe header\<close>

definition STRIPE_MAGIC :: u32 where "STRIPE_MAGIC = 0x54435331"
definition STRIPE_VERSION :: u32 where "STRIPE_VERSION = 1"
definition CHUNK_GROUP_ROWS :: nat where "CHUNK_GROUP_ROWS = 10000"
definition STRIPE_HEADER_LEN :: nat where "STRIPE_HEADER_LEN = 40"
definition CHUNK_DIR_ENTRY_LEN :: nat where "CHUNK_DIR_ENTRY_LEN = 44"
definition FLAG_HAS_NULLS :: u32 where "FLAG_HAS_NULLS = 1"
definition FLAG_HAS_MINMAX :: u32 where "FLAG_HAS_MINMAX = 2"
definition FLAG_ALL_NULL :: u32 where "FLAG_ALL_NULL = 4"

datatype minmax_kind = MmNone | I2 | I4 | I8 | F4 | F8 | MmBool

datatype columnar_error = HeaderTooShort | BadStripeMagic u32 | BadStripeVersion u32 | DirectoryTruncated
  | BitmapTruncated | FixedTruncated | VarlenaHeaderTruncated | VarlenaBodyTruncated
  | StripeHeaderEmpty | NcolsMismatch | DirTruncatedOnDisk | ChunkTruncatedOnDisk | ZstdError | ZstdCompressError | ColPageErr page_error
  | MetaTooShort | BadMetapageMagic u32 | BadMetapageVersion u32 | UnsupportedAttlen int | FixedChunkSize
  | CorruptVarlena | FixedValueTooShort | ProjectionRange nat | IndexPanic

record stripe_header =
  sh_ncols :: u16
  sh_n_chunk_groups :: u32
  sh_row_count :: u32
  sh_first_row_number :: u64
  sh_dir_first_block :: u32
  sh_dir_n_pages :: u32
  sh_dir_len :: u32

definition header_to_bytes :: "stripe_header \<Rightarrow> bytes" where
  "header_to_bytes h =
     to_le STRIPE_MAGIC @ to_le STRIPE_VERSION @ to_le (sh_ncols h) @ [0, 0] @ to_le (sh_n_chunk_groups h) @
     to_le (sh_row_count h) @ to_le (sh_first_row_number h) @ to_le (sh_dir_first_block h) @
     to_le (sh_dir_n_pages h) @ to_le (sh_dir_len h)"

definition u64_at :: "nat \<Rightarrow> bytes \<Rightarrow> u64" where
  "u64_at off b = from_le (slice_at off 8 b)"

definition header_from_bytes :: "bytes \<Rightarrow> columnar_error + stripe_header" where
  "header_from_bytes b =
     (if length b < STRIPE_HEADER_LEN then Inl HeaderTooShort
      else let magic = u32_at 0 b in if magic \<noteq> STRIPE_MAGIC then Inl (BadStripeMagic magic)
      else let version = u32_at 4 b in if version \<noteq> STRIPE_VERSION then Inl (BadStripeVersion version)
      else Inr \<lparr>sh_ncols = from_le (slice_at 8 2 b), sh_n_chunk_groups = u32_at 12 b, sh_row_count = u32_at 16 b,
        sh_first_row_number = u64_at 20 b, sh_dir_first_block = u32_at 28 b, sh_dir_n_pages = u32_at 32 b,
        sh_dir_len = u32_at 36 b\<rparr>)"

section \<open>Directory\<close>

record chunk_dir_entry =
  de_first_block :: u32
  de_n_pages :: u32
  de_comp_len :: u32
  de_raw_len :: u32
  de_row_count :: u32
  de_null_count :: u32
  de_has_nulls :: bool
  de_has_minmax :: bool
  de_all_null :: bool
  de_min_bits :: u64
  de_max_bits :: u64

definition entry_flags :: "chunk_dir_entry \<Rightarrow> u32" where
  "entry_flags e =
     (let f = 0;
          f = (if de_has_nulls e then or f FLAG_HAS_NULLS else f);
          f = (if de_has_minmax e then or f FLAG_HAS_MINMAX else f)
      in if de_all_null e then or f FLAG_ALL_NULL else f)"

definition entry_bytes :: "chunk_dir_entry \<Rightarrow> bytes" where
  "entry_bytes e =
     to_le (de_first_block e) @ to_le (de_n_pages e) @ to_le (de_comp_len e) @ to_le (de_raw_len e) @
     to_le (de_row_count e) @ to_le (de_null_count e) @ to_le (entry_flags e) @
     to_le (de_min_bits e) @ to_le (de_max_bits e)"

definition read_entry :: "bytes \<Rightarrow> chunk_dir_entry" where
  "read_entry b =
     (let flags = u32_at 24 b in
      \<lparr>de_first_block = u32_at 0 b, de_n_pages = u32_at 4 b, de_comp_len = u32_at 8 b, de_raw_len = u32_at 12 b,
       de_row_count = u32_at 16 b, de_null_count = u32_at 20 b,
       de_has_nulls = (and flags FLAG_HAS_NULLS \<noteq> 0), de_has_minmax = (and flags FLAG_HAS_MINMAX \<noteq> 0),
       de_all_null = (and flags FLAG_ALL_NULL \<noteq> 0), de_min_bits = u64_at 28 b, de_max_bits = u64_at 36 b\<rparr>)"

definition serialize_directory :: "chunk_dir_entry list \<Rightarrow> bytes" where
  "serialize_directory entries = concat (map entry_bytes entries)"

definition deserialize_directory :: "bytes \<Rightarrow> nat \<Rightarrow> columnar_error + chunk_dir_entry list" where
  "deserialize_directory b count =
     (if length b < count * CHUNK_DIR_ENTRY_LEN then Inl DirectoryTruncated
      else Inr (map (\<lambda>i. read_entry (slice_at (i * CHUNK_DIR_ENTRY_LEN) CHUNK_DIR_ENTRY_LEN b)) [0..<count]))"

section \<open>Minimum and maximum of a chunk\<close>

text \<open>The value of a present cell in the comparison domain: \<open>i64\<close> bits for the integer kinds. \<open>None\<close>: a
  cell too short for its kind, which contributes nothing.\<close>

definition int_cell :: "minmax_kind \<Rightarrow> bytes \<Rightarrow> i64 option" where
  "int_cell mm v =
     (case mm of
        MmBool \<Rightarrow> Some (ucast (case v of [] \<Rightarrow> 0 | b # _ \<Rightarrow> b))
      | I2 \<Rightarrow> if length v \<ge> 2 then Some (scast (from_le (take 2 v) :: 16 word)) else None
      | I4 \<Rightarrow> if length v \<ge> 4 then Some (scast (from_le (take 4 v) :: 32 word)) else None
      | I8 \<Rightarrow> if length v \<ge> 8 then Some (from_le (take 8 v)) else None
      | _ \<Rightarrow> None)"

definition float_cell :: "minmax_kind \<Rightarrow> bytes \<Rightarrow> f64_bits option" where
  "float_cell mm v =
     (case mm of
        F4 \<Rightarrow> if length v \<ge> 4 then Some (f32_to_f64 (from_le (take 4 v))) else None
      | F8 \<Rightarrow> if length v \<ge> 8 then Some (from_le (take 8 v)) else None
      | _ \<Rightarrow> None)"

definition i64_min :: "i64 \<Rightarrow> i64 \<Rightarrow> i64" where
  "i64_min a b = (if sint a \<le> sint b then a else b)"

definition i64_max :: "i64 \<Rightarrow> i64 \<Rightarrow> i64" where
  "i64_max a b = (if sint a \<le> sint b then b else a)"

text \<open>One pass of the loop: the running minimum and maximum over the cells that contribute.\<close>

fun fold_cells :: "('a \<Rightarrow> 'a \<Rightarrow> 'a) \<Rightarrow> ('a \<Rightarrow> 'a \<Rightarrow> 'a) \<Rightarrow> 'a list \<Rightarrow> ('a \<times> 'a) option \<Rightarrow> ('a \<times> 'a) option" where
  "fold_cells mn mx [] acc = acc"
| "fold_cells mn mx (x # xs) acc =
     fold_cells mn mx xs (Some (case acc of None \<Rightarrow> (x, x) | Some (lo, hi) \<Rightarrow> (mn lo x, mx hi x)))"

definition present :: "bytes option list \<Rightarrow> bytes list" where
  "present vs = List.map_filter (\<lambda>v. v) vs"

definition int_cells :: "bytes option list \<Rightarrow> minmax_kind \<Rightarrow> i64 list" where
  "int_cells vs mm = List.map_filter (int_cell mm) (present vs)"

definition float_cells :: "bytes option list \<Rightarrow> minmax_kind \<Rightarrow> f64_bits list" where
  "float_cells vs mm = filter (\<lambda>x. \<not> f64_is_nan x) (List.map_filter (float_cell mm) (present vs))"

definition minmax_result :: "(u64 \<times> u64) option \<Rightarrow> bool \<times> u64 \<times> u64" where
  "minmax_result r = (case r of Some (l, h) \<Rightarrow> (True, l, h) | None \<Rightarrow> (False, 0, 0))"

definition compute_minmax :: "bytes option list \<Rightarrow> minmax_kind \<Rightarrow> bool \<times> u64 \<times> u64" where
  "compute_minmax vs mm =
     (case mm of
        MmNone \<Rightarrow> (False, 0, 0)
      | F4 \<Rightarrow> minmax_result (fold_cells f64_min f64_max (float_cells vs F4) None)
      | F8 \<Rightarrow> minmax_result (fold_cells f64_min f64_max (float_cells vs F8) None)
      | _ \<Rightarrow> minmax_result (fold_cells i64_min i64_max (int_cells vs mm) None))"

section \<open>Column chunks\<close>

record encoded_column =
  ec_raw :: bytes
  ec_null_count :: u32
  ec_has_nulls :: bool
  ec_has_minmax :: bool
  ec_all_null :: bool
  ec_min_bits :: u64
  ec_max_bits :: u64

text \<open>\<open>bitmap[i / 8] |= 1 << (i % 8)\<close> for every present cell.\<close>

definition set_present :: "bytes \<Rightarrow> nat \<Rightarrow> bytes" where
  "set_present bitmap i = bitmap[i div 8 := or (bitmap ! (i div 8)) (push_bit (i mod 8) 1)]"

definition null_bitmap :: "bytes option list \<Rightarrow> bytes" where
  "null_bitmap vs =
     foldl (\<lambda>bitmap i. if vs ! i \<noteq> None then set_present bitmap i else bitmap)
       (replicate (div_ceil (length vs) 8) 0) [0..<length vs]"

definition value_stream :: "nat option \<Rightarrow> bytes option list \<Rightarrow> bytes" where
  "value_stream attlen_fixed vs =
     concat (map (\<lambda>v. case attlen_fixed of Some _ \<Rightarrow> v | None \<Rightarrow> to_le (of_nat (length v) :: u32) @ v) (present vs))"

definition encode_column :: "bytes option list \<Rightarrow> nat option \<Rightarrow> minmax_kind \<Rightarrow> encoded_column" where
  "encode_column vs attlen_fixed mm =
     (let n = length vs;
          null_count = of_nat (length (filter (\<lambda>v. v = None) vs)) :: u32;
          has_nulls = null_count > 0;
          all_null = (unat null_count = n \<and> n > 0);
          raw = (if has_nulls then null_bitmap vs else []) @ value_stream attlen_fixed vs;
          (has_minmax, min_bits, max_bits) = compute_minmax vs mm
      in \<lparr>ec_raw = raw, ec_null_count = null_count, ec_has_nulls = has_nulls, ec_has_minmax = has_minmax \<and> \<not> all_null,
          ec_all_null = all_null, ec_min_bits = min_bits, ec_max_bits = max_bits\<rparr>)"

definition is_present_bit :: "bytes \<Rightarrow> nat \<Rightarrow> bool" where
  "is_present_bit bitmap i \<longleftrightarrow> and (bitmap ! (i div 8)) (push_bit (i mod 8) 1) \<noteq> 0"

fun decode_values :: "bytes \<Rightarrow> nat option \<Rightarrow> bool list \<Rightarrow> nat \<Rightarrow> columnar_error + bytes option list" where
  "decode_values raw attlen_fixed [] off = Inr []"
| "decode_values raw attlen_fixed (False # ps) off =
     bind_r (decode_values raw attlen_fixed ps off) (\<lambda>vs. Inr (None # vs))"
| "decode_values raw (Some len) (True # ps) off =
     (if off + len > length raw then Inl FixedTruncated
      else bind_r (decode_values raw (Some len) ps (off + len)) (\<lambda>vs. Inr (Some (slice_at off len raw) # vs)))"
| "decode_values raw None (True # ps) off =
     (if off + 4 > length raw then Inl VarlenaHeaderTruncated
      else let len = unat (u32_at off raw); off = off + 4 in
        if off + len > length raw then Inl VarlenaBodyTruncated
        else bind_r (decode_values raw None ps (off + len)) (\<lambda>vs. Inr (Some (slice_at off len raw) # vs)))"

definition decode_column :: "bytes \<Rightarrow> nat option \<Rightarrow> nat \<Rightarrow> bool \<Rightarrow> columnar_error + bytes option list" where
  "decode_column raw attlen_fixed row_count has_nulls =
     (if has_nulls then
        let bitmap_len = div_ceil row_count 8 in
          if length raw < bitmap_len then Inl BitmapTruncated
          else decode_values raw attlen_fixed (map (is_present_bit (take bitmap_len raw)) [0..<row_count]) bitmap_len
      else decode_values raw attlen_fixed (replicate row_count True) 0)"

section \<open>Header and directory round trips\<close>

lemmas stripe_consts = STRIPE_MAGIC_def STRIPE_VERSION_def STRIPE_HEADER_LEN_def CHUNK_DIR_ENTRY_LEN_def
  FLAG_HAS_NULLS_def FLAG_HAS_MINMAX_def FLAG_ALL_NULL_def

lemma length_header_to_bytes [simp]: "length (header_to_bytes h) = STRIPE_HEADER_LEN"
  by (simp add: header_to_bytes_def stripe_consts)

lemma header_roundtrip: "header_from_bytes (header_to_bytes h @ rest) = Inr h"
  by (simp add: header_from_bytes_def header_to_bytes_def stripe_consts u32_at_def u64_at_def field_reads)

lemma length_entry_bytes [simp]: "length (entry_bytes e) = CHUNK_DIR_ENTRY_LEN"
  by (simp add: entry_bytes_def stripe_consts)

lemma entry_flags_bits:
  "and (entry_flags e) FLAG_HAS_NULLS \<noteq> 0 \<longleftrightarrow> de_has_nulls e"
  "and (entry_flags e) FLAG_HAS_MINMAX \<noteq> 0 \<longleftrightarrow> de_has_minmax e"
  "and (entry_flags e) FLAG_ALL_NULL \<noteq> 0 \<longleftrightarrow> de_all_null e"
  by (cases "de_has_nulls e"; cases "de_has_minmax e"; cases "de_all_null e";
      simp add: entry_flags_def stripe_consts Let_def)+

lemma read_entry_bytes: "read_entry (entry_bytes e) = e"
proof -
  have "u32_at 24 (entry_bytes e) = entry_flags e" by (simp add: entry_bytes_def u32_at_def field_reads)
  then show ?thesis
    by (simp add: read_entry_def Let_def entry_flags_bits)
      (simp add: entry_bytes_def u32_at_def u64_at_def field_reads)
qed

lemma directory_roundtrip: "deserialize_directory (serialize_directory es @ rest) (length es) = Inr es"
proof -
  have u: "\<forall>b \<in> set (map entry_bytes es). length b = CHUNK_DIR_ENTRY_LEN" by simp
  have "map (\<lambda>i. read_entry (slice_at (i * CHUNK_DIR_ENTRY_LEN) CHUNK_DIR_ENTRY_LEN (serialize_directory es @ rest))) [0..<length es] = es"
    by (rule nth_equalityI) (simp_all add: serialize_directory_def slice_at_concat [OF u] read_entry_bytes)
  then show ?thesis using length_concat_uniform [OF u]
    by (simp add: deserialize_directory_def serialize_directory_def)
qed

section \<open>The null bitmap\<close>

lemma length_set_present [simp]: "length (set_present b i) = length b"
  by (simp add: set_present_def)

lemma bit_mask8: "k < 8 \<Longrightarrow> bit (2 ^ k :: u8) j \<longleftrightarrow> j = k"
  by (auto simp: bit_exp_iff)

lemma is_present_bit_iff: "is_present_bit b i \<longleftrightarrow> bit (b ! (i div 8)) (i mod 8)"
proof -
  have "i mod 8 < 8" by simp
  then have m: "bit (2 ^ (i mod 8) :: u8) j \<longleftrightarrow> j = i mod 8" for j by (rule bit_mask8)
  have "is_present_bit b i \<longleftrightarrow> (\<exists>j. bit (b ! (i div 8)) j \<and> bit (2 ^ (i mod 8) :: u8) j)"
    unfolding is_present_bit_def push_bit_of_1 bit_eq_iff [where 'a = u8] using bit_imp_le_length [where 'a = 8] by (auto simp: bit_and_iff)
  then show ?thesis by (simp add: m)
qed

lemma set_present_bit:
  assumes "i div 8 < length b" and "j div 8 < length b"
  shows "is_present_bit (set_present b i) j \<longleftrightarrow> j = i \<or> is_present_bit b j"
proof (cases "j div 8 = i div 8")
  case True
  have "j = i \<longleftrightarrow> j mod 8 = i mod 8" using True by (metis div_mult_mod_eq)
  moreover have "bit (2 ^ (i mod 8) :: u8) (j mod 8) \<longleftrightarrow> j mod 8 = i mod 8" by (rule bit_mask8) simp
  ultimately show ?thesis using True assms
    by (simp add: is_present_bit_iff set_present_def bit_or_iff push_bit_of_1) blast
next
  case False
  then show ?thesis by (auto simp: is_present_bit_iff set_present_def)
qed

lemma div8_less: "i < n \<Longrightarrow> i div 8 < div_ceil n 8"
  unfolding div_ceil_def by linarith

lemma null_bitmap_bits:
  "length (null_bitmap vs) = div_ceil (length vs) 8 \<and> (\<forall>i < length vs. is_present_bit (null_bitmap vs) i \<longleftrightarrow> vs ! i \<noteq> None)"
proof -
  let ?step = "\<lambda>bitmap i. if vs ! i \<noteq> None then set_present bitmap i else bitmap"
  let ?b = "\<lambda>k. foldl ?step (replicate (div_ceil (length vs) 8) 0) [0..<k]"
  have "length (?b k) = div_ceil (length vs) 8 \<and>
      (\<forall>i < length vs. is_present_bit (?b k) i \<longleftrightarrow> i < k \<and> vs ! i \<noteq> None)" if "k \<le> length vs" for k
    using that
  proof (induction k)
    case 0
    then show ?case using div8_less [of _ "length vs"] by (simp add: is_present_bit_iff)
  next
    case (Suc k)
    then have IH: "length (?b k) = div_ceil (length vs) 8"
      "\<And>i. i < length vs \<Longrightarrow> is_present_bit (?b k) i \<longleftrightarrow> i < k \<and> vs ! i \<noteq> None" by simp_all
    have k: "k div 8 < length (?b k)" using Suc.prems IH(1) div8_less [of k "length vs"] by simp
    have "is_present_bit (?step (?b k) k) i \<longleftrightarrow> i < Suc k \<and> vs ! i \<noteq> None" if "i < length vs" for i
      using IH(2) [OF that] set_present_bit [OF k, of i] div8_less [OF that] IH(1)
      by (auto simp: less_Suc_eq)
    moreover have "?b (Suc k) = ?step (?b k) k" by (simp add: upt_Suc)
    moreover have "length (?step (?b k) k) = div_ceil (length vs) 8" using IH(1) by simp
    ultimately show ?case by (simp only:) blast
  qed
  from this [of "length vs"] show ?thesis by (simp add: null_bitmap_def)
qed

section \<open>Column round trip\<close>

text \<open>The cells the writer hands over: a fixed-width column has cells of its width, a varlena cell is shorter than
  4 GiB (PostgreSQL bounds a varlena by 1 GiB), and the row count fits the \<open>u32\<close> counters.\<close>

definition cell_ok :: "nat option \<Rightarrow> bytes option \<Rightarrow> bool" where
  "cell_ok attlen v \<longleftrightarrow> (case v of None \<Rightarrow> True | Some x \<Rightarrow> (case attlen of Some len \<Rightarrow> length x = len | None \<Rightarrow> length x < 2 ^ 32))"

definition cells_ok :: "nat option \<Rightarrow> bytes option list \<Rightarrow> bool" where
  "cells_ok attlen vs \<longleftrightarrow> list_all (cell_ok attlen) vs \<and> length vs < 2 ^ 32"

definition cell_bytes :: "nat option \<Rightarrow> bytes \<Rightarrow> bytes" where
  "cell_bytes attlen v = (case attlen of Some _ \<Rightarrow> v | None \<Rightarrow> to_le (of_nat (length v) :: u32) @ v)"

lemma slice_at_mid: "slice_at (length pre) (length v) (pre @ v @ rest) = v"
  by (simp add: slice_at_def)

lemma slice_at_mid_eq: "n = length v \<Longrightarrow> off = length pre \<Longrightarrow> slice_at off n (pre @ v @ rest) = v"
  by (simp add: slice_at_def)

lemma value_stream_simps [simp]:
  "value_stream a [] = []"
  "value_stream a (None # vs) = value_stream a vs"
  "value_stream a (Some v # vs) = cell_bytes a v @ value_stream a vs"
  by (simp_all add: value_stream_def present_def cell_bytes_def map_filter_simps)

lemma decode_values_skip [simp]:
  "decode_values raw a (False # ps) off = bind_r (decode_values raw a ps off) (\<lambda>vs. Inr (None # vs))"
  by (cases a) simp_all

text \<open>Reading the next cell of the stream: the whole cell when it is there, an error when the stream is cut
  inside it.\<close>

lemma decode_values_cell:
  assumes "cell_ok a (Some v)"
  shows "decode_values (pre @ cell_bytes a v @ rest) a (True # ps) (length pre) =
    bind_r (decode_values (pre @ cell_bytes a v @ rest) a ps (length (pre @ cell_bytes a v))) (\<lambda>vs. Inr (Some v # vs))"
proof (cases a)
  case (Some len)
  then have len: "len = length v" using assms by (simp add: cell_ok_def)
  have "slice_at (length pre) len (pre @ v @ rest) = v" unfolding len by (rule slice_at_mid)
  then show ?thesis using Some len by (simp add: cell_bytes_def)
next
  case None
  let ?l = "to_le (of_nat (length v) :: u32)"
  have len: "length v < 2 ^ 32" using assms None by (simp add: cell_ok_def)
  have l4: "length ?l = 4" by simp
  have "u32_at (length pre) (pre @ ?l @ v @ rest) = of_nat (length v)"
    unfolding u32_at_def using slice_at_mid_eq [of 4 ?l "length pre" pre "v @ rest"] l4 by simp
  moreover have "slice_at (length pre + 4) (length v) (pre @ ?l @ v @ rest) = v"
    using slice_at_mid [of "pre @ ?l" v rest] l4 by simp
  ultimately show ?thesis using None len by (simp add: cell_bytes_def Let_def unat_of_nat_u32 add.commute add.left_commute)
qed

lemma decode_values_stream:
  assumes "list_all (cell_ok a) vs"
  shows "decode_values (pre @ value_stream a vs @ rest) a (map (\<lambda>v. v \<noteq> None) vs) (length pre) = Inr vs"
  using assms
proof (induction vs arbitrary: pre)
  case (Cons v vs)
  show ?case
  proof (cases v)
    case None
    then show ?thesis using Cons.IH [of pre] Cons.prems by simp
  next
    case (Some x)
    then show ?thesis
      using Cons.IH [of "pre @ cell_bytes a x"] Cons.prems decode_values_cell [of a x pre "value_stream a vs @ rest"] by simp
  qed
qed simp

lemma decode_values_cut:
  assumes "cell_ok a (Some v)" and "length pre \<le> m" and "m < length (pre @ cell_bytes a v)"
  shows "\<exists>e. decode_values (take m (pre @ cell_bytes a v @ rest)) a (True # ps) (length pre) = Inl e"
proof (cases a)
  case (Some len)
  then show ?thesis using assms by (simp add: cell_ok_def cell_bytes_def)
next
  case None
  let ?l = "to_le (of_nat (length v) :: u32)"
  have len: "length v < 2 ^ 32" using assms None by (simp add: cell_ok_def)
  show ?thesis
  proof (cases "m < length pre + 4")
    case True
    then show ?thesis using None by simp
  next
    case False
    then have "take m (pre @ ?l @ v @ rest) = pre @ ?l @ take (m - length pre - 4) (v @ rest)"
      by (simp add: take_append)
    define R where "R = take m (pre @ ?l @ v @ rest)"
    have "R = pre @ ?l @ take (m - length pre - 4) (v @ rest)" unfolding R_def by fact
    then have "u32_at (length pre) R = of_nat (length v)"
      unfolding u32_at_def by (simp add: slice_at_mid_eq)
    moreover have "length R = m" using assms(3) None unfolding R_def by (simp add: cell_bytes_def)
    ultimately have "\<exists>e. decode_values R None (True # ps) (length pre) = Inl e"
      using None len assms(3) by (simp add: cell_bytes_def Let_def unat_of_nat_u32)
    then show ?thesis using None by (simp add: R_def cell_bytes_def)
  qed
qed

lemma bind_r_Inl: "\<exists>e. x = Inl e \<Longrightarrow> \<exists>e. bind_r x f = Inl e"
  by auto

lemma decode_values_truncated:
  assumes "list_all (cell_ok a) vs" and "length pre \<le> m" and "m < length (pre @ value_stream a vs)"
  shows "\<exists>e. decode_values (take m (pre @ value_stream a vs)) a (map (\<lambda>v. v \<noteq> None) vs) (length pre) = Inl e"
  using assms
proof (induction vs arbitrary: pre)
  case (Cons v vs)
  show ?case
  proof (cases v)
    case None
    then show ?thesis using Cons.IH [of pre] Cons.prems by (auto intro: bind_r_Inl)
  next
    case (Some x)
    have ok: "cell_ok a (Some x)" using Some Cons.prems by simp
    show ?thesis
    proof (cases "m < length (pre @ cell_bytes a x)")
      case True
      then show ?thesis using decode_values_cut [OF ok Cons.prems(2) True, of "value_stream a vs"] Some by simp
    next
      case False
      let ?r = "take (m - length (pre @ cell_bytes a x)) (value_stream a vs)"
      have t: "take m (pre @ cell_bytes a x @ value_stream a vs) = pre @ cell_bytes a x @ ?r"
        using False by (simp add: take_append diff_diff_left)
      have "\<exists>e. decode_values (pre @ cell_bytes a x @ ?r) a (map (\<lambda>v. v \<noteq> None) vs) (length (pre @ cell_bytes a x)) = Inl e"
        using Cons.IH [of "pre @ cell_bytes a x"] Cons.prems Some False t by simp
      then have "\<exists>e. decode_values (take m (pre @ cell_bytes a x @ value_stream a vs)) a
          (True # map (\<lambda>v. v \<noteq> None) vs) (length pre) = Inl e"
        unfolding t decode_values_cell [OF ok, of pre ?r] by (rule bind_r_Inl)
      then show ?thesis using Some by simp
    qed
  qed
qed simp

lemma null_count_pos:
  assumes "length vs < 2 ^ 32"
  shows "unat (of_nat (length (filter (\<lambda>v. v = None) vs)) :: u32) = length (filter (\<lambda>v. v = None) vs)"
    and "(of_nat (length (filter (\<lambda>v. v = None) vs)) :: u32) > 0 \<longleftrightarrow> None \<in> set vs"
proof -
  have le: "length (filter (\<lambda>v. v = None) vs) < 2 ^ 32" using assms length_filter_le [of "\<lambda>v. v = None" vs] by linarith
  then show u: "unat (of_nat (length (filter (\<lambda>v. v = None) vs)) :: u32) = length (filter (\<lambda>v. v = None) vs)"
    by (rule unat_of_nat_u32)
  show "(of_nat (length (filter (\<lambda>v. v = None) vs)) :: u32) > 0 \<longleftrightarrow> None \<in> set vs"
    unfolding word_less_nat_alt u by (auto simp: filter_empty_conv)
qed

lemma encode_column_fields:
  assumes "length vs < 2 ^ 32"
  shows "ec_has_nulls (encode_column vs a mm) \<longleftrightarrow> None \<in> set vs"
    and "ec_raw (encode_column vs a mm) = (if None \<in> set vs then null_bitmap vs else []) @ value_stream a vs"
    and "unat (ec_null_count (encode_column vs a mm)) = length (filter (\<lambda>v. v = None) vs)"
    and "ec_all_null (encode_column vs a mm) \<longleftrightarrow> vs \<noteq> [] \<and> list_all (\<lambda>v. v = None) vs"
proof -
  have all: "length (filter (\<lambda>v. v = None) vs) = length vs \<longleftrightarrow> list_all (\<lambda>v. v = None) vs"
    by (metis filter_id_conv length_filter_less less_irrefl_nat list_all_iff filter_True)
  show "ec_has_nulls (encode_column vs a mm) \<longleftrightarrow> None \<in> set vs"
    and "ec_raw (encode_column vs a mm) = (if None \<in> set vs then null_bitmap vs else []) @ value_stream a vs"
    and "unat (ec_null_count (encode_column vs a mm)) = length (filter (\<lambda>v. v = None) vs)"
    and "ec_all_null (encode_column vs a mm) \<longleftrightarrow> vs \<noteq> [] \<and> list_all (\<lambda>v. v = None) vs"
    using null_count_pos [OF assms] all
    by (simp_all add: encode_column_def Let_def split_beta conj_commute)
qed

lemma null_bitmap_present:
  "map (is_present_bit (null_bitmap vs)) [0..<length vs] = map (\<lambda>v. v \<noteq> None) vs"
  using null_bitmap_bits [of vs] by (intro nth_equalityI) simp_all

lemma no_nulls_present: "None \<notin> set vs \<Longrightarrow> map (\<lambda>v. v \<noteq> None) vs = replicate (length vs) True"
  by (rule nth_equalityI) (auto, metis nth_mem option.exhaust)

text \<open>What the reader computes from a prefix of the stored chunk: the presence flags of the written cells and
  the value stream behind the bitmap.\<close>

lemma decode_column_encoded:
  assumes "length vs < 2 ^ 32" and "m \<ge> (if None \<in> set vs then div_ceil (length vs) 8 else 0)"
  shows "decode_column (take m (ec_raw (encode_column vs a mm))) a (length vs) (ec_has_nulls (encode_column vs a mm)) =
    decode_values (take m (ec_raw (encode_column vs a mm))) a (map (\<lambda>v. v \<noteq> None) vs)
      (if None \<in> set vs then div_ceil (length vs) 8 else 0)"
proof (cases "None \<in> set vs")
  case True
  have "length (null_bitmap vs) = div_ceil (length vs) 8" using null_bitmap_bits [of vs] by blast
  with True show ?thesis using assms(2)
    by (simp add: decode_column_def encode_column_fields [OF assms(1)] Let_def null_bitmap_present)
next
  case False
  from no_nulls_present [OF this] False show ?thesis
    by (simp add: decode_column_def encode_column_fields [OF assms(1)])
qed

lemma column_decode:
  assumes "cells_ok a vs"
  shows "decode_column (ec_raw (encode_column vs a mm)) a (length vs) (ec_has_nulls (encode_column vs a mm)) = Inr vs"
proof -
  have n: "length vs < 2 ^ 32" and ok: "list_all (cell_ok a) vs" using assms by (simp_all add: cells_ok_def)
  let ?e = "encode_column vs a mm" and ?b = "if None \<in> set vs then null_bitmap vs else []"
  have b: "length ?b = (if None \<in> set vs then div_ceil (length vs) 8 else 0)" using null_bitmap_bits [of vs] by simp
  have "decode_column (ec_raw ?e) a (length vs) (ec_has_nulls ?e) =
      decode_values (ec_raw ?e) a (map (\<lambda>v. v \<noteq> None) vs) (length ?b)"
    using decode_column_encoded [OF n, of "length (ec_raw ?e)" a mm] b by (simp add: encode_column_fields [OF n])
  then show ?thesis using decode_values_stream [OF ok, of ?b "[]"] by (simp add: encode_column_fields [OF n])
qed

lemma column_truncated:
  assumes "cells_ok a vs" and "m < length (ec_raw (encode_column vs a mm))"
  shows "\<exists>e. decode_column (take m (ec_raw (encode_column vs a mm))) a (length vs) (ec_has_nulls (encode_column vs a mm)) = Inl e"
proof -
  have n: "length vs < 2 ^ 32" and ok: "list_all (cell_ok a) vs" using assms by (simp_all add: cells_ok_def)
  let ?e = "encode_column vs a mm" and ?b = "if None \<in> set vs then null_bitmap vs else []"
  have b: "length ?b = (if None \<in> set vs then div_ceil (length vs) 8 else 0)" using null_bitmap_bits [of vs] by simp
  have raw: "ec_raw ?e = ?b @ value_stream a vs" by (simp add: encode_column_fields [OF n])
  show ?thesis
  proof (cases "m < length ?b")
    case True
    then show ?thesis using b raw by (auto simp: decode_column_def encode_column_fields [OF n] Let_def split: if_splits)
  next
    case False
    then have m: "m \<ge> (if None \<in> set vs then div_ceil (length vs) 8 else 0)" unfolding b by simp
    have "\<exists>e. decode_values (take m (ec_raw ?e)) a (map (\<lambda>v. v \<noteq> None) vs) (length ?b) = Inl e"
      using decode_values_truncated [OF ok, of ?b m] assms(2) False unfolding raw by (simp only: not_less)
    then show ?thesis unfolding decode_column_encoded [OF n m] b .
  qed
qed

section \<open>The stored minimum and maximum bound every cell\<close>

text \<open>A running minimum and maximum over any type with an integer rank; \<open>P\<close> is the part of the type the rank is
  meaningful on (not a NaN).\<close>

lemma fold_cells_bounds:
  fixes f :: "'a \<Rightarrow> int"
  assumes sel: "\<And>a b. P a \<Longrightarrow> P b \<Longrightarrow> P (mn a b) \<and> f (mn a b) = min (f a) (f b)"
      "\<And>a b. P a \<Longrightarrow> P b \<Longrightarrow> P (mx a b) \<and> f (mx a b) = max (f a) (f b)"
    and "list_all P xs" and "fold_cells mn mx xs acc = Some (lo, hi)"
    and "\<And>l h. acc = Some (l, h) \<Longrightarrow> P l \<and> P h"
  shows "P lo \<and> P hi \<and> (\<forall>x \<in> set xs. f lo \<le> f x \<and> f x \<le> f hi) \<and> (\<forall>l h. acc = Some (l, h) \<longrightarrow> f lo \<le> f l \<and> f h \<le> f hi)"
  using assms(3-)
proof (induction xs arbitrary: acc)
  case (Cons x xs)
  define acc' where "acc' = (case acc of None \<Rightarrow> (x, x) | Some (l, h) \<Rightarrow> (mn l x, mx h x))"
  obtain l' h' where a: "acc' = (l', h')" by fastforce
  have "P l' \<and> P h' \<and> f l' \<le> f x \<and> f x \<le> f h' \<and> (\<forall>l h. acc = Some (l, h) \<longrightarrow> f l' \<le> f l \<and> f h \<le> f h')"
    using a Cons.prems(1) Cons.prems(3) sel by (cases acc) (auto simp: acc'_def)
  moreover have "fold_cells mn mx xs (Some acc') = Some (lo, hi)" using Cons.prems(2) by (simp add: acc'_def)
  ultimately show ?case using Cons.IH [of "Some acc'"] Cons.prems(1) a by fastforce
qed simp

text \<open>Both ends of the range are cells of the chunk.\<close>

lemma fold_cells_selected:
  assumes "\<And>a b. mn a b = a \<or> mn a b = b" and "\<And>a b. mx a b = a \<or> mx a b = b"
    and "fold_cells mn mx xs acc = Some (lo, hi)" and "\<And>l h. acc = Some (l, h) \<Longrightarrow> l \<in> A \<and> h \<in> A" and "set xs \<subseteq> A"
  shows "lo \<in> A \<and> hi \<in> A"
  using assms(3-)
proof (induction xs arbitrary: acc)
  case (Cons x xs)
  define acc' where "acc' = (case acc of None \<Rightarrow> (x, x) | Some (l, h) \<Rightarrow> (mn l x, mx h x))"
  have x: "x \<in> A" using Cons.prems(3) by simp
  have "\<And>l h. Some acc' = Some (l, h) \<Longrightarrow> l \<in> A \<and> h \<in> A"
  proof (cases acc)
    case None
    then show "\<And>l h. Some acc' = Some (l, h) \<Longrightarrow> l \<in> A \<and> h \<in> A" using x by (simp add: acc'_def)
  next
    case (Some p)
    obtain l0 h0 where p: "p = (l0, h0)" by fastforce
    have "l0 \<in> A" "h0 \<in> A" using Cons.prems(2) Some p by auto
    then show "\<And>l h. Some acc' = Some (l, h) \<Longrightarrow> l \<in> A \<and> h \<in> A"
      using x Some p assms(1) [of l0 x] assms(2) [of h0 x] by (auto simp: acc'_def)
  qed
  then show ?case using Cons.IH [of "Some acc'"] Cons.prems by (simp add: acc'_def)
qed simp

lemma fold_cells_some: "fold_cells mn mx xs (Some a) \<noteq> None"
  by (induction xs arbitrary: a) simp_all

lemma fold_cells_None: "fold_cells mn mx xs None = None \<longleftrightarrow> xs = []"
  by (cases xs) (simp_all add: fold_cells_some)

lemma fold_cells_f64:
  assumes "fold_cells f64_min f64_max xs None = Some (lo, hi)" and "list_all (\<lambda>x. \<not> f64_is_nan x) xs"
  shows "\<not> f64_is_nan lo \<and> \<not> f64_is_nan hi \<and> (\<forall>x \<in> set xs. f64_rank lo \<le> f64_rank x \<and> f64_rank x \<le> f64_rank hi)"
  using fold_cells_bounds [OF _ _ assms(2) assms(1), of f64_rank] by (simp add: f64_min_def f64_max_def min_def max_def)

lemma fold_cells_i64:
  assumes "fold_cells i64_min i64_max xs None = Some (lo, hi)"
  shows "\<forall>x \<in> set xs. sint lo \<le> sint x \<and> sint x \<le> sint hi"
  using fold_cells_bounds [where P = "\<lambda>_. True" and f = sint, OF _ _ _ assms]
  by (simp add: i64_min_def i64_max_def min_def max_def list_all_iff)

text \<open>The range that \<open>compute_minmax\<close> stores: every integer cell, and every float cell that is not a NaN, lies in
  it; and when it stores none, no cell contributed.\<close>

definition float_kind :: "minmax_kind \<Rightarrow> bool" where
  "float_kind mm \<longleftrightarrow> mm = F4 \<or> mm = F8"

lemma compute_minmax_int:
  assumes "\<not> float_kind mm" and "compute_minmax vs mm = (True, lo, hi)" and "x \<in> set (int_cells vs mm)"
  shows "sint lo \<le> sint x \<and> sint x \<le> sint hi"
  using assms fold_cells_i64
  by (cases mm) (auto simp: compute_minmax_def minmax_result_def float_kind_def split: option.splits)

lemma compute_minmax_float:
  assumes "float_kind mm" and "compute_minmax vs mm = (True, lo, hi)"
  shows "\<not> f64_is_nan lo \<and> \<not> f64_is_nan hi \<and> (\<forall>x \<in> set (float_cells vs mm). f64_rank lo \<le> f64_rank x \<and> f64_rank x \<le> f64_rank hi)"
proof -
  have "list_all (\<lambda>x. \<not> f64_is_nan x) (float_cells vs mm)" by (simp add: float_cells_def list_all_iff)
  moreover have "fold_cells f64_min f64_max (float_cells vs mm) None = Some (lo, hi)"
    using assms by (auto simp: compute_minmax_def minmax_result_def float_kind_def split: option.splits)
  ultimately show ?thesis using fold_cells_f64 by blast
qed

lemma compute_minmax_none:
  "mm \<noteq> MmNone \<Longrightarrow> \<not> fst (compute_minmax vs mm) \<longleftrightarrow> (if float_kind mm then float_cells vs mm = [] else int_cells vs mm = [])"
  by (cases mm) (auto simp: compute_minmax_def minmax_result_def float_kind_def fold_cells_None split: option.splits)

lemma compute_minmax_int_mem:
  assumes "\<not> float_kind mm" and "compute_minmax vs mm = (True, lo, hi)"
  shows "lo \<in> set (int_cells vs mm) \<and> hi \<in> set (int_cells vs mm)"
proof -
  have "fold_cells i64_min i64_max (int_cells vs mm) None = Some (lo, hi)"
    using assms by (cases mm) (auto simp: compute_minmax_def minmax_result_def float_kind_def split: option.splits)
  then show ?thesis by (rule fold_cells_selected [rotated 2]) (auto simp: i64_min_def i64_max_def)
qed

lemma compute_minmax_float_mem:
  assumes "float_kind mm" and "compute_minmax vs mm = (True, lo, hi)"
  shows "lo \<in> set (float_cells vs mm) \<and> hi \<in> set (float_cells vs mm)"
proof -
  have "fold_cells f64_min f64_max (float_cells vs mm) None = Some (lo, hi)"
    using assms by (auto simp: compute_minmax_def minmax_result_def float_kind_def split: option.splits)
  then show ?thesis by (rule fold_cells_selected [rotated 2]) (auto simp: f64_min_def f64_max_def)
qed

section \<open>Properties\<close>

text \<open>C37: A column chunk reads back as the cells it was written from, nulls and empty values included, and a
  chunk cut anywhere before its end is an error: no prefix decodes to a wrong column.\<close>

theorem column_chunk_codec:
  assumes "cells_ok a vs"
  shows "decode_column (ec_raw (encode_column vs a mm)) a (length vs) (ec_has_nulls (encode_column vs a mm)) = Inr vs \<and>
    (\<forall>m < length (ec_raw (encode_column vs a mm)).
      \<exists>e. decode_column (take m (ec_raw (encode_column vs a mm))) a (length vs) (ec_has_nulls (encode_column vs a mm)) = Inl e)"
  using column_decode [OF assms] column_truncated [OF assms] by blast

theorem column_chunk_codec_witness:
  "decode_column (ec_raw (encode_column [Some [1, 2], None, Some [3, 4]] (Some 2) I2)) (Some 2) 3
     (ec_has_nulls (encode_column [Some [1, 2], None, Some [3, 4]] (Some 2) I2)) = Inr [Some [1, 2], None, Some [3, 4]] \<and>
   (\<exists>e. decode_column (take 4 (ec_raw (encode_column [Some [1, 2], None, Some [3, 4]] (Some 2) I2))) (Some 2) 3
     (ec_has_nulls (encode_column [Some [1, 2], None, Some [3, 4]] (Some 2) I2)) = Inl e)"
proof -
  let ?vs = "[Some [1, 2], None, Some [3, 4]] :: bytes option list"
  have ok: "cells_ok (Some 2) ?vs" by (simp add: cells_ok_def cell_ok_def)
  have len: "length (ec_raw (encode_column ?vs (Some 2) I2)) = 5"
    using null_bitmap_bits [of ?vs] by (simp add: encode_column_fields cell_bytes_def div_ceil_def)
  have n: "length ?vs = 3" by simp
  have "(4 :: nat) < 5" by simp
  then show ?thesis using column_chunk_codec [OF ok, of I2, unfolded len n] by blast
qed

text \<open>The stripe header and the stripe directory read back exactly, whatever bytes follow them.\<close>

theorem stripe_codec:
  "header_from_bytes (header_to_bytes h @ rest) = Inr h \<and>
   deserialize_directory (serialize_directory es @ rest) (length es) = Inr es"
  using header_roundtrip directory_roundtrip by blast

end
