(* ===== verification/ZoneMap.thy ===== *)
theory ZoneMap
  imports ColumnarCodec
begin

text \<open>
  Zone-map pruning (\<open>am/zonemap.rs\<close>, with \<open>minmax_kind_of\<close> of \<open>am/columnar.rs\<close> and \<open>flip_op\<close> of
  \<open>am/columnar_agg.rs\<close>): given the minimum and maximum stored for a chunk and a pushed comparison, decide
  whether the chunk can be skipped. The specification is the comparison PostgreSQL evaluates on each row.
\<close>

section \<open>The code\<close>

datatype zone_op = ZLt | ZLe | ZEq | ZGe | ZGt | ZNe

record zone_predicate =
  zp_col :: nat
  zp_op :: zone_op
  zp_const_bits :: u64

text \<open>Type OID to comparison domain.\<close>

definition minmax_kind_of :: "u32 \<Rightarrow> minmax_kind" where
  "minmax_kind_of typid =
     (if typid = 16 then MmBool else if typid = 20 then I8 else if typid = 21 then I2 else if typid = 23 then I4
      else if typid = 700 then F4 else if typid = 701 then F8
      else if typid = 1114 \<or> typid = 1184 then I8 else if typid = 1082 then I4 else MmNone)"

text \<open>\<open>excluded\<close> over the less-than and less-or-equal of the \<open>PartialOrd\<close> instance.\<close>

fun excluded :: "('a \<Rightarrow> 'a \<Rightarrow> bool) \<Rightarrow> ('a \<Rightarrow> 'a \<Rightarrow> bool) \<Rightarrow> 'a \<Rightarrow> 'a \<Rightarrow> 'a \<Rightarrow> zone_op \<Rightarrow> bool" where
  "excluded lt le mn mx c ZLt = le c mn"
| "excluded lt le mn mx c ZLe = lt c mn"
| "excluded lt le mn mx c ZGt = le mx c"
| "excluded lt le mn mx c ZGe = lt mx c"
| "excluded lt le mn mx c ZEq = (lt c mn \<or> lt mx c)"
| "excluded lt le mn mx c ZNe = False"

definition i64_lt :: "i64 \<Rightarrow> i64 \<Rightarrow> bool" where "i64_lt a b \<longleftrightarrow> sint a < sint b"
definition i64_le :: "i64 \<Rightarrow> i64 \<Rightarrow> bool" where "i64_le a b \<longleftrightarrow> sint a \<le> sint b"

definition chunk_can_match :: "bool \<Rightarrow> u64 \<Rightarrow> u64 \<Rightarrow> minmax_kind \<Rightarrow> zone_predicate \<Rightarrow> bool" where
  "chunk_can_match has_minmax min_bits max_bits kind pred =
     (if \<not> has_minmax \<or> kind = MmNone then True
      else if kind = F4 \<or> kind = F8 then
        let c = zp_const_bits pred in
        if f64_is_nan min_bits \<or> f64_is_nan max_bits \<or> f64_is_nan c then True
        else \<not> excluded f64_lt f64_le min_bits max_bits c (zp_op pred)
      else \<not> excluded i64_lt i64_le min_bits max_bits (zp_const_bits pred) (zp_op pred))"

fun flip_op :: "zone_op \<Rightarrow> zone_op" where
  "flip_op ZLt = ZGt"
| "flip_op ZLe = ZGe"
| "flip_op ZEq = ZEq"
| "flip_op ZGe = ZLe"
| "flip_op ZGt = ZLt"
| "flip_op ZNe = ZNe"

section \<open>The specification: what PostgreSQL evaluates\<close>

text \<open>The btree comparison operators over an integer key.\<close>

fun zone_rel :: "zone_op \<Rightarrow> int \<Rightarrow> int \<Rightarrow> bool" where
  "zone_rel ZLt a b \<longleftrightarrow> a < b"
| "zone_rel ZLe a b \<longleftrightarrow> a \<le> b"
| "zone_rel ZEq a b \<longleftrightarrow> a = b"
| "zone_rel ZGe a b \<longleftrightarrow> a \<ge> b"
| "zone_rel ZGt a b \<longleftrightarrow> a > b"
| "zone_rel ZNe a b \<longleftrightarrow> a \<noteq> b"

text \<open>PostgreSQL orders \<open>NaN\<close> above every other float and equal to itself.\<close>

definition pg_float_key :: "f64_bits \<Rightarrow> int" where
  "pg_float_key x = (if f64_is_nan x then 2 ^ 64 else f64_rank x)"

definition row_matches :: "minmax_kind \<Rightarrow> zone_predicate \<Rightarrow> bytes option \<Rightarrow> bool" where
  "row_matches mm p v =
     (case v of None \<Rightarrow> False
      | Some b \<Rightarrow>
        if float_kind mm then
          (case float_cell mm b of None \<Rightarrow> False | Some x \<Rightarrow> zone_rel (zp_op p) (pg_float_key x) (pg_float_key (zp_const_bits p)))
        else (case int_cell mm b of None \<Rightarrow> False | Some x \<Rightarrow> zone_rel (zp_op p) (sint x) (sint (zp_const_bits p))))"

definition nan_cell :: "minmax_kind \<Rightarrow> bytes option \<Rightarrow> bool" where
  "nan_cell mm v =
     (case v of None \<Rightarrow> False | Some b \<Rightarrow> (case float_cell mm b of None \<Rightarrow> False | Some x \<Rightarrow> f64_is_nan x))"

lemma flip_op_correct: "zone_rel (flip_op op) a b \<longleftrightarrow> zone_rel op b a"
  by (cases op) auto

section \<open>Pruning is sound\<close>

lemma set_map_filter_eq: "set (List.map_filter f xs) = {y. \<exists>x \<in> set xs. f x = Some y}"
  by (induction xs) (auto simp: map_filter_simps split: option.splits)

lemma int_cells_mem: "Some b \<in> set vs \<Longrightarrow> int_cell mm b = Some x \<Longrightarrow> x \<in> set (int_cells vs mm)"
  unfolding int_cells_def present_def set_map_filter_eq by auto

lemma float_cells_mem:
  "Some b \<in> set vs \<Longrightarrow> float_cell mm b = Some x \<Longrightarrow> \<not> f64_is_nan x \<Longrightarrow> x \<in> set (float_cells vs mm)"
  unfolding float_cells_def present_def set_filter set_map_filter_eq by auto

lemma int_cells_cell: "x \<in> set (int_cells vs mm) \<Longrightarrow> \<exists>b. Some b \<in> set vs \<and> int_cell mm b = Some x"
  unfolding int_cells_def present_def set_map_filter_eq by auto

lemma float_cells_cell:
  "x \<in> set (float_cells vs mm) \<Longrightarrow> \<exists>b. Some b \<in> set vs \<and> float_cell mm b = Some x \<and> \<not> f64_is_nan x"
  unfolding float_cells_def present_def set_filter set_map_filter_eq by auto

lemma excluded_int:
  "sint mn \<le> sint x \<Longrightarrow> sint x \<le> sint mx \<Longrightarrow> zone_rel op (sint x) (sint c) \<Longrightarrow> \<not> excluded i64_lt i64_le mn mx c op"
  by (cases op) (auto simp: i64_lt_def i64_le_def)

lemma excluded_float:
  "f64_rank mn \<le> f64_rank x \<Longrightarrow> f64_rank x \<le> f64_rank mx \<Longrightarrow> zone_rel op (f64_rank x) (f64_rank c) \<Longrightarrow>
   \<not> excluded f64_lt f64_le mn mx c op"
  by (cases op) (auto simp: f64_lt_def f64_le_def)

lemma compute_minmax_sound:
  assumes "compute_minmax vs mm = (hm, lo, hi)" and "v \<in> set vs" and "row_matches mm p v" and "\<not> nan_cell mm v"
  shows "chunk_can_match hm lo hi mm p"
proof (cases "hm \<and> mm \<noteq> MmNone")
  case True
  then have mm: "compute_minmax vs mm = (True, lo, hi)" using assms(1) by simp
  obtain b where v: "v = Some b" using assms(3) by (auto simp: row_matches_def split: option.splits)
  show ?thesis
  proof (cases "float_kind mm")
    case True
    then obtain x where x: "float_cell mm b = Some x" and nan: "\<not> f64_is_nan x"
      and rel: "zone_rel (zp_op p) (pg_float_key x) (pg_float_key (zp_const_bits p))"
      using assms(3,4) v by (auto simp: row_matches_def nan_cell_def split: option.splits)
    have "x \<in> set (float_cells vs mm)" using float_cells_mem x nan v assms(2) by blast
    then have b: "f64_rank lo \<le> f64_rank x" "f64_rank x \<le> f64_rank hi" using compute_minmax_float [OF True mm] by blast+
    have "f64_is_nan (zp_const_bits p) \<or> \<not> excluded f64_lt f64_le lo hi (zp_const_bits p) (zp_op p)"
      using excluded_float [OF b] rel nan by (auto simp: pg_float_key_def)
    then show ?thesis using True by (auto simp: chunk_can_match_def float_kind_def Let_def)
  next
    case False
    then obtain x where "int_cell mm b = Some x" and rel: "zone_rel (zp_op p) (sint x) (sint (zp_const_bits p))"
      using assms(3) v by (auto simp: row_matches_def split: option.splits)
    then have "x \<in> set (int_cells vs mm)" using int_cells_mem v assms(2) by blast
    then have b: "sint lo \<le> sint x" "sint x \<le> sint hi" using compute_minmax_int [OF False mm] by blast+
    from excluded_int [OF b rel] show ?thesis using False by (auto simp: chunk_can_match_def float_kind_def)
  qed
qed (auto simp: chunk_can_match_def)

text \<open>Whether the directory entry written for a chunk admits it.\<close>

definition chunk_admits :: "encoded_column \<Rightarrow> minmax_kind \<Rightarrow> zone_predicate \<Rightarrow> bool" where
  "chunk_admits e mm p = chunk_can_match (ec_has_minmax e) (ec_min_bits e) (ec_max_bits e) mm p"

lemma encode_column_minmax:
  assumes "compute_minmax vs mm = (hm, lo, hi)"
  shows "ec_min_bits (encode_column vs a mm) = lo" "ec_max_bits (encode_column vs a mm) = hi"
    "ec_has_minmax (encode_column vs a mm) \<longrightarrow> hm"
    "ec_has_minmax (encode_column vs a mm) \<longleftrightarrow> hm \<and> \<not> ec_all_null (encode_column vs a mm)"
  using assms by (simp_all add: encode_column_def Let_def)

lemma chunk_admits_sound:
  assumes "v \<in> set vs" and "row_matches mm p v" and "\<not> nan_cell mm v"
  shows "chunk_admits (encode_column vs a mm) mm p"
proof -
  obtain hm lo hi where c: "compute_minmax vs mm = (hm, lo, hi)" using prod_cases3 by blast
  have "chunk_can_match hm lo hi mm p" by (rule compute_minmax_sound [OF c assms])
  then show ?thesis using encode_column_minmax [OF c, of a] by (auto simp: chunk_admits_def chunk_can_match_def)
qed

section \<open>Pruning by an order comparison is exact\<close>

definition order_op :: "zone_op \<Rightarrow> bool" where
  "order_op op \<longleftrightarrow> op = ZLt \<or> op = ZLe \<or> op = ZGe \<or> op = ZGt"

lemma excluded_int_end:
  "order_op op \<Longrightarrow> \<not> excluded i64_lt i64_le mn mx c op \<Longrightarrow> zone_rel op (sint mn) (sint c) \<or> zone_rel op (sint mx) (sint c)"
  by (cases op) (auto simp: order_op_def i64_lt_def i64_le_def)

lemma excluded_float_end:
  "order_op op \<Longrightarrow> \<not> f64_is_nan mn \<Longrightarrow> \<not> f64_is_nan mx \<Longrightarrow> \<not> f64_is_nan c \<Longrightarrow> \<not> excluded f64_lt f64_le mn mx c op \<Longrightarrow>
   zone_rel op (f64_rank mn) (f64_rank c) \<or> zone_rel op (f64_rank mx) (f64_rank c)"
  by (cases op) (auto simp: order_op_def f64_lt_def f64_le_def)

lemma row_matches_int:
  "\<not> float_kind mm \<Longrightarrow> int_cell mm b = Some x \<Longrightarrow> row_matches mm p (Some b) \<longleftrightarrow> zone_rel (zp_op p) (sint x) (sint (zp_const_bits p))"
  by (simp add: row_matches_def)

lemma row_matches_float:
  "float_kind mm \<Longrightarrow> float_cell mm b = Some x \<Longrightarrow> \<not> f64_is_nan x \<Longrightarrow> \<not> f64_is_nan (zp_const_bits p) \<Longrightarrow>
   row_matches mm p (Some b) \<longleftrightarrow> zone_rel (zp_op p) (f64_rank x) (f64_rank (zp_const_bits p))"
  by (simp add: row_matches_def pg_float_key_def)

lemma chunk_can_match_complete:
  assumes "compute_minmax vs mm = (True, lo, hi)" and "mm \<noteq> MmNone" and "order_op (zp_op p)"
    and "float_kind mm \<Longrightarrow> \<not> f64_is_nan (zp_const_bits p)" and "chunk_can_match True lo hi mm p"
  shows "\<exists>v \<in> set vs. row_matches mm p v \<and> \<not> nan_cell mm v"
proof (cases "float_kind mm")
  case True
  have nan: "\<not> f64_is_nan lo" "\<not> f64_is_nan hi" using compute_minmax_float [OF True assms(1)] by blast+
  have c: "\<not> f64_is_nan (zp_const_bits p)" using assms(4) True by simp
  have "\<not> excluded f64_lt f64_le lo hi (zp_const_bits p) (zp_op p)"
    using assms(5) True nan c by (auto simp: chunk_can_match_def float_kind_def Let_def)
  then have e: "zone_rel (zp_op p) (f64_rank lo) (f64_rank (zp_const_bits p)) \<or> zone_rel (zp_op p) (f64_rank hi) (f64_rank (zp_const_bits p))"
    using excluded_float_end [OF assms(3) nan c] by blast
  obtain bl bh where "Some bl \<in> set vs" "float_cell mm bl = Some lo" "Some bh \<in> set vs" "float_cell mm bh = Some hi"
    using compute_minmax_float_mem [OF True assms(1)] float_cells_cell by blast
  moreover from this have "\<not> nan_cell mm (Some bl)" "\<not> nan_cell mm (Some bh)" using nan by (simp_all add: nan_cell_def)
  ultimately show ?thesis using e row_matches_float [OF True _ nan(1) c] row_matches_float [OF True _ nan(2) c] by blast
next
  case False
  have "\<not> excluded i64_lt i64_le lo hi (zp_const_bits p) (zp_op p)"
    using assms(2,5) False by (auto simp: chunk_can_match_def float_kind_def)
  then have e: "zone_rel (zp_op p) (sint lo) (sint (zp_const_bits p)) \<or> zone_rel (zp_op p) (sint hi) (sint (zp_const_bits p))"
    using excluded_int_end [OF assms(3)] by blast
  obtain bl bh where "Some bl \<in> set vs" "int_cell mm bl = Some lo" "Some bh \<in> set vs" "int_cell mm bh = Some hi"
    using compute_minmax_int_mem [OF False assms(1)] int_cells_cell by blast
  moreover have "\<not> nan_cell mm v" for v using False by (cases mm) (auto simp: nan_cell_def float_cell_def float_kind_def split: option.splits)
  ultimately show ?thesis using e row_matches_int [OF False] by blast
qed

section \<open>Properties\<close>

text \<open>C35: Pruning never loses a row that is not NaN: when a present cell of the chunk satisfies the comparison as
  PostgreSQL evaluates it, the directory entry written for the chunk makes the reader scan it, whatever the
  operator, the constant (NaN included) and the other cells.\<close>

theorem zone_map_sound:
  assumes "v \<in> set vs" and "row_matches mm p v" and "\<not> nan_cell mm v"
  shows "chunk_admits (encode_column vs a mm) mm p"
  by (rule chunk_admits_sound [OF assms])

theorem zone_map_sound_witness:
  "chunk_admits (encode_column [Some [3, 0], None, Some [9, 0]] (Some 2) I2) I2 \<lparr>zp_col = 0, zp_op = ZGt, zp_const_bits = 5\<rparr>"
proof (rule zone_map_sound [where v = "Some [9, 0]"])
  have "int_cell I2 [9, 0] = Some 9" by (simp add: int_cell_def from_le_def)
  then show "row_matches I2 \<lparr>zp_col = 0, zp_op = ZGt, zp_const_bits = 5\<rparr> (Some [9, 0])"
    by (simp add: row_matches_def float_kind_def)
qed (simp_all add: nan_cell_def float_cell_def)

text \<open>C34: For the order comparisons pruning is exact: a chunk whose entry carries a range is scanned exactly when some
  row that is not NaN satisfies the comparison, so the zone map is equivalent to evaluating the predicate on
  every row of the chunk.\<close>

theorem zone_map_exact:
  assumes "ec_has_minmax (encode_column vs a mm)" and "mm \<noteq> MmNone" and "order_op (zp_op p)"
    and "\<not> f64_is_nan (zp_const_bits p) \<or> \<not> float_kind mm"
  shows "chunk_admits (encode_column vs a mm) mm p \<longleftrightarrow> (\<exists>v \<in> set vs. row_matches mm p v \<and> \<not> nan_cell mm v)"
proof
  obtain hm lo hi where c: "compute_minmax vs mm = (hm, lo, hi)" using prod_cases3 by blast
  note e = encode_column_minmax [OF c, of a]
  have c': "compute_minmax vs mm = (True, lo, hi)" using c e(3) assms(1) by simp
  assume "chunk_admits (encode_column vs a mm) mm p"
  then have "chunk_can_match True lo hi mm p" using e assms(1) by (simp add: chunk_admits_def)
  then show "\<exists>v \<in> set vs. row_matches mm p v \<and> \<not> nan_cell mm v"
    using chunk_can_match_complete [OF c' assms(2,3)] assms(4) by blast
next
  assume "\<exists>v \<in> set vs. row_matches mm p v \<and> \<not> nan_cell mm v"
  then show "chunk_admits (encode_column vs a mm) mm p" using chunk_admits_sound by blast
qed

theorem zone_map_exact_witness:
  "\<not> chunk_admits (encode_column [Some [3, 0], None, Some [9, 0]] (Some 2) I2) I2 \<lparr>zp_col = 0, zp_op = ZLt, zp_const_bits = 2\<rparr>"
proof -
  let ?vs = "[Some [3, 0], None, Some [9, 0]] :: bytes option list" and ?p = "\<lparr>zp_col = 0, zp_op = ZLt, zp_const_bits = 2\<rparr>"
  have cells: "int_cell I2 [3, 0] = Some 3" "int_cell I2 [9, 0] = Some 9" by (simp_all add: int_cell_def from_le_def)
  then have "compute_minmax ?vs I2 = (True, 3, 9)"
    by (simp add: compute_minmax_def int_cells_def present_def map_filter_simps minmax_result_def i64_min_def i64_max_def)
  then have "ec_has_minmax (encode_column ?vs (Some 2) I2)"
    by (simp add: encode_column_minmax(4) encode_column_fields(4))
  then have "chunk_admits (encode_column ?vs (Some 2) I2) I2 ?p \<longleftrightarrow> (\<exists>v \<in> set ?vs. row_matches I2 ?p v \<and> \<not> nan_cell I2 v)"
    by (rule zone_map_exact) (simp_all add: order_op_def float_kind_def)
  moreover have "\<not> row_matches I2 ?p (Some [3, 0]) \<and> \<not> row_matches I2 ?p (Some [9, 0]) \<and> \<not> row_matches I2 ?p None"
    by (simp add: row_matches_def float_kind_def cells)
  ultimately show ?thesis by simp
qed

text \<open>C36: A NaN row is lost by pruning. PostgreSQL orders NaN above every float, so the row satisfies
  \<open>col > 5\<close>; the stored range skips NaN cells, so the chunk holding 1.0 and NaN carries the range 1 to 1 and is
  pruned. The row would be returned with the zone map switched off.\<close>

theorem zone_map_prunes_nan_row:
  "let one = 0x3FF0000000000000 :: u64; five = 0x4014000000000000; nan = 0x7FF8000000000000 :: u64;
       p = \<lparr>zp_col = 0, zp_op = ZGt, zp_const_bits = five\<rparr>; vs = [Some (to_le one), Some (to_le nan)] in
   row_matches F8 p (Some (to_le nan)) \<and> \<not> chunk_admits (encode_column vs (Some 8) F8) F8 p"
proof -
  let ?one = "0x3FF0000000000000 :: u64" and ?five = "0x4014000000000000 :: u64" and ?nan = "0x7FF8000000000000 :: u64"
  let ?p = "\<lparr>zp_col = 0, zp_op = ZGt, zp_const_bits = ?five\<rparr>" and ?vs = "[Some (to_le ?one), Some (to_le ?nan)]"
  have cell: "float_cell F8 (to_le w) = Some w" for w :: u64 by (simp add: float_cell_def)
  have nan: "\<not> f64_is_nan ?one" "\<not> f64_is_nan ?five" "f64_is_nan ?nan"
    by (simp_all add: f64_is_nan_def f64_mag_def f64_inf_mag_def)
  have rank: "f64_rank ?one < f64_rank ?five" "f64_rank ?five < 2 ^ 64" by (simp_all add: f64_rank_def f64_neg_def f64_mag_def)
  have mm: "compute_minmax ?vs F8 = (True, ?one, ?one)"
    by (simp add: compute_minmax_def float_cells_def present_def map_filter_simps minmax_result_def cell nan)
  have "row_matches F8 ?p (Some (to_le ?nan))"
    using nan rank by (simp add: row_matches_def float_kind_def cell pg_float_key_def)
  moreover have "\<not> chunk_can_match True ?one ?one F8 ?p"
    using nan rank by (simp add: chunk_can_match_def f64_le_def)
  moreover have "ec_has_minmax (encode_column ?vs (Some 8) F8)"
    by (simp add: encode_column_minmax(4) [OF mm] encode_column_fields(4))
  ultimately show ?thesis
    by (simp add: Let_def chunk_admits_def encode_column_minmax(1,2) [OF mm])
qed

end
