(* ===== verification/ColumnarTuple.thy ===== *)
theory ColumnarTuple
  imports ColumnarCodec ZoneMap
begin

text \<open>
  Rows of the columnar access method (\<open>am/columnar.rs\<close>): the column descriptors derived from the tuple
  descriptor, the bytes stored for a datum and the datum rebuilt from them, and the two transpositions between
  heap-tuple bytes and column values. A datum is a machine word or the memory its pointer designates.
  PostgreSQL's \<open>heap_form_tuple\<close>, \<open>heap_deform_tuple\<close>, \<open>pg_detoast_datum_copy\<close> and the zstd library are
  parameters, fields of \<open>col_env\<close>; a compression or decompression that fails is \<open>None\<close>.
\<close>

section \<open>The code\<close>

datatype datum = ByVal u64 | ByRef bytes

fun datum_word :: "datum \<Rightarrow> u64" where
  "datum_word (ByVal w) = w"
| "datum_word (ByRef m) = 0"

fun datum_mem :: "datum \<Rightarrow> bytes" where
  "datum_mem (ByRef m) = m"
| "datum_mem (ByVal w) = []"

record col_env =
  ce_form :: "datum option list \<Rightarrow> bytes"
  ce_deform :: "bytes \<Rightarrow> datum option list"
  ce_detoast :: "bytes \<Rightarrow> bytes"
  ce_zstd :: "bytes \<Rightarrow> bytes option"
  ce_unzstd :: "bytes \<Rightarrow> bytes option"

record attribute =
  attlen :: int
  attbyval :: bool
  atttypid :: u32

record column_desc =
  cd_attlen :: "nat option"
  cd_byval :: bool
  cd_mm :: minmax_kind
  cd_typid :: u32

definition coldesc :: "attribute \<Rightarrow> columnar_error + column_desc" where
  "coldesc a =
     (let mk = (\<lambda>l. Inr \<lparr>cd_attlen = l, cd_byval = attbyval a, cd_mm = minmax_kind_of (atttypid a), cd_typid = atttypid a\<rparr>) in
      if attlen a > 0 then mk (Some (nat (attlen a)))
      else if attlen a = -1 then mk None
      else Inl (UnsupportedAttlen (attlen a)))"

definition varlena_payload :: "bytes \<Rightarrow> columnar_error + bytes" where
  "varlena_payload p =
     (let b0 = p ! 0 in
      if and b0 1 = 1 then
        let total = unat (and (drop_bit 1 b0) 0x7F) in
          if total < 1 then Inl CorruptVarlena else Inr (slice_at 1 (total - 1) p)
      else
        let total = unat (and (drop_bit 2 (u32_at 0 p)) 0x3FFFFFFF) in
          if total < 4 then Inl CorruptVarlena else Inr (slice_at 4 (total - 4) p))"

definition extract_value_bytes :: "col_env \<Rightarrow> column_desc \<Rightarrow> datum \<Rightarrow> columnar_error + bytes" where
  "extract_value_bytes env col d =
     (case cd_attlen col of
        Some len \<Rightarrow> if cd_byval col then Inr (take len (to_le (datum_word d))) else Inr (take len (datum_mem d))
      | None \<Rightarrow> varlena_payload (ce_detoast env (datum_mem d)))"

definition rebuild_datum :: "column_desc \<Rightarrow> bytes \<Rightarrow> columnar_error + datum" where
  "rebuild_datum col b =
     (case cd_attlen col of
        Some len \<Rightarrow>
          if length b < len then Inl FixedValueTooShort
          else if cd_byval col then Inr (ByVal (from_le (take len b @ replicate (8 - len) 0)))
          else Inr (ByRef (take len b))
      | None \<Rightarrow> Inr (ByRef (to_le (push_bit 2 (of_nat (4 + length b) :: u32)) @ b)))"

definition value_at :: "col_env \<Rightarrow> column_desc list \<Rightarrow> datum option list \<Rightarrow> nat \<Rightarrow> columnar_error + bytes option" where
  "value_at env cols values col =
     (case values ! col of None \<Rightarrow> Inr None
      | Some d \<Rightarrow> bind_r (extract_value_bytes env (cols ! col) d) (\<lambda>b. Inr (Some b)))"

definition deform_rows_into_columns ::
  "col_env \<Rightarrow> bytes list \<Rightarrow> column_desc list \<Rightarrow> nat list \<Rightarrow> columnar_error + bytes option list list" where
  "deform_rows_into_columns env rows cols wanted =
     bind_r (map_r (\<lambda>row. map_r (value_at env cols (ce_deform env row)) wanted) rows)
       (\<lambda>rs. Inr (map (\<lambda>wi. map (\<lambda>r. r ! wi) rs) [0..<length wanted]))"

definition form_row ::
  "col_env \<Rightarrow> column_desc list \<Rightarrow> bytes option list list \<Rightarrow> nat \<Rightarrow> bool list \<Rightarrow> columnar_error + bytes" where
  "form_row env cols cgcols r want_mask =
     bind_r (map_r (\<lambda>col. if \<not> want_mask ! col then Inr None
        else case cgcols ! col ! r of None \<Rightarrow> Inr None
             | Some b \<Rightarrow> bind_r (rebuild_datum (cols ! col) b) (\<lambda>d. Inr (Some d))) [0..<length cols])
       (\<lambda>ds. Inr (ce_form env ds))"

text \<open>The flattening of \<open>accumulate_row\<close>: every varlena is detoasted before the tuple is formed.\<close>

definition detoast_values :: "col_env \<Rightarrow> attribute list \<Rightarrow> datum option list \<Rightarrow> datum option list" where
  "detoast_values env attrs values =
     map (\<lambda>(a, v). case v of Some d \<Rightarrow> (if attlen a \<noteq> -1 then Some d else Some (ByRef (ce_detoast env (datum_mem d))))
                   | None \<Rightarrow> None) (zip attrs values)"

definition row_of_slot :: "col_env \<Rightarrow> attribute list \<Rightarrow> datum option list \<Rightarrow> bytes" where
  "row_of_slot env attrs values = ce_form env (detoast_values env attrs values)"

section \<open>The environment\<close>

text \<open>What \<open>pg_detoast_datum_copy\<close> returns: an uncompressed varlena with a plain 4-byte header (its low two bits are 00) whose
  length covers the memory exactly. A varlena inside a heap tuple that was formed from such values keeps that header or has
  the short 1-byte one (odd, and not the external marker 1); it is never compressed.\<close>

definition plain_varlena :: "bytes \<Rightarrow> bool" where
  "plain_varlena m \<longleftrightarrow> 4 \<le> length m \<and> and (m ! 0) 3 = 0 \<and> length m = unat (and (drop_bit 2 (u32_at 0 m)) 0x3FFFFFFF)"

definition flat_varlena :: "bytes \<Rightarrow> bool" where
  "flat_varlena m \<longleftrightarrow>
     m \<noteq> [] \<and> and (m ! 0) 1 = 1 \<and> m ! 0 \<noteq> 1 \<and> length m = unat (and (drop_bit 1 (m ! 0)) 0x7F) \<or> plain_varlena m"

text \<open>A datum of a column: a word for a by-value type (at most 8 bytes wide), enough memory for a fixed by-reference
  one, any memory for a varlena.\<close>

definition datum_ok :: "column_desc \<Rightarrow> datum \<Rightarrow> bool" where
  "datum_ok c d \<longleftrightarrow>
     (case cd_attlen c of
        Some len \<Rightarrow> if cd_byval c then (\<exists>w. d = ByVal w) \<and> len \<le> 8 else (\<exists>m. d = ByRef m \<and> len \<le> length m)
      | None \<Rightarrow> \<exists>m. d = ByRef m)"

definition datum_flat :: "column_desc \<Rightarrow> datum \<Rightarrow> bool" where
  "datum_flat c d \<longleftrightarrow> datum_ok c d \<and> (cd_attlen c = None \<longrightarrow> flat_varlena (datum_mem d))"

text \<open>The same value, up to the header format of a varlena and the unused bytes of a word.\<close>

definition plain_value :: "column_desc \<Rightarrow> datum \<Rightarrow> columnar_error + bytes" where
  "plain_value c d =
     (case cd_attlen c of
        Some len \<Rightarrow> Inr (take len (if cd_byval c then to_le (datum_word d) else datum_mem d))
      | None \<Rightarrow> varlena_payload (datum_mem d))"

fun same_cell :: "column_desc \<Rightarrow> datum option \<Rightarrow> datum option \<Rightarrow> bool" where
  "same_cell c None None \<longleftrightarrow> True"
| "same_cell c (Some d) (Some d') \<longleftrightarrow> datum_flat c d' \<and> plain_value c d' = plain_value c d"
| "same_cell c _ _ \<longleftrightarrow> False"

definition flat_tuple :: "column_desc list \<Rightarrow> datum option list \<Rightarrow> bool" where
  "flat_tuple cols ds \<longleftrightarrow> list_all2 (\<lambda>c v. case v of None \<Rightarrow> True | Some d \<Rightarrow> datum_flat c d) cols ds"

text \<open>The documented behaviour of the libraries: detoasting a flat varlena copies its payload behind a plain 4-byte header;
  deforming a formed tuple gives the values back (a varlena possibly with a short header); compression into memory succeeds
  and decompression inverts it. Nothing is assumed of the detoasting of external, compressed or expanded values: that the
  executor's slot carries values that can be detoasted is part of \<open>slot_ok\<close>.\<close>

definition env_ok :: "col_env \<Rightarrow> column_desc list \<Rightarrow> bool" where
  "env_ok env cols \<longleftrightarrow>
     (\<forall>m. flat_varlena m \<longrightarrow> plain_varlena (ce_detoast env m) \<and> varlena_payload (ce_detoast env m) = varlena_payload m) \<and>
     (\<forall>ds. flat_tuple cols ds \<longrightarrow> length (ce_deform env (ce_form env ds)) = length cols \<and>
        (\<forall>i < length cols. same_cell (cols ! i) (ds ! i) (ce_deform env (ce_form env ds) ! i))) \<and>
     (\<forall>b. \<exists>c. ce_zstd env b = Some c \<and> ce_unzstd env c = Some b)"

section \<open>One value\<close>

definition cell_wf :: "column_desc \<Rightarrow> bytes option \<Rightarrow> bool" where
  "cell_wf c v \<longleftrightarrow>
     (case v of None \<Rightarrow> True
      | Some b \<Rightarrow> (case cd_attlen c of Some len \<Rightarrow> length b = len \<and> (cd_byval c \<longrightarrow> len \<le> 8) | None \<Rightarrow> 4 + length b < 2 ^ 30))"

lemma map_r_Inr: "(\<And>x. x \<in> set xs \<Longrightarrow> f x = Inr (g x)) \<Longrightarrow> map_r f xs = Inr (map g xs)"
  by (induction xs) simp_all

lemma extract_flat: "env_ok env cols \<Longrightarrow> datum_flat c d \<Longrightarrow> extract_value_bytes env c d = plain_value c d"
  by (cases "cd_attlen c") (auto simp: extract_value_bytes_def plain_value_def datum_flat_def env_ok_def)

lemma short_payload:
  "and (m ! 0) 1 = 1 \<Longrightarrow> m \<noteq> [] \<Longrightarrow> length m = unat (and (drop_bit 1 (m ! 0)) 0x7F) \<Longrightarrow>
   varlena_payload m = Inr (tl m) \<and> length m < 2 ^ 7"
proof -
  assume a: "and (m ! 0) 1 = 1" "m \<noteq> []" and l: "length m = unat (and (drop_bit 1 (m ! 0)) 0x7F)"
  have "and (drop_bit 1 (m ! 0)) 0x7F \<le> 0x7F" by (rule word_and_le1)
  then have "unat (and (drop_bit 1 (m ! 0)) 0x7F) \<le> 127" by (simp add: word_le_nat_alt)
  moreover have "slice_at 1 (length m - 1) m = tl m" by (simp add: slice_at_def drop_Suc)
  ultimately show ?thesis using a l by (simp add: varlena_payload_def Let_def) (cases m; simp)
qed

lemma plain_not_short: "and x 3 = 0 \<Longrightarrow> and x 1 \<noteq> (1 :: u8)"
proof
  assume "and x 3 = 0" "and x 1 = 1"
  then have "and (and x 3) 1 = 0" "and x 1 = 1" by simp_all
  then show False by (simp add: and.assoc)
qed

lemma long_payload:
  "and (m ! 0) 1 \<noteq> 1 \<Longrightarrow> 4 \<le> length m \<Longrightarrow> length m = unat (and (drop_bit 2 (u32_at 0 m)) 0x3FFFFFFF) \<Longrightarrow>
   varlena_payload m = Inr (drop 4 m) \<and> length m < 2 ^ 30"
proof -
  assume a: "and (m ! 0) 1 \<noteq> 1" "4 \<le> length m" and l: "length m = unat (and (drop_bit 2 (u32_at 0 m)) 0x3FFFFFFF)"
  have "and (drop_bit 2 (u32_at 0 m)) 0x3FFFFFFF \<le> 0x3FFFFFFF" by (rule word_and_le1)
  then have "unat (and (drop_bit 2 (u32_at 0 m)) 0x3FFFFFFF) \<le> 1073741823" by (simp add: word_le_nat_alt)
  moreover have "slice_at 4 (length m - 4) m = drop 4 m" by (simp add: slice_at_def)
  ultimately show ?thesis using a l by (simp add: varlena_payload_def Let_def)
qed

lemma flat_payload:
  assumes "flat_varlena m"
  shows "\<exists>b. varlena_payload m = Inr b \<and> 4 + length b < 2 ^ 30"
  using assms short_payload [of m] long_payload [of m] plain_not_short [of "m ! 0"]
  unfolding flat_varlena_def plain_varlena_def by (elim conjE disjE) auto

text \<open>The varlena \<open>rebuild_datum\<close> makes of a payload.\<close>

definition plain_of :: "bytes \<Rightarrow> bytes" where
  "plain_of b = to_le (push_bit 2 (of_nat (4 + length b) :: u32)) @ b"

lemma plain_flat: "datum_flat c d \<Longrightarrow> \<exists>b. plain_value c d = Inr b \<and> cell_wf c (Some b)"
  using flat_payload [of "datum_mem d"]
  by (auto simp: plain_value_def datum_flat_def datum_ok_def cell_wf_def split: option.splits)

lemma header_word:
  assumes "n < 2 ^ 30"
  shows "and (drop_bit 2 (push_bit 2 (of_nat n :: u32))) 0x3FFFFFFF = of_nat n"
    and "and (to_le (push_bit 2 (of_nat n :: u32)) ! 0) 3 = 0"
proof -
  let ?w = "push_bit 2 (of_nat n :: u32)"
  have u: "unat ?w = 4 * n" using assms by (simp add: push_bit_eq_mult unat_word_ariths unat_of_nat)
  have "unat (drop_bit 2 ?w) = n" using u by (simp add: drop_bit_eq_div unat_div)
  moreover have "unat (and x 0x3FFFFFFF :: u32) = unat x mod 2 ^ 30" for x
  proof -
    have "and x 0x3FFFFFFF = take_bit 30 x" by (simp add: take_bit_eq_mask mask_eq_exp_minus_1)
    then show ?thesis by (simp add: take_bit_eq_mod unat_mod_distrib)
  qed
  ultimately have a: "unat (and (drop_bit 2 ?w) 0x3FFFFFFF) = n" using mod_less [OF assms] by presburger
  have "n < 2 ^ 32" using assms by simp
  then have "unat (of_nat n :: u32) = n" by (rule unat_of_nat_u32)
  then have "unat (and (drop_bit 2 ?w) 0x3FFFFFFF) = unat (of_nat n :: u32)" using a by (rule trans [OF _ sym, rotated])
  then show "and (drop_bit 2 ?w) 0x3FFFFFFF = of_nat n" by (rule word_unat_eq_iff [THEN iffD2])
  have "to_le ?w = le_of_nat (Suc 3) (4 * n)" unfolding to_le_def u by (rule arg_cong2 [where f = le_of_nat]) simp_all
  then have "to_le ?w ! 0 = of_nat (4 * n)" by (simp only: le_of_nat.simps nth_Cons_0)
  then have "unat (to_le ?w ! 0) = 4 * n mod 256" by (simp only: unat_of_nat) simp
  moreover have "4 * n mod 256 mod 4 = 0" using mod_mod_cancel [of 4 256 "4 * n"] by simp
  ultimately have "unat (to_le ?w ! 0) mod 4 = 0" by simp
  moreover have "and x 3 = take_bit 2 x" for x :: u8 by (simp add: take_bit_eq_mask mask_eq_exp_minus_1)
  ultimately have "unat (and (to_le ?w ! 0) 3) = 0" by (simp add: take_bit_eq_mod unat_mod_distrib)
  then show "and (to_le ?w ! 0) 3 = 0" by (simp only: unat_eq_zero)
qed

lemma plain_cell_wf: "plain_value c d = Inr b \<Longrightarrow> datum_flat c d \<Longrightarrow> cell_wf c (Some b)"
  using plain_flat by fastforce

lemma plain_of_plain:
  assumes "4 + length b < 2 ^ 30"
  shows "plain_varlena (plain_of b)" and "varlena_payload (plain_of b) = Inr b"
proof -
  define n where "n = 4 + length b"
  define m where "m = plain_of b"
  have n: "n < 2 ^ 30" using assms by (simp add: n_def)
  have m0: "m ! 0 = to_le (push_bit 2 (of_nat n :: u32)) ! 0" by (simp add: m_def plain_of_def n_def nth_append)
  have u: "u32_at 0 m = push_bit 2 (of_nat n :: u32)" by (simp add: m_def plain_of_def n_def u32_at_def slice_at_def)
  have t: "unat (and (drop_bit 2 (u32_at 0 m)) 0x3FFFFFFF) = n"
    unfolding u header_word(1) [OF n] using n by (intro unat_of_nat_u32) simp
  have low: "and (m ! 0) 3 = 0" unfolding m0 by (rule header_word(2) [OF n])
  have len: "length m = n" "4 \<le> length m" by (simp_all add: m_def plain_of_def n_def)
  show "plain_varlena (plain_of b)" unfolding plain_varlena_def m_def [symmetric] using low t len by auto
  have "varlena_payload m = Inr (drop 4 m)" using long_payload [OF plain_not_short [OF low] len(2)] t len(1) by simp
  then show "varlena_payload (plain_of b) = Inr b" by (simp add: m_def plain_of_def)
qed

lemma rebuild_plain:
  assumes "cell_wf c (Some b)"
  shows "\<exists>d. rebuild_datum c b = Inr d \<and> datum_flat c d \<and> plain_value c d = Inr b"
proof (cases "cd_attlen c")
  case None
  then have n: "4 + length b < 2 ^ 30" using assms by (simp add: cell_wf_def)
  have "rebuild_datum c b = Inr (ByRef (plain_of b))" using None by (simp add: rebuild_datum_def plain_of_def)
  then show ?thesis using None plain_of_plain [OF n] by (simp add: datum_flat_def datum_ok_def plain_value_def flat_varlena_def)
next
  case (Some len)
  then have l: "length b = len" "cd_byval c \<Longrightarrow> len \<le> 8" using assms by (simp_all add: cell_wf_def)
  show ?thesis
  proof (cases "cd_byval c")
    case True
    let ?full = "b @ replicate (8 - len) 0"
    have "to_le (from_le ?full :: u64) = ?full" using l True by (intro to_le_from_le) simp
    then show ?thesis using Some l True by (simp add: rebuild_datum_def datum_flat_def datum_ok_def plain_value_def)
  next
    case False
    then show ?thesis using Some l by (simp add: rebuild_datum_def datum_flat_def datum_ok_def plain_value_def)
  qed
qed

section \<open>One row\<close>

text \<open>The cells of a row: what deforming the tuple and extracting every value yields.\<close>

definition row_cells :: "col_env \<Rightarrow> column_desc list \<Rightarrow> bytes \<Rightarrow> columnar_error + bytes option list" where
  "row_cells env cols row = map_r (value_at env cols (ce_deform env row)) [0..<length cols]"

definition cells_wf :: "column_desc list \<Rightarrow> bytes option list \<Rightarrow> bool" where
  "cells_wf cols cs \<longleftrightarrow> list_all2 cell_wf cols cs"

text \<open>The value cells of a tuple of flat datums.\<close>

definition plain_cell :: "column_desc \<Rightarrow> datum option \<Rightarrow> bytes option" where
  "plain_cell c v = (case v of None \<Rightarrow> None | Some d \<Rightarrow> (case plain_value c d of Inr b \<Rightarrow> Some b | Inl _ \<Rightarrow> None))"

definition plain_cells :: "column_desc list \<Rightarrow> datum option list \<Rightarrow> bytes option list" where
  "plain_cells cols ds = map (\<lambda>(c, v). plain_cell c v) (zip cols ds)"

lemma row_cells_form:
  assumes env: "env_ok env cols" and ds: "flat_tuple cols ds"
  shows "row_cells env cols (ce_form env ds) = Inr (plain_cells cols ds)"
proof -
  let ?ds' = "ce_deform env (ce_form env ds)"
  have same: "\<And>i. i < length cols \<Longrightarrow> same_cell (cols ! i) (ds ! i) (?ds' ! i)" using env ds by (auto simp: env_ok_def)
  have len: "length ds = length cols" using ds by (simp add: flat_tuple_def list_all2_lengthD)
  have "value_at env cols ?ds' i = Inr (plain_cell (cols ! i) (ds ! i))" if i: "i < length cols" for i
  proof (cases "ds ! i")
    case None
    then have "?ds' ! i = None" using same [OF i] by (cases "?ds' ! i") simp_all
    then show ?thesis using None by (simp add: value_at_def plain_cell_def)
  next
    case (Some d)
    then obtain d' where d': "?ds' ! i = Some d'" "datum_flat (cols ! i) d'" "plain_value (cols ! i) d' = plain_value (cols ! i) d"
      using same [OF i] by (cases "?ds' ! i") auto
    obtain b where b: "plain_value (cols ! i) d' = Inr b" using plain_flat d'(2) by blast
    then have "plain_value (cols ! i) d = Inr b" using d'(3) by simp
    then show ?thesis using Some d'(1) b extract_flat [OF env d'(2)] by (simp add: value_at_def plain_cell_def)
  qed
  then have "row_cells env cols (ce_form env ds) = Inr (map (\<lambda>i. plain_cell (cols ! i) (ds ! i)) [0..<length cols])"
    unfolding row_cells_def by (intro map_r_Inr) simp
  also have "map (\<lambda>i. plain_cell (cols ! i) (ds ! i)) [0..<length cols] = plain_cells cols ds"
    by (rule nth_equalityI) (simp_all add: plain_cells_def len)
  finally show ?thesis .
qed

lemma plain_cells_wf:
  assumes "flat_tuple cols ds"
  shows "cells_wf cols (plain_cells cols ds)"
  unfolding cells_wf_def list_all2_conv_all_nth
proof (intro conjI allI impI)
  have len: "length ds = length cols" using assms by (simp add: flat_tuple_def list_all2_lengthD)
  show "length cols = length (plain_cells cols ds)" by (simp add: plain_cells_def len)
  fix i assume i: "i < length cols"
  then have "case ds ! i of None \<Rightarrow> True | Some d \<Rightarrow> datum_flat (cols ! i) d"
    using list_all2_nthD [OF assms [unfolded flat_tuple_def]] by simp
  then have "cell_wf (cols ! i) (plain_cell (cols ! i) (ds ! i))"
    by (auto simp: plain_cell_def cell_wf_def [of _ None] dest: plain_cell_wf split: option.splits sum.splits)
  then show "cell_wf (cols ! i) (plain_cells cols ds ! i)" using i len by (simp add: plain_cells_def)
qed

text \<open>The row an executor slot becomes: its cells are the slot's values. A varlena of the slot may be in any format, external,
  compressed, expanded or short, that \<open>pg_detoast_datum_copy\<close> turns into a plain one.\<close>

definition slot_ok :: "col_env \<Rightarrow> column_desc list \<Rightarrow> datum option list \<Rightarrow> bool" where
  "slot_ok env cols values \<longleftrightarrow>
     list_all2 (\<lambda>c v. case v of None \<Rightarrow> True
       | Some d \<Rightarrow> datum_ok c d \<and> (cd_attlen c = None \<longrightarrow> plain_varlena (ce_detoast env (datum_mem d)))) cols values"

definition slot_cells :: "col_env \<Rightarrow> attribute list \<Rightarrow> column_desc list \<Rightarrow> datum option list \<Rightarrow> bytes option list" where
  "slot_cells env attrs cols values = plain_cells cols (detoast_values env attrs values)"

lemma coldesc_varlena: "coldesc a = Inr c \<Longrightarrow> cd_attlen c = None \<longleftrightarrow> attlen a = -1"
  by (auto simp: coldesc_def Let_def split: if_splits)

lemma coldesc_cols: "map_r coldesc attrs = Inr cols \<Longrightarrow> length cols = length attrs"
  by (simp add: map_r_Inr_iff list_all2_lengthD)

lemma detoast_values_flat:
  assumes "slot_ok env cols values" and "map_r coldesc attrs = Inr cols"
  shows "flat_tuple cols (detoast_values env attrs values)"
  unfolding flat_tuple_def list_all2_conv_all_nth
proof (intro conjI allI impI)
  have len: "length values = length cols" "length attrs = length cols"
    using assms(1) coldesc_cols [OF assms(2)] by (simp_all add: slot_ok_def list_all2_lengthD)
  show "length cols = length (detoast_values env attrs values)" by (simp add: detoast_values_def len)
  fix i assume i: "i < length cols"
  then have v: "case values ! i of None \<Rightarrow> True
      | Some d \<Rightarrow> datum_ok (cols ! i) d \<and> (cd_attlen (cols ! i) = None \<longrightarrow> plain_varlena (ce_detoast env (datum_mem d)))"
    using list_all2_nthD [OF assms(1) [unfolded slot_ok_def]] by simp
  have a: "cd_attlen (cols ! i) = None \<longleftrightarrow> attlen (attrs ! i) = -1"
    using assms(2) i len by (intro coldesc_varlena) (simp add: map_r_Inr_iff list_all2_conv_all_nth)
  show "case detoast_values env attrs values ! i of None \<Rightarrow> True | Some d \<Rightarrow> datum_flat (cols ! i) d"
    using i len v a by (cases "values ! i") (auto simp: detoast_values_def datum_flat_def datum_ok_def flat_varlena_def)
qed

lemma row_of_slot_cells:
  assumes "env_ok env cols" and "slot_ok env cols values" and "map_r coldesc attrs = Inr cols"
  shows "row_cells env cols (row_of_slot env attrs values) = Inr (slot_cells env attrs cols values) \<and>
    cells_wf cols (slot_cells env attrs cols values)"
  using row_cells_form [OF assms(1) detoast_values_flat [OF assms(2,3)]] plain_cells_wf [OF detoast_values_flat [OF assms(2,3)]]
  by (simp add: row_of_slot_def slot_cells_def)

text \<open>A row rebuilt from the decoded columns has the decoded cells, those projected away read as null.\<close>

definition masked :: "bool list \<Rightarrow> bytes option list \<Rightarrow> bytes option list" where
  "masked want cs = map (\<lambda>(w, v). if w then v else None) (zip want cs)"

lemma form_row_cells:
  assumes env: "env_ok env cols" and wf: "cells_wf cols cs" and want: "length want = length cols"
    and cg: "\<And>c. c < length cols \<Longrightarrow> want ! c \<Longrightarrow> cgcols ! c ! r = cs ! c"
  shows "\<exists>row. form_row env cols cgcols r want = Inr row \<and> row_cells env cols row = Inr (masked want cs)"
proof -
  have len: "length cs = length cols" using wf by (simp add: cells_wf_def list_all2_lengthD)
  let ?f = "\<lambda>c. if \<not> want ! c then Inr None else case cgcols ! c ! r of None \<Rightarrow> Inr None
      | Some b \<Rightarrow> bind_r (rebuild_datum (cols ! c) b) (\<lambda>d. Inr (Some d))"
  let ?ok = "\<lambda>c v. ?f c = Inr v \<and> (case v of None \<Rightarrow> True | Some d \<Rightarrow> datum_flat (cols ! c) d) \<and>
      plain_cell (cols ! c) v = (if want ! c then cs ! c else None)"
  have "\<exists>v. ?ok c v" if c: "c < length cols" for c
  proof (cases "want ! c \<and> cs ! c \<noteq> None")
    case True
    then obtain b where b: "cs ! c = Some b" by auto
    then have "cell_wf (cols ! c) (Some b)" using wf c by (metis cells_wf_def list_all2_nthD)
    then obtain d where "rebuild_datum (cols ! c) b = Inr d" "datum_flat (cols ! c) d" "plain_value (cols ! c) d = Inr b"
      using rebuild_plain by blast
    then have "?ok c (Some d)" using True b cg [OF c] by (simp add: plain_cell_def)
    then show ?thesis ..
  next
    case False
    then have "?ok c None" using cg [OF c] by (auto simp: plain_cell_def)
    then show ?thesis ..
  qed
  then obtain v where v: "\<And>c. c < length cols \<Longrightarrow> ?ok c (v c)" by metis
  let ?ds = "map v [0..<length cols]"
  have "map_r ?f [0..<length cols] = Inr ?ds" using v by (intro map_r_Inr) simp
  then have "form_row env cols cgcols r want = Inr (ce_form env ?ds)" by (simp add: form_row_def)
  moreover have "flat_tuple cols ?ds" using v by (simp add: flat_tuple_def list_all2_conv_all_nth)
  moreover have "plain_cells cols ?ds = masked want cs"
    by (rule nth_equalityI) (simp_all add: plain_cells_def masked_def want len v)
  ultimately show ?thesis using row_cells_form [OF env, of ?ds] by simp
qed

lemma masked_all: "length cs = n \<Longrightarrow> masked (replicate n True) cs = cs"
  by (rule nth_equalityI) (simp_all add: masked_def)

text \<open>Deforming rows into columns transposes their cells.\<close>

lemma row_cells_value_at:
  assumes "row_cells env cols row = Inr cs" and "c < length cols"
  shows "value_at env cols (ce_deform env row) c = Inr (cs ! c) \<and> length cs = length cols"
  using assms unfolding row_cells_def
proof -
  have "map_r f xs = Inr ys \<Longrightarrow> length ys = length xs \<and> (\<forall>i < length xs. f (xs ! i) = Inr (ys ! i))" for f :: "nat \<Rightarrow> columnar_error + bytes option" and xs ys
    by (induction xs arbitrary: ys) (auto simp: bind_r_Inr_iff nth_Cons split: nat.splits)
  from this [OF assms(1) [unfolded row_cells_def]] show ?thesis using assms(2) by simp
qed

lemma deform_rows_cells:
  assumes "list_all2 (\<lambda>row cs. row_cells env cols row = Inr cs) rows css" and "list_all (\<lambda>c. c < length cols) wanted"
  shows "deform_rows_into_columns env rows cols wanted = Inr (map (\<lambda>c. map (\<lambda>cs. cs ! c) css) wanted)"
proof -
  have "map_r (\<lambda>row. map_r (value_at env cols (ce_deform env row)) wanted) rows = Inr (map (\<lambda>cs. map (\<lambda>c. cs ! c) wanted) css)"
    using assms(1)
  proof (induction rule: list_all2_induct)
    case (Cons row rows cs css)
    have "map_r (value_at env cols (ce_deform env row)) wanted = Inr (map (\<lambda>c. cs ! c) wanted)"
      using assms(2) row_cells_value_at [OF Cons.hyps(1)] by (intro map_r_Inr) (simp add: list_all_iff)
    then show ?case using Cons.IH by simp
  qed simp
  moreover have "map (\<lambda>wi. map (\<lambda>r. r ! wi) (map (\<lambda>cs. map (\<lambda>c. cs ! c) wanted) css)) [0..<length wanted] =
      map (\<lambda>c. map (\<lambda>cs. cs ! c) css) wanted"
    by (rule nth_equalityI) simp_all
  ultimately show ?thesis by (simp add: deform_rows_into_columns_def)
qed

end
