(* ===== verification/ColumnarStore.thy ===== *)
theory ColumnarStore
  imports ColumnarTuple "HOL-Library.Sublist"
begin

text \<open>
  The storage of the columnar access method (\<open>am/columnar.rs\<close>): the metapage with its reservation counters, the
  page writer of a chunk, the flush of the pending rows into a column-major stripe and the decoding of a stripe
  back into rows. The catalog table \<open>columnar.stripe\<close> is the list of the stripe rows visible to the backend.
\<close>

section \<open>Metapage\<close>

definition COL_META_MAGIC :: u32 where "COL_META_MAGIC = 0x54434F4C"
definition COL_META_VERSION :: u32 where "COL_META_VERSION = 1"
definition COL_META_LEN :: nat where "COL_META_LEN = 24"

record columnar_meta =
  reserved_row_number :: u64
  reserved_stripe_id :: u64

definition col_meta_to_bytes :: "columnar_meta \<Rightarrow> bytes" where
  "col_meta_to_bytes m =
     to_le COL_META_MAGIC @ to_le COL_META_VERSION @ to_le (reserved_row_number m) @ to_le (reserved_stripe_id m)"

definition col_meta_from_bytes :: "bytes \<Rightarrow> columnar_error + columnar_meta" where
  "col_meta_from_bytes b =
     (if length b < COL_META_LEN then Inl MetaTooShort
      else let magic = u32_at 0 b in if magic \<noteq> COL_META_MAGIC then Inl (BadMetapageMagic magic)
      else let version = u32_at 4 b in if version \<noteq> COL_META_VERSION then Inl (BadMetapageVersion version)
      else Inr \<lparr>reserved_row_number = u64_at 8 b, reserved_stripe_id = u64_at 16 b\<rparr>)"

definition init_metapage :: "relation \<Rightarrow> page_error + relation" where
  "init_metapage rel = extend_page_with_item rel (col_meta_to_bytes \<lparr>reserved_row_number = 0, reserved_stripe_id = 0\<rparr>)"

definition lift_page :: "page_error + 'a \<Rightarrow> columnar_error + 'a" where
  "lift_page r = (case r of Inl e \<Rightarrow> Inl (ColPageErr e) | Inr x \<Rightarrow> Inr x)"

datatype counter = RowNumber | StripeId

text \<open>One read-modify-write of block 0 under its exclusive lock.\<close>

definition reserve :: "relation \<Rightarrow> counter \<Rightarrow> u64 \<Rightarrow> columnar_error + relation \<times> u64" where
  "reserve rel counter n =
     (if rel = [] then Inl (ColPageErr (PageOutOfRange 0))
      else let item = item_at (rel ! 0) 1 in
        bind_r (col_meta_from_bytes (take COL_META_LEN item)) (\<lambda>meta.
          let (base, meta') = (case counter of
              RowNumber \<Rightarrow> (reserved_row_number meta, meta\<lparr>reserved_row_number := reserved_row_number meta + n\<rparr>)
            | StripeId \<Rightarrow> (reserved_stripe_id meta, meta\<lparr>reserved_stripe_id := reserved_stripe_id meta + n\<rparr>))
          in Inr (rel[0 := (rel ! 0)[0 := col_meta_to_bytes meta' @ drop COL_META_LEN item]], base)))"

section \<open>Writing a stripe\<close>

definition write_chunk :: "relation \<Rightarrow> bytes \<Rightarrow> columnar_error + relation \<times> u32 \<times> u32" where
  "write_chunk rel b =
     (if b = [] then bind_r (lift_page (extend_page_with_item rel [])) (\<lambda>rel'. Inr (rel', of_nat (length rel), 1))
      else bind_r (iter_r (\<lambda>(rel, first, n) piece.
                 bind_r (lift_page (extend_page_with_item rel piece)) (\<lambda>rel'.
                   Inr (rel', case first of None \<Rightarrow> Some (of_nat (length rel)) | Some f \<Rightarrow> Some f, n + 1)))
               (rel, None, 0) (chunks CHUNK b))
           (\<lambda>(rel', first, n). Inr (rel', case first of Some f \<Rightarrow> f | None \<Rightarrow> 0, n)))"

record stripe_row =
  sr_stripe_id :: i64
  sr_header_block :: u32
  sr_row_count :: u32
  sr_first_row_number :: i64
  sr_ncols :: u16

record pending_write =
  pw_rows :: "bytes list"
  pw_bytes :: nat

record columnar_state =
  cs_rel :: relation
  cs_catalog :: "stripe_row list"
  cs_pending :: "pending_write option"

text \<open>The chunk of one (chunk group, column) cell and its directory entry.\<close>

definition group_cells :: "bytes option list list \<Rightarrow> nat \<Rightarrow> nat \<Rightarrow> nat \<Rightarrow> bytes option list" where
  "group_cells columns row_count cg col =
     (let lo = cg * CHUNK_GROUP_ROWS; hi = min (lo + CHUNK_GROUP_ROWS) row_count in slice_at lo (hi - lo) (columns ! col))"

definition write_cell :: "col_env \<Rightarrow> column_desc list \<Rightarrow> bytes option list list \<Rightarrow> nat \<Rightarrow>
    relation \<times> chunk_dir_entry list \<Rightarrow> nat \<times> nat \<Rightarrow> columnar_error + relation \<times> chunk_dir_entry list" where
  "write_cell env cols columns row_count s p =
     (let (rel, dir) = s; (cg, col) = p;
          vs = group_cells columns row_count cg col;
          enc = encode_column vs (cd_attlen (cols ! col)) (cd_mm (cols ! col))
      in bind_r (case ce_zstd env (ec_raw enc) of None \<Rightarrow> Inl ZstdCompressError | Some compressed \<Rightarrow> Inr compressed) (\<lambda>compressed.
         bind_r (write_chunk rel compressed) (\<lambda>(rel, first_block, n_pages).
         Inr (rel, dir @ [\<lparr>de_first_block = first_block, de_n_pages = n_pages, de_comp_len = of_nat (length compressed),
           de_raw_len = of_nat (length (ec_raw enc)),
           de_row_count = of_nat (min (cg * CHUNK_GROUP_ROWS + CHUNK_GROUP_ROWS) row_count - cg * CHUNK_GROUP_ROWS),
           de_null_count = ec_null_count enc, de_has_nulls = ec_has_nulls enc, de_has_minmax = ec_has_minmax enc,
           de_all_null = ec_all_null enc, de_min_bits = ec_min_bits enc, de_max_bits = ec_max_bits enc\<rparr>]))))"

text \<open>The grid of chunks of a stripe, in directory order.\<close>

definition stripe_grid :: "nat \<Rightarrow> nat \<Rightarrow> (nat \<times> nat) list" where
  "stripe_grid row_count natts = List.product [0..<div_ceil row_count CHUNK_GROUP_ROWS] [0..<natts]"

definition write_cells :: "col_env \<Rightarrow> column_desc list \<Rightarrow> bytes option list list \<Rightarrow> nat \<Rightarrow> relation \<Rightarrow>
    columnar_error + relation \<times> chunk_dir_entry list" where
  "write_cells env cols columns row_count rel =
     iter_r (write_cell env cols columns row_count) (rel, []) (stripe_grid row_count (length cols))"

definition flush_pending :: "col_env \<Rightarrow> attribute list \<Rightarrow> columnar_state \<Rightarrow> columnar_error + columnar_state" where
  "flush_pending env attrs st =
     (case cs_pending st of
        None \<Rightarrow> Inr st
      | Some p \<Rightarrow>
        let st = st\<lparr>cs_pending := None\<rparr>; rows = pw_rows p; natts = length attrs; row_count = length rows in
        if rows = [] then Inr st
        else bind_r (map_r coldesc attrs) (\<lambda>cols.
          bind_r (deform_rows_into_columns env rows cols [0..<natts]) (\<lambda>columns.
          bind_r (write_cells env cols columns row_count (cs_rel st)) (\<lambda>(rel, dir).
          bind_r (reserve rel RowNumber (of_nat row_count)) (\<lambda>(rel, base).
          bind_r (reserve rel StripeId 1) (\<lambda>(rel, stripe_id).
          let dir_bytes = serialize_directory dir in
          bind_r (write_chunk rel dir_bytes) (\<lambda>(rel, dir_first_block, dir_n_pages).
          let header = \<lparr>sh_ncols = of_nat natts, sh_n_chunk_groups = of_nat (div_ceil row_count CHUNK_GROUP_ROWS),
                sh_row_count = of_nat row_count, sh_first_row_number = base, sh_dir_first_block = dir_first_block,
                sh_dir_n_pages = dir_n_pages, sh_dir_len = of_nat (length dir_bytes)\<rparr>;
              header_block = of_nat (length rel) in
          bind_r (lift_page (extend_page_with_item rel (header_to_bytes header))) (\<lambda>rel.
          Inr (st\<lparr>cs_rel := rel, cs_catalog := cs_catalog st @
               [\<lparr>sr_stripe_id = stripe_id, sr_header_block = header_block, sr_row_count = of_nat row_count,
                 sr_first_row_number = base, sr_ncols = of_nat natts\<rparr>]\<rparr>)))))))))"

section \<open>Reading a stripe\<close>

definition read_header :: "relation \<Rightarrow> u32 \<Rightarrow> columnar_error + stripe_header" where
  "read_header rel hb =
     (if unat hb \<ge> length rel then Inl (ColPageErr (PageOutOfRange (unat hb)))
      else case read_all_page_items rel (unat hb) of [] \<Rightarrow> Inl StripeHeaderEmpty | item # _ \<Rightarrow> header_from_bytes item)"

definition read_entries :: "relation \<Rightarrow> u32 \<Rightarrow> nat \<Rightarrow> columnar_error + chunk_dir_entry list \<times> nat" where
  "read_entries rel hb natts =
     bind_r (read_header rel hb) (\<lambda>header.
       if unat (sh_ncols header) \<noteq> natts then Inl NcolsMismatch
       else bind_r (lift_page (read_chunked rel (sh_dir_first_block header) (sh_dir_n_pages header))) (\<lambda>dir_bytes.
         if length dir_bytes < unat (sh_dir_len header) then Inl DirTruncatedOnDisk
         else bind_r (deserialize_directory dir_bytes (unat (sh_n_chunk_groups header) * natts)) (\<lambda>entries.
           Inr (entries, unat (sh_n_chunk_groups header)))))"

text \<open>\<open>predicates.iter().any(..)\<close>: some pushed predicate proves that the chunk group holds no matching row.\<close>

definition group_skipped :: "column_desc list \<Rightarrow> zone_predicate list \<Rightarrow> chunk_dir_entry list \<Rightarrow> nat \<Rightarrow> bool" where
  "group_skipped cols predicates entries cg =
     list_ex (\<lambda>p. zp_col p < length cols \<and>
       (let e = entries ! (cg * length cols + zp_col p) in
         \<not> chunk_can_match (de_has_minmax e) (de_min_bits e) (de_max_bits e) (cd_mm (cols ! zp_col p)) p)) predicates"

definition read_raw :: "col_env \<Rightarrow> relation \<Rightarrow> chunk_dir_entry \<Rightarrow> columnar_error + bytes" where
  "read_raw env rel e =
     bind_r (lift_page (read_chunked rel (de_first_block e) (de_n_pages e))) (\<lambda>comp.
       if length comp < unat (de_comp_len e) then Inl ChunkTruncatedOnDisk
       else case ce_unzstd env (take (unat (de_comp_len e)) comp) of None \<Rightarrow> Inl ZstdError | Some raw \<Rightarrow> Inr raw)"

definition read_cells :: "col_env \<Rightarrow> relation \<Rightarrow> column_desc list \<Rightarrow> chunk_dir_entry list \<Rightarrow> nat \<Rightarrow> nat \<Rightarrow>
    columnar_error + bytes option list" where
  "read_cells env rel cols entries cg col =
     (let e = entries ! (cg * length cols + col); cg_rows = unat (de_row_count (entries ! (cg * length cols))) in
      bind_r (read_raw env rel e) (\<lambda>raw. decode_column raw (cd_attlen (cols ! col)) cg_rows (de_has_nulls e)))"

text \<open>\<open>entries[cg * natts]\<close> panics for a relation without columns.\<close>

definition decode_group :: "col_env \<Rightarrow> relation \<Rightarrow> column_desc list \<Rightarrow> bool list \<Rightarrow> chunk_dir_entry list \<Rightarrow> nat \<Rightarrow>
    columnar_error + bytes list" where
  "decode_group env rel cols want entries cg =
     bind_r (map_r (\<lambda>col. if \<not> want ! col then Inr [] else read_cells env rel cols entries cg col) [0..<length cols])
       (\<lambda>cgcols. map_r (\<lambda>r. form_row env cols cgcols r want) [0..<unat (de_row_count (entries ! (cg * length cols)))])"

fun decode_groups :: "col_env \<Rightarrow> relation \<Rightarrow> column_desc list \<Rightarrow> bool list \<Rightarrow> zone_predicate list \<Rightarrow> bool \<Rightarrow>
    chunk_dir_entry list \<Rightarrow> nat list \<Rightarrow> bytes list \<Rightarrow> columnar_error + bytes list" where
  "decode_groups env rel cols want predicates skip entries [] out = Inr out"
| "decode_groups env rel cols want predicates skip entries (cg # cgs) out =
     (if length entries \<le> cg * length cols then Inl IndexPanic
      else if skip \<and> group_skipped cols predicates entries cg then decode_groups env rel cols want predicates skip entries cgs out
      else bind_r (decode_group env rel cols want entries cg) (\<lambda>rows.
        decode_groups env rel cols want predicates skip entries cgs (out @ rows)))"

definition decode_stripe :: "col_env \<Rightarrow> relation \<Rightarrow> u32 \<Rightarrow> column_desc list \<Rightarrow> bool list \<Rightarrow> zone_predicate list \<Rightarrow> bool \<Rightarrow>
    bytes list \<Rightarrow> columnar_error + bytes list" where
  "decode_stripe env rel hb cols want predicates skip out =
     bind_r (read_entries rel hb (length cols)) (\<lambda>(entries, n_cg).
       decode_groups env rel cols want predicates skip entries [0..<n_cg] out)"

section \<open>Chunks survive later writes\<close>

text \<open>The relation only grows, and no block but the metapage is ever rewritten.\<close>

definition extends :: "relation \<Rightarrow> relation \<Rightarrow> bool" where
  "extends rel rel' \<longleftrightarrow> length rel \<le> length rel' \<and> (\<forall>j. 0 < j \<and> j < length rel \<longrightarrow> rel' ! j = rel ! j)"

lemma extends_refl [simp]: "extends rel rel"
  by (simp add: extends_def)

lemma extends_trans: "extends a b \<Longrightarrow> extends b c \<Longrightarrow> extends a c"
  by (simp add: extends_def)

lemma extends_append [simp]: "extends rel (rel @ ps)"
  by (simp add: extends_def nth_append)

lemma extends_meta [simp]: "extends rel (rel[0 := p])"
  by (simp add: extends_def)

lemma extend_chunk_ok: "page_fits [data] \<Longrightarrow> lift_page (extend_page_with_item rel data) = Inr (rel @ [[data]])"
  by (simp add: lift_page_def extend_item_ok)

lemma write_chunk_eq:
  "write_chunk rel b = Inr (rel @ map (\<lambda>c. [c]) (blob_chunks b), of_nat (length rel), of_nat (length (blob_chunks b)))"
proof (cases "b = []")
  case True
  then show ?thesis by (simp add: write_chunk_def blob_chunks_def extend_chunk_ok page_fits_small)
next
  case False
  let ?f = "\<lambda>(rel, first, n) piece. bind_r (lift_page (extend_page_with_item rel piece)) (\<lambda>rel'.
      Inr (rel', case first of None \<Rightarrow> Some (of_nat (length rel) :: u32) | Some f \<Rightarrow> Some f, n + (1 :: u32)))"
  have some: "iter_r ?f (rel, Some f, n) ps = Inr (rel @ map (\<lambda>c. [c]) ps, Some f, n + of_nat (length ps))"
    if "\<forall>c \<in> set ps. page_fits [c]" for rel f n ps
    using that by (induction ps arbitrary: rel n) (simp_all add: extend_chunk_ok)
  obtain q qs where c: "chunks CHUNK b = q # qs"
    using False blob_chunks(1) [of b] by (cases "chunks CHUNK b") (auto simp: blob_chunks_def)
  have "\<forall>c \<in> set (q # qs). page_fits [c]" using blob_chunks_fit [of _ b] False by (simp add: blob_chunks_def c)
  then show ?thesis using False some [of qs "rel @ [[q]]" "of_nat (length rel)" 1] c
    by (simp add: write_chunk_def blob_chunks_def extend_chunk_ok)
qed

lemma read_chunk_written:
  assumes "write_chunk rel b = Inr (rel1, first, n)" and "extends rel1 rel'" and "0 < length rel" and "length rel1 < 2 ^ 32"
  shows "read_chunked rel' first n = Inr b"
proof -
  let ?cs = "blob_chunks b" and ?i = "length rel"
  have w: "rel1 = rel @ map (\<lambda>c. [c]) ?cs" "first = of_nat ?i" "n = of_nat (length ?cs)"
    using assms(1) by (simp_all add: write_chunk_eq)
  have len: "?i + length ?cs < 2 ^ 32" using assms(4) w(1) by simp
  have u: "unat first = ?i" "unat (first + n) = ?i + length ?cs"
    using len by (simp_all add: w(2,3) flip: of_nat_add)
  have le: "?i + length ?cs \<le> length rel'" using assms(2) w(1) by (simp add: extends_def)
  have "slice_at ?i (length ?cs) rel' = map (\<lambda>c. [c]) ?cs"
  proof (rule slice_at_eqI)
    show "rel' ! (?i + k) = map (\<lambda>c. [c]) ?cs ! k" if "k < length ?cs" for k
      using that assms(2,3) by (auto simp: extends_def w(1) nth_append)
  qed (use le in simp_all)
  then show ?thesis using read_blocks_eq [OF le, of "[]"] by (simp add: read_chunked_def u comp_def blob_chunks(1))
qed

lemma write_chunk_extends: "write_chunk rel b = Inr (rel1, first, n) \<Longrightarrow> extends rel rel1 \<and> length rel < length rel1"
  using blob_chunks(2) [of b] by (auto simp: write_chunk_eq)

section \<open>Metapage\<close>

lemma col_meta_roundtrip: "col_meta_from_bytes (col_meta_to_bytes m @ rest) = Inr m"
  by (simp add: col_meta_from_bytes_def col_meta_to_bytes_def COL_META_LEN_def COL_META_MAGIC_def COL_META_VERSION_def
      u32_at_def u64_at_def field_reads)

lemma length_col_meta [simp]: "length (col_meta_to_bytes m) = COL_META_LEN"
  by (simp add: col_meta_to_bytes_def COL_META_LEN_def)

text \<open>Block 0 carries the counters.\<close>

definition metapage_is :: "relation \<Rightarrow> columnar_meta \<Rightarrow> bool" where
  "metapage_is rel m \<longleftrightarrow> (case rel of [] \<Rightarrow> False | p # _ \<Rightarrow> p = [col_meta_to_bytes m])"

lemma metapage_is_nth: "metapage_is rel m \<longleftrightarrow> rel \<noteq> [] \<and> rel ! 0 = [col_meta_to_bytes m]"
  by (cases rel) (simp_all add: metapage_is_def)

lemma metapage_is_append [simp]: "metapage_is rel m \<Longrightarrow> metapage_is (rel @ ps) m"
  by (simp add: metapage_is_nth nth_append)

lemma metapage_write_chunk: "metapage_is rel m \<Longrightarrow> write_chunk rel b = Inr (rel1, first, n) \<Longrightarrow> metapage_is rel1 m"
  by (auto simp: write_chunk_eq)

lemma reserve_row:
  assumes "metapage_is rel m"
  shows "reserve rel RowNumber n = Inr (rel[0 := [col_meta_to_bytes (m\<lparr>reserved_row_number := reserved_row_number m + n\<rparr>)]],
    reserved_row_number m)"
  using assms col_meta_roundtrip [of m "[]"]
  by (simp add: metapage_is_nth reserve_def item_at_def)

lemma reserve_stripe:
  assumes "metapage_is rel m"
  shows "reserve rel StripeId n = Inr (rel[0 := [col_meta_to_bytes (m\<lparr>reserved_stripe_id := reserved_stripe_id m + n\<rparr>)]],
    reserved_stripe_id m)"
  using assms col_meta_roundtrip [of m "[]"]
  by (simp add: metapage_is_nth reserve_def item_at_def)

lemma metapage_is_update: "rel \<noteq> [] \<Longrightarrow> metapage_is (rel[0 := [col_meta_to_bytes m]]) m"
  by (cases rel) (simp_all add: metapage_is_def)

section \<open>What a stripe holds\<close>

definition row_group :: "'a list \<Rightarrow> nat \<Rightarrow> 'a list" where
  "row_group css cg = slice_at (cg * CHUNK_GROUP_ROWS) (min (cg * CHUNK_GROUP_ROWS + CHUNK_GROUP_ROWS) (length css) - cg * CHUNK_GROUP_ROWS) css"

definition group_count :: "'a list \<Rightarrow> nat" where
  "group_count css = div_ceil (length css) CHUNK_GROUP_ROWS"

lemma group_in_range: "cg < div_ceil n CHUNK_GROUP_ROWS \<Longrightarrow> cg * CHUNK_GROUP_ROWS < n"
proof -
  assume "cg < div_ceil n CHUNK_GROUP_ROWS"
  then have "cg * CHUNK_GROUP_ROWS < n"
    unfolding div_ceil_def CHUNK_GROUP_ROWS_def by linarith
  then show ?thesis .
qed

lemma length_row_group:
  "cg < group_count css \<Longrightarrow>
   length (row_group css cg) = min (cg * CHUNK_GROUP_ROWS + CHUNK_GROUP_ROWS) (length css) - cg * CHUNK_GROUP_ROWS"
  using group_in_range [of cg "length css"] by (simp add: row_group_def group_count_def)

lemma row_group_eq: "row_group css cg = take CHUNK_GROUP_ROWS (drop (cg * CHUNK_GROUP_ROWS) css)"
proof (cases "cg * CHUNK_GROUP_ROWS + CHUNK_GROUP_ROWS \<le> length css")
  case False
  then show ?thesis by (simp add: row_group_def slice_at_def)
qed (simp add: row_group_def slice_at_def)

lemma row_groups_concat: "concat (map (row_group css) [0..<group_count css]) = css"
proof -
  have "concat (map (row_group css) [0..<k]) = take (k * CHUNK_GROUP_ROWS) css" for k
  proof (induction k)
    case (Suc k)
    have "[0..<Suc k] = [0..<k] @ [k]" by (simp add: upt_Suc)
    then show ?case using Suc by (simp add: row_group_eq take_add [of "k * CHUNK_GROUP_ROWS", symmetric] add.commute)
  qed simp
  moreover have "length css \<le> group_count css * CHUNK_GROUP_ROWS"
    unfolding group_count_def div_ceil_def CHUNK_GROUP_ROWS_def by linarith
  ultimately show ?thesis by simp
qed

definition column_of :: "bytes option list list \<Rightarrow> nat \<Rightarrow> bytes option list" where
  "column_of css col = map (\<lambda>cs. cs ! col) css"

definition enc_of :: "column_desc list \<Rightarrow> bytes option list list \<Rightarrow> nat \<Rightarrow> nat \<Rightarrow> encoded_column" where
  "enc_of cols css cg col = encode_column (column_of (row_group css cg) col) (cd_attlen (cols ! col)) (cd_mm (cols ! col))"

lemma group_cells_column:
  "col < n \<Longrightarrow> group_cells (map (\<lambda>c. map (\<lambda>cs. cs ! c) css) [0..<n]) (length css) cg col = column_of (row_group css cg) col"
  by (simp add: group_cells_def row_group_def column_of_def slice_at_def take_map drop_map Let_def)

text \<open>A directory entry whose chunk reads back in every later state of the relation.\<close>

definition cell_stored :: "col_env \<Rightarrow> column_desc list \<Rightarrow> relation \<Rightarrow> bytes option list list \<Rightarrow> chunk_dir_entry \<Rightarrow> nat \<times> nat \<Rightarrow> bool" where
  "cell_stored env cols rel css e p \<longleftrightarrow>
     (let (cg, col) = p; enc = enc_of cols css cg col in
      (\<forall>rel'. extends rel rel' \<longrightarrow> read_raw env rel' e = Inr (ec_raw enc)) \<and>
      unat (de_row_count e) = length (row_group css cg) \<and> de_has_nulls e = ec_has_nulls enc \<and>
      de_has_minmax e = ec_has_minmax enc \<and> de_min_bits e = ec_min_bits enc \<and> de_max_bits e = ec_max_bits enc)"

lemma cell_stored_extends: "cell_stored env cols rel css e p \<Longrightarrow> extends rel rel' \<Longrightarrow> cell_stored env cols rel' css e p"
  unfolding cell_stored_def by (auto simp: Let_def split: prod.splits intro: extends_trans)

definition cell_fits :: "col_env \<Rightarrow> column_desc list \<Rightarrow> bytes option list list \<Rightarrow> nat \<times> nat \<Rightarrow> bool" where
  "cell_fits env cols css p \<longleftrightarrow>
     (case ce_zstd env (ec_raw (enc_of cols css (fst p) (snd p))) of None \<Rightarrow> True | Some zc \<Rightarrow> length zc < 2 ^ 32)"

lemma write_cell_stored:
  assumes w: "write_cell env cols (map (\<lambda>c. map (\<lambda>cs. cs ! c) css) [0..<length cols]) (length css) (rel, dir) (cg, col) = Inr (rel1, dir1)"
    and env: "env_ok env cols" and p: "cg < group_count css" "col < length cols"
    and fits: "cell_fits env cols css (cg, col)" "length css < 2 ^ 32" "0 < length rel" "length rel1 < 2 ^ 32"
  shows "extends rel rel1 \<and> (\<exists>e. dir1 = dir @ [e] \<and> cell_stored env cols rel1 css e (cg, col))"
proof -
  let ?enc = "enc_of cols css cg col"
  obtain zc where zc: "ce_zstd env (ec_raw ?enc) = Some zc" "ce_unzstd env zc = Some (ec_raw ?enc)"
    using env unfolding env_ok_def by blast
  obtain first n where wc: "write_chunk rel zc = Inr (rel1, first, n)"
    using w zc(1) by (auto simp: write_cell_def group_cells_column [OF p(2)] enc_of_def Let_def bind_r_Inr_iff)
  let ?e = "\<lparr>de_first_block = first, de_n_pages = n, de_comp_len = of_nat (length zc), de_raw_len = of_nat (length (ec_raw ?enc)),
      de_row_count = of_nat (min (cg * CHUNK_GROUP_ROWS + CHUNK_GROUP_ROWS) (length css) - cg * CHUNK_GROUP_ROWS),
      de_null_count = ec_null_count ?enc, de_has_nulls = ec_has_nulls ?enc, de_has_minmax = ec_has_minmax ?enc,
      de_all_null = ec_all_null ?enc, de_min_bits = ec_min_bits ?enc, de_max_bits = ec_max_bits ?enc\<rparr>"
  have dir: "dir1 = dir @ [?e]"
    using w wc zc(1) by (simp add: write_cell_def group_cells_column [OF p(2)] enc_of_def Let_def)
  have len: "unat (of_nat (length zc) :: u32) = length zc" using fits(1) zc(1) by (simp add: cell_fits_def)
  have "read_raw env rel' ?e = Inr (ec_raw ?enc)" if "extends rel1 rel'" for rel'
    using read_chunk_written [OF wc that fits(3,4)] len zc(2) by (simp add: read_raw_def lift_page_def)
  moreover have "unat (de_row_count ?e) = length (row_group css cg)"
    using length_row_group [OF p(1)] fits(2) by (simp add: unat_of_nat_u32)
  ultimately have "cell_stored env cols rel1 css ?e (cg, col)" by (simp add: cell_stored_def Let_def)
  then show ?thesis using dir write_chunk_extends [OF wc] by blast
qed

lemma write_cell_grows:
  "write_cell env cols columns n (rel, dir) p = Inr (rel1, dir1) \<Longrightarrow>
   length rel \<le> length rel1 \<and> (metapage_is rel m \<longrightarrow> metapage_is rel1 m)"
  by (auto simp: write_cell_def Let_def write_chunk_eq bind_r_Inr_iff split: prod.splits)

lemma write_cell_ok:
  assumes "env_ok env cols"
  shows "\<exists>s'. write_cell env cols columns n s p = Inr s'"
proof -
  obtain rel dir cg col where "s = (rel, dir)" "p = (cg, col)" by fastforce
  moreover obtain zc where
    "ce_zstd env (ec_raw (encode_column (group_cells columns n cg col) (cd_attlen (cols ! col)) (cd_mm (cols ! col)))) = Some zc"
    using assms unfolding env_ok_def by blast
  ultimately show ?thesis by (simp add: write_cell_def write_chunk_eq Let_def)
qed

lemma write_cells_ok: "env_ok env cols \<Longrightarrow> \<exists>s'. iter_r (write_cell env cols columns n) s ps = Inr s'"
proof (induction ps arbitrary: s)
  case (Cons p ps)
  obtain s1 where "write_cell env cols columns n s p = Inr s1" using write_cell_ok [OF Cons.prems] by blast
  then show ?case using Cons.IH [OF Cons.prems] by simp
qed simp

lemma write_cells_grows:
  "iter_r (write_cell env cols columns n) (rel, dir) ps = Inr (rel1, dir1) \<Longrightarrow>
   length rel \<le> length rel1 \<and> (metapage_is rel m \<longrightarrow> metapage_is rel1 m)"
proof (induction ps arbitrary: rel dir)
  case (Cons p ps)
  obtain rel2 dir2 where s: "write_cell env cols columns n (rel, dir) p = Inr (rel2, dir2)"
    "iter_r (write_cell env cols columns n) (rel2, dir2) ps = Inr (rel1, dir1)"
    using Cons.prems by (auto simp: bind_r_Inr_iff)
  then show ?case using Cons.IH [OF s(2)] write_cell_grows [OF s(1), of m] by simp
qed simp

lemma write_cells_stored:
  assumes "iter_r (write_cell env cols (map (\<lambda>c. map (\<lambda>cs. cs ! c) css) [0..<length cols]) (length css)) (rel, dir) ps = Inr (rel1, dir1)"
    and env: "env_ok env cols" and "list_all (\<lambda>p. fst p < group_count css \<and> snd p < length cols \<and> cell_fits env cols css p) ps"
    and n: "length css < 2 ^ 32" and "0 < length rel" and "length rel1 < 2 ^ 32"
  shows "extends rel rel1 \<and> (\<exists>es. dir1 = dir @ es \<and> list_all2 (cell_stored env cols rel1 css) es ps)"
  using assms(1,3,5,6)
proof (induction ps arbitrary: rel dir)
  case (Cons p ps)
  obtain cg col where p: "p = (cg, col)" by fastforce
  let ?w = "write_cell env cols (map (\<lambda>c. map (\<lambda>cs. cs ! c) css) [0..<length cols]) (length css)"
  obtain rel2 dir2 where s: "?w (rel, dir) (cg, col) = Inr (rel2, dir2)" and f: "iter_r ?w (rel2, dir2) ps = Inr (rel1, dir1)"
    using Cons.prems(1) p by (auto simp: bind_r_Inr_iff)
  have g: "length rel \<le> length rel2" "length rel2 \<le> length rel1" using write_cell_grows [OF s] write_cells_grows [OF f] by blast+
  have pos: "0 < length rel2" using g(1) Cons.prems(3) by linarith
  obtain e where e: "extends rel rel2" "dir2 = dir @ [e]" "cell_stored env cols rel2 css e (cg, col)"
    using write_cell_stored [OF s env] Cons.prems(2,3,4) n p g by auto
  obtain es where es: "extends rel2 rel1" "dir1 = dir2 @ es" "list_all2 (cell_stored env cols rel1 css) es ps"
    using Cons.IH [OF f _ pos] Cons.prems by auto
  have "cell_stored env cols rel1 css e p" using cell_stored_extends e(3) es(1) p by blast
  then have "list_all2 (cell_stored env cols rel1 css) (e # es) (p # ps)" using es(3) by simp
  moreover have "dir1 = dir @ e # es" using e(2) es(2) by simp
  ultimately show ?case using extends_trans [OF e(1) es(1)] by blast
qed simp

text \<open>A stripe whose header block is \<open>hb\<close> and whose rows have the cells \<open>css\<close>: its directory and every chunk read back
  in every later state of the relation.\<close>

definition stripe_holds :: "col_env \<Rightarrow> column_desc list \<Rightarrow> relation \<Rightarrow> u32 \<Rightarrow> bytes option list list \<Rightarrow> bool" where
  "stripe_holds env cols rel hb css \<longleftrightarrow>
     (\<exists>entries. length entries = group_count css * length cols \<and>
       (\<forall>rel'. extends rel rel' \<longrightarrow> read_entries rel' hb (length cols) = Inr (entries, group_count css)) \<and>
       (\<forall>cg < group_count css. \<forall>col < length cols. cell_stored env cols rel css (entries ! (cg * length cols + col)) (cg, col)))"

lemma stripe_holds_extends: "stripe_holds env cols rel hb css \<Longrightarrow> extends rel rel' \<Longrightarrow> stripe_holds env cols rel' hb css"
  unfolding stripe_holds_def by (meson cell_stored_extends extends_trans)

lemma grid_length: "length (stripe_grid n k) = div_ceil n CHUNK_GROUP_ROWS * k"
  by (simp add: stripe_grid_def)

lemma grid_nth:
  assumes "cg < div_ceil n CHUNK_GROUP_ROWS" and "col < k"
  shows "cg * k + col < length (stripe_grid n k) \<and> stripe_grid n k ! (cg * k + col) = (cg, col)"
proof -
  have lt: "cg * k + col < div_ceil n CHUNK_GROUP_ROWS * k"
    using assms mult_le_mono1 [of "Suc cg" "div_ceil n CHUNK_GROUP_ROWS" k] by simp
  then show ?thesis using assms by (simp add: stripe_grid_def product_nth)
qed

definition cells_fit :: "col_env \<Rightarrow> column_desc list \<Rightarrow> bytes option list list \<Rightarrow> bool" where
  "cells_fit env cols css \<longleftrightarrow>
     list_all (cell_fits env cols css) (stripe_grid (length css) (length cols)) \<and> length css < 2 ^ 31 \<and>
     length cols < 2 ^ 16 \<and> group_count css * length cols * CHUNK_DIR_ENTRY_LEN < 2 ^ 32"

lemma group_count_le: "group_count css \<le> length css"
  by (cases "length css") (simp_all add: group_count_def div_ceil_def CHUNK_GROUP_ROWS_def)

lemma read_header_written:
  assumes "extends (rel @ [[header_to_bytes h]]) rel'" and "0 < length rel" and "length rel < 2 ^ 32"
  shows "read_header rel' (of_nat (length rel)) = Inr h"
proof -
  have "rel' ! length rel = [header_to_bytes h]" "length rel < length rel'" using assms(1,2) by (simp_all add: extends_def)
  moreover have "header_to_bytes h \<noteq> []" by (simp add: header_to_bytes_def)
  ultimately show ?thesis using assms(3) header_roundtrip [of h "[]"]
    by (simp add: read_header_def read_all_page_items_def unat_of_nat_u32)
qed

lemma header_fits: "page_fits [header_to_bytes h]"
  by (rule page_fits_small) (simp add: header_to_bytes_def)

lemma length_serialize_directory: "length (serialize_directory es) = length es * CHUNK_DIR_ENTRY_LEN"
  unfolding serialize_directory_def
  using length_concat_uniform [of "map entry_bytes es" CHUNK_DIR_ENTRY_LEN] by simp

text \<open>The directory and the header close the stripe.\<close>

lemma directory_written:
  assumes w: "write_chunk rel (serialize_directory es) = Inr (rel1, first, n)"
    and h: "sh_ncols h = of_nat k" "sh_n_chunk_groups h = of_nat g" "sh_dir_first_block h = first" "sh_dir_n_pages h = n"
      "sh_dir_len h = of_nat (length (serialize_directory es))"
    and len: "length es = g * k" "k < 2 ^ 16" "g < 2 ^ 32" "length es * CHUNK_DIR_ENTRY_LEN < 2 ^ 32"
    and rel: "0 < length rel" "length rel1 < 2 ^ 32" and ext: "extends (rel1 @ [[header_to_bytes h]]) rel'"
  shows "read_entries rel' (of_nat (length rel1)) k = Inr (es, g)"
proof -
  have "0 < length rel1" using write_chunk_extends [OF w] by linarith
  then have hd: "read_header rel' (of_nat (length rel1)) = Inr h" using read_header_written [OF ext] rel(2) by simp
  have "extends rel1 rel'" using ext extends_trans [OF extends_append] by blast
  then have dir: "read_chunked rel' first n = Inr (serialize_directory es)" using read_chunk_written [OF w _ rel] by simp
  have u: "unat (sh_ncols h) = k" "unat (sh_n_chunk_groups h) = g" using len by (simp_all add: h unat_of_nat)
  have u': "unat (sh_dir_len h) = length (serialize_directory es)"
    unfolding h length_serialize_directory using len(4) by (rule unat_of_nat_u32)
  have "deserialize_directory (serialize_directory es) (g * k) = Inr es"
    using directory_roundtrip [of es "[]"] len(1) by simp
  then show ?thesis by (simp add: read_entries_def hd u u' h(3,4) dir lift_page_def)
qed

text \<open>The flush of a non-empty buffer: a new stripe with exactly the buffered rows, and everything stored before is
  left as it was.\<close>

lemma flush_total:
  assumes cols: "map_r coldesc attrs = Inr cols" and env: "env_ok env cols" and m: "metapage_is (cs_rel st) m" and pend: "cs_pending st = Some p"
    and rows: "list_all2 (\<lambda>row cs. row_cells env cols row = Inr cs) (pw_rows p) css"
  shows "\<exists>st'. flush_pending env attrs st = Inr st'"
proof -
  have k: "length attrs = length cols" using coldesc_cols [OF cols] by simp
  have d: "deform_rows_into_columns env (pw_rows p) cols [0..<length cols] = Inr (map (\<lambda>c. map (\<lambda>cs. cs ! c) css) [0..<length cols])"
    by (rule deform_rows_cells [OF rows]) (simp add: list_all_iff)
  let ?cols = "map (\<lambda>c. map (\<lambda>cs. cs ! c) css) [0..<length cols]"
  obtain rel1 es where wc: "write_cells env cols ?cols (length (pw_rows p)) (cs_rel st) = Inr (rel1, es)"
    using write_cells_ok [OF env] unfolding write_cells_def by fastforce
  have m1: "metapage_is rel1 m" using write_cells_grows [OF wc [unfolded write_cells_def]] m by blast
  have ne: "rel1 \<noteq> []" using m1 by (simp add: metapage_is_nth)
  note r1 = reserve_row [OF m1] and r2 = reserve_stripe [OF metapage_is_update [OF ne]]
  show ?thesis
    by (simp add: flush_pending_def pend cols k d wc r1 r2 write_chunk_eq extend_chunk_ok header_fits Let_def)
qed

lemma flush_stripe:
  assumes cols: "map_r coldesc attrs = Inr cols" and env: "env_ok env cols" and m: "metapage_is (cs_rel st) m"
    and pend: "cs_pending st = Some p" "pw_rows p \<noteq> []"
    and rows: "list_all2 (\<lambda>row cs. row_cells env cols row = Inr cs) (pw_rows p) css"
    and fits: "cells_fit env cols css" and out: "flush_pending env attrs st = Inr st'" and pages: "length (cs_rel st') < 2 ^ 32"
  shows "extends (cs_rel st) (cs_rel st') \<and> cs_pending st' = None \<and>
    metapage_is (cs_rel st') \<lparr>reserved_row_number = reserved_row_number m + of_nat (length css), reserved_stripe_id = reserved_stripe_id m + 1\<rparr> \<and>
    (\<exists>s. cs_catalog st' = cs_catalog st @ [s] \<and> sr_first_row_number s = reserved_row_number m \<and>
      sr_stripe_id s = reserved_stripe_id m \<and>
      stripe_holds env cols (cs_rel st') (sr_header_block s) css)"
proof -
  have n: "length (pw_rows p) = length css" using rows by (rule list_all2_lengthD)
  have k: "length attrs = length cols" using coldesc_cols [OF cols] by simp
  let ?cols = "map (\<lambda>c. map (\<lambda>cs. cs ! c) css) [0..<length cols]"
  have d: "deform_rows_into_columns env (pw_rows p) cols [0..<length cols] = Inr ?cols"
    by (rule deform_rows_cells [OF rows]) (simp add: list_all_iff)
  obtain rel1 es where wc: "write_cells env cols ?cols (length css) (cs_rel st) = Inr (rel1, es)"
    using write_cells_ok [OF env] unfolding write_cells_def by fastforce
  have m1: "metapage_is rel1 m" "length (cs_rel st) \<le> length rel1"
    using write_cells_grows [OF wc [unfolded write_cells_def]] m by blast+
  define m2 where "m2 = m\<lparr>reserved_row_number := reserved_row_number m + of_nat (length css)\<rparr>"
  define m3 where "m3 = m2\<lparr>reserved_stripe_id := reserved_stripe_id m2 + 1\<rparr>"
  define rel3 where "rel3 = rel1[0 := [col_meta_to_bytes m2], 0 := [col_meta_to_bytes m3]]"
  have ne: "rel1 \<noteq> []" using m1 by (simp add: metapage_is_nth)
  have r1: "reserve rel1 RowNumber (of_nat (length css)) = Inr (rel1[0 := [col_meta_to_bytes m2]], reserved_row_number m)"
    using reserve_row [OF m1(1)] by (simp add: m2_def)
  have "metapage_is (rel1[0 := [col_meta_to_bytes m2]]) m2" by (rule metapage_is_update [OF ne])
  from reserve_stripe [OF this] have r2: "reserve (rel1[0 := [col_meta_to_bytes m2]]) StripeId 1 = Inr (rel3, reserved_stripe_id m)"
    by (simp add: rel3_def m3_def m2_def)
  obtain rel4 first np where wd: "write_chunk rel3 (serialize_directory es) = Inr (rel4, first, np)"
    by (simp add: write_chunk_eq)
  define h where "h = \<lparr>sh_ncols = of_nat (length cols), sh_n_chunk_groups = of_nat (group_count css), sh_row_count = of_nat (length css),
    sh_first_row_number = reserved_row_number m, sh_dir_first_block = first, sh_dir_n_pages = np,
    sh_dir_len = of_nat (length (serialize_directory es))\<rparr>"
  define s where "s = \<lparr>sr_stripe_id = reserved_stripe_id m, sr_header_block = of_nat (length rel4), sr_row_count = of_nat (length css),
    sr_first_row_number = reserved_row_number m, sr_ncols = of_nat (length cols)\<rparr>"
  have st': "cs_rel st' = rel4 @ [[header_to_bytes h]]" "cs_catalog st' = cs_catalog st @ [s]" "cs_pending st' = None"
    using out pend by (auto simp: flush_pending_def cols k n d wc r1 r2 wd h_def s_def group_count_def extend_chunk_ok header_fits Let_def)
  have len4: "length rel4 < 2 ^ 32" "length rel3 \<le> length rel4" using pages write_chunk_extends [OF wd] by (simp_all add: st')
  have len1: "length rel1 < 2 ^ 32" using len4 by (simp add: rel3_def)
  have ps: "list_all (\<lambda>p. fst p < group_count css \<and> snd p < length cols \<and> cell_fits env cols css p) (stripe_grid (length css) (length cols))"
    using fits by (auto simp: cells_fit_def list_all_iff stripe_grid_def group_count_def)
  have n32: "length css < 2 ^ 32" using fits by (simp add: cells_fit_def)
  have pos: "0 < length (cs_rel st)" using m by (simp add: metapage_is_nth)
  have es: "extends (cs_rel st) rel1" "list_all2 (cell_stored env cols rel1 css) es (stripe_grid (length css) (length cols))"
    using write_cells_stored [OF wc [unfolded write_cells_def] env ps n32 pos len1] by auto
  have ext: "extends rel1 (cs_rel st')"
  proof -
    have "extends rel1 rel3" unfolding rel3_def using extends_trans [OF extends_meta extends_meta] by blast
    then have "extends rel1 rel4" using write_chunk_extends [OF wd] extends_trans by blast
    then show ?thesis unfolding st' using extends_trans extends_append by blast
  qed
  have les: "length es = group_count css * length cols" using list_all2_lengthD [OF es(2)] by (simp add: grid_length group_count_def)
  have hold: "stripe_holds env cols (cs_rel st') (of_nat (length rel4)) css"
    unfolding stripe_holds_def
  proof (intro exI [of _ es] conjI allI impI)
    show "length es = group_count css * length cols" by (rule les)
    fix rel' assume "extends (cs_rel st') rel'"
    then have e: "extends (rel4 @ [[header_to_bytes h]]) rel'" by (simp add: st')
    have "0 < length rel3" using ne by (simp add: rel3_def)
    then show "read_entries rel' (of_nat (length rel4)) (length cols) = Inr (es, group_count css)"
      using directory_written [OF wd _ _ _ _ _ les _ _ _ _ len4(1) e] fits group_count_le [of css] n32
      by (simp add: h_def cells_fit_def les)
  next
    fix cg col assume "cg < group_count css" "col < length cols"
    then have "cell_stored env cols rel1 css (es ! (cg * length cols + col)) (cg, col)"
      using list_all2_nthD2 [OF es(2)] grid_nth [of cg "length css" col "length cols"] by (metis group_count_def)
    then show "cell_stored env cols (cs_rel st') css (es ! (cg * length cols + col)) (cg, col)"
      using ext by (rule cell_stored_extends)
  qed
  have "metapage_is rel3 m3" using metapage_is_update ne by (simp add: rel3_def)
  then have "metapage_is (cs_rel st') m3" using metapage_write_chunk [OF _ wd] by (simp add: st')
  moreover have "m3 = \<lparr>reserved_row_number = reserved_row_number m + of_nat (length css), reserved_stripe_id = reserved_stripe_id m + 1\<rparr>"
    by (cases m) (simp add: m3_def m2_def)
  ultimately show ?thesis using hold extends_trans [OF es(1) ext] by (auto simp: st' s_def)
qed

section \<open>Decoding a stripe\<close>

text \<open>The chunk groups a scan with pushed predicates skips, by the statistics stored for their rows.\<close>

definition group_pruned :: "column_desc list \<Rightarrow> zone_predicate list \<Rightarrow> bytes option list list \<Rightarrow> nat \<Rightarrow> bool" where
  "group_pruned cols predicates css cg \<longleftrightarrow>
     list_ex (\<lambda>p. zp_col p < length cols \<and> \<not> chunk_admits (enc_of cols css cg (zp_col p)) (cd_mm (cols ! zp_col p)) p) predicates"

definition kept_groups :: "column_desc list \<Rightarrow> zone_predicate list \<Rightarrow> bool \<Rightarrow> bytes option list list \<Rightarrow> nat list" where
  "kept_groups cols predicates skip css = filter (\<lambda>cg. \<not> (skip \<and> group_pruned cols predicates css cg)) [0..<group_count css]"

definition kept_rows :: "column_desc list \<Rightarrow> zone_predicate list \<Rightarrow> bool \<Rightarrow> bytes option list list \<Rightarrow> bytes option list list" where
  "kept_rows cols predicates skip css = concat (map (row_group css) (kept_groups cols predicates skip css))"

lemma kept_rows_all: "kept_rows cols predicates False css = css"
  by (simp add: kept_rows_def kept_groups_def row_groups_concat)

lemma kept_rows_subseq: "subseq (kept_rows cols predicates skip css) css"
proof -
  have "subseq (concat (map f (filter P xs))) (concat (map f xs))" for f :: "nat \<Rightarrow> bytes option list list" and P xs
    by (induction xs) (auto intro: list_emb_append_mono list_emb_append2)
  from this [of "row_group css" _ "[0..<group_count css]"] show ?thesis
    unfolding kept_rows_def kept_groups_def row_groups_concat .
qed

text \<open>The cells handed to the codec are the ones it round-trips.\<close>

definition row_wf :: "column_desc list \<Rightarrow> bytes option list \<Rightarrow> bool" where
  "row_wf cols cs \<longleftrightarrow> cells_wf cols cs"

lemma column_cells_ok:
  assumes "list_all (cells_wf cols) css" and "col < length cols" and "length css < 2 ^ 32"
  shows "cells_ok (cd_attlen (cols ! col)) (column_of css col)"
proof -
  have "cell_ok (cd_attlen (cols ! col)) (cs ! col)" if "cs \<in> set css" for cs
  proof -
    have "cell_wf (cols ! col) (cs ! col)" using assms(1,2) that by (auto simp: list_all_iff cells_wf_def dest: list_all2_nthD)
    then show ?thesis by (auto simp: cell_wf_def cell_ok_def split: option.splits)
  qed
  then show ?thesis using assms(3) by (simp add: cells_ok_def column_of_def list_all_iff)
qed

lemma row_group_subset: "set (row_group css cg) \<subseteq> set css"
  by (auto simp: row_group_eq dest: in_set_takeD in_set_dropD)

lemma read_cells_stored:
  assumes st: "cell_stored env cols rel css (entries ! (cg * length cols + col)) (cg, col)"
    and st0: "cell_stored env cols rel css (entries ! (cg * length cols)) (cg, 0)" and ext: "extends rel rel'"
    and wf: "list_all (cells_wf cols) css" and n: "length css < 2 ^ 32" and col: "col < length cols"
  shows "read_cells env rel' cols entries cg col = Inr (column_of (row_group css cg) col)"
proof -
  let ?vs = "column_of (row_group css cg) col" and ?enc = "enc_of cols css cg col"
  have "list_all (cells_wf cols) (row_group css cg)" using wf row_group_subset [of css cg] by (auto simp: list_all_iff)
  moreover have "length (row_group css cg) < 2 ^ 32" using n by (simp add: row_group_eq)
  ultimately have ok: "cells_ok (cd_attlen (cols ! col)) ?vs" using column_cells_ok col by blast
  have raw: "read_raw env rel' (entries ! (cg * length cols + col)) = Inr (ec_raw ?enc)"
    and nulls: "de_has_nulls (entries ! (cg * length cols + col)) = ec_has_nulls ?enc"
    using st ext by (simp_all add: cell_stored_def Let_def)
  have rc: "unat (de_row_count (entries ! (cg * length cols))) = length ?vs"
    using st0 by (simp add: cell_stored_def column_of_def Let_def)
  show ?thesis using column_decode [OF ok, of "cd_mm (cols ! col)"]
    by (simp add: read_cells_def raw nulls rc enc_of_def Let_def)
qed

lemma decode_group_stored:
  assumes st: "\<And>col. col < length cols \<Longrightarrow> cell_stored env cols rel css (entries ! (cg * length cols + col)) (cg, col)"
    and ext: "extends rel rel'" and wf: "list_all (cells_wf cols) css" and n: "length css < 2 ^ 32" and env: "env_ok env cols"
    and want: "length want = length cols" and pos: "0 < length cols"
  shows "\<exists>rows. decode_group env rel' cols want entries cg = Inr rows \<and>
    list_all2 (\<lambda>row cs. row_cells env cols row = Inr (masked want cs)) rows (row_group css cg)"
proof -
  let ?g = "row_group css cg"
  have st0: "cell_stored env cols rel css (entries ! (cg * length cols)) (cg, 0)" using st [OF pos] by simp
  let ?cg = "map (\<lambda>col. if \<not> want ! col then [] else column_of ?g col) [0..<length cols]"
  have cells: "map_r (\<lambda>col. if \<not> want ! col then Inr [] else read_cells env rel' cols entries cg col) [0..<length cols] = Inr ?cg"
    using read_cells_stored [OF st st0 ext wf n] by (intro map_r_Inr) simp
  have rc: "unat (de_row_count (entries ! (cg * length cols))) = length ?g" using st0 by (simp add: cell_stored_def Let_def)
  have "\<exists>row. form_row env cols ?cg r want = Inr row \<and> row_cells env cols row = Inr (masked want (?g ! r))" if r: "r < length ?g" for r
  proof (rule form_row_cells [OF env _ want])
    show "cells_wf cols (?g ! r)" using wf row_group_subset [of css cg] nth_mem [OF r] by (auto simp: list_all_iff)
    show "?cg ! c ! r = ?g ! r ! c" if "c < length cols" "want ! c" for c using that r by (simp add: column_of_def)
  qed
  then have "\<forall>r. \<exists>row. r < length ?g \<longrightarrow> form_row env cols ?cg r want = Inr row \<and> row_cells env cols row = Inr (masked want (?g ! r))"
    by blast
  then obtain f where f: "\<And>r. r < length ?g \<Longrightarrow> form_row env cols ?cg r want = Inr (f r) \<and> row_cells env cols (f r) = Inr (masked want (?g ! r))"
    unfolding choice_iff by blast
  have "map_r (\<lambda>r. form_row env cols ?cg r want) [0..<length ?g] = Inr (map f [0..<length ?g])"
    using f by (intro map_r_Inr) simp
  then have "decode_group env rel' cols want entries cg = Inr (map f [0..<length ?g])"
    by (simp add: decode_group_def cells rc)
  moreover have "list_all2 (\<lambda>row cs. row_cells env cols row = Inr (masked want cs)) (map f [0..<length ?g]) ?g"
    using f by (simp add: list_all2_conv_all_nth)
  ultimately show ?thesis by blast
qed

lemma group_skipped_stored:
  assumes "\<And>col. col < length cols \<Longrightarrow> cell_stored env cols rel css (entries ! (cg * length cols + col)) (cg, col)"
  shows "group_skipped cols predicates entries cg \<longleftrightarrow> group_pruned cols predicates css cg"
  unfolding group_skipped_def group_pruned_def
  using assms by (intro list_ex_cong refl) (auto simp: chunk_admits_def cell_stored_def Let_def)

lemma decode_groups_stored:
  assumes st: "\<And>cg col. cg \<in> set cgs \<Longrightarrow> col < length cols \<Longrightarrow> cell_stored env cols rel css (entries ! (cg * length cols + col)) (cg, col)"
    and rng: "\<And>cg. cg \<in> set cgs \<Longrightarrow> cg * length cols < length entries"
    and ext: "extends rel rel'" and wf: "list_all (cells_wf cols) css" and n: "length css < 2 ^ 32" and env: "env_ok env cols"
    and want: "length want = length cols" and pos: "0 < length cols"
  shows "\<exists>rows. decode_groups env rel' cols want predicates skip entries cgs out = Inr (out @ rows) \<and>
    list_all2 (\<lambda>row cs. row_cells env cols row = Inr (masked want cs)) rows
      (concat (map (row_group css) (filter (\<lambda>cg. \<not> (skip \<and> group_pruned cols predicates css cg)) cgs)))"
  using st rng
proof (induction cgs arbitrary: out)
  case (Cons cg cgs)
  have sk: "group_skipped cols predicates entries cg \<longleftrightarrow> group_pruned cols predicates css cg"
    by (rule group_skipped_stored [where rel = rel and env = env]) (use Cons.prems(1) in simp)
  have r: "\<not> length entries \<le> cg * length cols" using Cons.prems(2) [of cg] by simp
  have IH: "\<exists>rows. decode_groups env rel' cols want predicates skip entries cgs out = Inr (out @ rows) \<and>
      list_all2 (\<lambda>row cs. row_cells env cols row = Inr (masked want cs)) rows
        (concat (map (row_group css) (filter (\<lambda>cg. \<not> (skip \<and> group_pruned cols predicates css cg)) cgs)))" for out
    using Cons.prems by (intro Cons.IH) simp_all
  show ?case
  proof (cases "skip \<and> group_pruned cols predicates css cg")
    case True
    then show ?thesis using IH [of out] r sk by simp
  next
    case False
    obtain rows1 where r1: "decode_group env rel' cols want entries cg = Inr rows1"
      "list_all2 (\<lambda>row cs. row_cells env cols row = Inr (masked want cs)) rows1 (row_group css cg)"
      using decode_group_stored [OF _ ext wf n env want pos, of entries cg] Cons.prems(1) by auto
    obtain rows2 where r2: "decode_groups env rel' cols want predicates skip entries cgs (out @ rows1) = Inr ((out @ rows1) @ rows2)"
      "list_all2 (\<lambda>row cs. row_cells env cols row = Inr (masked want cs)) rows2
        (concat (map (row_group css) (filter (\<lambda>cg. \<not> (skip \<and> group_pruned cols predicates css cg)) cgs)))"
      using IH by blast
    have "decode_groups env rel' cols want predicates skip entries (cg # cgs) out = Inr (out @ rows1 @ rows2)"
      using r sk False r1(1) r2(1) by auto
    then show ?thesis using False list_all2_appendI [OF r1(2) r2(2)] by auto
  qed
qed simp

lemma decode_stripe_stored:
  assumes "stripe_holds env cols rel hb css" and "extends rel rel'" and "list_all (cells_wf cols) css"
    and "length css < 2 ^ 32" and "env_ok env cols" and "length want = length cols" and "0 < length cols"
  shows "\<exists>rows. decode_stripe env rel' hb cols want predicates skip out = Inr (out @ rows) \<and>
    list_all2 (\<lambda>row cs. row_cells env cols row = Inr (masked want cs)) rows (kept_rows cols predicates skip css)"
proof -
  obtain entries where e: "length entries = group_count css * length cols"
    "read_entries rel' hb (length cols) = Inr (entries, group_count css)"
    "\<And>cg col. cg < group_count css \<Longrightarrow> col < length cols \<Longrightarrow> cell_stored env cols rel css (entries ! (cg * length cols + col)) (cg, col)"
    using assms(1,2) by (auto simp: stripe_holds_def)
  have "cg * length cols < length entries" if "cg \<in> set [0..<group_count css]" for cg
    using that assms(7) by (simp add: e(1))
  then have "\<exists>rows. decode_groups env rel' cols want predicates skip entries [0..<group_count css] out = Inr (out @ rows) \<and>
      list_all2 (\<lambda>row cs. row_cells env cols row = Inr (masked want cs)) rows (kept_rows cols predicates skip css)"
    unfolding kept_rows_def kept_groups_def
    by (intro decode_groups_stored [OF _ _ assms(2-7)]) (simp_all add: e(3))
  then show ?thesis by (simp add: decode_stripe_def e(2))
qed

text \<open>Every row that satisfies the pushed predicates, with no NaN in a compared column, is kept.\<close>

definition row_passes :: "column_desc list \<Rightarrow> zone_predicate list \<Rightarrow> bytes option list \<Rightarrow> bool" where
  "row_passes cols predicates cs \<longleftrightarrow>
     list_all (\<lambda>p. zp_col p < length cols \<longrightarrow> row_matches (cd_mm (cols ! zp_col p)) p (cs ! zp_col p)) predicates"

definition row_nan_free :: "column_desc list \<Rightarrow> zone_predicate list \<Rightarrow> bytes option list \<Rightarrow> bool" where
  "row_nan_free cols predicates cs \<longleftrightarrow>
     list_all (\<lambda>p. zp_col p < length cols \<longrightarrow> \<not> nan_cell (cd_mm (cols ! zp_col p)) (cs ! zp_col p)) predicates"

lemma group_pruned_no_match:
  assumes "group_pruned cols predicates css cg" and "cs \<in> set (row_group css cg)" and "row_nan_free cols predicates cs"
  shows "\<not> row_passes cols predicates cs"
proof -
  obtain p where p: "p \<in> set predicates" "zp_col p < length cols"
    "\<not> chunk_admits (enc_of cols css cg (zp_col p)) (cd_mm (cols ! zp_col p)) p"
    using assms(1) by (auto simp: group_pruned_def list_ex_iff)
  have "cs ! zp_col p \<in> set (column_of (row_group css cg) (zp_col p))" using assms(2) by (simp add: column_of_def)
  moreover have "\<not> nan_cell (cd_mm (cols ! zp_col p)) (cs ! zp_col p)" using assms(3) p by (simp add: row_nan_free_def list_all_iff)
  ultimately have "\<not> row_matches (cd_mm (cols ! zp_col p)) p (cs ! zp_col p)"
    using chunk_admits_sound p(3) unfolding enc_of_def by blast
  then show ?thesis using p by (auto simp: row_passes_def list_all_iff)
qed

lemma kept_rows_filter:
  assumes "list_all (row_nan_free cols predicates) css"
  shows "filter (row_passes cols predicates) (kept_rows cols predicates skip css) = filter (row_passes cols predicates) css"
proof -
  let ?P = "\<lambda>cg. \<not> (skip \<and> group_pruned cols predicates css cg)"
  have none: "filter (row_passes cols predicates) (row_group css cg) = []" if "skip \<and> group_pruned cols predicates css cg" for cg
    using that group_pruned_no_match assms row_group_subset [of css cg] by (auto simp: filter_empty_conv list_all_iff)
  have "filter (row_passes cols predicates) (concat (map (row_group css) (filter ?P xs))) =
      filter (row_passes cols predicates) (concat (map (row_group css) xs))" for xs
  proof (induction xs)
    case (Cons a xs)
    then show ?case by (cases "skip \<and> group_pruned cols predicates css a") (auto simp: none)
  qed simp
  then show ?thesis by (simp add: kept_rows_def kept_groups_def row_groups_concat)
qed

end
