(* ===== verification/ColumnarScan.thy ===== *)
theory ColumnarScan
  imports ColumnarStore "HOL-Library.Multiset"
begin

text \<open>
  The write path and the scan of the columnar access method (\<open>am/columnar.rs\<close>): rows accumulate in the backend's
  \<open>WRITE_STATES\<close> entry, are flushed when they exceed \<open>maintenance_work_mem\<close>, at the end of a bulk insert and
  before the commit; a scan reads the visible stripes one at a time and then the pending rows.
\<close>

section \<open>The write path\<close>

definition write_budget :: "nat \<Rightarrow> nat" where
  "write_budget maintenance_work_mem = max (maintenance_work_mem * 1024) 1"

definition pending_of :: "columnar_state \<Rightarrow> pending_write" where
  "pending_of st = (case cs_pending st of None \<Rightarrow> \<lparr>pw_rows = [], pw_bytes = 0\<rparr> | Some p \<Rightarrow> p)"

definition needs_flush_first :: "nat \<Rightarrow> columnar_state \<Rightarrow> bytes \<Rightarrow> bool" where
  "needs_flush_first mwm st row \<longleftrightarrow>
     (case cs_pending st of None \<Rightarrow> False
      | Some p \<Rightarrow> pw_rows p \<noteq> [] \<and> pw_bytes p + length row > write_budget mwm)"

definition push_row :: "columnar_state \<Rightarrow> bytes \<Rightarrow> columnar_state" where
  "push_row st row =
     (let p = pending_of st in st\<lparr>cs_pending := Some \<lparr>pw_rows = pw_rows p @ [row], pw_bytes = pw_bytes p + length row\<rparr>\<rparr>)"

definition accumulate_row :: "col_env \<Rightarrow> attribute list \<Rightarrow> nat \<Rightarrow> columnar_state \<Rightarrow> datum option list \<Rightarrow>
    columnar_error + columnar_state" where
  "accumulate_row env attrs mwm st values =
     (let row = row_of_slot env attrs values in
      bind_r (if needs_flush_first mwm st row then flush_pending env attrs st else Inr st) (\<lambda>st.
        let st = push_row st row in
        if pw_bytes (pending_of st) > write_budget mwm then flush_pending env attrs st else Inr st))"

definition columnar_tuple_insert :: "col_env \<Rightarrow> attribute list \<Rightarrow> nat \<Rightarrow> columnar_state \<Rightarrow> datum option list \<Rightarrow>
    columnar_error + columnar_state" where
  "columnar_tuple_insert env attrs mwm st values = accumulate_row env attrs mwm st values"

fun columnar_multi_insert :: "col_env \<Rightarrow> attribute list \<Rightarrow> nat \<Rightarrow> columnar_state \<Rightarrow> datum option list list \<Rightarrow>
    columnar_error + columnar_state" where
  "columnar_multi_insert env attrs mwm st [] = Inr st"
| "columnar_multi_insert env attrs mwm st (v # vs) =
     bind_r (accumulate_row env attrs mwm st v) (\<lambda>st. columnar_multi_insert env attrs mwm st vs)"

definition columnar_finish_bulk_insert :: "col_env \<Rightarrow> attribute list \<Rightarrow> columnar_state \<Rightarrow> columnar_error + columnar_state" where
  "columnar_finish_bulk_insert env attrs st = flush_pending env attrs st"

text \<open>The transaction callback for one relation; \<open>exists\<close> is whether \<open>try_relation_open\<close> finds it. No callback is
  registered for subtransaction events.\<close>

datatype xact_event = PreCommit | ParallelPreCommit | Prepare | Abort | ParallelAbort | OtherXact

definition columnar_xact_flush :: "col_env \<Rightarrow> attribute list \<Rightarrow> bool \<Rightarrow> xact_event \<Rightarrow> columnar_state \<Rightarrow>
    columnar_error + columnar_state" where
  "columnar_xact_flush env attrs exists event st =
     (if event = PreCommit \<or> event = ParallelPreCommit \<or> event = Prepare then
        (if pw_rows (pending_of st) = [] then Inr st
         else if \<not> exists then Inr (st\<lparr>cs_pending := None\<rparr>)
         else flush_pending env attrs st)
      else if event = Abort \<or> event = ParallelAbort then Inr (st\<lparr>cs_pending := None\<rparr>)
      else Inr st)"

section \<open>The scan\<close>

text \<open>\<open>ORDER BY first_row_number, stripe_id\<close>.\<close>

definition read_visible_stripes :: "columnar_state \<Rightarrow> u32 list" where
  "read_visible_stripes st =
     map sr_header_block (sort_key (\<lambda>s. sint (sr_first_row_number s)) (sort_key (\<lambda>s. sint (sr_stripe_id s)) (cs_catalog st)))"

record scan_config =
  sc_projection :: "nat list option"
  sc_predicates :: "zone_predicate list option"
  sc_enable_skip :: bool

record scan_state =
  ss_stripes :: "u32 list"
  ss_idx :: nat
  ss_current :: "bytes list"
  ss_cursor :: nat
  ss_pending_loaded :: bool

definition columnar_scan_begin :: "columnar_state \<Rightarrow> scan_state" where
  "columnar_scan_begin st =
     \<lparr>ss_stripes = read_visible_stripes st, ss_idx = 0, ss_current = [], ss_cursor = 0, ss_pending_loaded = False\<rparr>"

definition columnar_scan_rescan :: "scan_state \<Rightarrow> scan_state" where
  "columnar_scan_rescan sc = sc\<lparr>ss_idx := 0, ss_pending_loaded := False, ss_current := [], ss_cursor := 0\<rparr>"

definition want_mask :: "nat \<Rightarrow> nat list option \<Rightarrow> bool list" where
  "want_mask natts proj = (case proj of None \<Rightarrow> replicate natts True | Some w \<Rightarrow> map (\<lambda>c. c \<in> set w) [0..<natts])"

definition load_next_batch :: "col_env \<Rightarrow> attribute list \<Rightarrow> scan_config \<Rightarrow> columnar_state \<Rightarrow> scan_state \<Rightarrow>
    columnar_error + scan_state \<times> bool" where
  "load_next_batch env attrs cfg st sc =
     (if ss_idx sc < length (ss_stripes sc) then
        let hb = ss_stripes sc ! ss_idx sc in
        bind_r (map_r coldesc attrs) (\<lambda>cols.
          let preds = (case sc_predicates cfg of Some p \<Rightarrow> p | None \<Rightarrow> []); skip = sc_enable_skip cfg \<and> preds \<noteq> [] in
          bind_r (decode_stripe env (cs_rel st) hb cols (want_mask (length attrs) (sc_projection cfg)) preds skip []) (\<lambda>batch.
            Inr (sc\<lparr>ss_idx := Suc (ss_idx sc), ss_current := batch, ss_cursor := 0\<rparr>, True)))
      else if \<not> ss_pending_loaded sc then
        Inr (sc\<lparr>ss_pending_loaded := True, ss_current := pw_rows (pending_of st), ss_cursor := 0\<rparr>, True)
      else Inr (sc\<lparr>ss_current := [], ss_cursor := 0\<rparr>, False))"

definition batches_left :: "scan_state \<Rightarrow> nat" where
  "batches_left sc = (length (ss_stripes sc) - ss_idx sc) + (if ss_pending_loaded sc then 0 else 1)"

lemma load_next_batch_progress: "load_next_batch env attrs cfg st sc = Inr (sc', True) \<Longrightarrow> batches_left sc' < batches_left sc"
  by (auto simp: load_next_batch_def batches_left_def bind_r_Inr_iff Let_def split: if_splits)

function columnar_scan_getnextslot :: "col_env \<Rightarrow> attribute list \<Rightarrow> scan_config \<Rightarrow> columnar_state \<Rightarrow> scan_state \<Rightarrow>
    columnar_error + scan_state \<times> bytes option" where
  "columnar_scan_getnextslot env attrs cfg st sc =
     (if ss_cursor sc \<ge> length (ss_current sc) then
        case load_next_batch env attrs cfg st sc of
          Inl e \<Rightarrow> Inl e
        | Inr (sc', loaded) \<Rightarrow> if \<not> loaded then Inr (sc', None) else columnar_scan_getnextslot env attrs cfg st sc'
      else Inr (sc\<lparr>ss_cursor := Suc (ss_cursor sc)\<rparr>, Some (ss_current sc ! ss_cursor sc)))"
  by pat_completeness auto
termination
  by (relation "measure (\<lambda>(env, attrs, cfg, st, sc). batches_left sc)") (auto dest: load_next_batch_progress)

declare columnar_scan_getnextslot.simps [simp del]

text \<open>The rows a scan returns, slot by slot, until it reports the end.\<close>

inductive scan_yields :: "col_env \<Rightarrow> attribute list \<Rightarrow> scan_config \<Rightarrow> columnar_state \<Rightarrow> scan_state \<Rightarrow> bytes list \<Rightarrow> bool"
  for env attrs cfg st where
  scan_end: "columnar_scan_getnextslot env attrs cfg st sc = Inr (sc', None) \<Longrightarrow> scan_yields env attrs cfg st sc []"
| scan_row: "columnar_scan_getnextslot env attrs cfg st sc = Inr (sc', Some row) \<Longrightarrow> scan_yields env attrs cfg st sc' rows \<Longrightarrow>
    scan_yields env attrs cfg st sc (row # rows)"

section \<open>A scan reads the stripes and then the pending rows\<close>

lemma getnext_in_batch:
  "ss_cursor sc < length (ss_current sc) \<Longrightarrow>
   columnar_scan_getnextslot env attrs cfg st sc = Inr (sc\<lparr>ss_cursor := Suc (ss_cursor sc)\<rparr>, Some (ss_current sc ! ss_cursor sc))"
  by (subst columnar_scan_getnextslot.simps) simp

lemma getnext_load:
  assumes "length (ss_current sc) \<le> ss_cursor sc" and "load_next_batch env attrs cfg st sc = Inr (sc', loaded)"
  shows "columnar_scan_getnextslot env attrs cfg st sc =
    (if loaded then columnar_scan_getnextslot env attrs cfg st sc' else Inr (sc', None))"
  using assms by (subst columnar_scan_getnextslot.simps) simp

lemma scan_yields_cong:
  assumes "columnar_scan_getnextslot env attrs cfg st sc = columnar_scan_getnextslot env attrs cfg st sc'"
    and "scan_yields env attrs cfg st sc' rows"
  shows "scan_yields env attrs cfg st sc rows"
  using assms(2,1) by cases (auto intro: scan_yields.intros)

text \<open>Draining the current batch.\<close>

lemma scan_yields_batch:
  assumes "scan_yields env attrs cfg st (sc\<lparr>ss_cursor := length (ss_current sc)\<rparr>) rows" and "ss_cursor sc \<le> length (ss_current sc)"
  shows "scan_yields env attrs cfg st sc (drop (ss_cursor sc) (ss_current sc) @ rows)"
  using assms
proof (induction "length (ss_current sc) - ss_cursor sc" arbitrary: sc)
  case 0
  then have "ss_cursor sc = length (ss_current sc)" by simp
  then have "sc\<lparr>ss_cursor := length (ss_current sc)\<rparr> = sc" by (cases sc) simp
  then show ?case using 0 by simp
next
  case (Suc n)
  let ?sc = "sc\<lparr>ss_cursor := Suc (ss_cursor sc)\<rparr>"
  have lt: "ss_cursor sc < length (ss_current sc)" using Suc.hyps(2) by simp
  have "scan_yields env attrs cfg st ?sc (drop (ss_cursor ?sc) (ss_current ?sc) @ rows)"
    using Suc.hyps(2) Suc.prems lt by (intro Suc.hyps(1)) simp_all
  then have "scan_yields env attrs cfg st sc (ss_current sc ! ss_cursor sc # drop (Suc (ss_cursor sc)) (ss_current sc) @ rows)"
    by (intro scan_row [OF getnext_in_batch [OF lt]]) simp
  then show ?case by (simp add: Cons_nth_drop_Suc [OF lt, symmetric])
qed

lemma scan_yields_load:
  assumes "load_next_batch env attrs cfg st sc = Inr (sc', True)" and "ss_cursor sc' = 0"
    and "scan_yields env attrs cfg st (sc'\<lparr>ss_cursor := length (ss_current sc')\<rparr>) rows"
    and "length (ss_current sc) \<le> ss_cursor sc"
  shows "scan_yields env attrs cfg st sc (ss_current sc' @ rows)"
  using scan_yields_batch [OF assms(3)] assms(2) getnext_load [OF assms(4,1)] by (intro scan_yields_cong [of _ _ _ _ sc sc']) simp_all

lemma scan_yields_pending:
  assumes "ss_idx sc = length (ss_stripes sc)" and "\<not> ss_pending_loaded sc" and "length (ss_current sc) \<le> ss_cursor sc"
  shows "scan_yields env attrs cfg st sc (pw_rows (pending_of st))"
proof -
  let ?rows = "pw_rows (pending_of st)"
  let ?sc = "sc\<lparr>ss_pending_loaded := True, ss_current := ?rows, ss_cursor := 0\<rparr>"
  have l: "load_next_batch env attrs cfg st sc = Inr (?sc, True)" using assms(1,2) by (simp add: load_next_batch_def)
  let ?fin = "?sc\<lparr>ss_cursor := length ?rows\<rparr>"
  have e: "load_next_batch env attrs cfg st ?fin = Inr (?fin\<lparr>ss_current := [], ss_cursor := 0\<rparr>, False)"
    using assms(1) by (simp add: load_next_batch_def)
  have "columnar_scan_getnextslot env attrs cfg st ?fin = Inr (?fin\<lparr>ss_current := [], ss_cursor := 0\<rparr>, None)"
    using getnext_load [OF _ e] by simp
  then have "scan_yields env attrs cfg st ?fin []" by (rule scan_end)
  then show ?thesis using scan_yields_load [OF l _ _ assms(3), of "[]"] by simp
qed

lemma scan_yields_stripes:
  assumes cols: "map_r coldesc attrs = Inr cols"
    and dec: "list_all2 (\<lambda>hb rows. decode_stripe env (cs_rel st) hb cols (want_mask (length attrs) (sc_projection cfg))
        (case sc_predicates cfg of Some p \<Rightarrow> p | None \<Rightarrow> [])
        (sc_enable_skip cfg \<and> (case sc_predicates cfg of Some p \<Rightarrow> p | None \<Rightarrow> []) \<noteq> []) [] = Inr rows)
      (drop (ss_idx sc) (ss_stripes sc)) batches"
    and "ss_idx sc \<le> length (ss_stripes sc)" and "\<not> ss_pending_loaded sc" and "length (ss_current sc) \<le> ss_cursor sc"
  shows "scan_yields env attrs cfg st sc (concat batches @ pw_rows (pending_of st))"
  using dec assms(3-)
proof (induction batches arbitrary: sc rule: list.induct)
  case Nil
  have "drop (ss_idx sc) (ss_stripes sc) = []" using Nil.prems(1) by (simp only: list_all2_Nil2)
  then have "ss_idx sc = length (ss_stripes sc)" using Nil.prems(2) by (intro le_antisym) (simp_all only: drop_eq_Nil)
  then show ?case using scan_yields_pending [OF _ Nil.prems(3,4)] by simp
next
  case (Cons rows batches)
  have lt: "ss_idx sc < length (ss_stripes sc)" using Cons.prems(1) by (cases "ss_idx sc < length (ss_stripes sc)") simp_all
  have d: "drop (ss_idx sc) (ss_stripes sc) = ss_stripes sc ! ss_idx sc # drop (Suc (ss_idx sc)) (ss_stripes sc)"
    using lt by (simp add: Cons_nth_drop_Suc)
  let ?sc = "sc\<lparr>ss_idx := Suc (ss_idx sc), ss_current := rows, ss_cursor := 0\<rparr>"
  have l: "load_next_batch env attrs cfg st sc = Inr (?sc, True)"
    using lt Cons.prems(1) d by (simp add: load_next_batch_def cols Let_def)
  have "scan_yields env attrs cfg st (?sc\<lparr>ss_cursor := length rows\<rparr>) (concat batches @ pw_rows (pending_of st))"
    using Cons.prems d lt by (intro Cons.IH) simp_all
  then show ?case using scan_yields_load [OF l _ _ Cons.prems(4)] by simp
qed

section \<open>A transaction's writes\<close>

datatype write_op = Insert "datum option list" | FinishBulk | Commit

definition apply_op :: "col_env \<Rightarrow> attribute list \<Rightarrow> nat \<Rightarrow> columnar_state \<Rightarrow> write_op \<Rightarrow> columnar_error + columnar_state" where
  "apply_op env attrs mwm st op =
     (case op of Insert v \<Rightarrow> columnar_tuple_insert env attrs mwm st v
      | FinishBulk \<Rightarrow> columnar_finish_bulk_insert env attrs st
      | Commit \<Rightarrow> columnar_xact_flush env attrs True PreCommit st)"

fun run_ops :: "col_env \<Rightarrow> attribute list \<Rightarrow> nat \<Rightarrow> columnar_state \<Rightarrow> write_op list \<Rightarrow> columnar_error + columnar_state" where
  "run_ops env attrs mwm st [] = Inr st"
| "run_ops env attrs mwm st (op # ops) = bind_r (apply_op env attrs mwm st op) (\<lambda>st. run_ops env attrs mwm st ops)"

definition op_slots :: "write_op list \<Rightarrow> datum option list list" where
  "op_slots ops = concat (map (\<lambda>op. case op of Insert v \<Rightarrow> [v] | _ \<Rightarrow> []) ops)"

definition fresh_table :: columnar_state where
  "fresh_table = \<lparr>cs_rel = (case init_metapage [] of Inr rel \<Rightarrow> rel | Inl _ \<Rightarrow> []), cs_catalog = [], cs_pending = None\<rparr>"

lemma fresh_rel: "init_metapage [] = Inr (cs_rel fresh_table)"
  "cs_rel fresh_table = [[col_meta_to_bytes \<lparr>reserved_row_number = 0, reserved_stripe_id = 0\<rparr>]]"
  by (simp_all add: fresh_table_def init_metapage_def extend_item_ok page_fits_small COL_META_LEN_def)

text \<open>No field of the format overflows when the pending rows are flushed: the compressed chunks and the directory are
  below 4 GiB, the counts fit their fields, the row numbers stay positive as a \<open>bigint\<close> and the relation has fewer
  than \<open>2 ^ 32\<close> blocks. An operation that fails is not excluded: that none does is part of what is proved.\<close>

definition flush_fits :: "col_env \<Rightarrow> attribute list \<Rightarrow> columnar_state \<Rightarrow> bool" where
  "flush_fits env attrs st \<longleftrightarrow>
     (case map_r coldesc attrs of Inl _ \<Rightarrow> True
      | Inr cols \<Rightarrow> (case map_r (row_cells env cols) (pw_rows (pending_of st)) of Inl _ \<Rightarrow> True
        | Inr css \<Rightarrow> css = [] \<or> cells_fit env cols css \<and>
            (case reserve (cs_rel st) RowNumber 0 of Inl _ \<Rightarrow> True | Inr (rel, base) \<Rightarrow> unat base + length css < 2 ^ 63) \<and>
            (case flush_pending env attrs st of Inl _ \<Rightarrow> True | Inr st' \<Rightarrow> length (cs_rel st') < 2 ^ 32)))"

definition op_fits :: "col_env \<Rightarrow> attribute list \<Rightarrow> nat \<Rightarrow> columnar_state \<Rightarrow> write_op \<Rightarrow> bool" where
  "op_fits env attrs mwm st op \<longleftrightarrow>
     (case op of
        Insert v \<Rightarrow>
          let row = row_of_slot env attrs v in
          (if needs_flush_first mwm st row then flush_fits env attrs st else True) \<and>
          (case (if needs_flush_first mwm st row then flush_pending env attrs st else Inr st) of Inl _ \<Rightarrow> True
           | Inr st1 \<Rightarrow> if pw_bytes (pending_of (push_row st1 row)) > write_budget mwm then flush_fits env attrs (push_row st1 row) else True)
      | _ \<Rightarrow> flush_fits env attrs st)"

fun run_fits :: "col_env \<Rightarrow> attribute list \<Rightarrow> nat \<Rightarrow> columnar_state \<Rightarrow> write_op list \<Rightarrow> bool" where
  "run_fits env attrs mwm st [] \<longleftrightarrow> True"
| "run_fits env attrs mwm st (op # ops) \<longleftrightarrow> op_fits env attrs mwm st op \<and>
     (case apply_op env attrs mwm st op of Inl _ \<Rightarrow> True | Inr st \<Rightarrow> run_fits env attrs mwm st ops)"

text \<open>The rows a table state holds: per visible stripe in scan order, and pending.\<close>

definition rows_hold :: "col_env \<Rightarrow> column_desc list \<Rightarrow> bytes list \<Rightarrow> bytes option list list \<Rightarrow> bool" where
  "rows_hold env cols rows css \<longleftrightarrow> list_all2 (\<lambda>row cs. row_cells env cols row = Inr cs) rows css"

definition table_holds :: "col_env \<Rightarrow> column_desc list \<Rightarrow> columnar_state \<Rightarrow> bytes option list list list \<Rightarrow> bytes option list list \<Rightarrow> bool" where
  "table_holds env cols st stored pend \<longleftrightarrow>
     (\<exists>m. metapage_is (cs_rel st) m \<and> unat (reserved_row_number m) < 2 ^ 63 \<and>
        sorted_wrt (\<lambda>a b. unat (sr_first_row_number a) < unat (sr_first_row_number b)) (cs_catalog st) \<and>
        (\<forall>s \<in> set (cs_catalog st). unat (sr_first_row_number s) < unat (reserved_row_number m))) \<and>
     list_all2 (\<lambda>s css. stripe_holds env cols (cs_rel st) (sr_header_block s) css) (cs_catalog st) stored \<and>
     list_all (\<lambda>css. list_all (cells_wf cols) css \<and> length css < 2 ^ 32) stored \<and>
     rows_hold env cols (pw_rows (pending_of st)) pend \<and> list_all (cells_wf cols) pend"

lemma fresh_holds: "table_holds env cols fresh_table [] []"
  by (simp add: table_holds_def fresh_rel metapage_is_def rows_hold_def)
    (simp add: fresh_table_def pending_of_def, rule exI [of _ "\<lparr>reserved_row_number = 0, reserved_stripe_id = 0\<rparr>"], simp)

lemma push_holds:
  assumes "table_holds env cols st stored pend" and "row_cells env cols row = Inr cs" and "cells_wf cols cs"
  shows "table_holds env cols (push_row st row) stored (pend @ [cs])"
  using assms by (simp add: table_holds_def push_row_def pending_of_def [of "st\<lparr>cs_pending := Some x\<rparr>" for x] rows_hold_def
      list_all2_appendI Let_def)

lemma metapage_is_inj: "metapage_is rel m \<Longrightarrow> metapage_is rel m' \<Longrightarrow> m = m'"
  using col_meta_roundtrip [of m "[]"] col_meta_roundtrip [of m' "[]"] by (auto simp: metapage_is_nth)

lemma flush_holds:
  assumes cols: "map_r coldesc attrs = Inr cols" and env: "env_ok env cols" and h: "table_holds env cols st stored pend"
    and fits: "flush_fits env attrs st"
  shows "\<exists>st'. flush_pending env attrs st = Inr st' \<and> table_holds env cols st' (if pend = [] then stored else stored @ [pend]) [] \<and>
    pw_rows (pending_of st') = []"
proof -
  obtain m where m: "metapage_is (cs_rel st) m" "unat (reserved_row_number m) < 2 ^ 63"
    "sorted_wrt (\<lambda>a b. unat (sr_first_row_number a) < unat (sr_first_row_number b)) (cs_catalog st)"
    "\<And>s. s \<in> set (cs_catalog st) \<Longrightarrow> unat (sr_first_row_number s) < unat (reserved_row_number m)"
    using h by (auto simp: table_holds_def)
  have rows: "list_all2 (\<lambda>row cs. row_cells env cols row = Inr cs) (pw_rows (pending_of st)) pend"
    using h by (simp add: table_holds_def rows_hold_def)
  show ?thesis
  proof (cases "pend = []")
    case True
    then have e: "pw_rows (pending_of st) = []" using rows by simp
    have out: "flush_pending env attrs st = Inr (case cs_pending st of None \<Rightarrow> st | Some _ \<Rightarrow> st\<lparr>cs_pending := None\<rparr>)"
      using e by (cases "cs_pending st") (simp_all add: flush_pending_def pending_of_def)
    have "table_holds env cols (case cs_pending st of None \<Rightarrow> st | Some _ \<Rightarrow> st\<lparr>cs_pending := None\<rparr>) stored []"
      using h True e by (cases "cs_pending st") (auto simp: table_holds_def pending_of_def rows_hold_def)
    then show ?thesis using out True by (cases "cs_pending st") (auto simp: pending_of_def e [unfolded pending_of_def])
  next
    case False
    then have ne: "pw_rows (pending_of st) \<noteq> []" using rows by auto
    then obtain p where p: "cs_pending st = Some p" "pending_of st = p"
      by (cases "cs_pending st") (simp_all add: pending_of_def)
    have "map_r (row_cells env cols) (pw_rows p) = Inr pend" using rows p(2) by (simp add: map_r_Inr_iff)
    then have f: "cells_fit env cols pend" "unat (reserved_row_number m) + length pend < 2 ^ 63"
      "\<And>st'. flush_pending env attrs st = Inr st' \<Longrightarrow> length (cs_rel st') < 2 ^ 32"
      using fits False p(2) reserve_row [OF m(1)] by (auto simp: flush_fits_def cols)
    obtain st' where out: "flush_pending env attrs st = Inr st'"
      using flush_total [OF cols env m(1) p(1)] rows p(2) by blast
    let ?m' = "\<lparr>reserved_row_number = reserved_row_number m + of_nat (length pend), reserved_stripe_id = reserved_stripe_id m + 1\<rparr>"
    obtain s where st': "extends (cs_rel st) (cs_rel st')" "cs_pending st' = None" "metapage_is (cs_rel st') ?m'"
      "cs_catalog st' = cs_catalog st @ [s]" "sr_first_row_number s = reserved_row_number m"
      "stripe_holds env cols (cs_rel st') (sr_header_block s) pend"
      using flush_stripe [OF cols env m(1) p(1) _ _ f(1) out f(3) [OF out]] ne rows p(2) by auto
    have u: "unat (reserved_row_number ?m') = unat (reserved_row_number m) + length pend"
      using f(2) by (simp add: unat_word_ariths unat_of_nat)
    have len: "0 < length pend" using False by simp
    have "list_all2 (\<lambda>s css. stripe_holds env cols (cs_rel st') (sr_header_block s) css) (cs_catalog st) stored"
      using h stripe_holds_extends [OF _ st'(1)] by (auto simp: table_holds_def elim: list_all2_mono)
    then have "list_all2 (\<lambda>s css. stripe_holds env cols (cs_rel st') (sr_header_block s) css) (cs_catalog st') (stored @ [pend])"
      using st'(6) by (simp add: st'(4) list_all2_appendI)
    moreover have "sorted_wrt (\<lambda>a b. unat (sr_first_row_number a) < unat (sr_first_row_number b)) (cs_catalog st')"
      using m(3,4) by (simp add: st'(4,5) sorted_wrt_append)
    moreover have "\<forall>s \<in> set (cs_catalog st'). unat (sr_first_row_number s) < unat (reserved_row_number ?m')"
      unfolding u using m(4) len by (auto simp: st'(4,5) intro: trans_less_add1)
    moreover have "unat (reserved_row_number ?m') < 2 ^ 63" unfolding u by (rule f(2))
    moreover have "list_all (\<lambda>css. list_all (cells_wf cols) css \<and> length css < 2 ^ 32) (stored @ [pend])"
      using h f(1) by (simp add: table_holds_def cells_fit_def)
    ultimately have "table_holds env cols st' (stored @ [pend]) []"
      unfolding table_holds_def using st'(2,3) by (auto simp: pending_of_def rows_hold_def)
    then show ?thesis using out False st'(2) by (simp add: pending_of_def)
  qed
qed

lemma rows_hold_empty: "rows_hold env cols rows css \<Longrightarrow> rows = [] \<longleftrightarrow> css = []"
  by (auto simp: rows_hold_def)

lemma flush_keeps:
  assumes "map_r coldesc attrs = Inr cols" and "env_ok env cols" and "table_holds env cols st stored pend" and "flush_fits env attrs st"
  shows "\<exists>st' stored'. flush_pending env attrs st = Inr st' \<and> table_holds env cols st' stored' [] \<and> concat stored' = concat stored @ pend"
proof -
  obtain st' where "flush_pending env attrs st = Inr st'" "table_holds env cols st' (if pend = [] then stored else stored @ [pend]) []"
    using flush_holds [OF assms] by blast
  then show ?thesis by (intro exI [of _ st'] exI [of _ "if pend = [] then stored else stored @ [pend]"]) simp
qed

lemma insert_holds:
  assumes cols: "map_r coldesc attrs = Inr cols" and env: "env_ok env cols" and h: "table_holds env cols st stored pend"
    and v: "slot_ok env cols v" and fits: "op_fits env attrs mwm st (Insert v)"
  shows "\<exists>st' stored' pend'. accumulate_row env attrs mwm st v = Inr st' \<and> table_holds env cols st' stored' pend' \<and>
    concat stored' @ pend' = concat stored @ pend @ [slot_cells env attrs cols v]"
proof -
  let ?row = "row_of_slot env attrs v" and ?cs = "slot_cells env attrs cols v"
  note rc = row_of_slot_cells [OF env v cols]
  obtain st1 stored1 pend1 where f1: "(if needs_flush_first mwm st ?row then flush_pending env attrs st else Inr st) = Inr st1"
    "table_holds env cols st1 stored1 pend1" "concat stored1 @ pend1 = concat stored @ pend"
  proof (cases "needs_flush_first mwm st ?row")
    case True
    then have "flush_fits env attrs st" using fits by (simp add: op_fits_def Let_def)
    from flush_keeps [OF cols env h this] True that show thesis by auto
  next
    case False
    then show thesis using that h by simp
  qed
  have h2: "table_holds env cols (push_row st1 ?row) stored1 (pend1 @ [?cs])" using push_holds [OF f1(2)] rc by blast
  show ?thesis
  proof (cases "pw_bytes (pending_of (push_row st1 ?row)) > write_budget mwm")
    case True
    then have "flush_fits env attrs (push_row st1 ?row)" using fits f1(1) by (simp add: op_fits_def Let_def)
    from flush_keeps [OF cols env h2 this] obtain st' stored' where
      "flush_pending env attrs (push_row st1 ?row) = Inr st'" "table_holds env cols st' stored' []"
      "concat stored' = concat stored1 @ pend1 @ [?cs]" by auto
    moreover from this have "accumulate_row env attrs mwm st v = Inr st'" using True f1(1) by (simp add: accumulate_row_def Let_def)
    ultimately show ?thesis using f1(3) by (metis append_Nil2 append_assoc)
  next
    case False
    then have "accumulate_row env attrs mwm st v = Inr (push_row st1 ?row)" using f1(1) by (simp add: accumulate_row_def Let_def)
    then show ?thesis using h2 f1(3) by (metis append_assoc)
  qed
qed

lemma flush_op_holds:
  assumes cols: "map_r coldesc attrs = Inr cols" and env: "env_ok env cols" and h: "table_holds env cols st stored pend"
    and fits: "flush_fits env attrs st" and op: "op = FinishBulk \<or> op = Commit"
  shows "\<exists>st' stored'. apply_op env attrs mwm st op = Inr st' \<and> table_holds env cols st' stored' [] \<and> concat stored' = concat stored @ pend"
proof (cases "op = Commit \<and> pw_rows (pending_of st) = []")
  case True
  then have "pend = []" using h by (auto simp: table_holds_def rows_hold_def)
  then show ?thesis using True h by (auto simp: apply_op_def columnar_xact_flush_def)
next
  case False
  then have "apply_op env attrs mwm st op = flush_pending env attrs st"
    using op by (auto simp: apply_op_def columnar_xact_flush_def columnar_finish_bulk_insert_def)
  then show ?thesis using flush_keeps [OF cols env h fits] by auto
qed

lemma run_holds:
  assumes cols: "map_r coldesc attrs = Inr cols" and env: "env_ok env cols" and "table_holds env cols st stored pend"
    and "list_all (slot_ok env cols) (op_slots ops)" and "run_fits env attrs mwm st ops"
  shows "\<exists>st' stored' pend'. run_ops env attrs mwm st ops = Inr st' \<and> table_holds env cols st' stored' pend' \<and>
    concat stored' @ pend' = concat stored @ pend @ map (slot_cells env attrs cols) (op_slots ops)"
  using assms(3-)
proof (induction ops arbitrary: st stored pend)
  case Nil
  then show ?case by (auto simp: op_slots_def)
next
  case (Cons op ops)
  have fits: "op_fits env attrs mwm st op" using Cons.prems(3) by simp
  have "\<exists>st' stored' pend'. apply_op env attrs mwm st op = Inr st' \<and> table_holds env cols st' stored' pend' \<and>
      concat stored' @ pend' = concat stored @ pend @ map (slot_cells env attrs cols) (op_slots [op])"
  proof (cases op)
    case (Insert v)
    then have "slot_ok env cols v" using Cons.prems(2) by (simp add: op_slots_def)
    with insert_holds [OF cols env Cons.prems(1)] fits Insert show ?thesis
      by (fastforce simp: apply_op_def columnar_tuple_insert_def op_slots_def)
  next
    case FinishBulk
    then have "flush_fits env attrs st" using fits by (simp add: op_fits_def)
    from flush_op_holds [OF cols env Cons.prems(1) this, of op mwm] FinishBulk
    show ?thesis by (fastforce simp: op_slots_def)
  next
    case Commit
    then have "flush_fits env attrs st" using fits by (simp add: op_fits_def)
    from flush_op_holds [OF cols env Cons.prems(1) this, of op mwm] Commit
    show ?thesis by (fastforce simp: op_slots_def)
  qed
  then obtain st1 stored1 pend1 where s1: "apply_op env attrs mwm st op = Inr st1" "table_holds env cols st1 stored1 pend1"
    "concat stored1 @ pend1 = concat stored @ pend @ map (slot_cells env attrs cols) (op_slots [op])" by blast
  have ok: "list_all (slot_ok env cols) (op_slots ops)" using Cons.prems(2) by (simp add: op_slots_def)
  have "run_fits env attrs mwm st1 ops" using Cons.prems(3) s1(1) by simp
  from Cons.IH [OF s1(2) ok this] obtain st' stored' pend' where
    "run_ops env attrs mwm st1 ops = Inr st'" "table_holds env cols st' stored' pend'"
    "concat stored' @ pend' = concat stored1 @ pend1 @ map (slot_cells env attrs cols) (op_slots ops)" by blast
  moreover have "op_slots (op # ops) = op_slots [op] @ op_slots ops" by (simp add: op_slots_def)
  ultimately show ?case using s1(1,3) by (intro exI [of _ st'] exI [of _ stored'] exI [of _ pend']) simp
qed

section \<open>What a scan of a table returns\<close>

lemma filter_eq_replicate: "filter (\<lambda>x. x = k) zs = replicate (count (mset zs) k) k"
  by (induction zs) auto

lemma sort_key_inj:
  fixes f :: "'a \<Rightarrow> int"
  assumes "inj_on f (set xs)" and "sorted (map f xs)" and "mset ys = mset xs"
  shows "sort_key f ys = xs"
proof (rule properties_for_sort_key)
  fix k assume k: "k \<in> set xs"
  have "set ys = set xs" using assms(3) by (rule mset_eq_setD)
  then have "filter (\<lambda>x. f k = f x) zs = filter (\<lambda>x. x = k) zs" if "set zs = set xs" for zs
    using that k assms(1) by (intro filter_cong refl) (auto dest: inj_onD)
  with \<open>set ys = set xs\<close> show "filter (\<lambda>x. f k = f x) xs = filter (\<lambda>x. f k = f x) ys"
    by (simp add: filter_eq_replicate assms(3))
qed (simp_all add: assms)

lemma sort_key_sorted_wrt:
  fixes f :: "'a \<Rightarrow> int"
  assumes "sorted_wrt (\<lambda>a b. f a < f b) xs" and "mset ys = mset xs"
  shows "sort_key f ys = xs"
proof -
  have "sorted_wrt (<) (map f xs)" using assms(1) by (simp add: sorted_wrt_map)
  then have "sorted (map f xs)" "distinct (map f xs)" by (simp_all add: strict_sorted_iff)
  then show ?thesis by (intro sort_key_inj assms(2)) (simp_all add: distinct_map)
qed

lemma sint_small: "unat (w :: u64) < 2 ^ 63 \<Longrightarrow> sint w = int (unat w)"
proof -
  assume "unat w < 2 ^ 63"
  then have "int (unat w) < int (2 ^ 63)" by (rule of_nat_less_iff [THEN iffD2])
  then have "uint w < 2 ^ 63" by simp
  moreover have "- (2 ^ 63) \<le> uint w" by (rule order_trans [of _ 0]) simp_all
  ultimately have "sint w = uint w" by (simp add: sint_uint signed_take_bit_int_eq_self)
  then show ?thesis by simp
qed

lemma visible_order:
  assumes "table_holds env cols st stored pend"
  shows "read_visible_stripes st = map sr_header_block (cs_catalog st)"
proof -
  obtain m :: columnar_meta where m: "unat (reserved_row_number m) < 2 ^ 63"
    "sorted_wrt (\<lambda>a b. unat (sr_first_row_number a) < unat (sr_first_row_number b)) (cs_catalog st)"
    "\<And>s. s \<in> set (cs_catalog st) \<Longrightarrow> unat (sr_first_row_number s) < unat (reserved_row_number m)"
    using assms by (auto simp: table_holds_def)
  have sint: "sint (sr_first_row_number s) = int (unat (sr_first_row_number s))" if "s \<in> set (cs_catalog st)" for s
    using m(3) [OF that] m(1) by (intro sint_small) linarith
  have "sorted_wrt (\<lambda>a b. sint (sr_first_row_number a) < sint (sr_first_row_number b)) (cs_catalog st)"
    using m(2) by (rule sorted_wrt_mono_rel [rotated]) (simp only: sint of_nat_less_iff)
  then show ?thesis unfolding read_visible_stripes_def by (subst sort_key_sorted_wrt) simp_all
qed

definition scan_predicates :: "scan_config \<Rightarrow> zone_predicate list" where
  "scan_predicates cfg = (case sc_predicates cfg of Some p \<Rightarrow> p | None \<Rightarrow> [])"

definition scan_skips :: "scan_config \<Rightarrow> bool" where
  "scan_skips cfg \<longleftrightarrow> sc_enable_skip cfg \<and> scan_predicates cfg \<noteq> []"

lemma list_all2_Inr_map: "list_all2 (\<lambda>row cs. f row = Inr (g cs)) rows css \<longleftrightarrow> map f rows = map Inr (map g css)"
  by (induction rows arbitrary: css) (auto simp: list_all2_Cons1 Cons_eq_map_conv)

lemma list_all2_Inr_id: "list_all2 (\<lambda>row cs. f row = Inr cs) rows css \<longleftrightarrow> map f rows = map Inr css"
  using list_all2_Inr_map [of f "\<lambda>x. x" rows css] by simp

lemma table_scan:
  assumes cols: "map_r coldesc attrs = Inr cols" and env: "env_ok env cols" and h: "table_holds env cols st stored pend" and pos: "cols \<noteq> []"
  shows "\<exists>rows. scan_yields env attrs cfg st (columnar_scan_begin st) rows \<and>
    map (row_cells env cols) rows =
      map Inr (concat (map (\<lambda>css. map (masked (want_mask (length attrs) (sc_projection cfg))) (kept_rows cols (scan_predicates cfg) (scan_skips cfg) css)) stored) @ pend)"
proof -
  let ?want = "want_mask (length attrs) (sc_projection cfg)"
  let ?dec = "\<lambda>hb. decode_stripe env (cs_rel st) hb cols ?want (scan_predicates cfg) (scan_skips cfg) []"
  let ?kept = "kept_rows cols (scan_predicates cfg) (scan_skips cfg)"
  have want: "length ?want = length cols" using coldesc_cols [OF cols] by (simp add: want_mask_def split: option.split)
  have dec: "\<exists>rows. ?dec hb = Inr rows \<and> map (row_cells env cols) rows = map Inr (map (masked ?want) (?kept css))"
    if "stripe_holds env cols (cs_rel st) hb css" "list_all (cells_wf cols) css \<and> length css < 2 ^ 32" for hb css
    using decode_stripe_stored [OF that(1) extends_refl _ _ env want, of "scan_predicates cfg" "scan_skips cfg" "[]"] that(2) pos
    by (fastforce simp: list_all2_Inr_map)
  have "list_all2 (\<lambda>s css. stripe_holds env cols (cs_rel st) (sr_header_block s) css) (cs_catalog st) stored"
    "list_all (\<lambda>css. list_all (cells_wf cols) css \<and> length css < 2 ^ 32) stored"
    using h by (auto simp: table_holds_def)
  then have "\<exists>batches. list_all2 (\<lambda>hb rows. ?dec hb = Inr rows) (map sr_header_block (cs_catalog st)) batches \<and>
      map (row_cells env cols) (concat batches) = map Inr (concat (map (\<lambda>css. map (masked ?want) (?kept css)) stored))"
  proof (induction rule: list_all2_induct)
    case (Cons s ss css csss)
    obtain rows where "?dec (sr_header_block s) = Inr rows" "map (row_cells env cols) rows = map Inr (map (masked ?want) (?kept css))"
      using dec Cons by auto
    moreover obtain batches where "list_all2 (\<lambda>hb rows. ?dec hb = Inr rows) (map sr_header_block ss) batches"
      "map (row_cells env cols) (concat batches) = map Inr (concat (map (\<lambda>css. map (masked ?want) (?kept css)) csss))"
      using Cons by auto
    ultimately show ?case by (intro exI [of _ "rows # batches"]) simp
  qed simp
  then obtain batches where b: "list_all2 (\<lambda>hb rows. ?dec hb = Inr rows) (read_visible_stripes st) batches"
    "map (row_cells env cols) (concat batches) = map Inr (concat (map (\<lambda>css. map (masked ?want) (?kept css)) stored))"
    unfolding visible_order [OF h] by blast
  have "scan_yields env attrs cfg st (columnar_scan_begin st) (concat batches @ pw_rows (pending_of st))"
    by (rule scan_yields_stripes [OF cols]) (use b(1) in \<open>simp_all add: columnar_scan_begin_def scan_predicates_def scan_skips_def\<close>)
  moreover have "map (row_cells env cols) (pw_rows (pending_of st)) = map Inr pend"
    using h by (simp add: table_holds_def rows_hold_def list_all2_Inr_id)
  ultimately show ?thesis using b(2) by (intro exI [of _ "concat batches @ pw_rows (pending_of st)"]) simp
qed

text \<open>The scan is a function of the state: no other row list can come out.\<close>

inductive_cases scan_yieldsE: "scan_yields env attrs cfg st sc rows"

lemma scan_yields_row:
  "scan_yields env attrs cfg st sc rows \<Longrightarrow> columnar_scan_getnextslot env attrs cfg st sc = Inr (sc', Some row) \<Longrightarrow>
   \<exists>rs. rows = row # rs \<and> scan_yields env attrs cfg st sc' rs"
  by (erule scan_yieldsE) simp_all

lemma scan_yields_end:
  "scan_yields env attrs cfg st sc rows \<Longrightarrow> columnar_scan_getnextslot env attrs cfg st sc = Inr (sc', None) \<Longrightarrow> rows = []"
  by (erule scan_yieldsE) simp_all

lemma scan_yields_det: "scan_yields env attrs cfg st sc rows \<Longrightarrow> scan_yields env attrs cfg st sc rows' \<Longrightarrow> rows' = rows"
proof (induction arbitrary: rows' rule: scan_yields.induct)
  case (scan_end sc sc')
  then show ?case using scan_yields_end by blast
next
  case (scan_row sc sc' row rows)
  obtain rs where "rows' = row # rs" "scan_yields env attrs cfg st sc' rs"
    using scan_yields_row [OF scan_row.prems scan_row.hyps(1)] by blast
  then show ?case using scan_row.IH by blast
qed

section \<open>Bounded write memory\<close>

definition pending_bytes_ok :: "columnar_state \<Rightarrow> bool" where
  "pending_bytes_ok st \<longleftrightarrow> pw_bytes (pending_of st) = sum_list (map length (pw_rows (pending_of st)))"

lemma flush_pending_empties: "flush_pending env attrs st = Inr st' \<Longrightarrow> cs_pending st' = None"
  by (auto simp: flush_pending_def bind_r_Inr_iff Let_def split_beta split: option.splits if_splits)

lemma push_row_bytes: "pending_bytes_ok st \<Longrightarrow> pending_bytes_ok (push_row st row)"
  by (simp add: pending_bytes_ok_def push_row_def pending_of_def Let_def)

lemma accumulate_row_bytes:
  assumes "pending_bytes_ok st" and "accumulate_row env attrs mwm st v = Inr st'"
  shows "pending_bytes_ok st' \<and> pw_bytes (pending_of st') \<le> write_budget mwm"
proof -
  let ?row = "row_of_slot env attrs v"
  obtain st1 where st1: "(if needs_flush_first mwm st ?row then flush_pending env attrs st else Inr st) = Inr st1"
    "(if pw_bytes (pending_of (push_row st1 ?row)) > write_budget mwm then flush_pending env attrs (push_row st1 ?row)
      else Inr (push_row st1 ?row)) = Inr st'"
    using assms(2) by (auto simp: accumulate_row_def Let_def bind_r_Inr_iff)
  have empty: "cs_pending s = None \<Longrightarrow> pending_bytes_ok s \<and> pw_bytes (pending_of s) \<le> write_budget mwm" for s
    by (simp add: pending_bytes_ok_def pending_of_def)
  have "pending_bytes_ok st1"
    using st1(1) assms(1) empty flush_pending_empties by (auto split: if_splits)
  then have "pending_bytes_ok (push_row st1 ?row)" by (rule push_row_bytes)
  then show ?thesis using st1(2) empty flush_pending_empties by (auto split: if_splits)
qed

section \<open>A row within the budget\<close>

lemma accumulate_small:
  assumes "pw_bytes (pending_of st) + length (row_of_slot env attrs v) \<le> write_budget mwm"
  shows "accumulate_row env attrs mwm st v = Inr (push_row st (row_of_slot env attrs v))"
  using assms
  by (auto simp: accumulate_row_def needs_flush_first_def push_row_def pending_of_def Let_def split: option.splits)

section \<open>A concrete environment\<close>

text \<open>A table of one \<open>int2\<close> column over a tuple format of one tag byte and the word, without compression.\<close>

definition int2_attrs :: "attribute list" where
  "int2_attrs = [\<lparr>attlen = 2, attbyval = True, atttypid = 21\<rparr>]"

definition int2_cols :: "column_desc list" where
  "int2_cols = [\<lparr>cd_attlen = Some 2, cd_byval = True, cd_mm = I2, cd_typid = 21\<rparr>]"

definition int2_form :: "datum option list \<Rightarrow> bytes" where
  "int2_form ds = (case ds of [Some (ByVal w)] \<Rightarrow> 1 # to_le w | _ \<Rightarrow> [0])"

definition int2_env :: col_env where
  "int2_env = \<lparr>ce_form = int2_form,
     ce_deform = (\<lambda>b. case b of [] \<Rightarrow> [None] | x # xs \<Rightarrow> if x = 1 then [Some (ByVal (from_le xs))] else [None]),
     ce_detoast = (\<lambda>m. case varlena_payload m of Inr b \<Rightarrow> plain_of b | Inl _ \<Rightarrow> m), ce_zstd = Some, ce_unzstd = Some\<rparr>"

lemma int2_coldesc: "map_r coldesc int2_attrs = Inr int2_cols"
  by (simp add: int2_attrs_def int2_cols_def coldesc_def minmax_kind_of_def)

lemma int2_env_ok: "env_ok int2_env int2_cols"
  unfolding env_ok_def
proof (intro conjI allI impI)
  show "plain_varlena (ce_detoast int2_env m)" "varlena_payload (ce_detoast int2_env m) = varlena_payload m" if "flat_varlena m" for m
    using flat_payload [OF that] plain_of_plain by (auto simp: int2_env_def)
  show "\<exists>c. ce_zstd int2_env b = Some c \<and> ce_unzstd int2_env c = Some b" for b by (simp add: int2_env_def)
  fix ds assume "flat_tuple int2_cols ds"
  then obtain v where v: "ds = [v]" "\<forall>d. v = Some d \<longrightarrow> datum_flat (hd int2_cols) d"
    by (auto simp: flat_tuple_def int2_cols_def list_all2_Cons1 split: option.splits)
  then have "ce_deform int2_env (ce_form int2_env ds) = [v]"
    by (cases v) (auto simp: int2_env_def int2_form_def datum_flat_def datum_ok_def int2_cols_def split: datum.splits)
  note d = this
  show "length (ce_deform int2_env (ce_form int2_env ds)) = length int2_cols" by (simp add: d int2_cols_def)
  fix i assume "i < length int2_cols"
  then show "same_cell (int2_cols ! i) (ds ! i) (ce_deform int2_env (ce_form int2_env ds) ! i)"
    unfolding d unfolding v(1) using v(2) by (cases v) (simp_all add: int2_cols_def)
qed

text \<open>One flush of one row.\<close>

definition int2_row :: "u64 \<Rightarrow> datum option list" where
  "int2_row w = [Some (ByVal w)]"

lemma int2_slot_ok: "slot_ok int2_env int2_cols (int2_row w)"
  by (simp add: slot_ok_def int2_cols_def int2_row_def datum_ok_def)

lemma int2_slot_cells: "slot_cells int2_env int2_attrs int2_cols (int2_row w) = [Some (take 2 (to_le w))]"
  by (simp add: slot_cells_def plain_cells_def detoast_values_def int2_row_def int2_attrs_def int2_cols_def plain_cell_def plain_value_def)

lemma int2_row_cells: "row_cells int2_env int2_cols (row_of_slot int2_env int2_attrs (int2_row w)) = Inr [Some (take 2 (to_le w))]"
  using row_of_slot_cells [OF int2_env_ok int2_slot_ok int2_coldesc, of w] int2_slot_cells by simp

lemma int2_row_length: "length (row_of_slot int2_env int2_attrs (int2_row w)) = 9"
  by (simp add: row_of_slot_def detoast_values_def int2_row_def int2_attrs_def int2_env_def int2_form_def)

definition int2_pending :: "u64 \<Rightarrow> columnar_state" where
  "int2_pending w = push_row fresh_table (row_of_slot int2_env int2_attrs (int2_row w))"

lemma int2_flush_fits: "flush_fits int2_env int2_attrs (int2_pending w)"
proof -
  let ?css = "[[Some (take 2 (to_le w))]] :: bytes option list list"
  have rows: "pw_rows (pending_of (int2_pending w)) = [row_of_slot int2_env int2_attrs (int2_row w)]"
    by (simp add: int2_pending_def push_row_def pending_of_def fresh_table_def Let_def)
  have css: "map_r (row_cells int2_env int2_cols) (pw_rows (pending_of (int2_pending w))) = Inr ?css"
    by (simp add: rows int2_row_cells)
  have grid: "stripe_grid (Suc 0) (Suc 0) = [(0, 0)]" by (simp add: stripe_grid_def div_ceil_def CHUNK_GROUP_ROWS_def)
  have raw: "ec_raw (enc_of int2_cols ?css 0 0) = take 2 (to_le w)"
    by (simp add: enc_of_def encode_column_fields column_of_def row_group_eq CHUNK_GROUP_ROWS_def cell_bytes_def int2_cols_def)
  have fits: "cells_fit int2_env int2_cols ?css"
    by (simp add: cells_fit_def int2_cols_def [THEN arg_cong [where f = length]] grid cell_fits_def raw int2_env_def
        group_count_def div_ceil_def CHUNK_GROUP_ROWS_def CHUNK_DIR_ENTRY_LEN_def)
  have cnt: "reserve (cs_rel (int2_pending w)) RowNumber 0 = Inr (cs_rel (int2_pending w), 0)"
    using reserve_row [of "cs_rel fresh_table" "\<lparr>reserved_row_number = 0, reserved_stripe_id = 0\<rparr>" 0]
    by (simp add: int2_pending_def push_row_def fresh_rel metapage_is_def Let_def)
  let ?p = "int2_pending w" and ?m = "\<lparr>reserved_row_number = 0, reserved_stripe_id = 0\<rparr>"
  have rel: "cs_rel ?p = [[col_meta_to_bytes ?m]]" and pend: "cs_pending ?p = Some (pending_of ?p)"
    by (simp_all add: int2_pending_def push_row_def fresh_rel pending_of_def Let_def)
  have k: "length int2_cols = Suc 0" "length int2_attrs = Suc 0" by (simp_all add: int2_cols_def int2_attrs_def)
  define columns where "columns = map (\<lambda>c. map (\<lambda>cs. cs ! c) ?css) [0..<length int2_cols]"
  have "deform_rows_into_columns int2_env (pw_rows (pending_of ?p)) int2_cols [0..<length int2_cols] = Inr columns"
    unfolding columns_def by (rule deform_rows_cells) (simp_all add: rows int2_row_cells k)
  then have d: "deform_rows_into_columns int2_env (pw_rows (pending_of ?p)) int2_cols [0] = Inr columns" by (simp add: k)
  obtain rel1 es where wc: "write_cell int2_env int2_cols columns 1 (cs_rel ?p, []) (0, 0) = Inr (rel1, es)"
    using write_cell_ok [OF int2_env_ok] by fastforce
  have len1: "length rel1 = 2" and es: "length es = 1"
    using wc group_cells_column [of 0 "length int2_cols" ?css 0] raw
    by (auto simp: write_cell_def columns_def Let_def write_chunk_eq rel k enc_of_def int2_env_def blob_chunks(2) div_ceil_def CHUNK_def)
  have ws: "write_cells int2_env int2_cols columns (length (pw_rows (pending_of ?p))) (cs_rel ?p) = Inr (rel1, es)"
    using wc by (simp add: write_cells_def rows k grid)
  have m1: "metapage_is rel1 ?m" using write_cell_grows [OF wc, of ?m] rel by (simp add: metapage_is_def)
  have ne: "rel1 \<noteq> []" using len1 by auto
  note r1 = reserve_row [OF m1] and r2 = reserve_stripe [OF metapage_is_update [OF ne]]
  have dir: "length (blob_chunks (serialize_directory es)) = 1"
    by (simp add: blob_chunks(2) length_serialize_directory es CHUNK_DIR_ENTRY_LEN_def CHUNK_def div_ceil_def)
  have "\<exists>st'. flush_pending int2_env int2_attrs ?p = Inr st' \<and> length (cs_rel st') = 4"
    using ne by (simp add: flush_pending_def pend rows [THEN arg_cong [where f = "\<lambda>x. x = []"]] int2_coldesc k(2) d ws r1 r2 write_chunk_eq dir len1
        extend_chunk_ok header_fits Let_def)
  then show ?thesis using css fits cnt by (auto simp: flush_fits_def int2_coldesc)
qed

lemma int2_insert:
  assumes "pw_bytes (pending_of st) + 9 \<le> 1024"
  shows "accumulate_row int2_env int2_attrs 1 st (int2_row w) = Inr (push_row st (row_of_slot int2_env int2_attrs (int2_row w)))"
    and "op_fits int2_env int2_attrs 1 st (Insert (int2_row w))"
proof -
  show "accumulate_row int2_env int2_attrs 1 st (int2_row w) = Inr (push_row st (row_of_slot int2_env int2_attrs (int2_row w)))"
    using assms by (intro accumulate_small) (simp add: int2_row_length write_budget_def)
  show "op_fits int2_env int2_attrs 1 st (Insert (int2_row w))"
    using assms by (cases "cs_pending st")
      (simp_all add: op_fits_def needs_flush_first_def push_row_def pending_of_def int2_row_length write_budget_def Let_def)
qed

text \<open>A table with one stripe of one row.\<close>

lemma int2_table:
  "\<exists>st. run_ops int2_env int2_attrs 1 fresh_table [Insert (int2_row w), FinishBulk] = Inr st \<and> cs_pending st = None \<and>
     run_fits int2_env int2_attrs 1 fresh_table [Insert (int2_row w), FinishBulk] \<and>
     table_holds int2_env int2_cols st [[[Some (take 2 (to_le w))]]] []"
proof -
  have p0: "pw_bytes (pending_of fresh_table) + 9 \<le> 1024" by (simp add: pending_of_def fresh_table_def)
  note i = int2_insert [OF p0, of w, folded int2_pending_def]
  have h: "table_holds int2_env int2_cols (int2_pending w) [] [[Some (take 2 (to_le w))]]"
    using push_holds [OF fresh_holds int2_row_cells, of w] row_of_slot_cells [OF int2_env_ok int2_slot_ok int2_coldesc, of w]
    by (simp add: int2_pending_def int2_slot_cells)
  obtain st where st: "flush_pending int2_env int2_attrs (int2_pending w) = Inr st"
    "table_holds int2_env int2_cols st [[[Some (take 2 (to_le w))]]] []"
    using flush_holds [OF int2_coldesc int2_env_ok h int2_flush_fits] by auto
  then show ?thesis using i int2_flush_fits [of w] flush_pending_empties [OF st(1)]
    by (intro exI [of _ st]) (simp add: apply_op_def columnar_tuple_insert_def columnar_finish_bulk_insert_def op_fits_def [of _ _ _ _ FinishBulk])
qed

section \<open>Properties\<close>

definition full_scan :: scan_config where
  "full_scan = \<lparr>sc_projection = None, sc_predicates = None, sc_enable_skip = False\<rparr>"

definition pruned_scan :: "zone_predicate list \<Rightarrow> scan_config" where
  "pruned_scan preds = \<lparr>sc_projection = None, sc_predicates = Some preds, sc_enable_skip = True\<rparr>"

lemma masked_wf: "cells_wf cols cs \<Longrightarrow> masked (want_mask (length cols) None) cs = cs"
  using masked_all [of cs "length cols"] by (simp add: cells_wf_def want_mask_def list_all2_lengthD)

lemma map_masked_wf: "list_all (cells_wf cols) css \<Longrightarrow> map (masked (want_mask (length cols) None)) css = css"
  by (induction css) (simp_all add: masked_wf)

lemma kept_rows_wf: "list_all (cells_wf cols) css \<Longrightarrow> list_all (cells_wf cols) (kept_rows cols preds skip css)"
  unfolding kept_rows_def kept_groups_def using row_group_subset by (fastforce simp: list_all_iff)

lemma all_columns_scan:
  assumes "map_r coldesc attrs = Inr cols" and "env_ok env cols" and "table_holds env cols st stored pend" and "cols \<noteq> []"
    and "sc_projection cfg = None"
  shows "\<exists>rows. scan_yields env attrs cfg st (columnar_scan_begin st) rows \<and>
    map (row_cells env cols) rows = map Inr (concat (map (kept_rows cols (scan_predicates cfg) (scan_skips cfg)) stored) @ pend)"
proof -
  have "list_all (list_all (cells_wf cols)) stored" using assms(3) by (auto simp: table_holds_def list_all_iff)
  then have eq: "map (\<lambda>css. map (masked (want_mask (length attrs) (sc_projection cfg))) (kept_rows cols (scan_predicates cfg) (scan_skips cfg) css)) stored =
      map (kept_rows cols (scan_predicates cfg) (scan_skips cfg)) stored"
    unfolding coldesc_cols [OF assms(1), symmetric] assms(5)
    by (intro map_cong refl map_masked_wf kept_rows_wf) (simp add: list_all_iff)
  show ?thesis using table_scan [OF assms(1-4), of cfg] unfolding eq .
qed

text \<open>C12: Whatever the memory budget, and wherever flushes happen in between, every insert, bulk end and pre-commit flush
  on a new table succeeds, and a scan afterwards ends and returns the inserted rows in insertion order, value by
  value: by-value and by-reference datums, varlenas and nulls. It relies on the documented behaviour of the libraries
  (\<open>env_ok\<close>: detoasting keeps the payload, forming and deforming a tuple are inverse, zstd into memory succeeds and is inverted),
  on slots whose varlenas can be detoasted (\<open>slot_ok\<close>) and on the size limits of the format (\<open>run_fits\<close>: chunks and
  directory below 4 GiB, fewer than \<open>2 ^ 31\<close> rows per stripe, \<open>2 ^ 63\<close> row numbers and \<open>2 ^ 32\<close> blocks).\<close>

theorem columnar_insert_scan:
  assumes "map_r coldesc attrs = Inr cols" and "cols \<noteq> []" and "env_ok env cols" and "list_all (slot_ok env cols) (op_slots ops)"
    and "run_fits env attrs mwm fresh_table ops"
  shows "\<exists>st rows. run_ops env attrs mwm fresh_table ops = Inr st \<and>
    scan_yields env attrs full_scan st (columnar_scan_begin st) rows \<and>
    map (row_cells env cols) rows = map (\<lambda>v. Inr (slot_cells env attrs cols v)) (op_slots ops)"
proof -
  obtain st stored pend where st: "run_ops env attrs mwm fresh_table ops = Inr st" "table_holds env cols st stored pend"
    "concat stored @ pend = map (slot_cells env attrs cols) (op_slots ops)"
    using run_holds [OF assms(1,3) fresh_holds assms(4,5)] by auto
  obtain rows where "scan_yields env attrs full_scan st (columnar_scan_begin st) rows"
    "map (row_cells env cols) rows = map Inr (concat stored @ pend)"
    using all_columns_scan [OF assms(1,3) st(2) assms(2), of full_scan]
    by (auto simp: full_scan_def scan_skips_def scan_predicates_def kept_rows_all [abs_def])
  then show ?thesis using st(1,3) by (intro exI [of _ st] exI [of _ rows]) (simp add: comp_def)
qed

theorem columnar_insert_scan_witness:
  "\<exists>st rows. run_ops int2_env int2_attrs 1 fresh_table [Insert (int2_row 7), FinishBulk] = Inr st \<and>
    scan_yields int2_env int2_attrs full_scan st (columnar_scan_begin st) rows \<and>
    map (row_cells int2_env int2_cols) rows = [Inr [Some (take 2 (to_le (7 :: u64)))]]"
proof -
  have "run_fits int2_env int2_attrs 1 fresh_table [Insert (int2_row 7), FinishBulk]" using int2_table [of 7] by blast
  from columnar_insert_scan [OF int2_coldesc _ int2_env_ok _ this]
  show ?thesis by (simp add: op_slots_def int2_slot_ok int2_slot_cells) (simp add: int2_cols_def)
qed

text \<open>C13: Zone-map skipping never changes a query's answer as long as no compared cell is NaN: with any pushed
  predicates the scan returns a subsequence of the rows, and filtering it by the predicates gives exactly what
  filtering all rows gives. The libraries, the slots and the size limits are those of the full scan (\<open>env_ok\<close>, \<open>slot_ok\<close>,
  \<open>run_fits\<close>); no flush is assumed to succeed.\<close>

theorem columnar_pruned_scan:
  assumes "map_r coldesc attrs = Inr cols" and "cols \<noteq> []" and "env_ok env cols" and "list_all (slot_ok env cols) (op_slots ops)"
    and "run_fits env attrs mwm fresh_table ops"
    and "list_all (row_nan_free cols preds) (map (slot_cells env attrs cols) (op_slots ops))"
  shows "\<exists>st rows css. run_ops env attrs mwm fresh_table ops = Inr st \<and>
    scan_yields env attrs (pruned_scan preds) st (columnar_scan_begin st) rows \<and> map (row_cells env cols) rows = map Inr css \<and>
    subseq css (map (slot_cells env attrs cols) (op_slots ops)) \<and>
    filter (row_passes cols preds) css = filter (row_passes cols preds) (map (slot_cells env attrs cols) (op_slots ops))"
proof -
  let ?skip = "scan_skips (pruned_scan preds)"
  obtain st stored pend where st: "run_ops env attrs mwm fresh_table ops = Inr st" "table_holds env cols st stored pend"
    "concat stored @ pend = map (slot_cells env attrs cols) (op_slots ops)"
    using run_holds [OF assms(1,3) fresh_holds assms(4,5)] by auto
  have p: "scan_predicates (pruned_scan preds) = preds" by (simp add: scan_predicates_def pruned_scan_def)
  let ?css = "concat (map (kept_rows cols preds ?skip) stored) @ pend"
  have rows: "\<exists>rows. scan_yields env attrs (pruned_scan preds) st (columnar_scan_begin st) rows \<and> map (row_cells env cols) rows = map Inr ?css"
    using all_columns_scan [OF assms(1,3) st(2) assms(2), of "pruned_scan preds"] p by (simp add: pruned_scan_def)
  have nan: "list_all (row_nan_free cols preds) (concat stored @ pend)" unfolding st(3) by (rule assms(6))
  then have "filter (row_passes cols preds) (concat (map (kept_rows cols preds ?skip) stored)) = filter (row_passes cols preds) (concat stored)"
    using kept_rows_filter by (induction stored) auto
  moreover have "subseq (concat (map (kept_rows cols preds ?skip) stored)) (concat stored)"
    by (induction stored) (auto intro: list_emb_append_mono kept_rows_subseq)
  ultimately have "subseq ?css (concat stored @ pend)" "filter (row_passes cols preds) ?css = filter (row_passes cols preds) (concat stored @ pend)"
    by (auto intro: list_emb_append_mono)
  then show ?thesis using rows st(1) unfolding st(3) by blast
qed

theorem columnar_pruned_scan_witness:
  "\<exists>st rows css. run_ops int2_env int2_attrs 1 fresh_table [Insert (int2_row 7), FinishBulk] = Inr st \<and>
    scan_yields int2_env int2_attrs (pruned_scan [\<lparr>zp_col = 0, zp_op = ZGt, zp_const_bits = 9\<rparr>]) st (columnar_scan_begin st) rows \<and>
    map (row_cells int2_env int2_cols) rows = map Inr css \<and> subseq css [[Some (take 2 (to_le (7 :: u64)))]]"
proof -
  let ?p = "\<lparr>zp_col = 0, zp_op = ZGt, zp_const_bits = 9\<rparr>"
  have fits: "run_fits int2_env int2_attrs 1 fresh_table [Insert (int2_row 7), FinishBulk]" using int2_table [of 7] by blast
  have slots: "op_slots [Insert (int2_row 7), FinishBulk] = [int2_row 7]" by (simp add: op_slots_def)
  have ne: "int2_cols \<noteq> []" by (simp add: int2_cols_def)
  have ok: "list_all (slot_ok int2_env int2_cols) (op_slots [Insert (int2_row 7), FinishBulk])" by (simp add: slots int2_slot_ok)
  have nan: "list_all (row_nan_free int2_cols [?p]) (map (slot_cells int2_env int2_attrs int2_cols) (op_slots [Insert (int2_row 7), FinishBulk]))"
    by (simp add: slots int2_slot_cells row_nan_free_def) (simp add: int2_cols_def nan_cell_def float_cell_def)
  show ?thesis using columnar_pruned_scan [OF int2_coldesc ne int2_env_ok ok fits nan] unfolding slots by (auto simp: int2_slot_cells)
qed

text \<open>C38: The pending buffer is bounded: after every insert the buffered bytes, counted exactly, are at most
  \<open>maintenance_work_mem\<close>, however wide the row.\<close>

theorem columnar_write_memory:
  assumes "pending_bytes_ok st" and "accumulate_row env attrs mwm st v = Inr st'"
  shows "sum_list (map length (pw_rows (pending_of st'))) \<le> write_budget mwm \<and> pending_bytes_ok st'"
  using accumulate_row_bytes [OF assms] by (simp add: pending_bytes_ok_def)

theorem columnar_write_memory_witness:
  "sum_list (map length (pw_rows (pending_of (push_row fresh_table (row_of_slot int2_env int2_attrs (int2_row 7)))))) \<le> write_budget 1"
proof -
  have "pending_bytes_ok fresh_table" by (simp add: pending_bytes_ok_def pending_of_def fresh_table_def)
  moreover have "accumulate_row int2_env int2_attrs 1 fresh_table (int2_row 7) =
      Inr (push_row fresh_table (row_of_slot int2_env int2_attrs (int2_row 7)))"
    by (rule int2_insert(1)) (simp add: pending_of_def fresh_table_def)
  ultimately show ?thesis using columnar_write_memory by blast
qed


end
