(* ===== verification/GraphCsr.thy ===== *)
theory GraphCsr
  imports IvfIndex ColumnarCodec
begin

text \<open>
  The persisted graph of \<open>graph.rs\<close>: the compressed-sparse-row adjacency that \<open>graph_build\<close> makes of an edge table, its
  bytes in \<open>theodb.graph_csr\<close>, and the frontier search \<open>expand\<close>. Indexing with \<open>[]\<close> panics out of range: \<open>None\<close> in the
  searches, \<open>GraphPanic\<close> in the reader. Counts of rows in memory are \<open>nat\<close>; the words of the format keep their width.
\<close>

section \<open>The structure and its bytes\<close>

record csr =
  cg_nnodes :: u64
  cg_offsets :: "u64 list"
  cg_adj :: "u32 list"

datatype graph_error = CsrHeaderTruncated | CsrLengthMismatch nat nat | NegativeNode | NodeTooBig
  | NoPersistedCsr | ParallelArrays | GraphPanic

definition csr_to_bytes :: "csr \<Rightarrow> bytes" where
  "csr_to_bytes c = to_le (cg_nnodes c) @ to_le (of_nat (length (cg_adj c)) :: u64)
     @ concat (map to_le (cg_offsets c)) @ concat (map to_le (cg_adj c))"

definition read_u64s :: "nat \<Rightarrow> nat \<Rightarrow> bytes \<Rightarrow> u64 list option" where
  "read_u64s p n b = (if p + 8 * n \<le> length b then Some (map (\<lambda>i. u64_at (p + 8 * i) b) [0..<n]) else None)"

definition read_u32s :: "nat \<Rightarrow> nat \<Rightarrow> bytes \<Rightarrow> u32 list option" where
  "read_u32s p n b = (if p + 4 * n \<le> length b then Some (map (\<lambda>i. u32_at (p + 4 * i) b) [0..<n]) else None)"

text \<open>The expected length is computed in \<open>usize\<close>, where it wraps in a release build.\<close>

definition csr_from_bytes :: "bytes \<Rightarrow> graph_error + csr" where
  "csr_from_bytes b =
     (if length b < 16 then Inl CsrHeaderTruncated
      else let nnodes = u64_at 0 b; total_adj = u64_at 8 b; noff = nnodes + 1;
               off_end = 16 + noff * 8; adj_end = off_end + total_adj * 4
        in if length b \<noteq> unat adj_end then Inl (CsrLengthMismatch (length b) (unat adj_end))
           else case read_u64s 16 (unat noff) b of None \<Rightarrow> Inl GraphPanic
             | Some offsets \<Rightarrow> (case read_u32s (unat off_end) (unat total_adj) b of None \<Rightarrow> Inl GraphPanic
                 | Some adj \<Rightarrow> Inr \<lparr>cg_nnodes = nnodes, cg_offsets = offsets, cg_adj = adj\<rparr>))"

section \<open>The build\<close>

text \<open>The rows of the edge scan: a row with a null endpoint is skipped, an id that is no \<open>u32\<close> is refused.\<close>

fun scan_edges :: "(i64 option \<times> i64 option) list \<Rightarrow> graph_error + (nat \<times> nat) list" where
  "scan_edges [] = Inr []"
| "scan_edges (row # rows) =
     (case row of
        (Some s, Some d) \<Rightarrow>
          if sint s < 0 \<or> sint d < 0 then Inl NegativeNode
          else if sint s > int u32_max \<or> sint d > int u32_max then Inl NodeTooBig
          else bind_r (scan_edges rows) (\<lambda>es. Inr ((unat s, unat d) # es))
      | _ \<Rightarrow> scan_edges rows)"

definition edge_nodes :: "(nat \<times> nat) list \<Rightarrow> nat" where
  "edge_nodes es = nat (foldl (\<lambda>m (s, d). max (max m (int s)) (int d)) (- 1) es + 1)"

definition count_degrees :: "nat \<Rightarrow> (nat \<times> nat) list \<Rightarrow> nat list" where
  "count_degrees nn es =
     foldl (\<lambda>deg (s, d). let deg' = deg[s := deg ! s + 1] in deg'[d := deg' ! d + 1]) (replicate (nn + 1) 0) es"

fun prefix_sums :: "nat \<Rightarrow> nat list \<Rightarrow> nat list" where
  "prefix_sums acc [] = [acc]"
| "prefix_sums acc (d # ds) = acc # prefix_sums (acc + d) ds"

definition place :: "nat list \<times> u32 list \<Rightarrow> nat \<times> nat \<Rightarrow> nat list \<times> u32 list" where
  "place st e = (case (st, e) of ((cur, adj), (u, v)) \<Rightarrow> (cur[u := cur ! u + 1], adj[cur ! u := of_nat v]))"

definition fill_edge :: "nat list \<times> u32 list \<Rightarrow> nat \<times> nat \<Rightarrow> nat list \<times> u32 list" where
  "fill_edge st e = place (place st (fst e, snd e)) (snd e, fst e)"

definition build_csr :: "(i64 option \<times> i64 option) list \<Rightarrow> graph_error + csr" where
  "build_csr rows = bind_r (scan_edges rows) (\<lambda>es.
     let nn = edge_nodes es; offsets = prefix_sums 0 (take nn (count_degrees nn es));
         adj = snd (foldl fill_edge (offsets, replicate (last offsets) 0) es)
     in Inr \<lparr>cg_nnodes = of_nat nn, cg_offsets = map of_nat offsets, cg_adj = adj\<rparr>)"

section \<open>The frontier search\<close>

text \<open>The visited set, a bitset of 64-bit words.\<close>

definition bs_get :: "u64 list \<Rightarrow> nat \<Rightarrow> bool option" where
  "bs_get bs i = map_option (\<lambda>w. drop_bit (i mod 64) w AND 1 = 1) (idx_get bs (i div 64))"

definition bs_set :: "u64 list \<Rightarrow> nat \<Rightarrow> u64 list option" where
  "bs_set bs i = map_option (\<lambda>w. bs[i div 64 := w OR push_bit (i mod 64) 1]) (idx_get bs (i div 64))"

definition adj_range :: "csr \<Rightarrow> nat \<Rightarrow> u32 list option" where
  "adj_range c u =
     Option.bind (idx_get (cg_offsets c) u) (\<lambda>a0. Option.bind (idx_get (cg_offsets c) (u + 1)) (\<lambda>a1.
       if unat a0 \<le> unat a1 \<and> unat a1 \<le> length (cg_adj c)
       then Some (slice_at (unat a0) (unat a1 - unat a0) (cg_adj c)) else None))"

fun seed_frontier :: "nat \<Rightarrow> u64 list \<times> u32 list \<Rightarrow> i64 list \<Rightarrow> (u64 list \<times> u32 list) option" where
  "seed_frontier nn st [] = Some st"
| "seed_frontier nn (vis, fr) (s # ss) =
     (if sint s < 0 \<or> unat s \<ge> nn then seed_frontier nn (vis, fr) ss
      else Option.bind (bs_get vis (unat s)) (\<lambda>seen.
        if seen then seed_frontier nn (vis, fr) ss
        else Option.bind (bs_set vis (unat s)) (\<lambda>vis'. seed_frontier nn (vis', fr @ [ucast s]) ss)))"

fun mark_nbrs :: "u64 list \<times> u32 list \<Rightarrow> u32 list \<Rightarrow> (u64 list \<times> u32 list) option" where
  "mark_nbrs st [] = Some st"
| "mark_nbrs (vis, nxt) (nb # nbs) =
     Option.bind (bs_get vis (unat nb)) (\<lambda>seen.
       if seen then mark_nbrs (vis, nxt) nbs
       else Option.bind (bs_set vis (unat nb)) (\<lambda>vis'. mark_nbrs (vis', nxt @ [nb]) nbs))"

fun expand_frontier :: "csr \<Rightarrow> u64 list \<times> u32 list \<Rightarrow> u32 list \<Rightarrow> (u64 list \<times> u32 list) option" where
  "expand_frontier c st [] = Some st"
| "expand_frontier c st (node # fr) =
     Option.bind (adj_range c (unat node)) (\<lambda>nbs.
       Option.bind (mark_nbrs st nbs) (\<lambda>st'. expand_frontier c st' fr))"

fun expand_hops :: "csr \<Rightarrow> nat \<Rightarrow> u64 list \<Rightarrow> u32 list \<Rightarrow> u64 list option" where
  "expand_hops c 0 vis fr = Some vis"
| "expand_hops c (Suc h) vis fr =
     Option.bind (expand_frontier c (vis, []) fr) (\<lambda>(vis', nxt). if nxt = [] then Some vis' else expand_hops c h vis' nxt)"

definition hop_count :: "i32 \<Rightarrow> nat" where
  "hop_count max_hops = nat (max (sint max_hops) 0)"

definition csr_expand :: "csr \<Rightarrow> i64 list \<Rightarrow> i32 \<Rightarrow> i64 list option" where
  "csr_expand c seeds max_hops =
     (let nn = unat (cg_nnodes c) in
      Option.bind (seed_frontier nn (replicate (nn div 64 + 1) 0, []) seeds) (\<lambda>(vis, fr).
        map_option (\<lambda>vis'. map of_nat (filter (\<lambda>i. bs_get vis' i = Some True) [0..<nn]))
          (expand_hops c (hop_count max_hops) vis fr)))"

section \<open>Reachability\<close>

text \<open>The specification: the nodes within \<open>h\<close> steps of \<open>S\<close>, for a successor function.\<close>

fun reach_within :: "(nat \<Rightarrow> nat set) \<Rightarrow> nat set \<Rightarrow> nat \<Rightarrow> nat set" where
  "reach_within E S 0 = S"
| "reach_within E S (Suc h) = reach_within E S h \<union> \<Union> (E ` reach_within E S h)"

text \<open>A level of a breadth-first search: all nodes seen, and the ones whose successors are still to be looked at.\<close>

definition bfs_level :: "(nat \<Rightarrow> nat set) \<Rightarrow> nat set \<Rightarrow> nat \<Rightarrow> nat set \<Rightarrow> nat set \<Rightarrow> bool" where
  "bfs_level E S h V F \<longleftrightarrow> V = reach_within E S h \<and> F \<subseteq> V \<and> (\<forall>u \<in> V - F. E u \<subseteq> V)"

lemma bfs_level_0: "bfs_level E S 0 S S"
  by (simp add: bfs_level_def)

lemma bfs_level_Suc:
  assumes "bfs_level E S h V F"
  shows "bfs_level E S (Suc h) (V \<union> \<Union> (E ` F)) (\<Union> (E ` F) - V)"
proof -
  have "\<Union> (E ` V) \<subseteq> V \<union> \<Union> (E ` F)" using assms by (auto simp: bfs_level_def)
  moreover have "\<Union> (E ` F) \<subseteq> \<Union> (E ` V)" using assms by (auto simp: bfs_level_def)
  ultimately show ?thesis using assms by (auto simp: bfs_level_def)
qed

lemma bfs_level_done:
  assumes "bfs_level E S h V {}"
  shows "reach_within E S (h + k) = V"
proof (induction k)
  case 0
  show ?case using assms by (simp add: bfs_level_def)
next
  case (Suc k)
  then show ?case using assms by (auto simp: bfs_level_def)
qed

lemma reach_within_mono: "h \<le> k \<Longrightarrow> reach_within E S h \<subseteq> reach_within E S k"
  by (induction k) (auto simp: le_Suc_eq)

lemma reach_within_bound:
  assumes "S \<subseteq> N" and "\<And>u. u \<in> N \<Longrightarrow> E u \<subseteq> N"
  shows "reach_within E S h \<subseteq> N"
  using assms by (induction h) auto


section \<open>The bytes\<close>

definition csr_fits :: "csr \<Rightarrow> bool" where
  "csr_fits c \<longleftrightarrow> length (cg_offsets c) = unat (cg_nnodes c) + 1 \<and>
     16 + 8 * length (cg_offsets c) + 4 * length (cg_adj c) < 2 ^ 64"

lemma length_concat_words: "(\<And>x. x \<in> set xs \<Longrightarrow> length (f x) = n) \<Longrightarrow> length (concat (map f xs)) = n * length xs"
  by (induction xs) (simp_all add: algebra_simps)

lemma length_csr_to_bytes:
  "length (csr_to_bytes c) = 16 + 8 * length (cg_offsets c) + 4 * length (cg_adj c)"
  by (simp add: csr_to_bytes_def length_concat_words [where n = 8] length_concat_words [where n = 4])

lemma read_u64s_concat:
  assumes "length pre = p"
  shows "read_u64s p (length xs) (pre @ concat (map to_le xs) @ post) = Some xs"
proof -
  have "u64_at (p + 8 * i) (pre @ concat (map to_le xs) @ post) = xs ! i" if "i < length xs" for i
  proof -
    have u: "\<forall>x \<in> set (map to_le xs). length x = 8" by simp
    have "slice_at (i * 8) 8 (concat (map to_le xs) @ post) = to_le (xs ! i)"
      using slice_at_concat [OF u, of i post] that by simp
    then have "slice_at (p + 8 * i) 8 (pre @ concat (map to_le xs) @ post) = to_le (xs ! i)"
      using assms by (simp add: slice_at_append_right mult.commute)
    then show ?thesis by (simp add: u64_at_def)
  qed
  then show ?thesis using assms
    by (auto simp: read_u64s_def length_concat_words [where n = 8] intro: nth_equalityI)
qed

lemma read_u32s_concat:
  assumes "length pre = p"
  shows "read_u32s p (length xs) (pre @ concat (map to_le xs)) = Some xs"
proof -
  have "u32_at (p + 4 * i) (pre @ concat (map to_le xs)) = xs ! i" if "i < length xs" for i
  proof -
    have u: "\<forall>x \<in> set (map to_le xs). length x = 4" by simp
    have "slice_at (i * 4) 4 (concat (map to_le xs)) = to_le (xs ! i)"
      using slice_at_concat [OF u, of i "[]"] that by simp
    then have "slice_at (p + 4 * i) 4 (pre @ concat (map to_le xs)) = to_le (xs ! i)"
      using assms by (simp add: slice_at_append_right mult.commute)
    then show ?thesis by (simp add: u32_at_def)
  qed
  then show ?thesis using assms
    by (auto simp: read_u32s_def length_concat_words [where n = 4] intro: nth_equalityI)
qed

lemma csr_words:
  assumes "csr_fits c"
  shows "unat (cg_nnodes c + 1) = length (cg_offsets c)"
    and "unat (16 + (cg_nnodes c + 1) * 8) = 16 + 8 * length (cg_offsets c)"
    and "unat (of_nat (length (cg_adj c)) :: u64) = length (cg_adj c)"
    and "unat (16 + (cg_nnodes c + 1) * 8 + of_nat (length (cg_adj c)) * 4) = length (csr_to_bytes c)"
proof -
  have n: "cg_nnodes c = of_nat (length (cg_offsets c) - 1)" and l: "length (cg_offsets c) \<ge> 1"
    using assms by (simp_all add: csr_fits_def)
  then have n1: "cg_nnodes c + 1 = of_nat (length (cg_offsets c))"
    by (simp add: of_nat_diff)
  have b: "16 + 8 * length (cg_offsets c) + 4 * length (cg_adj c) < 2 ^ 64" using assms by (simp add: csr_fits_def)
  show "unat (cg_nnodes c + 1) = length (cg_offsets c)" using b by (simp add: n1 unat_of_nat_u64)
  have "16 + (cg_nnodes c + 1) * 8 = of_nat (16 + 8 * length (cg_offsets c))" by (simp add: n1)
  then show "unat (16 + (cg_nnodes c + 1) * 8) = 16 + 8 * length (cg_offsets c)"
    using b by (simp only: unat_of_nat_u64)
  show "unat (of_nat (length (cg_adj c)) :: u64) = length (cg_adj c)" using b by (simp add: unat_of_nat_u64)
  have "16 + (cg_nnodes c + 1) * 8 + of_nat (length (cg_adj c)) * 4 =
      (of_nat (16 + 8 * length (cg_offsets c) + 4 * length (cg_adj c)) :: u64)" by (simp add: n1)
  then show "unat (16 + (cg_nnodes c + 1) * 8 + of_nat (length (cg_adj c)) * 4) = length (csr_to_bytes c)"
    using b by (simp only: unat_of_nat_u64 length_csr_to_bytes)
qed

lemma csr_header_at:
  assumes "take 16 b = take 16 (csr_to_bytes c)" and "16 \<le> length b"
  shows "u64_at 0 b = cg_nnodes c" "u64_at 8 b = of_nat (length (cg_adj c))"
proof -
  have b: "b = to_le (cg_nnodes c) @ to_le (of_nat (length (cg_adj c)) :: u64) @ drop 16 b"
    using append_take_drop_id [of 16 b] assms(1) by (simp add: csr_to_bytes_def)
  show "u64_at 0 b = cg_nnodes c" by (subst b) (simp add: u64_at_def slice_at_append_left)
  show "u64_at 8 b = of_nat (length (cg_adj c))"
    by (subst b) (simp add: u64_at_def slice_at_append_left slice_at_append_right)
qed

lemma csr_codec_prefix:
  assumes "csr_fits c"
  shows "csr_from_bytes (csr_to_bytes c) = Inr c \<and>
    (\<forall>k < length (csr_to_bytes c). csr_from_bytes (take k (csr_to_bytes c)) =
       Inl (if k < 16 then CsrHeaderTruncated else CsrLengthMismatch k (length (csr_to_bytes c))))"
proof (intro conjI allI impI)
  let ?b = "csr_to_bytes c"
  note w = csr_words [OF assms]
  have h: "u64_at 0 ?b = cg_nnodes c" "u64_at 8 ?b = of_nat (length (cg_adj c))"
    by (rule csr_header_at; simp add: length_csr_to_bytes)+
  have o: "read_u64s 16 (length (cg_offsets c)) ?b = Some (cg_offsets c)"
    using read_u64s_concat [of "to_le (cg_nnodes c) @ to_le (of_nat (length (cg_adj c)) :: u64)" 16]
    by (simp add: csr_to_bytes_def)
  have a: "read_u32s (16 + 8 * length (cg_offsets c)) (length (cg_adj c)) ?b = Some (cg_adj c)"
    using read_u32s_concat [of "to_le (cg_nnodes c) @ to_le (of_nat (length (cg_adj c)) :: u64) @ concat (map to_le (cg_offsets c))"]
    by (simp add: csr_to_bytes_def length_concat_words [where n = 8])
  have n: "\<not> length ?b < 16" by (simp add: length_csr_to_bytes)
  show "csr_from_bytes ?b = Inr c"
    using n by (simp add: csr_from_bytes_def Let_def h o a w w [simplified])
  fix k assume k: "k < length ?b"
  show "csr_from_bytes (take k ?b) = Inl (if k < 16 then CsrHeaderTruncated else CsrLengthMismatch k (length ?b))"
  proof (cases "k < 16")
    case True
    then show ?thesis using k by (simp add: csr_from_bytes_def)
  next
    case False
    with k have t: "take 16 (take k ?b) = take 16 ?b" and l: "16 \<le> length (take k ?b)" by (simp_all add: min_def)
    from csr_header_at [OF t l] False k show ?thesis by (simp add: csr_from_bytes_def Let_def w w [simplified])
  qed
qed

section \<open>The bitset\<close>

definition bset :: "u64 list \<Rightarrow> nat set" where
  "bset bs = {i. i div 64 < length bs \<and> bit (bs ! (i div 64)) (i mod 64)}"

lemma bs_get_bset: "i < 64 * length bs \<Longrightarrow> bs_get bs i = Some (i \<in> bset bs)"
  by (simp add: bs_get_def bset_def bit_iff_and_drop_bit_eq_1 less_mult_imp_div_less mult.commute)

lemma bs_set_bset:
  assumes "i < 64 * length bs"
  shows "\<exists>bs'. bs_set bs i = Some bs' \<and> length bs' = length bs \<and> bset bs' = insert i (bset bs)"
proof -
  have i: "i div 64 < length bs" using assms by (simp add: less_mult_imp_div_less mult.commute)
  let ?b = "bs[i div 64 := bs ! (i div 64) OR push_bit (i mod 64) 1]"
  have "j \<in> bset ?b \<longleftrightarrow> j = i \<or> j \<in> bset bs" for j
  proof (cases "j div 64 = i div 64")
    case True
    then have "j = i \<longleftrightarrow> j mod 64 = i mod 64" by (metis div_mult_mod_eq)
    then show ?thesis using True i by (auto simp: bset_def bit_simps)
  next
    case False
    then show ?thesis by (auto simp: bset_def)
  qed
  then show ?thesis using i by (auto simp: bs_set_def)
qed

lemma bset_replicate [simp]: "bset (replicate n 0) = {}"
  by (simp add: bset_def)


section \<open>The search computes reachability\<close>

definition csr_wf :: "csr \<Rightarrow> bool" where
  "csr_wf c \<longleftrightarrow> unat (cg_nnodes c) \<le> 2 ^ 32 \<and> length (cg_offsets c) = unat (cg_nnodes c) + 1 \<and>
     sorted (map unat (cg_offsets c)) \<and> unat (last (cg_offsets c)) \<le> length (cg_adj c) \<and>
     list_all (\<lambda>v. unat v < unat (cg_nnodes c)) (cg_adj c)"

definition csr_nbrs :: "csr \<Rightarrow> nat \<Rightarrow> nat list" where
  "csr_nbrs c u = map unat (the (adj_range c u))"

lemma adj_range_wf:
  assumes "csr_wf c" and "u < unat (cg_nnodes c)"
  shows "\<exists>nbs. adj_range c u = Some nbs \<and> csr_nbrs c u = map unat nbs \<and> unat ` set nbs \<subseteq> {..<unat (cg_nnodes c)}"
proof -
  let ?o = "cg_offsets c"
  have l: "length ?o = unat (cg_nnodes c) + 1" and s: "sorted (map unat ?o)"
    and e: "unat (last ?o) \<le> length (cg_adj c)" and a: "list_all (\<lambda>v. unat v < unat (cg_nnodes c)) (cg_adj c)"
    using assms by (simp_all add: csr_wf_def)
  have o1: "unat (?o ! u) \<le> unat (?o ! (u + 1))" using s l assms(2) sorted_nth_mono [of "map unat ?o" u "u + 1"] by simp
  have ne: "?o \<noteq> []" using l by auto
  have "unat (?o ! (u + 1)) \<le> unat (last ?o)"
    using s l assms(2) ne sorted_nth_mono [of "map unat ?o" "u + 1" "length ?o - 1"] by (simp add: last_conv_nth)
  then have o2: "unat (?o ! (u + 1)) \<le> length (cg_adj c)" using e by simp
  let ?n = "slice_at (unat (?o ! u)) (unat (?o ! (u + 1)) - unat (?o ! u)) (cg_adj c)"
  have r: "adj_range c u = Some ?n" using o1 o2 l assms(2) by (simp add: adj_range_def)
  have "set ?n \<subseteq> set (cg_adj c)" by (auto simp: slice_at_def dest: in_set_takeD in_set_dropD)
  then have "unat ` set ?n \<subseteq> {..<unat (cg_nnodes c)}" using a by (auto simp: list_all_iff)
  then show ?thesis using r by (simp add: csr_nbrs_def)
qed

lemma csr_nbrs_bound: "csr_wf c \<Longrightarrow> u < unat (cg_nnodes c) \<Longrightarrow> set (csr_nbrs c u) \<subseteq> {..<unat (cg_nnodes c)}"
  using adj_range_wf [of c u] by (auto simp: image_subset_iff)

lemma mark_nbrs_set:
  assumes "unat ` set nbs \<subseteq> {..<64 * length vis}"
  shows "\<exists>vis' nxt'. mark_nbrs (vis, nxt) nbs = Some (vis', nxt') \<and> length vis' = length vis \<and>
    bset vis' = bset vis \<union> unat ` set nbs \<and> unat ` set nxt' = unat ` set nxt \<union> (unat ` set nbs - bset vis)"
  using assms
proof (induction nbs arbitrary: vis nxt)
  case (Cons nb nbs)
  then have nb: "unat nb < 64 * length vis" by auto
  show ?case
  proof (cases "unat nb \<in> bset vis")
    case True
    with Cons.IH [of vis nxt] Cons.prems bs_get_bset [OF nb] show ?thesis by auto
  next
    case False
    obtain vis1 where v: "bs_set vis (unat nb) = Some vis1" "length vis1 = length vis" "bset vis1 = insert (unat nb) (bset vis)"
      using bs_set_bset [OF nb] by blast
    obtain vis' nxt' where m: "mark_nbrs (vis1, nxt @ [nb]) nbs = Some (vis', nxt')" "length vis' = length vis1"
        "bset vis' = bset vis1 \<union> unat ` set nbs" "unat ` set nxt' = unat ` set (nxt @ [nb]) \<union> (unat ` set nbs - bset vis1)"
      using Cons.IH [of vis1 "nxt @ [nb]"] Cons.prems v by auto
    then show ?thesis using False v bs_get_bset [OF nb] by auto
  qed
qed simp

lemma expand_frontier_set:
  assumes "csr_wf c" and "unat (cg_nnodes c) \<le> 64 * length vis" and "unat ` set fr \<subseteq> {..<unat (cg_nnodes c)}"
  shows "\<exists>vis' nxt'. expand_frontier c (vis, nxt) fr = Some (vis', nxt') \<and> length vis' = length vis \<and>
    bset vis' = bset vis \<union> \<Union> ((\<lambda>u. set (csr_nbrs c u)) ` unat ` set fr) \<and>
    unat ` set nxt' = unat ` set nxt \<union> (\<Union> ((\<lambda>u. set (csr_nbrs c u)) ` unat ` set fr) - bset vis)"
  using assms
proof (induction fr arbitrary: vis nxt)
  case (Cons node fr)
  then have "unat node < unat (cg_nnodes c)" by auto
  then obtain nbs where r: "adj_range c (unat node) = Some nbs" "csr_nbrs c (unat node) = map unat nbs"
      "unat ` set nbs \<subseteq> {..<unat (cg_nnodes c)}"
    using adj_range_wf [OF Cons.prems(1)] by blast
  then have "unat ` set nbs \<subseteq> {..<64 * length vis}" using Cons.prems(2) by auto
  from mark_nbrs_set [OF this, of nxt] obtain vis1 nxt1 where m: "mark_nbrs (vis, nxt) nbs = Some (vis1, nxt1)"
      "length vis1 = length vis" "bset vis1 = bset vis \<union> unat ` set nbs"
      "unat ` set nxt1 = unat ` set nxt \<union> (unat ` set nbs - bset vis)" by (elim exE conjE)
  obtain vis' nxt' where e: "expand_frontier c (vis1, nxt1) fr = Some (vis', nxt')" "length vis' = length vis1"
      "bset vis' = bset vis1 \<union> \<Union> ((\<lambda>u. set (csr_nbrs c u)) ` unat ` set fr)"
      "unat ` set nxt' = unat ` set nxt1 \<union> (\<Union> ((\<lambda>u. set (csr_nbrs c u)) ` unat ` set fr) - bset vis1)"
    using Cons.IH [of vis1 nxt1] Cons.prems m(2) by (metis (no_types, lifting) insert_subset list.simps(15) image_insert)
  have n: "set (csr_nbrs c (unat node)) = unat ` set nbs" using r(2) by simp
  have "expand_frontier c (vis, nxt) (node # fr) = Some (vis', nxt')" using r(1) m(1) e(1) by simp
  moreover have "bset vis' = bset vis \<union> \<Union> ((\<lambda>u. set (csr_nbrs c u)) ` unat ` set (node # fr))"
    unfolding e(3) m(3) by (simp add: n Un_ac)
  moreover have "unat ` set nxt' = unat ` set nxt \<union> (\<Union> ((\<lambda>u. set (csr_nbrs c u)) ` unat ` set (node # fr)) - bset vis)"
    unfolding e(4) m(4) m(3) by (simp add: n) blast
  ultimately show ?case using m(2) e(2) by simp
qed simp

lemma expand_hops_set:
  assumes "csr_wf c" and "unat (cg_nnodes c) \<le> 64 * length vis" and "S \<subseteq> {..<unat (cg_nnodes c)}"
    and "bfs_level (\<lambda>u. set (csr_nbrs c u)) S h (bset vis) (unat ` set fr)"
  shows "\<exists>vis'. expand_hops c k vis fr = Some vis' \<and> length vis' = length vis \<and>
    bset vis' = reach_within (\<lambda>u. set (csr_nbrs c u)) S (h + k)"
  using assms(2,4)
proof (induction k arbitrary: h vis fr)
  case 0
  then show ?case by (simp add: bfs_level_def)
next
  case (Suc k)
  let ?E = "\<lambda>u. set (csr_nbrs c u)" and ?n = "unat (cg_nnodes c)"
  have "bset vis \<subseteq> {..<?n}" using reach_within_bound [OF assms(3), of ?E] csr_nbrs_bound [OF assms(1)] Suc.prems(2)
    by (simp add: bfs_level_def)
  then have "unat ` set fr \<subseteq> {..<?n}" using Suc.prems(2) by (auto simp: bfs_level_def)
  from expand_frontier_set [OF assms(1) Suc.prems(1) this, of "[]"]
  obtain vis1 nxt1 where e: "expand_frontier c (vis, []) fr = Some (vis1, nxt1)" "length vis1 = length vis"
      "bset vis1 = bset vis \<union> \<Union> (?E ` unat ` set fr)" "unat ` set nxt1 = \<Union> (?E ` unat ` set fr) - bset vis" by auto
  have l: "bfs_level ?E S (Suc h) (bset vis1) (unat ` set nxt1)"
    using bfs_level_Suc [OF Suc.prems(2)] e by simp
  show ?case
  proof (cases "nxt1 = []")
    case True
    then have "reach_within ?E S (Suc h + k) = bset vis1" using bfs_level_done [of ?E S "Suc h" "bset vis1" k] l by simp
    then show ?thesis using True e by auto
  next
    case False
    with Suc.IH [of vis1 "Suc h" nxt1] e l Suc.prems show ?thesis by auto
  qed
qed

definition seed_nodes :: "nat \<Rightarrow> i64 list \<Rightarrow> nat list" where
  "seed_nodes nn seeds = map unat (filter (\<lambda>s. \<not> (sint s < 0 \<or> unat s \<ge> nn)) seeds)"

lemma seed_frontier_set:
  assumes "nn \<le> 2 ^ 32" and "nn \<le> 64 * length vis"
  shows "\<exists>vis' fr'. seed_frontier nn (vis, fr) seeds = Some (vis', fr') \<and> length vis' = length vis \<and>
    bset vis' = bset vis \<union> set (seed_nodes nn seeds) \<and>
    unat ` set fr' = unat ` set fr \<union> (set (seed_nodes nn seeds) - bset vis)"
  using assms(2)
proof (induction seeds arbitrary: vis fr)
  case Nil
  then show ?case by (simp add: seed_nodes_def)
next
  case (Cons s seeds)
  show ?case
  proof (cases "sint s < 0 \<or> unat s \<ge> nn")
    case True
    with Cons.IH [of vis fr] Cons.prems show ?thesis by (auto simp: seed_nodes_def)
  next
    case False
    then have s: "unat s < 64 * length vis" using Cons.prems by auto
    have u: "unat (ucast s :: u32) = unat s" using False assms(1) by (simp add: unsigned_ucast_eq take_bit_nat_eq_self)
    show ?thesis
    proof (cases "unat s \<in> bset vis")
      case True
      with False Cons.IH [of vis fr] Cons.prems bs_get_bset [OF s] show ?thesis by (auto simp: seed_nodes_def)
    next
      case new: False
      obtain vis1 where v: "bs_set vis (unat s) = Some vis1" "length vis1 = length vis" "bset vis1 = insert (unat s) (bset vis)"
        using bs_set_bset [OF s] by blast
      obtain vis' fr' where m: "seed_frontier nn (vis1, fr @ [ucast s]) seeds = Some (vis', fr')" "length vis' = length vis1"
          "bset vis' = bset vis1 \<union> set (seed_nodes nn seeds)"
          "unat ` set fr' = unat ` set (fr @ [ucast s :: u32]) \<union> (set (seed_nodes nn seeds) - bset vis1)"
        using Cons.IH [of vis1 "fr @ [ucast s]"] Cons.prems v by auto
      then show ?thesis using False new v u bs_get_bset [OF s] by (auto simp: seed_nodes_def)
    qed
  qed
qed

lemma csr_expand_reach:
  assumes "csr_wf c"
  shows "csr_expand c seeds max_hops =
    Some (map of_nat (filter (\<lambda>i. i \<in> reach_within (\<lambda>u. set (csr_nbrs c u)) (set (seed_nodes (unat (cg_nnodes c)) seeds))
                                    (hop_count max_hops)) [0..<unat (cg_nnodes c)]))"
proof -
  let ?n = "unat (cg_nnodes c)" and ?E = "\<lambda>u. set (csr_nbrs c u)"
  let ?v = "replicate (?n div 64 + 1) (0 :: u64)" and ?S = "set (seed_nodes ?n seeds)"
  have n: "?n \<le> 64 * length ?v" by simp
  have w: "?n \<le> 2 ^ 32" using assms by (simp add: csr_wf_def)
  obtain vis fr where s: "seed_frontier ?n (?v, []) seeds = Some (vis, fr)" "length vis = length ?v"
      "bset vis = ?S" "unat ` set fr = ?S"
    using seed_frontier_set [OF w n, of "[]" seeds] by (auto simp del: replicate.simps)
  have S: "?S \<subseteq> {..<?n}" by (auto simp: seed_nodes_def)
  have l: "bfs_level ?E ?S 0 (bset vis) (unat ` set fr)" using s bfs_level_0 by simp
  have n': "?n \<le> 64 * length vis" using n s(2) by simp
  obtain vis' where h: "expand_hops c (hop_count max_hops) vis fr = Some vis'" "length vis' = length vis"
      "bset vis' = reach_within ?E ?S (hop_count max_hops)"
    using expand_hops_set [OF assms n' S l, of "hop_count max_hops"] by auto
  have "bs_get vis' i = Some True \<longleftrightarrow> i \<in> bset vis'" if "i < ?n" for i
    using bs_get_bset [of i vis'] that h(2) n' by simp
  then have "filter (\<lambda>i. bs_get vis' i = Some True) [0..<?n] = filter (\<lambda>i. i \<in> bset vis') [0..<?n]"
    by (auto intro: filter_cong)
  then show ?thesis using s h by (simp add: csr_expand_def Let_def)
qed


section \<open>The build stores the edges\<close>

text \<open>The specification: the other ends of the edges at \<open>u\<close>, in the order of the rows; a self-loop counts twice.\<close>

definition incident :: "(nat \<times> nat) list \<Rightarrow> nat \<Rightarrow> nat list" where
  "incident es u = concat (map (\<lambda>(s, d). (if s = u then [d] else []) @ (if d = u then [s] else [])) es)"

definition halves :: "(nat \<times> nat) list \<Rightarrow> (nat \<times> nat) list" where
  "halves es = concat (map (\<lambda>(s, d). [(s, d), (d, s)]) es)"

definition half_at :: "(nat \<times> nat) list \<Rightarrow> nat \<Rightarrow> nat list" where
  "half_at H u = map snd (filter (\<lambda>e. fst e = u) H)"

lemma half_at_simps [simp]:
  "half_at [] u = []"
  "half_at (e # H) u = (if fst e = u then [snd e] else []) @ half_at H u"
  "half_at (H @ H') u = half_at H u @ half_at H' u"
  by (simp_all add: half_at_def)

lemma half_at_halves: "half_at (halves es) u = incident es u"
  by (induction es) (auto simp: halves_def incident_def split: prod.splits)

lemma halves_simps [simp]: "halves [] = []" "halves ((s, d) # es) = (s, d) # (d, s) # halves es"
  by (simp_all add: halves_def)

lemma length_halves: "length (halves es) = 2 * length es"
  by (induction es) auto

lemma fill_edge_halves: "foldl fill_edge st es = foldl place st (halves es)"
  by (induction es arbitrary: st) (auto simp: fill_edge_def)

definition bump :: "nat list \<Rightarrow> nat \<times> nat \<Rightarrow> nat list" where
  "bump deg e = deg[fst e := deg ! fst e + 1]"

lemma count_degrees_halves: "count_degrees nn es = foldl bump (replicate (nn + 1) 0) (halves es)"
proof -
  have "foldl (\<lambda>deg (s, d). let deg' = deg[s := deg ! s + 1] in deg'[d := deg' ! d + 1]) st es = foldl bump st (halves es)" for st
    by (induction es arbitrary: st) (auto simp: bump_def Let_def)
  then show ?thesis by (simp add: count_degrees_def)
qed

lemma bump_counts:
  assumes "\<forall>e \<in> set H. fst e < length deg"
  shows "length (foldl bump deg H) = length deg \<and>
    (\<forall>u < length deg. foldl bump deg H ! u = deg ! u + length (half_at H u))"
  using assms
proof (induction H arbitrary: deg)
  case (Cons e H)
  then show ?case using Cons.IH [of "bump deg e"] by (auto simp: bump_def nth_list_update)
qed simp

lemma prefix_sums_nth:
  "length (prefix_sums acc ds) = length ds + 1 \<and> (\<forall>i \<le> length ds. prefix_sums acc ds ! i = acc + sum_list (take i ds))"
  by (induction acc ds rule: prefix_sums.induct) (auto simp: nth_Cons' take_Cons' split: if_splits)

lemma place_segments:
  assumes offs: "\<And>u. u < nn \<Longrightarrow> offs ! (u + 1) = offs ! u + length (half_at H u)" and l: "length offs = nn + 1"
    and ends: "\<forall>e \<in> set H. fst e < nn" and T: "offs ! nn \<le> length adj" and H: "H = P @ Q"
  shows "\<exists>cur adj'. foldl place (offs, adj) P = (cur, adj') \<and> length cur = nn + 1 \<and> length adj' = length adj \<and>
    (\<forall>u < nn. cur ! u = offs ! u + length (half_at P u) \<and>
       (\<forall>k < length (half_at P u). adj' ! (offs ! u + k) = of_nat (half_at P u ! k)))"
  using H
proof (induction P arbitrary: Q rule: rev_induct)
  case Nil
  then show ?case using l by simp
next
  case (snoc e P)
  obtain u v where e: "e = (u, v)" by (cases e)
  obtain cur adj' where i: "foldl place (offs, adj) P = (cur, adj')" "length cur = nn + 1" "length adj' = length adj"
      "\<And>w. w < nn \<Longrightarrow> cur ! w = offs ! w + length (half_at P w)"
      "\<And>w k. w < nn \<Longrightarrow> k < length (half_at P w) \<Longrightarrow> adj' ! (offs ! w + k) = of_nat (half_at P w ! k)"
    using snoc.IH [of "e # Q"] snoc.prems by auto
  have u: "u < nn" using ends snoc.prems e by auto
  have mono: "offs ! a \<le> offs ! b" if "a \<le> b" "b \<le> nn" for a b
    using that by (induction b) (auto simp: le_Suc_eq offs [simplified])
  have seg: "length (half_at P w) + (if w = u then 1 else 0) \<le> length (half_at H w)" for w
    using snoc.prems e by simp
  let ?p = "cur ! u"
  have p: "?p = offs ! u + length (half_at P u)" and p1: "?p < offs ! (u + 1)"
    using i(4) [OF u] seg [of u] offs [OF u] by auto
  have pl: "?p < length adj'" using p1 mono [of "u + 1" nn] u T i(3) by simp
  have far: "offs ! w + k \<noteq> ?p" if w: "w < nn" "k < length (half_at P w)" and c: "w \<noteq> u \<or> k < length (half_at P u)" for w k
  proof (cases "w = u")
    case False
    have k: "offs ! w + k < offs ! (w + 1)" using w seg [of w] offs [of w] by simp
    show ?thesis
    proof (cases "w < u")
      case True
      then show ?thesis using k mono [of "w + 1" u] u p by simp
    next
      case False
      then show ?thesis using \<open>w \<noteq> u\<close> p1 mono [of "u + 1" w] w by simp
    qed
  qed (use c p w in auto)
  have "foldl place (offs, adj) (P @ [e]) = (cur[u := ?p + 1], adj'[?p := of_nat v])"
    by (simp add: i(1) place_def e)
  moreover have "adj'[?p := of_nat v] ! (offs ! w + k) = of_nat (half_at (P @ [e]) w ! k)"
    if "w < nn" "k < length (half_at (P @ [e]) w)" for w k
  proof (cases "k < length (half_at P w)")
    case True
    have "offs ! w + k \<noteq> ?p" by (rule far) (use True that(1) in auto)
    then show ?thesis using True that(1) i(5) [of w k] by (simp add: nth_append)
  next
    case False
    then show ?thesis using that p pl e by (auto split: if_splits simp: nth_append less_Suc_eq)
  qed
  ultimately show ?case using i u e by (auto simp: nth_list_update)
qed

lemma edge_nodes_bound:
  assumes "e \<in> set es"
  shows "fst e < edge_nodes es" "snd e < edge_nodes es"
proof -
  let ?f = "\<lambda>m (s, d). max (max m (int s)) (int d)"
  have m: "m \<le> foldl ?f m es" for m :: int and es :: "(nat \<times> nat) list"
  proof (induction es arbitrary: m)
    case (Cons x es)
    have "m \<le> ?f m x" by (cases x) simp
    then show ?case using Cons.IH [of "?f m x"] by simp
  qed simp
  have "int (fst e) \<le> foldl ?f m es \<and> int (snd e) \<le> foldl ?f m es" for m :: int
    using assms
  proof (induction es arbitrary: m)
    case (Cons x es)
    then show ?case using m [of "?f m x" es] by (cases x) auto
  qed simp
  then show "fst e < edge_nodes es" "snd e < edge_nodes es" by (simp_all add: edge_nodes_def zless_nat_eq_int_zless)
qed

lemma edge_nodes_max: "(\<And>e. e \<in> set es \<Longrightarrow> fst e < n \<and> snd e < n) \<Longrightarrow> edge_nodes es \<le> n"
proof -
  let ?f = "\<lambda>m (s, d). max (max m (int s)) (int d)"
  assume "\<And>e. e \<in> set es \<Longrightarrow> fst e < n \<and> snd e < n"
  then have "foldl ?f m es \<le> max m (int n - 1)" for m :: int
  proof (induction es arbitrary: m)
    case (Cons x es)
    have "fst x < n \<and> snd x < n" using Cons.prems by simp
    moreover have "foldl ?f (?f m x) es \<le> max (?f m x) (int n - 1)" using Cons by simp
    ultimately show ?case by (cases x) auto
  qed simp
  from this [of "- 1"] show ?thesis by (simp add: edge_nodes_def)
qed


lemma scan_edges_bound: "scan_edges rows = Inr es \<Longrightarrow> e \<in> set es \<Longrightarrow> fst e < 2 ^ 32 \<and> snd e < 2 ^ 32"
proof (induction rows arbitrary: es)
  case (Cons row rows)
  have u: "unat w < 2 ^ 32" if "\<not> sint w < 0" "\<not> sint w > int u32_max" for w :: i64
  proof -
    have "sint w = int (unat w)" using that(1) uint_lt2p [of w] by (simp add: sint_uint signed_take_bit_eq_take_bit_minus take_bit_int_eq_self)
        (cases "bit (uint w) 63"; simp)
    with that(2) have "int (unat w) \<le> int (2 ^ 32 - 1)" unfolding u32_max_def by linarith
    then show ?thesis unfolding of_nat_le_iff by simp
  qed
  from Cons show ?case by (auto split: prod.splits option.splits if_splits simp: bind_r_Inr_iff u [simplified])
qed simp

lemma length_scan_edges: "scan_edges rows = Inr es \<Longrightarrow> length es \<le> length rows"
proof (induction rows arbitrary: es)
  case (Cons row rows)
  then show ?case by (force split: prod.splits option.splits if_splits simp: bind_r_Inr_iff)
qed simp

lemma sorted_prefix_sums: "sorted (prefix_sums acc ds)"
proof (induction acc ds rule: prefix_sums.induct)
  case (2 acc d ds)
  have "\<forall>x \<in> set (prefix_sums a ds). a \<le> x" for a by (induction a ds rule: prefix_sums.induct) auto
  then show ?case using 2 by (auto intro: order_trans [of acc "acc + d"])
qed simp

lemma sum_list_indicator: "(\<Sum>u \<leftarrow> [0..<n]. if u = a then 1 else 0) = (if a < n then 1 else 0 :: nat)"
  by (induction n) auto

lemma place_values: "set (snd (foldl place st H)) \<subseteq> set (snd st) \<union> of_nat ` snd ` set H"
proof (induction H arbitrary: st)
  case (Cons e H)
  have "set (snd (place st e)) \<subseteq> insert (of_nat (snd e)) (set (snd st))"
    by (auto simp: place_def split: prod.splits dest: set_update_subset_insert [THEN subsetD])
  then show ?case using Cons [of "place st e"] by auto
qed simp

lemma build_csr_spec:
  assumes "build_csr rows = Inr c" and "length rows < 2 ^ 60"
  obtains es where "scan_edges rows = Inr es" "unat (cg_nnodes c) = edge_nodes es" "csr_wf c" "csr_fits c"
    "length (cg_adj c) = 2 * length es" "\<And>u. u < edge_nodes es \<Longrightarrow> csr_nbrs c u = incident es u"
proof -
  obtain es where es: "scan_edges rows = Inr es" using assms(1) by (auto simp: build_csr_def bind_r_Inr_iff)
  define nn where "nn = edge_nodes es"
  define H where "H = halves es"
  define ds where "ds = take nn (count_degrees nn es)"
  define offs where "offs = prefix_sums 0 ds"
  define adj where "adj = snd (foldl fill_edge (offs, replicate (last offs) 0) es)"
  have c: "c = \<lparr>cg_nnodes = of_nat nn, cg_offsets = map of_nat offs, cg_adj = adj\<rparr>"
    using assms(1) es by (simp add: build_csr_def Let_def nn_def ds_def offs_def adj_def)
  have nn32: "nn \<le> 2 ^ 32" unfolding nn_def by (rule edge_nodes_max) (use scan_edges_bound [OF es] in auto)
  have ends: "\<forall>e \<in> set H. fst e < nn" "\<forall>e \<in> set H. snd e < 2 ^ 32"
    using edge_nodes_bound scan_edges_bound [OF es] by (fastforce simp: H_def halves_def nn_def)+
  have deg: "length (count_degrees nn es) = nn + 1" "\<And>u. u < nn \<Longrightarrow> count_degrees nn es ! u = length (half_at H u)"
    using bump_counts [of H "replicate (nn + 1) 0"] ends(1) less_SucI unfolding count_degrees_halves H_def [symmetric]
    by (auto simp: less_SucI nth_Cons')
  have ld: "length ds = nn" using deg(1) by (simp add: ds_def)
  have lo: "length offs = nn + 1" using prefix_sums_nth [of 0 ds] ld by (simp add: offs_def)
  have on: "offs ! i = sum_list (take i ds)" if "i \<le> nn" for i
    using prefix_sums_nth [of 0 ds] ld that by (simp add: offs_def)
  have step: "offs ! (u + 1) = offs ! u + length (half_at H u)" if "u < nn" for u
    using that on [of u] on [of "u + 1"] ld deg(2) [OF that] by (simp add: take_Suc_conv_app_nth ds_def)
  have "offs \<noteq> []" using lo by auto
  then have la: "last offs = offs ! nn" using lo by (simp add: last_conv_nth)
  obtain cur adj' where f: "foldl place (offs, replicate (last offs) 0) H = (cur, adj')" "length adj' = last offs"
      "\<And>u k. u < nn \<Longrightarrow> k < length (half_at H u) \<Longrightarrow> adj' ! (offs ! u + k) = of_nat (half_at H u ! k)"
    using place_segments [OF step lo ends(1), of "replicate (last offs) 0" H "[]"] la by auto
  have adj: "adj = adj'" using f(1) by (simp add: adj_def fill_edge_halves H_def)
  have tot: "last offs = length H"
  proof -
    have "sum_list ds = (\<Sum>u \<leftarrow> [0..<nn]. length (half_at H u))"
      by (rule arg_cong [of _ _ sum_list], rule nth_equalityI) (use ld deg in \<open>simp_all add: ds_def\<close>)
    also have "\<dots> = length H" using ends(1)
    proof (induction H)
      case (Cons e H)
      have "(\<Sum>u \<leftarrow> [0..<nn]. length (half_at (e # H) u)) =
          (\<Sum>u \<leftarrow> [0..<nn]. if u = fst e then 1 else 0) + (\<Sum>u \<leftarrow> [0..<nn]. length (half_at H u))"
        by (subst sum_list_addf [symmetric]) (rule arg_cong [of _ _ sum_list], auto)
      then show ?case using Cons by (simp add: sum_list_indicator)
    qed (simp add: half_at_def)
    finally show ?thesis using on [of nn] la ld by simp
  qed
  have la2: "length adj = last offs" using adj f(2) by simp
  have o64: "last offs < 2 ^ 61" using tot length_scan_edges [OF es] assms(2) by (simp add: H_def length_halves)
  have so: "sorted offs" by (simp add: offs_def sorted_prefix_sums)
  have ule: "offs ! i \<le> last offs" if "i \<le> nn" for i
    using sorted_nth_mono [OF so that] lo la by simp
  have uo: "unat (of_nat (offs ! i) :: u64) = offs ! i" if "i \<le> nn" for i
    using ule [OF that] o64 by (simp add: unat_of_nat_u64)
  have nn64: "unat (of_nat nn :: u64) = nn" using nn32 by (simp add: unat_of_nat_u64)
  have mo: "map unat (map of_nat offs :: u64 list) = offs"
    by (rule nth_equalityI) (use lo uo in auto)
  have seg: "slice_at (offs ! u) (length (half_at H u)) adj = map of_nat (half_at H u)" if "u < nn" for u
  proof -
    have "offs ! u + length (half_at H u) \<le> length adj" using step [OF that] ule [of "u + 1"] that la2 by simp
    then show ?thesis using f(3) [OF that] by (intro nth_equalityI) (simp_all add: adj slice_at_def)
  qed
  have nb: "csr_nbrs c u = half_at H u" if "u < nn" for u
  proof -
    have "csr_nbrs c u = map unat (map of_nat (half_at H u) :: u32 list)"
      using that lo uo [of u] uo [of "u + 1"] step [OF that] ule [of "u + 1"] la2 seg [OF that]
      by (simp add: csr_nbrs_def adj_range_def c)
    moreover have "unat (of_nat v :: u32) = v" if "v \<in> set (half_at H u)" for v
      using that ends(2) by (auto simp: half_at_def)
    ultimately show ?thesis by (simp add: map_idI)
  qed
  have "unat x < nn" if x: "x \<in> set adj" for x
  proof -
    have H: "H \<noteq> []" using x la2 tot by auto
    then have "0 < nn" using ends(1) by (cases H) auto
    moreover have "x = 0 \<or> x \<in> of_nat ` snd ` set H"
      using x place_values [of "(offs, replicate (last offs) 0)" H] f(1) adj by auto
    moreover have "unat (of_nat (snd e) :: u32) = snd e \<and> snd e < nn" if "e \<in> set H" for e
      using that ends(2) edge_nodes_bound by (fastforce simp: H_def halves_def nn_def)
    ultimately show ?thesis by auto
  qed
  moreover have "sorted (map unat (cg_offsets c))" using mo so by (simp add: c del: map_map)
  ultimately have "csr_wf c" using nn32 lo la ule o64 so la2 uo [of nn] \<open>offs \<noteq> []\<close>
    by (simp add: csr_wf_def c nn64 list_all_iff last_map)
  moreover have "csr_fits c" using nn32 lo la2 o64 by (simp add: csr_fits_def c nn64)
  moreover have "length (cg_adj c) = 2 * length es" using la2 tot by (simp add: c H_def length_halves)
  ultimately show ?thesis using es nb by (intro that [of es]) (use nn64 in \<open>simp_all add: c nn_def H_def half_at_halves\<close>)
qed


lemma set_incident: "set (incident es u) = {v. (u, v) \<in> set es \<or> (v, u) \<in> set es}"
  by (induction es) (auto simp: incident_def split: if_splits)

lemma scan_edges_total:
  "list_all (\<lambda>row. case row of (Some s, Some d) \<Rightarrow> 0 \<le> sint s \<and> sint s \<le> int u32_max \<and> 0 \<le> sint d \<and> sint d \<le> int u32_max | _ \<Rightarrow> True) rows
   \<longleftrightarrow> is_ok (scan_edges rows)"
  by (induction rows) (auto simp: is_ok_iff bind_r_Inr_iff split: prod.splits option.splits)

text \<open>The adjacency \<open>graph_build\<close> makes of an edge table is well-formed (offsets ascending and inside the
adjacency, every neighbour a node, at most \<open>2 ^ 32\<close> nodes), and the neighbours of a node are exactly the other ends of
the rows at it, in row order, a self-loop twice.\<close>

theorem graph_build_exact:
  assumes "build_csr rows = Inr c" and "length rows < 2 ^ 60"
  shows "\<exists>es. scan_edges rows = Inr es \<and> csr_wf c \<and> csr_fits c \<and> length (cg_adj c) = 2 * length es \<and>
    unat (cg_nnodes c) = edge_nodes es \<and> (\<forall>u < edge_nodes es. csr_nbrs c u = incident es u)"
proof -
  obtain es where "scan_edges rows = Inr es" "unat (cg_nnodes c) = edge_nodes es" "csr_wf c" "csr_fits c"
      "length (cg_adj c) = 2 * length es" "\<And>u. u < edge_nodes es \<Longrightarrow> csr_nbrs c u = incident es u"
    using build_csr_spec [OF assms] by blast
  then show ?thesis by auto
qed

definition sample_rows :: "(i64 option \<times> i64 option) list" where
  "sample_rows = [(Some 0, Some 1), (Some 1, Some 2), (None, Some 7), (Some 2, Some 2)]"

lemma sample_scan: "scan_edges sample_rows = Inr [(0, 1), (1, 2), (2, 2)]"
  by (simp add: sample_rows_def u32_max_def)

definition sample_csr :: csr where
  "sample_csr = \<lparr>cg_nnodes = 3, cg_offsets = [0, 1, 3, 6], cg_adj = [1, 0, 2, 1, 2, 2]\<rparr>"

lemma sample_build: "build_csr sample_rows = Inr sample_csr"
  by (simp add: build_csr_def sample_scan sample_csr_def edge_nodes_def count_degrees_def Let_def fill_edge_def place_def
      numeral_eq_Suc upt_rec)

lemma graph_build_exact_witness:
  "build_csr sample_rows = Inr sample_csr \<and> csr_wf sample_csr \<and> csr_nbrs sample_csr 2 = incident [(0, 1), (1, 2), (2, 2)] 2"
proof -
  have "length sample_rows < 2 ^ 60" by (simp add: sample_rows_def)
  from graph_build_exact [OF sample_build this] show ?thesis
    by (auto simp: sample_build sample_scan edge_nodes_def)
qed

text \<open>A persisted graph reads back from its bytes, and every strict prefix of them is refused, as a truncated header or
with the length expected.\<close>

theorem csr_codec:
  assumes "csr_fits c"
  shows "csr_from_bytes (csr_to_bytes c) = Inr c \<and>
    (\<forall>k < length (csr_to_bytes c). csr_from_bytes (take k (csr_to_bytes c)) =
       Inl (if k < 16 then CsrHeaderTruncated else CsrLengthMismatch k (length (csr_to_bytes c))))"
  by (rule csr_codec_prefix [OF assms])

lemma csr_codec_witness: "csr_from_bytes (csr_to_bytes sample_csr) = Inr sample_csr"
proof -
  have "csr_fits sample_csr" by (simp add: csr_fits_def sample_csr_def)
  from csr_codec [OF this] show ?thesis by simp
qed

end
