(* ===== verification/GraphQuery.thy ===== *)
theory GraphQuery
  imports GraphCsr "HOL-Library.Product_Lexorder"
begin

text \<open>
  Queries of a persisted graph (\<open>graph.rs\<close>): the multi-source search that advances up to 64 searches in one sweep,
  the grouping of its seeds, personalized PageRank, and the backend's cache of deserialized graphs over the catalog
  table \<open>theodb.graph_csr\<close>.
\<close>

section \<open>Multi-source search\<close>

fun seed_lane :: "nat \<Rightarrow> nat \<Rightarrow> u64 list \<times> u64 list \<times> u32 list \<Rightarrow> i64 list \<Rightarrow> u64 list \<times> u64 list \<times> u32 list" where
  "seed_lane nn l st [] = st"
| "seed_lane nn l (seen, visit, fr) (s # ss) =
     (if sint s < 0 \<or> unat s \<ge> nn then seed_lane nn l (seen, visit, fr) ss
      else let si = unat s; b = push_bit l 1; fr' = (if seen ! si = 0 then fr @ [of_nat si] else fr)
        in seed_lane nn l (seen[si := seen ! si OR b], visit[si := visit ! si OR b], fr') ss)"

fun seed_lanes :: "nat \<Rightarrow> nat \<Rightarrow> u64 list \<times> u64 list \<times> u32 list \<Rightarrow> i64 list list \<Rightarrow> u64 list \<times> u64 list \<times> u32 list" where
  "seed_lanes nn l st [] = st"
| "seed_lanes nn l st (ss # sss) = seed_lanes nn (l + 1) (seed_lane nn l st ss) sss"

text \<open>The neighbours of one vertex, reached by the lanes of \<open>vv\<close>: state is \<open>visit_next\<close>, \<open>seen\<close>, \<open>next_frontier\<close>.\<close>

fun multi_nbrs :: "u64 \<Rightarrow> u64 list \<times> u64 list \<times> u32 list \<Rightarrow> u32 list \<Rightarrow> (u64 list \<times> u64 list \<times> u32 list) option" where
  "multi_nbrs vv st [] = Some st"
| "multi_nbrs vv (vn, seen, nf) (nb # nbs) =
     Option.bind (idx_get seen (unat nb)) (\<lambda>sn.
       let new_bits = vv AND NOT sn; ni = unat nb in
       if new_bits \<noteq> 0
       then multi_nbrs vv (vn[ni := vn ! ni OR new_bits], seen[ni := sn OR new_bits],
              (if vn ! ni = 0 then nf @ [nb] else nf)) nbs
       else multi_nbrs vv (vn, seen, nf) nbs)"

fun multi_frontier :: "csr \<Rightarrow> u64 list \<Rightarrow> u64 list \<times> u64 list \<times> u32 list \<Rightarrow> u32 list \<Rightarrow>
    (u64 list \<times> u64 list \<times> u32 list) option" where
  "multi_frontier c visit st [] = Some st"
| "multi_frontier c visit st (v # fr) =
     Option.bind (idx_get visit (unat v)) (\<lambda>vv. Option.bind (adj_range c (unat v)) (\<lambda>nbs.
       Option.bind (multi_nbrs vv st nbs) (\<lambda>st'. multi_frontier c visit st' fr)))"

fun multi_hops :: "csr \<Rightarrow> nat \<Rightarrow> u64 list \<Rightarrow> u64 list \<Rightarrow> u32 list \<Rightarrow> u64 list option" where
  "multi_hops c 0 visit seen fr = Some seen"
| "multi_hops c (Suc h) visit seen fr =
     (if fr = [] then Some seen
      else Option.bind (multi_frontier c visit (replicate (unat (cg_nnodes c)) 0, seen, []) fr)
             (\<lambda>(vn, seen', nf). multi_hops c h vn seen' nf))"

text \<open>The bits of a mask: \<open>l = m.trailing_zeros(); m &= m - 1\<close> until it is zero.\<close>

definition trailing_zeros :: "u64 \<Rightarrow> nat" where
  "trailing_zeros m = length (takeWhile (\<lambda>i. \<not> bit m i) [0..<64])"

lemma and_pred_less: "m \<noteq> 0 \<Longrightarrow> unat (m AND (m - 1)) < unat (m :: u64)"
proof -
  assume "m \<noteq> 0"
  then have "unat (m - 1) < unat m" by (simp add: unat_minus_one unat_gt_0)
  moreover have "unat (m AND (m - 1)) \<le> unat (m - 1)" using word_and_le1 [of m "m - 1"] by (simp add: word_le_nat_alt)
  ultimately show ?thesis by simp
qed

function mask_lanes :: "u64 \<Rightarrow> nat list" where
  "mask_lanes m = (if m = 0 then [] else trailing_zeros m # mask_lanes (m AND (m - 1)))"
  by pat_completeness auto
termination
  by (relation "measure unat") (auto simp: and_pred_less)

declare mask_lanes.simps [simp del]

fun push_lanes :: "nat \<Rightarrow> nat \<Rightarrow> i64 list list \<Rightarrow> nat list \<Rightarrow> i64 list list option" where
  "push_lanes base v res [] = Some res"
| "push_lanes base v res (l # ls) =
     (if base + l < length res then push_lanes base v (res[base + l := res ! (base + l) @ [of_nat v]]) ls else None)"

fun extract_lanes :: "nat \<Rightarrow> nat \<Rightarrow> i64 list list \<Rightarrow> u64 list \<Rightarrow> i64 list list option" where
  "extract_lanes base v res [] = Some res"
| "extract_lanes base v res (m # seen) =
     Option.bind (push_lanes base v res (mask_lanes m)) (\<lambda>res'. extract_lanes base (v + 1) res' seen)"

definition expand_tile :: "csr \<Rightarrow> nat \<Rightarrow> i64 list list \<Rightarrow> nat \<Rightarrow> i64 list list \<Rightarrow> i64 list list option" where
  "expand_tile c hops sets base res =
     (let nn = unat (cg_nnodes c); z = replicate nn 0;
          (seen, visit, fr) = seed_lanes nn 0 (z, z, []) (take 64 (drop base sets))
      in Option.bind (multi_hops c hops visit seen fr) (extract_lanes base 0 res))"

function expand_tiles :: "csr \<Rightarrow> nat \<Rightarrow> i64 list list \<Rightarrow> nat \<Rightarrow> i64 list list \<Rightarrow> i64 list list option" where
  "expand_tiles c hops sets base res =
     (if base < length sets
      then Option.bind (expand_tile c hops sets base res) (expand_tiles c hops sets (base + min (length sets - base) 64))
      else Some res)"
  by pat_completeness auto
termination
  by (relation "measure (\<lambda>(c, hops, sets, base, res). length sets - base)") auto

declare expand_tiles.simps [simp del]

definition csr_expand_multi :: "csr \<Rightarrow> i64 list list \<Rightarrow> i32 \<Rightarrow> i64 list list option" where
  "csr_expand_multi c sets max_hops = expand_tiles c (hop_count max_hops) sets 0 (replicate (length sets) [])"

section \<open>Each lane is a search of its own\<close>

definition lane :: "nat \<Rightarrow> u64 list \<Rightarrow> nat set" where
  "lane l ws = {v. v < length ws \<and> bit (ws ! v) l}"

definition active :: "u64 list \<Rightarrow> nat set" where
  "active ws = {v. v < length ws \<and> ws ! v \<noteq> 0}"

lemma u64_bit_bound: "bit (w :: u64) i \<Longrightarrow> i < 64"
  by (drule bit_imp_le_length) simp

lemma active_lanes: "active ws = (\<Union>l. lane l ws)"
  by (auto simp: active_def lane_def bit_eq_iff dest: u64_bit_bound)

lemma lane_or:
  "v < length ws \<Longrightarrow> lane l (ws[v := ws ! v OR x]) = lane l ws \<union> (if bit x l then {v} else {})"
  by (auto simp: lane_def nth_list_update bit_simps split: if_splits)

lemma active_or:
  "v < length ws \<Longrightarrow> x \<noteq> 0 \<Longrightarrow> active (ws[v := ws ! v OR x]) = insert v (active ws)"
  by (auto simp: active_def nth_list_update bit_eq_iff bit_simps)

lemma lane_replicate [simp]: "lane l (replicate n 0) = {}" and active_replicate [simp]: "active (replicate n 0) = {}"
  by (simp_all add: lane_def active_def)

definition reached :: "u64 \<Rightarrow> nat \<Rightarrow> u32 list \<Rightarrow> nat set" where
  "reached vv l nbs = (if bit vv l then unat ` set nbs else {})"

lemma multi_nbrs_lanes:
  assumes "unat ` set nbs \<subseteq> {..<length seen}" and "length vn = length seen" and "unat ` set nf = active vn"
    and "\<forall>l. lane l vn \<subseteq> lane l seen"
  shows "\<exists>vn' seen' nf'. multi_nbrs vv (vn, seen, nf) nbs = Some (vn', seen', nf') \<and> length vn' = length vn \<and>
    length seen' = length seen \<and> unat ` set nf' = active vn' \<and>
    (\<forall>l. lane l vn' \<subseteq> lane l seen' \<and> lane l seen' = lane l seen \<union> reached vv l nbs \<and>
         lane l vn' = lane l vn \<union> (reached vv l nbs - lane l seen))"
  using assms
proof (induction nbs arbitrary: vn seen nf)
  case Nil
  then show ?case by (simp add: reached_def)
next
  case (Cons nb nbs)
  let ?i = "unat nb"
  have i: "?i < length seen" "?i < length vn" using Cons.prems by auto
  let ?n = "vv AND NOT (seen ! ?i)"
  have n: "bit ?n l \<longleftrightarrow> bit vv l \<and> ?i \<notin> lane l seen" for l
    using i by (auto simp: lane_def bit_simps dest: bit_imp_le_length)
  show ?case
  proof (cases "?n = 0")
    case True
    then have b: "bit vv l \<Longrightarrow> ?i \<in> lane l seen" for l using n [of l] by auto
    have "multi_nbrs vv (vn, seen, nf) (nb # nbs) = multi_nbrs vv (vn, seen, nf) nbs" using True i by simp
    moreover have "lane l seen \<union> reached vv l (nb # nbs) = lane l seen \<union> reached vv l nbs"
      "reached vv l (nb # nbs) - lane l seen = reached vv l nbs - lane l seen" for l
      using b by (auto simp: reached_def)
    ultimately show ?thesis using Cons.IH [of seen vn nf] Cons.prems by simp
  next
    case False
    let ?vn = "vn[?i := vn ! ?i OR ?n]" and ?seen = "seen[?i := seen ! ?i OR ?n]"
    let ?nf = "if vn ! ?i = 0 then nf @ [nb] else nf"
    have m: "multi_nbrs vv (vn, seen, nf) (nb # nbs) = multi_nbrs vv (?vn, ?seen, ?nf) nbs" using False i by (simp add: Let_def)
    have "vn ! ?i = 0 \<or> ?i \<in> active vn" using i by (simp add: active_def)
    then have nf: "unat ` set ?nf = active ?vn" using Cons.prems(3) i False by (auto simp: active_or)
    have l: "lane l ?seen = lane l seen \<union> reached vv l [nb]" "lane l ?vn = lane l vn \<union> (reached vv l [nb] - lane l seen)" for l
      using n [of l] i by (auto simp: lane_or reached_def)
    have sub: "\<forall>l. lane l ?vn \<subseteq> lane l ?seen" using Cons.prems(4) unfolding l by blast
    obtain vn' seen' nf' where e: "multi_nbrs vv (?vn, ?seen, ?nf) nbs = Some (vn', seen', nf')" "length vn' = length ?vn"
        "length seen' = length ?seen" "unat ` set nf' = active vn'"
        "\<And>l. lane l vn' \<subseteq> lane l seen' \<and> lane l seen' = lane l ?seen \<union> reached vv l nbs \<and>
           lane l vn' = lane l ?vn \<union> (reached vv l nbs - lane l ?seen)"
      using Cons.IH [OF _ _ nf sub] Cons.prems(1,2) by auto
    have r: "reached vv l (nb # nbs) = reached vv l [nb] \<union> reached vv l nbs" for l by (simp add: reached_def)
    have "lane l vn' \<subseteq> lane l seen' \<and> lane l seen' = lane l seen \<union> reached vv l (nb # nbs) \<and>
        lane l vn' = lane l vn \<union> (reached vv l (nb # nbs) - lane l seen)" for l
      using e(5) [of l] unfolding l r by blast
    then have c: "\<forall>l. lane l vn' \<subseteq> lane l seen' \<and> lane l seen' = lane l seen \<union> reached vv l (nb # nbs) \<and>
        lane l vn' = lane l vn \<union> (reached vv l (nb # nbs) - lane l seen)" by blast
    show ?thesis
      by (intro exI [of _ vn'] exI [of _ seen'] exI [of _ nf'] conjI c) (use m e in simp_all)
  qed
qed

text \<open>The successors of the vertices of a frontier that lane \<open>l\<close> propagates from.\<close>

definition lane_next :: "csr \<Rightarrow> u64 list \<Rightarrow> nat \<Rightarrow> u32 list \<Rightarrow> nat set" where
  "lane_next c visit l fr = (\<Union>u \<in> unat ` set fr \<inter> lane l visit. set (csr_nbrs c u))"

lemma multi_frontier_lanes:
  assumes wf: "csr_wf c" and n: "unat (cg_nnodes c) = length visit"
    and "unat ` set fr \<subseteq> {..<length visit}" and "length seen = length visit" and "length vn = length seen"
    and "unat ` set nf = active vn" and "\<forall>l. lane l vn \<subseteq> lane l seen"
  shows "\<exists>vn' seen' nf'. multi_frontier c visit (vn, seen, nf) fr = Some (vn', seen', nf') \<and> length vn' = length vn \<and>
    length seen' = length seen \<and> unat ` set nf' = active vn' \<and>
    (\<forall>l. lane l vn' \<subseteq> lane l seen' \<and> lane l seen' = lane l seen \<union> lane_next c visit l fr \<and>
         lane l vn' = lane l vn \<union> (lane_next c visit l fr - lane l seen))"
  using assms(3-)
proof (induction fr arbitrary: vn seen nf)
  case Nil
  then show ?case by (simp add: lane_next_def)
next
  case (Cons v fr)
  let ?u = "unat v"
  have u: "?u < length visit" using Cons.prems(1) by auto
  then obtain nbs where r: "adj_range c ?u = Some nbs" "csr_nbrs c ?u = map unat nbs" "unat ` set nbs \<subseteq> {..<length seen}"
    using adj_range_wf [OF wf, of ?u] n Cons.prems(2) by auto
  obtain vn1 seen1 nf1 where m: "multi_nbrs (visit ! ?u) (vn, seen, nf) nbs = Some (vn1, seen1, nf1)" "length vn1 = length vn"
      "length seen1 = length seen" "unat ` set nf1 = active vn1"
      "\<forall>l. lane l vn1 \<subseteq> lane l seen1 \<and> lane l seen1 = lane l seen \<union> reached (visit ! ?u) l nbs \<and>
         lane l vn1 = lane l vn \<union> (reached (visit ! ?u) l nbs - lane l seen)"
    using multi_nbrs_lanes [OF r(3) Cons.prems(3-5), of "visit ! ?u"] by (elim exE conjE)
  have sub: "\<forall>l. lane l vn1 \<subseteq> lane l seen1" using m(5) by blast
  obtain vn' seen' nf' where e: "multi_frontier c visit (vn1, seen1, nf1) fr = Some (vn', seen', nf')" "length vn' = length vn1"
      "length seen' = length seen1" "unat ` set nf' = active vn'"
      "\<forall>l. lane l vn' \<subseteq> lane l seen' \<and> lane l seen' = lane l seen1 \<union> lane_next c visit l fr \<and>
         lane l vn' = lane l vn1 \<union> (lane_next c visit l fr - lane l seen1)"
    using Cons.IH [OF _ _ _ m(4) sub] Cons.prems(1-3) m(2,3) by auto
  have s: "lane_next c visit l (v # fr) = reached (visit ! ?u) l nbs \<union> lane_next c visit l fr" for l
    using r(2) u by (auto simp: lane_next_def reached_def lane_def)
  have "lane l vn' \<subseteq> lane l seen' \<and> lane l seen' = lane l seen \<union> lane_next c visit l (v # fr) \<and>
      lane l vn' = lane l vn \<union> (lane_next c visit l (v # fr) - lane l seen)" for l
    using spec [OF m(5), of l] spec [OF e(5), of l] unfolding s by blast
  then have c: "\<forall>l. lane l vn' \<subseteq> lane l seen' \<and> lane l seen' = lane l seen \<union> lane_next c visit l (v # fr) \<and>
      lane l vn' = lane l vn \<union> (lane_next c visit l (v # fr) - lane l seen)" by blast
  show ?case
    by (intro exI [of _ vn'] exI [of _ seen'] exI [of _ nf'] conjI c) (use u r(1) m e in simp_all)
qed

lemma multi_hops_lanes:
  assumes wf: "csr_wf c" and n: "length visit = unat (cg_nnodes c)" "length seen = unat (cg_nnodes c)"
    and fr: "unat ` set fr = active visit"
    and lev: "\<And>l. bfs_level (\<lambda>u. set (csr_nbrs c u)) (S l) h (lane l seen) (lane l visit)"
  shows "\<exists>seen'. multi_hops c k visit seen fr = Some seen' \<and> length seen' = length seen \<and>
    (\<forall>l. lane l seen' = reach_within (\<lambda>u. set (csr_nbrs c u)) (S l) (h + k))"
  using n fr lev
proof (induction k arbitrary: h visit seen fr)
  case 0
  then show ?case by (simp add: bfs_level_def)
next
  case (Suc k)
  let ?E = "\<lambda>u. set (csr_nbrs c u)" and ?n = "unat (cg_nnodes c)"
  show ?case
  proof (cases "fr = []")
    case True
    then have "lane l visit = {}" for l using Suc.prems(3) by (auto simp: active_lanes)
    then have "reach_within ?E (S l) (h + Suc k) = lane l seen" for l
      using bfs_level_done [of ?E "S l" h "lane l seen" "Suc k"] Suc.prems(4) [of l] by simp
    then show ?thesis using True by simp
  next
    case False
    let ?z = "replicate ?n (0 :: u64)"
    have f: "unat ` set fr \<subseteq> {..<length visit}" using Suc.prems(3) by (auto simp: active_def)
    obtain vn seen1 nf where m: "multi_frontier c visit (?z, seen, []) fr = Some (vn, seen1, nf)" "length vn = length ?z"
        "length seen1 = length seen" "unat ` set nf = active vn"
        "\<forall>l. lane l vn \<subseteq> lane l seen1 \<and> lane l seen1 = lane l seen \<union> lane_next c visit l fr \<and>
           lane l vn = lane l ?z \<union> (lane_next c visit l fr - lane l seen)"
      using multi_frontier_lanes [OF wf _ f, of seen ?z "[]"] Suc.prems(1,2) by auto
    have nx: "lane_next c visit l fr = \<Union> (?E ` lane l visit)" for l
      using Suc.prems(3) by (auto simp: lane_next_def active_lanes)
    have "bfs_level ?E (S l) (Suc h) (lane l seen1) (lane l vn)" for l
      using bfs_level_Suc [OF Suc.prems(4)] spec [OF m(5), of l] nx by simp
    then show ?thesis using Suc.IH [of vn seen1 nf "Suc h"] m Suc.prems(1,2) False by auto
  qed
qed

section \<open>Seeds and results of a tile\<close>

lemma seed_lane_lanes:
  assumes "length seen = nn" and "length visit = nn" and "nn \<le> 2 ^ 32" and "unat ` set fr = active seen"
    and "\<And>l. lane l visit = lane l seen" and "l < 64"
  shows "\<exists>seen' visit' fr'. seed_lane nn l (seen, visit, fr) ss = (seen', visit', fr') \<and> length seen' = nn \<and>
    length visit' = nn \<and> unat ` set fr' = active seen' \<and>
    (\<forall>k. lane k seen' = lane k seen \<union> (if k = l then set (seed_nodes nn ss) else {}) \<and> lane k visit' = lane k seen')"
  using assms(1,2,4,5)
proof (induction ss arbitrary: seen visit fr)
  case Nil
  then show ?case by (simp add: seed_nodes_def)
next
  case (Cons s ss)
  show ?case
  proof (cases "sint s < 0 \<or> unat s \<ge> nn")
    case True
    then have skip: "seed_lane nn l (seen, visit, fr) (s # ss) = seed_lane nn l (seen, visit, fr) ss"
      "seed_nodes nn (s # ss) = seed_nodes nn ss" by (auto simp: seed_nodes_def)
    show ?thesis unfolding skip by (rule Cons.IH) (use Cons.prems in auto)
  next
    case False
    let ?i = "unat s" and ?b = "push_bit l 1 :: u64"
    let ?seen = "seen[?i := seen ! ?i OR ?b]" and ?visit = "visit[?i := visit ! ?i OR ?b]"
    let ?fr = "if seen ! ?i = 0 then fr @ [of_nat ?i] else fr"
    have i: "?i < length seen" "?i < length visit" "unat (of_nat ?i :: u32) = ?i"
      using False Cons.prems(1,2) assms(3) by (auto simp del: of_nat_unat)
    have b: "bit ?b k \<longleftrightarrow> k = l" for k using assms(6) by (auto simp: bit_simps)
    have b0: "?b \<noteq> 0"
    proof
      assume "?b = 0"
      with b [of l] have "bit (0 :: u64) l" by (simp only:)
      then show False by simp
    qed
    have "seen ! ?i = 0 \<or> ?i \<in> active seen" using i by (simp add: active_def)
    then have fr: "unat ` set ?fr = active ?seen" using Cons.prems(3) i(1,3) b0 by (auto simp: active_or simp del: of_nat_unat)
    have ln: "lane k ?visit = lane k ?seen" "lane k ?seen = lane k seen \<union> (if k = l then {?i} else {})" for k
      using i Cons.prems(4) b by (auto simp: lane_or)
    have "seed_lane nn l (seen, visit, fr) (s # ss) = seed_lane nn l (?seen, ?visit, ?fr) ss"
      using False by (simp add: Let_def)
    moreover have "set (seed_nodes nn (s # ss)) = insert ?i (set (seed_nodes nn ss))"
      using False by (simp add: seed_nodes_def)
    ultimately show ?thesis
      using Cons.IH [of ?seen ?visit ?fr] Cons.prems(1,2) fr ln by (auto split: if_splits)
  qed
qed

lemma seed_lanes_lanes:
  assumes "length seen = nn" and "length visit = nn" and "nn \<le> 2 ^ 32" and "unat ` set fr = active seen"
    and "\<And>l. lane l visit = lane l seen" and "l + length sss \<le> 64"
  shows "\<exists>seen' visit' fr'. seed_lanes nn l (seen, visit, fr) sss = (seen', visit', fr') \<and> length seen' = nn \<and>
    length visit' = nn \<and> unat ` set fr' = active seen' \<and>
    (\<forall>k. lane k seen' = lane k seen \<union> (if l \<le> k \<and> k < l + length sss then set (seed_nodes nn (sss ! (k - l))) else {}) \<and>
         lane k visit' = lane k seen')"
  using assms(1,2,4-)
proof (induction sss arbitrary: l seen visit fr)
  case (Cons ss sss)
  obtain seen1 visit1 fr1 where s: "seed_lane nn l (seen, visit, fr) ss = (seen1, visit1, fr1)" "length seen1 = nn"
      "length visit1 = nn" "unat ` set fr1 = active seen1"
      "\<And>k. lane k seen1 = lane k seen \<union> (if k = l then set (seed_nodes nn ss) else {}) \<and> lane k visit1 = lane k seen1"
    using seed_lane_lanes [OF Cons.prems(1,2) assms(3) Cons.prems(3,4), of l ss] Cons.prems(5) by auto
  obtain seen' visit' fr' where e: "seed_lanes nn (l + 1) (seen1, visit1, fr1) sss = (seen', visit', fr')" "length seen' = nn"
      "length visit' = nn" "unat ` set fr' = active seen'"
      "\<And>k. lane k seen' = lane k seen1 \<union> (if l + 1 \<le> k \<and> k < l + 1 + length sss then set (seed_nodes nn (sss ! (k - (l + 1)))) else {}) \<and>
         lane k visit' = lane k seen'"
    using Cons.IH [OF s(2-4), of "l + 1"] s(5) Cons.prems(5) by auto
  have "lane k seen' = lane k seen \<union> (if l \<le> k \<and> k < l + length (ss # sss) then set (seed_nodes nn ((ss # sss) ! (k - l))) else {})" for k
    using e(5) [of k] s(5) [of k] by (cases "k = l"; cases "k < l") (auto simp: nth_Cons' Suc_diff_Suc)
  then have c: "\<forall>k. lane k seen' = lane k seen \<union> (if l \<le> k \<and> k < l + length (ss # sss) then set (seed_nodes nn ((ss # sss) ! (k - l))) else {}) \<and>
      lane k visit' = lane k seen'" using e(5) by blast
  show ?case
    by (intro exI [of _ seen'] exI [of _ visit'] exI [of _ fr'] conjI c) (use s e in simp_all)
qed auto

lemma nat_pred_div:
  fixes n :: nat
  assumes "2 ^ k dvd n" and "bit n k"
  obtains q where "n div 2 ^ k = 2 * q + 1" "(n - 1) div 2 ^ k = 2 * q"
proof -
  obtain r where r: "n = 2 ^ k * r" using assms(1) by auto
  then have "odd r" using assms(2) by (simp add: bit_iff_odd)
  then obtain q where q: "r = 2 * q + 1" by (elim oddE)
  have "(x * a + (x - 1)) div x = a" if "0 < x" for a x :: nat
    by (rule div_nat_eqI) (use that in \<open>simp_all only: mult_Suc_right le_add1 add.commute [of x] nat_add_left_cancel_less diff_less zero_less_one\<close>)
  then have "(2 ^ k * (2 * q) + (2 ^ k - 1)) div 2 ^ k = (2 * q :: nat)" by simp
  moreover have "n - 1 = 2 ^ k * (2 * q) + (2 ^ k - 1)" using r q by (simp add: algebra_simps)
  ultimately show ?thesis using that [of q] r q by simp
qed

lemma nat_pred_bit:
  fixes n :: nat
  assumes "2 ^ k dvd n" and "bit n k" and "k < i"
  shows "bit (n - 1) i \<longleftrightarrow> bit n i"
proof -
  obtain q where "n div 2 ^ k = 2 * q + 1" "(n - 1) div 2 ^ k = 2 * q" by (rule nat_pred_div [OF assms(1,2)])
  moreover obtain j where i: "i = k + Suc j" using assms(3) less_iff_Suc_add by auto
  have "x div 2 ^ i = x div 2 ^ k div 2 div 2 ^ j" for x :: nat
    by (simp only: i power_add power_Suc div_mult2_eq)
  ultimately show ?thesis by (simp add: bit_iff_odd)
qed

lemma trailing_zeros_bit:
  assumes "m \<noteq> 0"
  shows "bit m (trailing_zeros m)" "i < trailing_zeros m \<Longrightarrow> \<not> bit m i" "trailing_zeros m < 64"
proof -
  obtain j where j: "bit m j" using assms by (auto simp: bit_eq_iff)
  then have j64: "j < 64" by (rule u64_bit_bound)
  have t: "trailing_zeros m < 64"
  proof -
    have "dropWhile (\<lambda>i. \<not> bit m i) [0..<64] \<noteq> []" using j j64 by (auto simp: dropWhile_eq_Nil_conv)
    moreover have "trailing_zeros m + length (dropWhile (\<lambda>i. \<not> bit m i) [0..<64]) = 64"
      by (simp only: trailing_zeros_def length_append [symmetric] takeWhile_dropWhile_id length_upt)
    ultimately show ?thesis by (cases "dropWhile (\<lambda>i. \<not> bit m i) [0..<64]") auto
  qed
  then show "trailing_zeros m < 64" .
  show "bit m (trailing_zeros m)" using nth_length_takeWhile [of "\<lambda>i. \<not> bit m i" "[0..<64]"] t
    by (simp add: trailing_zeros_def)
  assume "i < trailing_zeros m"
  then show "\<not> bit m i" using t takeWhile_nth [of i "\<lambda>i. \<not> bit m i" "[0..<64]"] nth_mem [of i "takeWhile (\<lambda>i. \<not> bit m i) [0..<64]"]
    by (auto simp: trailing_zeros_def dest: set_takeWhileD)
qed

lemma clear_lowest:
  assumes "m \<noteq> 0"
  shows "bit (m AND (m - 1)) i \<longleftrightarrow> bit m i \<and> i \<noteq> trailing_zeros m"
proof -
  let ?k = "trailing_zeros m"
  note t = trailing_zeros_bit [OF assms]
  have "bit (unat m) j \<longleftrightarrow> bit m j" for j by (auto simp: bit_unsigned_iff dest: u64_bit_bound)
  moreover have "bit (unat m - 1) j \<longleftrightarrow> bit (m - 1) j" for j
    unfolding unat_minus_one [OF assms, symmetric] by (auto simp: bit_unsigned_iff dest: u64_bit_bound)
  moreover have d: "2 ^ ?k dvd unat m"
  proof -
    have "take_bit ?k (unat m) = 0" by (rule bit_eqI) (use t(2) calculation(1) in \<open>auto simp: bit_take_bit_iff\<close>)
    then show ?thesis by (simp add: take_bit_eq_0_iff)
  qed
  moreover have "\<not> bit (unat m - 1) ?k"
  proof -
    have "bit (unat m) ?k" using t(1) calculation(1) by simp
    then obtain q where "(unat m - 1) div 2 ^ ?k = 2 * q" by (rule nat_pred_div [OF d])
    then show ?thesis by (simp add: bit_iff_odd)
  qed
  ultimately show ?thesis using t nat_pred_bit [of ?k "unat m" i] by (cases i ?k rule: linorder_cases) (auto simp: bit_and_iff)
qed

lemma mask_lanes_bits: "set (mask_lanes m) = {l. bit m l} \<and> distinct (mask_lanes m)"
proof (induction m rule: mask_lanes.induct)
  case (1 m)
  show ?case
  proof (cases "m = 0")
    case False
    then show ?thesis using 1 [OF False] trailing_zeros_bit(1) [OF False] clear_lowest [OF False]
      by (subst (1 2) mask_lanes.simps) auto
  qed (simp add: mask_lanes.simps)
qed

lemma push_lanes_all:
  assumes "distinct ls" and "\<forall>l \<in> set ls. base + l < length res"
  shows "\<exists>res'. push_lanes base v res ls = Some res' \<and> length res' = length res \<and>
    (\<forall>j < length res. res' ! j = res ! j @ (if base \<le> j \<and> j - base \<in> set ls then [of_nat v] else []))"
  using assms
proof (induction ls arbitrary: res)
  case (Cons l ls)
  let ?res = "res[base + l := res ! (base + l) @ [of_nat v]]"
  obtain res' where r: "push_lanes base v ?res ls = Some res'" "length res' = length ?res"
      "\<And>j. j < length ?res \<Longrightarrow> res' ! j = ?res ! j @ (if base \<le> j \<and> j - base \<in> set ls then [of_nat v] else [])"
    using Cons.IH [of ?res] Cons.prems by auto
  have "res' ! j = res ! j @ (if base \<le> j \<and> j - base \<in> set (l # ls) then [of_nat v] else [])" if "j < length res" for j
    using r(3) [of j] that Cons.prems by (auto simp: nth_list_update)
  then show ?case using r(1,2) Cons.prems(2) by auto
qed simp

lemma extract_lanes_all:
  assumes "\<forall>w \<in> set ws. \<forall>l. bit w l \<longrightarrow> base + l < length res"
  shows "\<exists>res'. extract_lanes base v res ws = Some res' \<and> length res' = length res \<and>
    (\<forall>j < length res. res' ! j = res ! j @ (if base \<le> j then map of_nat (filter (\<lambda>i. bit (ws ! (i - v)) (j - base)) [v..<v + length ws]) else []))"
  using assms
proof (induction ws arbitrary: v res)
  case (Cons w ws)
  obtain res1 where p: "push_lanes base v res (mask_lanes w) = Some res1" "length res1 = length res"
      "\<And>j. j < length res \<Longrightarrow> res1 ! j = res ! j @ (if base \<le> j \<and> bit w (j - base) then [of_nat v] else [])"
    using push_lanes_all [of "mask_lanes w" base res v] mask_lanes_bits [of w] Cons.prems by auto
  obtain res' where e: "extract_lanes base (v + 1) res1 ws = Some res'" "length res' = length res1"
      "\<And>j. j < length res1 \<Longrightarrow> res' ! j = res1 ! j @ (if base \<le> j then
         map of_nat (filter (\<lambda>i. bit (ws ! (i - (v + 1))) (j - base)) [v + 1..<v + 1 + length ws]) else [])"
    using Cons.IH [of res1 "v + 1"] Cons.prems p(2) by auto
  have f: "filter (\<lambda>i. bit ((w # ws) ! (i - v)) k) [v..<v + length (w # ws)] =
      (if bit w k then [v] else []) @ filter (\<lambda>i. bit (ws ! (i - (v + 1))) k) [v + 1..<v + 1 + length ws]" for k
    by (simp add: upt_rec [of v] nth_Cons' cong: filter_cong)
       (auto intro!: filter_cong simp: nth_Cons' Suc_le_eq)
  have "res' ! j = res ! j @ (if base \<le> j then map of_nat (filter (\<lambda>i. bit ((w # ws) ! (i - v)) (j - base)) [v..<v + length (w # ws)]) else [])"
    if "j < length res" for j unfolding f using e(3) [of j] p(2,3) that by auto
  then show ?case using e(1,2) p(1,2) by auto
qed simp

definition lane_result :: "csr \<Rightarrow> nat \<Rightarrow> i64 list \<Rightarrow> i64 list" where
  "lane_result c hops seeds =
     map of_nat (filter (\<lambda>i. i \<in> reach_within (\<lambda>u. set (csr_nbrs c u)) (set (seed_nodes (unat (cg_nnodes c)) seeds)) hops)
       [0..<unat (cg_nnodes c)])"

lemma reach_within_empty [simp]: "reach_within E {} h = {}"
  by (induction h) auto

lemma expand_tile_lanes:
  assumes wf: "csr_wf c" and l: "length res = length sets" and b: "base \<le> length sets"
  shows "\<exists>res'. expand_tile c hops sets base res = Some res' \<and> length res' = length res \<and>
    (\<forall>j < length res. res' ! j = res ! j @ (if base \<le> j \<and> j < base + 64 then lane_result c hops (sets ! j) else []))"
proof -
  let ?n = "unat (cg_nnodes c)" and ?T = "take 64 (drop base sets)" and ?E = "\<lambda>u. set (csr_nbrs c u)"
  let ?z = "replicate ?n (0 :: u64)"
  define S where "S k = (if k < length ?T then set (seed_nodes ?n (?T ! k)) else {})" for k
  have n: "?n \<le> 2 ^ 32" using wf by (simp add: csr_wf_def)
  have z: "length ?z = ?n" "unat ` set ([] :: u32 list) = active ?z" "lane k ?z = lane k ?z" "0 + length ?T \<le> 64" for k
    by simp_all
  obtain seen visit fr where s: "seed_lanes ?n 0 (?z, ?z, []) ?T = (seen, visit, fr)" "length seen = ?n"
      "length visit = ?n" "unat ` set fr = active seen" and sl: "\<And>k. lane k seen = S k \<and> lane k visit = lane k seen"
    using seed_lanes_lanes [OF z(1,1) n z(2,3,4)] by (auto simp: S_def)
  have fr: "unat ` set fr = active visit" using s(4) sl by (simp add: active_lanes)
  have lev: "bfs_level ?E (S k) 0 (lane k seen) (lane k visit)" for k using sl [of k] bfs_level_0 by simp
  obtain seen' where h: "multi_hops c hops visit seen fr = Some seen'" "length seen' = length seen"
      "\<And>k. lane k seen' = reach_within ?E (S k) hops"
    using multi_hops_lanes [OF wf s(3,2) fr lev, of hops] by auto
  have bits: "bit (seen' ! i) k \<longleftrightarrow> i \<in> reach_within ?E (S k) hops" if "i < ?n" for i k
    using h(2) h(3) [of k] s(2) that by (auto simp: lane_def)
  have "\<forall>w \<in> set seen'. \<forall>k. bit w k \<longrightarrow> base + k < length res"
  proof (intro ballI allI impI)
    fix w k assume "w \<in> set seen'" "bit w k"
    then obtain i where "i < ?n" "bit (seen' ! i) k" using h(2) s(2) by (auto simp: in_set_conv_nth)
    then have "k < length ?T" using bits [of i k] by (auto simp: S_def split: if_splits)
    then show "base + k < length res" using l b by simp arith
  qed
  from extract_lanes_all [OF this, of 0] obtain res' where e: "extract_lanes base 0 res seen' = Some res'" "length res' = length res"
      "\<And>j. j < length res \<Longrightarrow> res' ! j = res ! j @ (if base \<le> j then map of_nat (filter (\<lambda>i. bit (seen' ! i) (j - base)) [0..<?n]) else [])"
    using h(2) s(2) by auto
  have f: "filter (\<lambda>i. bit (seen' ! i) k) [0..<?n] = filter (\<lambda>i. i \<in> reach_within ?E (S k) hops) [0..<?n]" for k
    using bits by (auto intro: filter_cong)
  have "res' ! j = res ! j @ (if base \<le> j \<and> j < base + 64 then lane_result c hops (sets ! j) else [])" if "j < length res" for j
  proof (cases "base \<le> j \<and> j < base + 64")
    case True
    then have "j - base < length ?T" using that l by simp arith
    then have "S (j - base) = set (seed_nodes ?n (sets ! j))" using True b by (simp add: S_def)
    then show ?thesis using e(3) [OF that] True by (simp add: f lane_result_def)
  next
    case False
    then have "base \<le> j \<Longrightarrow> S (j - base) = {}" by (auto simp: S_def)
    then show ?thesis using e(3) [OF that] False by (auto simp: f)
  qed
  then show ?thesis using s(1) h(1) e(1,2) by (auto simp: expand_tile_def Let_def)
qed

lemma expand_tiles_lanes:
  assumes "csr_wf c" and "length res = length sets"
  shows "\<exists>res'. expand_tiles c hops sets base res = Some res' \<and> length res' = length res \<and>
    (\<forall>j < length res. res' ! j = res ! j @ (if base \<le> j then lane_result c hops (sets ! j) else []))"
  using assms
proof (induction "length sets - base" arbitrary: base res rule: less_induct)
  case less
  show ?case
  proof (cases "base < length sets")
    case True
    let ?b = "base + min (length sets - base) 64"
    obtain res1 where t: "expand_tile c hops sets base res = Some res1" "length res1 = length res"
        "\<And>j. j < length res \<Longrightarrow> res1 ! j = res ! j @ (if base \<le> j \<and> j < base + 64 then lane_result c hops (sets ! j) else [])"
      using expand_tile_lanes [OF less.prems, of base hops] True by auto
    have dec: "length sets - ?b < length sets - base" using True by (simp add: min_def) arith
    obtain res' where r: "expand_tiles c hops sets ?b res1 = Some res'" "length res' = length res1"
        "\<And>j. j < length res1 \<Longrightarrow> res' ! j = res1 ! j @ (if ?b \<le> j then lane_result c hops (sets ! j) else [])"
      using less.hyps [OF dec less.prems(1), of res1] less.prems(2) t(2) by auto
    have "res' ! j = res ! j @ (if base \<le> j then lane_result c hops (sets ! j) else [])" if "j < length res" for j
      using t(2) t(3) [OF that] r(3) [of j] that less.prems(2) by (auto simp: min_def split: if_splits)
    then show ?thesis using t(1,2) r(1,2) True by (subst expand_tiles.simps) auto
  next
    case False
    then show ?thesis using less.prems by (subst expand_tiles.simps) auto
  qed
qed

lemma csr_expand_lane: "csr_wf c \<Longrightarrow> csr_expand c seeds max_hops = Some (lane_result c (hop_count max_hops) seeds)"
  by (simp add: csr_expand_reach lane_result_def)

lemma csr_expand_multi_lanes:
  assumes "csr_wf c"
  shows "csr_expand_multi c sets max_hops = Some (map (lane_result c (hop_count max_hops)) sets)"
proof -
  obtain res' where "expand_tiles c (hop_count max_hops) sets 0 (replicate (length sets) []) = Some res'"
      "length res' = length sets" "\<And>j. j < length sets \<Longrightarrow> res' ! j = lane_result c (hop_count max_hops) (sets ! j)"
    using expand_tiles_lanes [OF assms, of "replicate (length sets) []" sets "hop_count max_hops" 0] by auto
  then show ?thesis by (auto simp: csr_expand_multi_def intro!: nth_equalityI)
qed

section \<open>Grouping the seeds\<close>

definition lane_step :: "(i32 \<Rightarrow> nat option) \<times> i64 list list \<times> i32 list \<Rightarrow> i32 option \<times> i64 option \<Rightarrow>
    (i32 \<Rightarrow> nat option) \<times> i64 list list \<times> i32 list" where
  "lane_step st p =
     (case st of (lane_of, lanes, ids) \<Rightarrow>
        (case p of
           (Some sid, Some seed) \<Rightarrow>
             (case lane_of sid of
                Some k \<Rightarrow> (lane_of, lanes[k := lanes ! k @ [seed]], ids)
              | None \<Rightarrow> (lane_of(sid \<mapsto> length lanes), lanes @ [[seed]], ids @ [sid]))
         | _ \<Rightarrow> st))"

definition group_seed_lanes :: "i32 option list \<Rightarrow> i64 option list \<Rightarrow> graph_error + i64 list list \<times> i32 list" where
  "group_seed_lanes set_ids seeds =
     (if length set_ids \<noteq> length seeds then Inl ParallelArrays
      else Inr (snd (foldl lane_step (Map.empty, [], []) (zip set_ids seeds))))"







section \<open>Personalized PageRank\<close>

definition f64_clamp_damping :: "f64_bits \<Rightarrow> f64_bits" where
  "f64_clamp_damping x = (if f64_lt x 0 then 0 else if f64_lt 0x3FEFF7CED916872B x then 0x3FEFF7CED916872B else x)"

definition f64_one :: f64_bits where "f64_one = 0x3FF0000000000000"

definition restart_vector :: "float_ops \<Rightarrow> nat \<Rightarrow> i64 list \<Rightarrow> f64_bits list" where
  "restart_vector fp nn seeds =
     (let valid = seed_nodes nn seeds in
      if valid = [] then replicate nn (fp_div fp f64_one (fp_of_usize fp nn))
      else let w = fp_div fp f64_one (fp_of_usize fp (length valid))
        in foldl (\<lambda>s si. s[si := fp_add fp (s ! si) w]) (replicate nn 0) valid)"

fun ppr_sum :: "float_ops \<Rightarrow> f64_bits list \<Rightarrow> f64_bits list \<Rightarrow> f64_bits \<Rightarrow> u32 list \<Rightarrow> f64_bits option" where
  "ppr_sum fp deg pi acc [] = Some acc"
| "ppr_sum fp deg pi acc (nb # nbs) =
     Option.bind (idx_get deg (unat nb)) (\<lambda>dg.
       if f64_lt 0 dg then Option.bind (idx_get pi (unat nb)) (\<lambda>p. ppr_sum fp deg pi (fp_add fp acc (fp_div fp p dg)) nbs)
       else ppr_sum fp deg pi acc nbs)"

fun ppr_row :: "float_ops \<Rightarrow> csr \<Rightarrow> f64_bits \<Rightarrow> f64_bits list \<Rightarrow> f64_bits list \<Rightarrow> f64_bits list \<Rightarrow> nat list \<Rightarrow> f64_bits list option" where
  "ppr_row fp c d deg s pi [] = Some []"
| "ppr_row fp c d deg s pi (v # vs) =
     Option.bind (adj_range c v) (\<lambda>nbs. Option.bind (ppr_sum fp deg pi 0 nbs) (\<lambda>acc.
       map_option (\<lambda>rest. fp_add fp (fp_mul fp (fp_sub fp f64_one d) (s ! v)) (fp_mul fp d acc) # rest)
         (ppr_row fp c d deg s pi vs)))"

fun ppr_iterate :: "float_ops \<Rightarrow> csr \<Rightarrow> f64_bits \<Rightarrow> f64_bits list \<Rightarrow> f64_bits list \<Rightarrow> nat \<Rightarrow> f64_bits list \<Rightarrow> f64_bits list option" where
  "ppr_iterate fp c d deg s 0 pi = Some pi"
| "ppr_iterate fp c d deg s (Suc k) pi =
     Option.bind (ppr_row fp c d deg s pi [0..<unat (cg_nnodes c)]) (ppr_iterate fp c d deg s k)"

definition csr_ppr :: "float_ops \<Rightarrow> csr \<Rightarrow> i64 list \<Rightarrow> f64_bits \<Rightarrow> i32 \<Rightarrow> f64_bits list option" where
  "csr_ppr fp c seeds damping iters =
     (let nn = unat (cg_nnodes c) in
      if nn = 0 then Some []
      else if length (cg_offsets c) \<le> nn then None
      else let d = f64_clamp_damping damping; offs = cg_offsets c;
               deg = map (\<lambda>u. fp_of_usize fp (unat (offs ! (u + 1) - offs ! u))) [0..<nn];
               s = restart_vector fp nn seeds
        in ppr_iterate fp c d deg s (nat (max (sint iters) 1)) s)"

definition ppr_threshold :: f64_bits where "ppr_threshold = 0x3D719799812DEA11"

text \<open>
  The rows above the threshold, by score from high to low and then by node. A score above it is not NaN, so the
  \<open>unwrap\<close> of \<open>partial_cmp\<close> cannot panic and the order is the one of the bits.
\<close>

definition graph_ppr_rows :: "f64_bits list \<Rightarrow> (i64 \<times> f64_bits) list" where
  "graph_ppr_rows pi =
     map (\<lambda>(i, s). (of_nat i, s))
       (sort_key (\<lambda>(i, s). (- f64_total_key s, i)) (filter (\<lambda>(i, s). f64_lt ppr_threshold s) (enumerate 0 pi)))"

lemma ppr_sum_total:
  "\<forall>nb \<in> set nbs. unat nb < length deg \<Longrightarrow> length pi = length deg \<Longrightarrow> \<exists>x. ppr_sum fp deg pi acc nbs = Some x"
  by (induction nbs arbitrary: acc) auto

lemma ppr_row_total:
  assumes "csr_wf c" and "length deg = unat (cg_nnodes c)" and "length pi = length deg"
    and "set vs \<subseteq> {..<unat (cg_nnodes c)}"
  shows "\<exists>xs. ppr_row fp c d deg s pi vs = Some xs \<and> length xs = length vs"
  using assms(4)
proof (induction vs)
  case (Cons v vs)
  then obtain nbs where r: "adj_range c v = Some nbs" "unat ` set nbs \<subseteq> {..<unat (cg_nnodes c)}"
    using adj_range_wf [OF assms(1), of v] by auto
  then obtain x where "ppr_sum fp deg pi 0 nbs = Some x"
    using ppr_sum_total [of nbs deg pi fp 0] assms(2,3) by auto
  then show ?case using Cons r by auto
qed simp

lemma ppr_iterate_total:
  assumes "csr_wf c" and "length deg = unat (cg_nnodes c)" and "length pi = length deg"
  shows "\<exists>xs. ppr_iterate fp c d deg s k pi = Some xs \<and> length xs = unat (cg_nnodes c)"
  using assms(3)
proof (induction k arbitrary: pi)
  case 0
  then show ?case using assms(2) by simp
next
  case (Suc k)
  have "set [0..<unat (cg_nnodes c)] \<subseteq> {..<unat (cg_nnodes c)}" by auto
  from ppr_row_total [OF assms(1,2) Suc.prems this, of fp d s] obtain xs where
    x: "ppr_row fp c d deg s pi [0..<unat (cg_nnodes c)] = Some xs" "length xs = unat (cg_nnodes c)" by auto
  then show ?case using Suc.IH [of xs] assms(2) by simp
qed

lemma csr_ppr_total:
  assumes "csr_wf c"
  shows "\<exists>pi. csr_ppr fp c seeds damping iters = Some pi \<and> length pi = unat (cg_nnodes c)"
proof -
  have l: "length (foldl (\<lambda>s si. s[si := fp_add fp (s ! si) w]) xs is) = length xs" for w xs "is"
    by (induction "is" arbitrary: xs) auto
  have "length (restart_vector fp (unat (cg_nnodes c)) seeds) = unat (cg_nnodes c)"
    by (simp add: restart_vector_def Let_def l)
  then show ?thesis using assms ppr_iterate_total [OF assms] by (auto simp: csr_ppr_def Let_def csr_wf_def)
qed

section \<open>The catalog and the cache\<close>

text \<open>
  \<open>theodb.graph_csr\<close> by relation oid, and the cache of this backend. The rows of the edge scan and the value of
  \<open>clock_timestamp()\<close> come from PostgreSQL and are arguments; the column names of the entry are not modelled.
\<close>

record graph_entry =
  ge_csr :: bytes
  ge_nnodes :: i64
  ge_nedges :: i64
  ge_built_at :: i64

record graph_db =
  gd_catalog :: "nat \<Rightarrow> graph_entry option"
  gd_cache :: "nat \<Rightarrow> (i64 \<times> csr) option"

definition graph_build :: "graph_db \<Rightarrow> nat \<Rightarrow> (i64 option \<times> i64 option) list \<Rightarrow> i64 \<Rightarrow> graph_error + graph_db \<times> i64" where
  "graph_build db oid rows now = bind_r (build_csr rows) (\<lambda>c.
     let nedges = of_nat (length (cg_adj c) div 2) in
     Inr (db\<lparr>gd_catalog := (gd_catalog db)(oid \<mapsto>
            \<lparr>ge_csr = csr_to_bytes c, ge_nnodes = cg_nnodes c, ge_nedges = nedges, ge_built_at = now\<rparr>)\<rparr>, nedges))"

definition graph_refold :: "graph_db \<Rightarrow> nat \<Rightarrow> (i64 option \<times> i64 option) list \<Rightarrow> i64 \<Rightarrow> graph_error + graph_db \<times> i64" where
  "graph_refold db oid rows now =
     (case gd_catalog db oid of None \<Rightarrow> Inl NoPersistedCsr | Some e \<Rightarrow> graph_build db oid rows now)"

definition graph_on_drop :: "graph_db \<Rightarrow> nat \<Rightarrow> graph_db" where
  "graph_on_drop db oid = db\<lparr>gd_catalog := (gd_catalog db)(oid := None)\<rparr>"

definition load_cached_csr :: "graph_db \<Rightarrow> nat \<Rightarrow> graph_error + graph_db \<times> csr" where
  "load_cached_csr db oid =
     (case gd_catalog db oid of None \<Rightarrow> Inl NoPersistedCsr
      | Some e \<Rightarrow>
          let load = bind_r (csr_from_bytes (ge_csr e)) (\<lambda>c.
                Inr (db\<lparr>gd_cache := (gd_cache db)(oid \<mapsto> (ge_built_at e, c))\<rparr>, c))
          in (case gd_cache db oid of None \<Rightarrow> load
              | Some (ep, c) \<Rightarrow> if ep = ge_built_at e then Inr (db, c) else load))"

definition or_graph_panic :: "'a option \<Rightarrow> graph_error + 'a" where
  "or_graph_panic r = (case r of None \<Rightarrow> Inl GraphPanic | Some x \<Rightarrow> Inr x)"

definition flatten_opts :: "'a option list \<Rightarrow> 'a list" where
  "flatten_opts xs = map the (filter (\<lambda>x. x \<noteq> None) xs)"


definition graph_expand_card :: "graph_db \<Rightarrow> nat \<Rightarrow> i64 option list \<Rightarrow> i32 \<Rightarrow> graph_error + graph_db \<times> i64" where
  "graph_expand_card db oid seeds max_hops = bind_r (load_cached_csr db oid) (\<lambda>(db', c).
     bind_r (or_graph_panic (csr_expand c (flatten_opts seeds) max_hops)) (\<lambda>nodes. Inr (db', of_nat (length nodes))))"


definition graph_expand_multi_card :: "graph_db \<Rightarrow> nat \<Rightarrow> i32 option list \<Rightarrow> i64 option list \<Rightarrow> i32 \<Rightarrow>
    graph_error + graph_db \<times> (i32 \<times> i64) list" where
  "graph_expand_multi_card db oid set_ids seeds max_hops = bind_r (group_seed_lanes set_ids seeds) (\<lambda>(lanes, lane_set_id).
     bind_r (load_cached_csr db oid) (\<lambda>(db', c).
     bind_r (or_graph_panic (csr_expand_multi c lanes max_hops)) (\<lambda>reached_sets.
       Inr (db', map2 (\<lambda>sid nodes. (sid, of_nat (length nodes))) lane_set_id reached_sets))))"

definition graph_ppr :: "float_ops \<Rightarrow> graph_db \<Rightarrow> nat \<Rightarrow> i64 option list \<Rightarrow> f64_bits \<Rightarrow> i32 \<Rightarrow>
    graph_error + graph_db \<times> (i64 \<times> f64_bits) list" where
  "graph_ppr fp db oid seeds damping iters = bind_r (load_cached_csr db oid) (\<lambda>(db', c).
     bind_r (or_graph_panic (csr_ppr fp c (flatten_opts seeds) damping iters)) (\<lambda>pi. Inr (db', graph_ppr_rows pi)))"

text \<open>
  What one backend can see happen: its own or another session's build or refold, a drop, its own loads, and a rollback that
  brings back an earlier state of the catalog. The history holds the states the catalog has had. \<open>fresh_stamp\<close> is what
  \<open>clock_timestamp()\<close> is used for: no two builds of a relation carry the same time.
\<close>

type_synonym graph_catalog = "nat \<Rightarrow> graph_entry option"

definition fresh_stamp :: "graph_catalog list \<Rightarrow> nat \<Rightarrow> i64 \<Rightarrow> bool" where
  "fresh_stamp hist oid now \<longleftrightarrow>
     list_all (\<lambda>cat. case cat oid of None \<Rightarrow> True | Some e \<Rightarrow> ge_built_at e \<noteq> now) hist"

inductive graph_run :: "graph_db \<Rightarrow> graph_catalog list \<Rightarrow> bool" where
  start: "graph_run \<lparr>gd_catalog = \<lambda>_. None, gd_cache = \<lambda>_. None\<rparr> [\<lambda>_. None]"
| build: "graph_run db hist \<Longrightarrow> graph_build db oid rows now = Inr (db', n) \<Longrightarrow> length rows < 2 ^ 60 \<Longrightarrow>
    fresh_stamp hist oid now \<Longrightarrow> graph_run db' (gd_catalog db' # hist)"
| refold: "graph_run db hist \<Longrightarrow> graph_refold db oid rows now = Inr (db', n) \<Longrightarrow> length rows < 2 ^ 60 \<Longrightarrow>
    fresh_stamp hist oid now \<Longrightarrow> graph_run db' (gd_catalog db' # hist)"
| drop_rel: "graph_run db hist \<Longrightarrow> graph_run (graph_on_drop db oid) (gd_catalog (graph_on_drop db oid) # hist)"
| rollback: "graph_run db hist \<Longrightarrow> cat \<in> set hist \<Longrightarrow> graph_run (db\<lparr>gd_catalog := cat\<rparr>) hist"
| load: "graph_run db hist \<Longrightarrow> load_cached_csr db oid = Inr (db', c) \<Longrightarrow> graph_run db' hist"

definition past_entries :: "graph_catalog list \<Rightarrow> nat \<Rightarrow> graph_entry set" where
  "past_entries hist oid = {e. \<exists>cat \<in> set hist. cat oid = Some e}"

text \<open>What was ever persisted decodes, a stamp names one graph, and the cache holds the graph of its stamp.\<close>

definition stamps_agree :: "graph_db \<Rightarrow> graph_catalog list \<Rightarrow> bool" where
  "stamps_agree db hist \<longleftrightarrow> gd_catalog db \<in> set hist \<and>
     (\<forall>oid. (\<forall>e \<in> past_entries hist oid. is_ok (csr_from_bytes (ge_csr e))) \<and>
        (\<forall>e \<in> past_entries hist oid. \<forall>e' \<in> past_entries hist oid. ge_built_at e' = ge_built_at e \<longrightarrow> ge_csr e' = ge_csr e) \<and>
        (\<forall>ep c. gd_cache db oid = Some (ep, c) \<longrightarrow>
           (\<exists>e \<in> past_entries hist oid. ge_built_at e = ep \<and> csr_from_bytes (ge_csr e) = Inr c)))"

lemma stamps_agreeI:
  assumes "gd_catalog db \<in> set hist"
    and "\<And>k e. e \<in> past_entries hist k \<Longrightarrow> is_ok (csr_from_bytes (ge_csr e))"
    and "\<And>k e e'. e \<in> past_entries hist k \<Longrightarrow> e' \<in> past_entries hist k \<Longrightarrow> ge_built_at e' = ge_built_at e \<Longrightarrow> ge_csr e' = ge_csr e"
    and "\<And>k ep c. gd_cache db k = Some (ep, c) \<Longrightarrow>
      \<exists>e \<in> past_entries hist k. ge_built_at e = ep \<and> csr_from_bytes (ge_csr e) = Inr c"
  shows "stamps_agree db hist"
  unfolding stamps_agree_def using assms by blast

lemma stamps_agreeD:
  assumes "stamps_agree db hist"
  shows "gd_catalog db \<in> set hist"
    and "e \<in> past_entries hist k \<Longrightarrow> is_ok (csr_from_bytes (ge_csr e))"
    and "e \<in> past_entries hist k \<Longrightarrow> e' \<in> past_entries hist k \<Longrightarrow> ge_built_at e' = ge_built_at e \<Longrightarrow> ge_csr e' = ge_csr e"
    and "gd_cache db k = Some (ep, c) \<Longrightarrow>
      \<exists>e \<in> past_entries hist k. ge_built_at e = ep \<and> csr_from_bytes (ge_csr e) = Inr c"
  using assms unfolding stamps_agree_def by blast+

lemma past_entries_new:
  assumes "old \<in> set hist"
  shows "past_entries (old(oid := x) # hist) k = past_entries hist k \<union> (if k = oid then set_option x else {})"
  using assms by (auto simp: past_entries_def split: if_splits)

lemma stamps_agree_new:
  assumes "stamps_agree db hist" and "gd_cache db' = gd_cache db" and "gd_catalog db' = (gd_catalog db)(oid := x)"
    and "\<And>e. x = Some e \<Longrightarrow> is_ok (csr_from_bytes (ge_csr e)) \<and> (\<forall>e' \<in> past_entries hist oid. ge_built_at e' \<noteq> ge_built_at e)"
  shows "stamps_agree db' (gd_catalog db' # hist)"
proof -
  have p: "past_entries (gd_catalog db' # hist) k = past_entries hist k \<union> (if k = oid then set_option x else {})" for k
    unfolding assms(3) by (rule past_entries_new) (use assms(1) in \<open>simp add: stamps_agree_def\<close>)
  note d = stamps_agreeD [OF assms(1)]
  show ?thesis
  proof (rule stamps_agreeI)
    show "is_ok (csr_from_bytes (ge_csr e))" if "e \<in> past_entries (gd_catalog db' # hist) k" for k e
      using that d(2) assms(4) unfolding p by (auto split: if_splits)
    show "ge_csr e' = ge_csr e" if "e \<in> past_entries (gd_catalog db' # hist) k" "e' \<in> past_entries (gd_catalog db' # hist) k"
      "ge_built_at e' = ge_built_at e" for k e e'
    proof (cases "e \<in> past_entries hist k \<and> e' \<in> past_entries hist k")
      case True
      then show ?thesis using d(3) that(3) by blast
    next
      case False
      then show ?thesis using that assms(4) unfolding p by (auto split: if_splits)
    qed
    show "\<exists>e \<in> past_entries (gd_catalog db' # hist) k. ge_built_at e = ep \<and> csr_from_bytes (ge_csr e) = Inr c"
      if "gd_cache db' k = Some (ep, c)" for k ep c
      using d(4) [of k ep c] that unfolding p assms(2) by blast
  qed simp
qed

lemma stamps_agree_build:
  assumes "stamps_agree db hist" and "graph_build db oid rows now = Inr (db', n)" and "length rows < 2 ^ 60"
    and "fresh_stamp hist oid now"
  shows "stamps_agree db' (gd_catalog db' # hist)"
proof -
  obtain c where c: "build_csr rows = Inr c" and ca: "gd_cache db' = gd_cache db"
      and cat: "gd_catalog db' = (gd_catalog db)(oid := Some \<lparr>ge_csr = csr_to_bytes c, ge_nnodes = cg_nnodes c,
        ge_nedges = of_nat (length (cg_adj c) div 2), ge_built_at = now\<rparr>)"
    using assms(2) by (auto simp: graph_build_def bind_r_Inr_iff Let_def)
  have "csr_from_bytes (csr_to_bytes c) = Inr c" using build_csr_spec [OF c assms(3)] csr_codec_prefix by blast
  moreover have "ge_built_at e \<noteq> now" if "e \<in> past_entries hist oid" for e
    using assms(4) that by (auto simp: fresh_stamp_def list_all_iff past_entries_def split: option.splits)
  ultimately show ?thesis by (intro stamps_agree_new [OF assms(1) ca cat]) auto
qed

lemma stamps_agree_load:
  assumes "stamps_agree db hist" and "load_cached_csr db oid = Inr (db', c)"
  shows "stamps_agree db' hist \<and> gd_catalog db' = gd_catalog db \<and>
    (\<exists>e. gd_catalog db oid = Some e \<and> csr_from_bytes (ge_csr e) = Inr c)"
proof -
  obtain e where e: "gd_catalog db oid = Some e" using assms(2) by (auto simp: load_cached_csr_def split: option.splits)
  then have p: "e \<in> past_entries hist oid" using stamps_agreeD(1) [OF assms(1)] by (auto simp: past_entries_def)
  consider (hit) "gd_cache db oid = Some (ge_built_at e, c)" "db' = db"
    | (miss) "csr_from_bytes (ge_csr e) = Inr c" "db' = db\<lparr>gd_cache := (gd_cache db)(oid \<mapsto> (ge_built_at e, c))\<rparr>"
    using assms(2) e by (auto simp: load_cached_csr_def Let_def bind_r_Inr_iff split: option.splits if_splits)
  then show ?thesis
  proof cases
    case hit
    then obtain e' where "e' \<in> past_entries hist oid" "ge_built_at e' = ge_built_at e" "csr_from_bytes (ge_csr e') = Inr c"
      using stamps_agreeD(4) [OF assms(1)] by blast
    moreover then have "ge_csr e' = ge_csr e" using stamps_agreeD(3) [OF assms(1) p] by blast
    ultimately show ?thesis using hit assms(1) e by simp
  next
    case miss
    have "stamps_agree db' hist"
    proof (rule stamps_agreeI)
      show "\<exists>e \<in> past_entries hist k. ge_built_at e = ep \<and> csr_from_bytes (ge_csr e) = Inr c'"
        if "gd_cache db' k = Some (ep, c')" for k ep c'
        using stamps_agreeD(4) [OF assms(1), of k ep c'] that miss p by (auto split: if_splits)
      show "gd_catalog db' \<in> set hist" using stamps_agreeD(1) [OF assms(1)] miss(2) by simp
    qed (rule stamps_agreeD(2,3) [OF assms(1)]; assumption)+
    then show ?thesis using miss e by simp
  qed
qed

lemma graph_run_agree: "graph_run db hist \<Longrightarrow> stamps_agree db hist"
proof (induction rule: graph_run.induct)
  case start
  show ?case by (rule stamps_agreeI) (auto simp: past_entries_def)
next
  case (build db hist oid rows now db' n)
  then show ?case by (metis stamps_agree_build)
next
  case (refold db hist oid rows now db' n)
  from refold.hyps(2) have "graph_build db oid rows now = Inr (db', n)" by (simp add: graph_refold_def split: option.splits)
  then show ?case using refold by (metis stamps_agree_build)
next
  case (drop_rel db hist oid)
  show ?case by (rule stamps_agree_new [OF drop_rel.IH]) (auto simp: graph_on_drop_def)
next
  case (rollback db hist cat)
  note d = stamps_agreeD [OF rollback.IH]
  show ?case
    by (rule stamps_agreeI) (use rollback.hyps(2) in simp, use d(2) in blast, use d(3) in blast, use d(4) in simp)
next
  case (load db hist oid db' c)
  then show ?case using stamps_agree_load by blast
qed

text \<open>C17: Whatever sequence of builds, refolds, drops, rollbacks and queries a backend goes through, with no two builds of a
relation at the same microsecond, the graph a query loads is the one the catalog holds at that moment, never a stale cached
one.\<close>

theorem graph_cache_coherent:
  assumes "graph_run db hist" and "load_cached_csr db oid = Inr (db', c)"
  shows "\<exists>e. gd_catalog db oid = Some e \<and> csr_from_bytes (ge_csr e) = Inr c"
  using stamps_agree_load [OF graph_run_agree [OF assms(1)] assms(2)] by blast

text \<open>The answer the edge table determines.\<close>

definition nodes_within :: "(nat \<times> nat) list \<Rightarrow> i64 list \<Rightarrow> nat \<Rightarrow> i64 list" where
  "nodes_within es seeds hops =
     map of_nat (filter (\<lambda>i. i \<in> reach_within (\<lambda>u. {v. (u, v) \<in> set es \<or> (v, u) \<in> set es})
                                  (set (seed_nodes (edge_nodes es) seeds)) hops) [0..<edge_nodes es])"

lemma reach_within_cong:
  assumes "S \<subseteq> N" and "\<And>u. u \<in> N \<Longrightarrow> E u = E' u" and "\<And>u. u \<in> N \<Longrightarrow> E u \<subseteq> N"
  shows "reach_within E S h = reach_within E' S h"
proof (induction h)
  case (Suc h)
  have "reach_within E S h \<subseteq> N" by (rule reach_within_bound [OF assms(1,3)])
  then have "E ` reach_within E S h = E' ` reach_within E S h" using assms(2) by (intro image_cong) auto
  then show ?case using Suc by simp
qed simp

lemma lane_result_edges:
  assumes "build_csr rows = Inr c" and "length rows < 2 ^ 60" and "scan_edges rows = Inr es"
  shows "csr_wf c \<and> csr_from_bytes (csr_to_bytes c) = Inr c \<and> length (cg_adj c) = 2 * length es \<and>
    lane_result c hops seeds = nodes_within es seeds hops"
proof -
  obtain es' where e: "scan_edges rows = Inr es'" "unat (cg_nnodes c) = edge_nodes es'" "csr_wf c" "csr_fits c"
      "length (cg_adj c) = 2 * length es'" "\<And>u. u < edge_nodes es' \<Longrightarrow> csr_nbrs c u = incident es' u"
    by (rule build_csr_spec [OF assms(1,2)]) (rule that)
  have es: "es' = es" using e(1) assms(3) by simp
  let ?N = "{..<edge_nodes es}"
  have "reach_within (\<lambda>u. set (csr_nbrs c u)) (set (seed_nodes (edge_nodes es) seeds)) hops =
      reach_within (\<lambda>u. {v. (u, v) \<in> set es \<or> (v, u) \<in> set es}) (set (seed_nodes (edge_nodes es) seeds)) hops"
  proof (rule reach_within_cong [where N = ?N])
    show "set (seed_nodes (edge_nodes es) seeds) \<subseteq> ?N" by (auto simp: seed_nodes_def)
    show "set (csr_nbrs c u) = {v. (u, v) \<in> set es \<or> (v, u) \<in> set es}" if "u \<in> ?N" for u
      using that e(6) by (simp add: es set_incident)
    show "set (csr_nbrs c u) \<subseteq> ?N" if "u \<in> ?N" for u using csr_nbrs_bound [OF e(3), of u] that e(2) es by simp
  qed
  then show ?thesis using e csr_codec_prefix [OF e(4)] by (simp add: es lane_result_def nodes_within_def)
qed

lemma graph_build_load:
  assumes "graph_run db hist" and "scan_edges rows = Inr es" and "length rows < 2 ^ 60" and "fresh_stamp hist oid now"
  obtains db1 db2 c where "graph_build db oid rows now = Inr (db1, of_nat (length es))" "load_cached_csr db1 oid = Inr (db2, c)"
    "csr_wf c" "\<And>hops seeds. lane_result c hops seeds = nodes_within es seeds hops"
proof -
  obtain c where c: "build_csr rows = Inr c" using assms(2) by (auto simp: build_csr_def Let_def)
  note l = lane_result_edges [OF c assms(3,2)]
  obtain db1 where b: "graph_build db oid rows now = Inr (db1, of_nat (length es))"
      "gd_catalog db1 oid = Some \<lparr>ge_csr = csr_to_bytes c, ge_nnodes = cg_nnodes c, ge_nedges = of_nat (length es), ge_built_at = now\<rparr>"
    using c l by (auto simp: graph_build_def Let_def)
  have "graph_run db1 (gd_catalog db1 # hist)" by (rule graph_run.build [OF assms(1) b(1) assms(3,4)])
  then have a: "stamps_agree db1 (gd_catalog db1 # hist)" by (rule graph_run_agree)
  have "\<exists>r. load_cached_csr db1 oid = Inr r" using b(2) l by (auto simp: load_cached_csr_def Let_def split: option.splits)
  then obtain db2 c' where r: "load_cached_csr db1 oid = Inr (db2, c')" by auto
  then have "c' = c" using stamps_agree_load [OF a r] b(2) l by auto
  then show ?thesis using that b(1) r l by auto
qed

definition empty_graph_db :: graph_db where
  "empty_graph_db = \<lparr>gd_catalog = \<lambda>_. None, gd_cache = \<lambda>_. None\<rparr>"

lemma sample_run:
  "graph_run empty_graph_db [\<lambda>_. None]" "length sample_rows < 2 ^ 60" "fresh_stamp [\<lambda>_. None] 5 1"
  by (simp_all add: empty_graph_db_def graph_run.start sample_rows_def fresh_stamp_def)

lemma sample_loaded: "\<exists>db hist db' c. graph_run db hist \<and> load_cached_csr db 5 = Inr (db', c)"
proof -
  obtain db1 db2 c where b: "graph_build empty_graph_db 5 sample_rows 1 = Inr (db1, of_nat (length [(0 :: nat, 1 :: nat), (1, 2), (2, 2)]))"
      "load_cached_csr db1 5 = Inr (db2, c)"
    by (rule graph_build_load [OF sample_run(1) sample_scan sample_run(2,3)]) (rule that)
  show ?thesis using graph_run.build [OF sample_run(1) b(1) sample_run(2,3)] b(2) by blast
qed

lemma graph_cache_coherent_witness:
  "\<exists>db hist db' c. graph_run db hist \<and> load_cached_csr db 5 = Inr (db', c) \<and>
     (\<exists>e. gd_catalog db 5 = Some e \<and> csr_from_bytes (ge_csr e) = Inr c)"
  using sample_loaded graph_cache_coherent by blast




text \<open>The multi-source search, 64 lanes to a sweep over one adjacency, returns for every seed set what the single-source
search returns for it, on every well-formed graph.\<close>

theorem expand_multi_lanes:
  assumes "csr_wf c"
  shows "\<exists>rs. csr_expand_multi c sets max_hops = Some rs \<and> map (\<lambda>seeds. csr_expand c seeds max_hops) sets = map Some rs"
  using assms by (simp add: csr_expand_multi_lanes csr_expand_lane)

lemma expand_multi_lanes_witness:
  "\<exists>rs. csr_expand_multi sample_csr [[0], [2], [0, 2]] 1 = Some rs \<and>
     [csr_expand sample_csr [0] 1, csr_expand sample_csr [2] 1, csr_expand sample_csr [0, 2] 1] = map Some rs"
proof -
  have "csr_wf sample_csr" by (simp add: csr_wf_def sample_csr_def)
  from expand_multi_lanes [OF this, of "[[0], [2], [0, 2]]" 1] show ?thesis by simp
qed



end
