(* ===== verification/Vectorizer.thy ===== *)
theory Vectorizer
  imports Prelude
begin

text \<open>
  The job queue of the declarative vectorizer (\<open>vectorizer.rs\<close>): the enqueue trigger, the claim with its lease and
  fencing token, the owner-guarded completion, failure with backoff and dead letter, lease renewal, the reaper and the
  purge. Each operation is one SQL statement and so one atomic change of the table. Times are seconds, \<open>now\<close> is the
  transaction's \<open>now()\<close>. The target of a vectorizer is its source table (in place) or a sibling keyed by the same
  primary key; the chunk-table mode is not modelled.
\<close>

section \<open>The tables\<close>

datatype job_op = Upsert | Delete

datatype job_state = Pending | Processing | Failed

record job =
  jb_id :: nat
  jb_vid :: nat
  jb_pk :: string
  jb_op :: job_op
  jb_state :: job_state
  jb_attempts :: nat
  jb_owner :: "string option"
  jb_lease :: "int option"
  jb_error :: "string option"
  jb_enqueued :: int

datatype vec_key = VKey (vk_vid: nat) (vk_pk: string)

definition jb_key :: "job \<Rightarrow> vec_key" where
  "jb_key j = VKey (jb_vid j) (jb_pk j)"

text \<open>
  \<open>vd_cfg\<close>: the registered vectorizers, with whether their target is the source table. \<open>vd_source\<close>: the content column
  by key, \<open>None\<close> no such row, \<open>Some None\<close> a null. \<open>vd_target\<close>: the embedding column, and \<open>vd_rows\<close> the keys with a row
  in a sibling table.
\<close>

record vec_db =
  vd_queue :: "job list"
  vd_seq :: nat
  vd_now :: int
  vd_cfg :: "nat \<Rightarrow> bool option"
  vd_source :: "vec_key \<Rightarrow> string option option"
  vd_target :: "vec_key \<Rightarrow> string option"
  vd_rows :: "vec_key list"
  vd_processed :: nat
  vd_failed :: nat

datatype vec_error = PendingConflict | UnknownVectorizer | NullContent | EndpointFailed | WriteFailed

section \<open>The queue\<close>

definition is_pending :: "vec_key \<Rightarrow> job \<Rightarrow> bool" where
  "is_pending k j \<longleftrightarrow> jb_key j = k \<and> jb_state j = Pending"

text \<open>\<open>INSERT \<dots> ON CONFLICT (vectorizer_id, source_pk) WHERE state = 'pending' DO UPDATE SET op\<close>.\<close>

definition enqueue :: "vec_db \<Rightarrow> vec_key \<Rightarrow> job_op \<Rightarrow> vec_db" where
  "enqueue db k op =
     (if list_ex (is_pending k) (vd_queue db)
      then db\<lparr>vd_queue := map (\<lambda>j. if is_pending k j then j\<lparr>jb_op := op\<rparr> else j) (vd_queue db), vd_seq := vd_seq db + 1\<rparr>
      else db\<lparr>vd_queue := vd_queue db @
                [\<lparr>jb_id = vd_seq db, jb_vid = vk_vid k, jb_pk = vk_pk k, jb_op = op, jb_state = Pending, jb_attempts = 0,
                  jb_owner = None, jb_lease = None, jb_error = None, jb_enqueued = vd_now db\<rparr>],
              vd_seq := vd_seq db + 1\<rparr>)"

definition claimable :: "int \<Rightarrow> nat \<Rightarrow> job \<Rightarrow> bool" where
  "claimable now max_attempts j \<longleftrightarrow>
     (case jb_state j of
        Pending \<Rightarrow> (case jb_lease j of None \<Rightarrow> True | Some t \<Rightarrow> t < now)
      | Processing \<Rightarrow> (case jb_lease j of None \<Rightarrow> False | Some t \<Rightarrow> t < now)
      | Failed \<Rightarrow> False) \<and> jb_attempts j < max_attempts"

definition claim_ids :: "nat \<Rightarrow> nat \<Rightarrow> (nat \<Rightarrow> bool) \<Rightarrow> vec_db \<Rightarrow> nat list" where
  "claim_ids batch max_attempts locked db =
     map jb_id (take batch (sort_key jb_enqueued
       (filter (\<lambda>j. claimable (vd_now db) max_attempts j \<and> \<not> locked (jb_id j)) (vd_queue db))))"

definition take_job :: "string \<Rightarrow> int \<Rightarrow> job \<Rightarrow> job" where
  "take_job owner deadline j =
     j\<lparr>jb_state := Processing, jb_owner := Some owner, jb_lease := Some deadline, jb_attempts := jb_attempts j + 1\<rparr>"

text \<open>\<open>locked\<close>: rows another transaction holds, which \<open>SKIP LOCKED\<close> passes over. Returns the claimed jobs.\<close>

definition vectorizer_claim_batch :: "string \<Rightarrow> nat \<Rightarrow> int \<Rightarrow> nat \<Rightarrow> (nat \<Rightarrow> bool) \<Rightarrow> vec_db \<Rightarrow> vec_db \<times> job list" where
  "vectorizer_claim_batch owner batch lease_secs max_attempts locked db =
     (let is = claim_ids batch max_attempts locked db;
          q = map (\<lambda>j. if jb_id j \<in> set is then take_job owner (vd_now db + lease_secs) j else j) (vd_queue db)
      in (db\<lparr>vd_queue := q\<rparr>, filter (\<lambda>j. jb_id j \<in> set is) q))"

definition owned :: "nat \<Rightarrow> string \<Rightarrow> job \<Rightarrow> bool" where
  "owned i owner j \<longleftrightarrow> jb_id j = i \<and> jb_owner j = Some owner \<and> jb_state j = Processing"

definition vectorizer_mark_done :: "nat \<Rightarrow> string \<Rightarrow> vec_db \<Rightarrow> vec_db \<times> bool" where
  "vectorizer_mark_done i owner db =
     (db\<lparr>vd_queue := filter (\<lambda>j. \<not> owned i owner j) (vd_queue db)\<rparr>, list_ex (owned i owner) (vd_queue db))"

definition backoff_secs :: "nat \<Rightarrow> int" where
  "backoff_secs attempts = min (2 ^ min attempts 12) 300"

definition fail_job :: "string \<Rightarrow> nat \<Rightarrow> int \<Rightarrow> job \<Rightarrow> job" where
  "fail_job err max_attempts now j =
     (if jb_attempts j \<ge> max_attempts
      then j\<lparr>jb_state := Failed, jb_owner := None, jb_error := Some err, jb_lease := None\<rparr>
      else j\<lparr>jb_state := Pending, jb_owner := None, jb_error := Some err, jb_lease := Some (now + backoff_secs (jb_attempts j))\<rparr>)"

text \<open>The unique index \<open>vectorizer_queue_pending_uniq\<close>: a statement that would leave two pending jobs of one key fails.\<close>

definition pending_unique :: "job list \<Rightarrow> bool" where
  "pending_unique q \<longleftrightarrow> distinct (map jb_key (filter (\<lambda>j. jb_state j = Pending) q))"

definition vectorizer_mark_failed :: "nat \<Rightarrow> string \<Rightarrow> string \<Rightarrow> nat \<Rightarrow> vec_db \<Rightarrow> vec_error + vec_db \<times> bool" where
  "vectorizer_mark_failed i owner err max_attempts db =
     (let q = map (\<lambda>j. if owned i owner j then fail_job err max_attempts (vd_now db) j else j) (vd_queue db) in
      if pending_unique q then Inr (db\<lparr>vd_queue := q\<rparr>, list_ex (owned i owner) (vd_queue db)) else Inl PendingConflict)"

definition vectorizer_renew_lease :: "nat list \<Rightarrow> string \<Rightarrow> int \<Rightarrow> vec_db \<Rightarrow> vec_db \<times> nat" where
  "vectorizer_renew_lease is owner lease_secs db =
     (let mine = (\<lambda>j. list_ex (\<lambda>i. owned i owner j) is) in
      (db\<lparr>vd_queue := map (\<lambda>j. if mine j then j\<lparr>jb_lease := Some (vd_now db + lease_secs)\<rparr> else j) (vd_queue db)\<rparr>,
       length (filter mine (vd_queue db))))"

definition is_orphan :: "nat \<Rightarrow> int \<Rightarrow> job \<Rightarrow> bool" where
  "is_orphan max_attempts now j \<longleftrightarrow> jb_state j = Processing \<and> jb_attempts j \<ge> max_attempts \<and>
     (case jb_lease j of None \<Rightarrow> False | Some t \<Rightarrow> t < now)"

definition vectorizer_reap_orphans :: "nat \<Rightarrow> vec_db \<Rightarrow> vec_db \<times> nat" where
  "vectorizer_reap_orphans max_attempts db =
     (let dead = is_orphan max_attempts (vd_now db) in
      (db\<lparr>vd_queue := map (\<lambda>j. if dead j
             then j\<lparr>jb_state := Failed, jb_error := Some ''lease expired at attempt cap (worker crashed before reporting)''\<rparr>
             else j) (vd_queue db)\<rparr>, length (filter dead (vd_queue db))))"

definition kept_letters :: "nat \<Rightarrow> job list \<Rightarrow> nat list" where
  "kept_letters keep q = take keep (rev (sort (map jb_id (filter (\<lambda>j. jb_state j = Failed) q))))"

definition vectorizer_purge_dead_letters :: "nat \<Rightarrow> vec_db \<Rightarrow> vec_db \<times> nat" where
  "vectorizer_purge_dead_letters keep db =
     (let gone = (\<lambda>j. jb_state j = Failed \<and> jb_id j \<notin> set (kept_letters keep (vd_queue db))) in
      (db\<lparr>vd_queue := filter (\<lambda>j. \<not> gone j) (vd_queue db)\<rparr>, length (filter gone (vd_queue db))))"

definition vectorizer_bump_stats :: "nat \<Rightarrow> nat \<Rightarrow> vec_db \<Rightarrow> vec_db" where
  "vectorizer_bump_stats p f db = db\<lparr>vd_processed := vd_processed db + p, vd_failed := vd_failed db + f\<rparr>"

section \<open>The source and the target\<close>

definition in_place :: "vec_db \<Rightarrow> nat \<Rightarrow> bool" where
  "in_place db vid \<longleftrightarrow> vd_cfg db vid = Some True"

definition target_row :: "vec_db \<Rightarrow> vec_key \<Rightarrow> bool" where
  "target_row db k \<longleftrightarrow> (if in_place db (vk_vid k) then vd_source db k \<noteq> None else k \<in> set (vd_rows db))"

text \<open>
  A change of a source row by an application, with the trigger's enqueue in the same transaction: \<open>Some c\<close> inserts or
  updates it, \<open>None\<close> deletes it. In place, the embedding goes with the row.
\<close>

definition source_dml :: "vec_db \<Rightarrow> vec_key \<Rightarrow> string option option \<Rightarrow> vec_db" where
  "source_dml db k row =
     (let gone = in_place db (vk_vid k) \<and> (row = None \<or> vd_source db k = None);
          db1 = db\<lparr>vd_source := (vd_source db)(k := row),
                   vd_target := (if gone then (vd_target db)(k := None) else vd_target db)\<rparr>
      in enqueue db1 k (if row = None then Delete else Upsert))"

text \<open>\<open>UPDATE target SET embedding\<close>: in place it is an update of the source table, and fires the trigger.\<close>

definition write_target :: "vec_db \<Rightarrow> vec_key \<Rightarrow> string option \<Rightarrow> vec_db" where
  "write_target db k e =
     (if target_row db k
      then let db1 = db\<lparr>vd_target := (vd_target db)(k := e)\<rparr>
        in if in_place db (vk_vid k) then enqueue db1 k Upsert else db1
      else db)"

definition fetch_content :: "vec_db \<Rightarrow> vec_key \<Rightarrow> string option" where
  "fetch_content db k = (case vd_source db k of None \<Rightarrow> None | Some c \<Rightarrow> c)"

text \<open>\<open>emb\<close> is what the endpoint answers for a text, \<open>up\<close> whether the call and the write succeed.\<close>

definition vectorizer_process_upsert :: "(string \<Rightarrow> string) \<Rightarrow> bool \<Rightarrow> vec_db \<Rightarrow> vec_key \<Rightarrow> vec_error + vec_db" where
  "vectorizer_process_upsert emb up db k =
     (if vd_cfg db (vk_vid k) = None then Inl UnknownVectorizer
      else case fetch_content db k of
        None \<Rightarrow> Inl NullContent
      | Some c \<Rightarrow> if up then Inr (write_target db k (Some (emb c))) else Inl EndpointFailed)"

definition vectorizer_process_delete :: "bool \<Rightarrow> vec_db \<Rightarrow> vec_key \<Rightarrow> vec_error + vec_db" where
  "vectorizer_process_delete up db k =
     (if vd_cfg db (vk_vid k) = None then Inl UnknownVectorizer
      else if up then Inr (write_target db k None) else Inl WriteFailed)"

definition vectorizer_read_batch :: "vec_db \<Rightarrow> nat \<Rightarrow> string list \<Rightarrow> vec_error + string option list" where
  "vectorizer_read_batch db vid pks =
     (if vd_cfg db vid = None then Inl UnknownVectorizer else Inr (map (\<lambda>pk. fetch_content db (VKey vid pk)) pks))"

fun write_items :: "string \<Rightarrow> nat \<Rightarrow> (nat \<times> string \<times> string) list \<Rightarrow> vec_db \<Rightarrow> nat \<Rightarrow> vec_db \<times> nat" where
  "write_items owner vid [] db n = (db, n)"
| "write_items owner vid ((i, pk, e) # items) db n =
     (let (db', ok) = vectorizer_mark_done i owner (write_target db (VKey vid pk) (Some e))
      in write_items owner vid items db' (if ok then n + 1 else n))"

definition vectorizer_write_batch :: "string \<Rightarrow> bool \<Rightarrow> vec_db \<Rightarrow> nat \<Rightarrow> (nat \<times> string \<times> string) list \<Rightarrow> vec_error + vec_db \<times> nat" where
  "vectorizer_write_batch owner up db vid items = (if up then Inr (write_items owner vid items db 0) else Inl WriteFailed)"

section \<open>The worker\<close>

text \<open>
  The main loop as a list of the transactions still to run: a task that returns other tasks is the code that follows
  it. \<open>Mark i None\<close> is the completion of a job that was processed, \<open>Mark i (Some err)\<close> its failure.
\<close>

datatype task = ReapPurge | Claim | Process nat vec_key bool | Mark nat "string option"
  | ReadGroup nat "(nat \<times> string) list" | Renew "nat list"
  | EmbedGroup nat "(nat \<times> string \<times> string option) list" | WriteGroup nat "(nat \<times> string \<times> string) list" | Bump

record worker =
  wk_owner :: string
  wk_tasks :: "task list"
  wk_processed :: nat
  wk_failed :: nat

definition WORKER_BATCH :: nat where "WORKER_BATCH = 10"
definition WORKER_LEASE_SECS :: int where "WORKER_LEASE_SECS = 120"
definition WORKER_MAX_ATTEMPTS :: nat where "WORKER_MAX_ATTEMPTS = 5"

definition process_one :: "nat \<Rightarrow> nat \<Rightarrow> string \<Rightarrow> bool \<Rightarrow> task list" where
  "process_one i vid pk is_delete = [Process i (VKey vid pk) is_delete]"

definition fallback :: "nat \<Rightarrow> (nat \<times> string) list \<Rightarrow> task list" where
  "fallback vid grp = concat (map (\<lambda>(i, pk). Renew [i] # process_one i vid pk False) grp)"

text \<open>The groups of upserts by vectorizer; the order of the groups is the one of a hash map, here first appearance.\<close>

definition upsert_groups :: "job list \<Rightarrow> (nat \<times> (nat \<times> string) list) list" where
  "upsert_groups js = map (\<lambda>v. (v, map (\<lambda>j. (jb_id j, jb_pk j)) (filter (\<lambda>j. jb_vid j = v) js))) (remdups (map jb_vid js))"

definition dispatch :: "job list \<Rightarrow> task list" where
  "dispatch js =
     (if js = [] then []
      else concat (map (\<lambda>j. process_one (jb_id j) (jb_vid j) (jb_pk j) True) (filter (\<lambda>j. jb_op j = Delete) js)) @
           map (\<lambda>(v, g). ReadGroup v g) (upsert_groups (filter (\<lambda>j. jb_op j = Upsert) js)) @ [Bump])"

definition pairs_of :: "(nat \<times> string \<times> 'a) list \<Rightarrow> (nat \<times> string) list" where
  "pairs_of items = map (\<lambda>(i, pk, x). (i, pk)) items"

definition count :: "worker \<Rightarrow> nat \<Rightarrow> nat \<Rightarrow> worker" where
  "count w p f = w\<lparr>wk_processed := wk_processed w + p, wk_failed := wk_failed w + f\<rparr>"

text \<open>
  One task of the worker. \<open>up\<close>: the endpoint call and the write of this task succeed; \<open>keep\<close>: \<open>vectorizer.dead_letter_max\<close>.
  \<open>None\<close>: a statement raised outside any handler, and the worker process ends.
\<close>

fun run_task :: "(string \<Rightarrow> string) \<Rightarrow> nat \<Rightarrow> bool \<Rightarrow> (nat \<Rightarrow> bool) \<Rightarrow> task \<Rightarrow> vec_db \<Rightarrow> worker \<Rightarrow> (vec_db \<times> worker \<times> task list) option" where
  "run_task emb keep up locked ReapPurge db w =
     Some (fst (vectorizer_purge_dead_letters keep (fst (vectorizer_reap_orphans WORKER_MAX_ATTEMPTS db))), w, [])"
| "run_task emb keep up locked Claim db w =
     (let (db', js) = vectorizer_claim_batch (wk_owner w) WORKER_BATCH WORKER_LEASE_SECS WORKER_MAX_ATTEMPTS locked db
      in Some (db', w\<lparr>wk_processed := 0, wk_failed := 0\<rparr>, dispatch js))"
| "run_task emb keep up locked (Process i k is_delete) db w =
     (case (if is_delete then vectorizer_process_delete up db k else vectorizer_process_upsert emb up db k) of
        Inr db' \<Rightarrow> Some (db', w, [Mark i None])
      | Inl e \<Rightarrow> Some (db, w, [Mark i (Some ''job failed'')]))"
| "run_task emb keep up locked (Mark i None) db w =
     (let (db', ok) = vectorizer_mark_done i (wk_owner w) db
      in Some (db', (if ok then count w 1 0 else count w 0 1), []))"
| "run_task emb keep up locked (Mark i (Some err)) db w =
     (case vectorizer_mark_failed i (wk_owner w) err WORKER_MAX_ATTEMPTS db of
        Inl e \<Rightarrow> None
      | Inr (db', ok) \<Rightarrow> Some (db', count w 0 1, []))"
| "run_task emb keep up locked (ReadGroup vid grp) db w =
     (case vectorizer_read_batch db vid (map snd grp) of
        Inl e \<Rightarrow> Some (db, w, fallback vid grp)
      | Inr contents \<Rightarrow> Some (db, w, [Renew (map fst grp),
          EmbedGroup vid (map2 (\<lambda>(i, pk) c. (i, pk, c)) grp contents)]))"
| "run_task emb keep up locked (Renew is) db w =
     Some (fst (vectorizer_renew_lease is (wk_owner w) WORKER_LEASE_SECS db), w, [])"
| "run_task emb keep up locked (EmbedGroup vid items) db w =
     (if up \<and> list_all (\<lambda>(i, pk, c). c \<noteq> None) items
      then Some (db, w, [WriteGroup vid (map (\<lambda>(i, pk, c). (i, pk, emb (the c))) items)])
      else Some (db, w, fallback vid (pairs_of items)))"
| "run_task emb keep up locked (WriteGroup vid items) db w =
     (case vectorizer_write_batch (wk_owner w) up db vid items of
        Inl e \<Rightarrow> Some (db, w, fallback vid (pairs_of items))
      | Inr (db', n) \<Rightarrow> if n > 0 then Some (db', count w n 0, []) else Some (db', w, fallback vid (pairs_of items)))"
| "run_task emb keep up locked Bump db w = Some (vectorizer_bump_stats (wk_processed w) (wk_failed w) db, w, [])"

definition worker_step :: "(string \<Rightarrow> string) \<Rightarrow> nat \<Rightarrow> bool \<Rightarrow> (nat \<Rightarrow> bool) \<Rightarrow> vec_db \<Rightarrow> worker \<Rightarrow> (vec_db \<times> worker) option" where
  "worker_step emb keep up locked db w =
     (case wk_tasks w of
        [] \<Rightarrow> Some (db, w\<lparr>wk_tasks := [ReapPurge, Claim]\<rparr>)
      | t # ts \<Rightarrow> map_option (\<lambda>(db', w', more_tasks). (db', w'\<lparr>wk_tasks := more_tasks @ ts\<rparr>)) (run_task emb keep up locked t db w))"

end
