(* ===== verification/VectorizerRun.thy ===== *)
theory VectorizerRun
  imports Vectorizer
begin

text \<open>
  Runs of the vectorizer: one worker and the applications' changes of the source rows, interleaved by transaction, with
  failures of the endpoint, crashes and restarts. The invariant says which job will repair a key whose embedding is out
  of date; where it needs a hypothesis, a run shows what happens without it.
\<close>

declare split_paired_All [simp del] split_paired_Ex [simp del]

section \<open>What a run promises\<close>

definition wanted :: "(string \<Rightarrow> string) \<Rightarrow> vec_db \<Rightarrow> vec_key \<Rightarrow> string option" where
  "wanted emb db k = map_option emb (fetch_content db k)"

definition in_sync :: "(string \<Rightarrow> string) \<Rightarrow> vec_db \<Rightarrow> vec_key \<Rightarrow> bool" where
  "in_sync emb db k \<longleftrightarrow> (target_row db k \<longrightarrow> vd_target db k = wanted emb db k)"

text \<open>A delete of the key that has been claimed and not yet processed.\<close>

definition deleting :: "vec_db \<Rightarrow> task list \<Rightarrow> vec_key \<Rightarrow> bool" where
  "deleting db ts k \<longleftrightarrow>
     list_ex (\<lambda>j. jb_key j = k \<and> jb_op j = Delete \<and> jb_state j = Processing) (vd_queue db) \<or>
     list_ex (\<lambda>t. case t of Process i k' d \<Rightarrow> k' = k \<and> d | _ \<Rightarrow> False) ts"

text \<open>The keys whose dead letters the task purges.\<close>

definition buried :: "nat \<Rightarrow> vec_db \<Rightarrow> task list \<Rightarrow> vec_key set" where
  "buried keep db ts =
     (case ts of ReapPurge # _ \<Rightarrow>
        (let q = vd_queue (fst (vectorizer_reap_orphans WORKER_MAX_ATTEMPTS db))
         in jb_key ` set (filter (\<lambda>j. jb_state j = Failed \<and> jb_id j \<notin> set (kept_letters keep q)) q))
      | _ \<Rightarrow> {})"

text \<open>
  With \<open>calm\<close> no row is inserted or updated again while a delete of its key is claimed and not yet processed. The last
  argument collects the keys whose dead letters have been purged.
\<close>

inductive vec_run :: "(string \<Rightarrow> string) \<Rightarrow> nat \<Rightarrow> bool \<Rightarrow> vec_db \<Rightarrow> worker \<Rightarrow> vec_key set \<Rightarrow> bool" for emb keep calm where
  start: "vd_queue db = [] \<Longrightarrow> (\<And>k. in_sync emb db k) \<Longrightarrow> wk_tasks w = [] \<Longrightarrow> vec_run emb keep calm db w {}"
| dml: "vec_run emb keep calm db w lost \<Longrightarrow> row = None \<or> \<not> deleting db (wk_tasks w) k \<or> \<not> calm \<Longrightarrow>
    vec_run emb keep calm (source_dml db k row) w lost"
| tick: "vec_run emb keep calm db w lost \<Longrightarrow> vd_now db \<le> t \<Longrightarrow> vec_run emb keep calm (db\<lparr>vd_now := t\<rparr>) w lost"
| work: "vec_run emb keep calm db w lost \<Longrightarrow> worker_step emb keep up locked db w = Some (db', w') \<Longrightarrow>
    vec_run emb keep calm db' w' (lost \<union> buried keep db (wk_tasks w))"
| crash: "vec_run emb keep calm db w lost \<Longrightarrow> vec_run emb keep calm db (w\<lparr>wk_owner := o', wk_tasks := []\<rparr>) lost"

section \<open>The invariant\<close>

text \<open>A captured text or vector for the key that is not the current one any more.\<close>

fun stale :: "(string \<Rightarrow> string) \<Rightarrow> vec_db \<Rightarrow> vec_key \<Rightarrow> task \<Rightarrow> bool" where
  "stale emb db k (EmbedGroup vid items) = list_ex (\<lambda>(i, pk, c). VKey vid pk = k \<and> c \<noteq> fetch_content db k) items"
| "stale emb db k (WriteGroup vid items) = list_ex (\<lambda>(i, pk, e). VKey vid pk = k \<and> Some e \<noteq> wanted emb db k) items"
| "stale emb db k t = False"

text \<open>The task will complete the job without bringing its key up to date.\<close>

fun dooms :: "(string \<Rightarrow> string) \<Rightarrow> vec_db \<Rightarrow> job \<Rightarrow> task \<Rightarrow> bool" where
  "dooms emb db j (Mark i None) = (i = jb_id j)"
| "dooms emb db j (EmbedGroup vid items) = list_ex (\<lambda>(i, pk, c). i = jb_id j \<and> c \<noteq> fetch_content db (jb_key j)) items"
| "dooms emb db j (WriteGroup vid items) = list_ex (\<lambda>(i, pk, e). i = jb_id j \<and> Some e \<noteq> wanted emb db (jb_key j)) items"
| "dooms emb db j t = False"

definition repairs :: "(string \<Rightarrow> string) \<Rightarrow> vec_db \<Rightarrow> task list \<Rightarrow> job \<Rightarrow> bool" where
  "repairs emb db ts j \<longleftrightarrow> jb_state j \<noteq> Processing \<or> list_all (\<lambda>t. \<not> dooms emb db j t) ts"

definition covered :: "(string \<Rightarrow> string) \<Rightarrow> vec_db \<Rightarrow> task list \<Rightarrow> vec_key \<Rightarrow> bool" where
  "covered emb db ts k \<longleftrightarrow> (\<exists>j \<in> set (vd_queue db). jb_key j = k \<and> repairs emb db ts j)"

definition settled :: "(string \<Rightarrow> string) \<Rightarrow> vec_db \<Rightarrow> task list \<Rightarrow> vec_key \<Rightarrow> bool" where
  "settled emb db ts k \<longleftrightarrow> in_sync emb db k \<and> list_all (\<lambda>t. \<not> stale emb db k t) ts"

definition key_ok :: "(string \<Rightarrow> string) \<Rightarrow> vec_db \<Rightarrow> task list \<Rightarrow> vec_key set \<Rightarrow> vec_key \<Rightarrow> bool" where
  "key_ok emb db ts lost k \<longleftrightarrow> settled emb db ts k \<or> k \<in> lost \<or> covered emb db ts k"







definition queue_ok :: "vec_db \<Rightarrow> bool" where
  "queue_ok db \<longleftrightarrow> distinct (map jb_id (vd_queue db)) \<and> (\<forall>j \<in> set (vd_queue db). jb_id j < vd_seq db)"


section \<open>What the operations keep\<close>

text \<open>A change of the queue that keeps each job's identity and never makes one Processing.\<close>

definition job_map :: "(job \<Rightarrow> job) \<Rightarrow> bool" where
  "job_map f \<longleftrightarrow> (\<forall>j. jb_id (f j) = jb_id j \<and> jb_key (f j) = jb_key j \<and>
     (jb_state (f j) = Processing \<longrightarrow> jb_state j = Processing))"


lemma fetch_same: "vd_source db' k = vd_source db k \<Longrightarrow> fetch_content db' k = fetch_content db k"
  by (simp add: fetch_content_def)

lemma dooms_same:
  assumes "jb_id j' = jb_id j" and "jb_key j' = jb_key j" and "vd_source db' = vd_source db"
  shows "dooms emb db' j' t = dooms emb db j t"
proof -
  have "fetch_content db' k = fetch_content db k" for k by (rule fetch_same) (simp add: assms(3))
  then show ?thesis
  proof (cases t)
    case (Mark i r)
    then show ?thesis using assms(1) by (cases r) simp_all
  qed (simp_all add: assms(1,2) wanted_def)
qed

lemma stale_same:
  assumes "vd_source db' k = vd_source db k"
  shows "stale emb db' k t = stale emb db k t"
proof -
  note f = fetch_same [OF assms]
  have w: "wanted emb db' k = wanted emb db k" by (simp only: wanted_def f)
  show ?thesis by (cases t) (simp_all only: stale.simps f w)
qed

lemma target_row_same: "vd_cfg db' = vd_cfg db \<Longrightarrow> vd_rows db' = vd_rows db \<Longrightarrow> vd_source db' k = vd_source db k \<Longrightarrow>
    target_row db' k = target_row db k"
  by (simp add: target_row_def in_place_def)

lemma in_sync_same: "vd_cfg db' = vd_cfg db \<Longrightarrow> vd_rows db' = vd_rows db \<Longrightarrow> vd_source db' k = vd_source db k \<Longrightarrow>
    vd_target db' k = vd_target db k \<Longrightarrow> in_sync emb db' k = in_sync emb db k"
  using target_row_same [of db' db k] fetch_same [of db' k db] by (simp add: in_sync_def wanted_def)

lemma covered_map:
  assumes "job_map f" and "vd_queue db' = map f (vd_queue db)" and "vd_source db' = vd_source db"
    and "covered emb db ts k" and "\<forall>t \<in> set ts'. t \<in> set ts \<or> (\<forall>j. \<not> dooms emb db j t)"
  shows "covered emb db' ts' k"
proof -
  obtain j where j: "j \<in> set (vd_queue db)" "jb_key j = k" "repairs emb db ts j" using assms(4) by (auto simp: covered_def)
  have f: "jb_id (f j) = jb_id j" "jb_key (f j) = jb_key j" "jb_state (f j) = Processing \<Longrightarrow> jb_state j = Processing"
    using assms(1) by (auto simp: job_map_def)
  have "repairs emb db' ts' (f j)"
    using j(3) f(3) assms(5) dooms_same [OF f(1,2) assms(3)] by (auto simp: repairs_def list_all_iff)
  then show ?thesis using j(1,2) f(2) assms(2) by (auto simp: covered_def)
qed

lemma job_map_op: "job_map (\<lambda>j. if P j then j\<lparr>jb_op := x\<rparr> else j)"
  by (simp add: job_map_def jb_key_def)

lemma enqueue_simps [simp]:
  "vd_source (enqueue db k x) = vd_source db" "vd_target (enqueue db k x) = vd_target db" "vd_cfg (enqueue db k x) = vd_cfg db"
  "vd_rows (enqueue db k x) = vd_rows db" "vd_seq (enqueue db k x) = vd_seq db + 1" "vd_now (enqueue db k x) = vd_now db"
  by (simp_all add: enqueue_def)

lemma covered_enqueue:
  "covered emb db ts k' \<Longrightarrow> covered emb (enqueue db k x) ts k'"
  "covered emb (enqueue db k x) ts k"
proof -
  show "covered emb (enqueue db k x) ts k'" if "covered emb db ts k'"
  proof (cases "list_ex (is_pending k) (vd_queue db)")
    case True
    show ?thesis
      by (rule covered_map [OF job_map_op [of "is_pending k" x] _ _ that]) (use True in \<open>simp_all add: enqueue_def\<close>)
  next
    case False
    then have "set (vd_queue db) \<subseteq> set (vd_queue (enqueue db k x))" by (auto simp: enqueue_def)
    moreover have "repairs emb (enqueue db k x) ts j = repairs emb db ts j" for j
      by (simp add: repairs_def dooms_same [of j j "enqueue db k x" db])
    ultimately show ?thesis using that by (auto simp: covered_def)
  qed
  show "covered emb (enqueue db k x) ts k"
  proof (cases "list_ex (is_pending k) (vd_queue db)")
    case True
    then obtain j where "j \<in> set (vd_queue db)" "is_pending k j" by (auto simp: list_ex_iff)
    then have "j\<lparr>jb_op := x\<rparr> \<in> set (vd_queue (enqueue db k x))" "jb_key (j\<lparr>jb_op := x\<rparr>) = k" "jb_state (j\<lparr>jb_op := x\<rparr>) \<noteq> Processing"
      using True by (auto simp: enqueue_def is_pending_def jb_key_def image_iff)
    then show ?thesis by (auto simp: covered_def repairs_def)
  next
    case False
    then show ?thesis by (auto simp: enqueue_def covered_def repairs_def jb_key_def)
  qed
qed

lemma queue_ok_enqueue: "queue_ok db \<Longrightarrow> queue_ok (enqueue db k x)"
proof -
  assume q: "queue_ok db"
  have "map jb_id (map (\<lambda>j. if P j then j\<lparr>jb_op := x\<rparr> else j) js) = map jb_id js" for P and js :: "job list"
    by (induction js) auto
  then show ?thesis using q unfolding queue_ok_def enqueue_def by (auto simp del: map_map)
qed





lemma queue_ok_filter: "queue_ok db \<Longrightarrow> vd_queue db' = filter P (vd_queue db) \<Longrightarrow> vd_seq db' = vd_seq db \<Longrightarrow> queue_ok db'"
  by (auto simp: queue_ok_def distinct_map_filter)




section \<open>The steps of the worker\<close>














lemma fail_job_simps [simp]:
  "jb_id (fail_job err m now j) = jb_id j" "jb_key (fail_job err m now j) = jb_key j" "jb_op (fail_job err m now j) = jb_op j"
  "jb_state (fail_job err m now j) \<noteq> Processing"
  by (simp_all add: fail_job_def jb_key_def)




lemma key_ok_enqueue: "key_ok emb db ts lost k' \<Longrightarrow> key_ok emb (enqueue db k x) ts lost k'"
  using covered_enqueue(1) [of emb db ts k' k x] in_sync_same [of "enqueue db k x" db k'] stale_same [of "enqueue db k x" k' db]
  by (auto simp: key_ok_def settled_def)

lemma write_target_simps [simp]:
  "vd_source (write_target db k e) = vd_source db" "vd_cfg (write_target db k e) = vd_cfg db" "vd_rows (write_target db k e) = vd_rows db"
  "wanted emb (write_target db k e) k' = wanted emb db k'"
  by (simp_all add: write_target_def Let_def wanted_def fetch_content_def)


lemma write_target_cases:
  obtains (same) "vd_queue (write_target db k e) = vd_queue db" "vd_seq (write_target db k e) = vd_seq db"
    | (enq) db1 where "write_target db k e = enqueue db1 k Upsert" "vd_queue db1 = vd_queue db" "vd_seq db1 = vd_seq db"
        "vd_source db1 = vd_source db"
proof (cases "target_row db k \<and> in_place db (vk_vid k)")
  case True
  then show ?thesis
    by (intro enq [of "db\<lparr>vd_target := (vd_target db)(k := e)\<rparr>"]) (simp_all add: write_target_def Let_def)
next
  case False
  then show ?thesis by (intro same) (auto simp: write_target_def Let_def)
qed














text \<open>A claim takes each of the claimed jobs once, under its key.\<close>

lemma claimed_jobs:
  assumes "queue_ok db" and j: "j \<in> set (vd_queue db)" and "jb_id j \<in> set (claim_ids b m locked db)"
  shows "claimable (vd_now db) m j"
proof -
  obtain j' where "j' \<in> set (vd_queue db)" "jb_id j' = jb_id j" "claimable (vd_now db) m j'"
    using assms(3) by (auto simp: claim_ids_def dest!: in_set_takeD)
  then show ?thesis using assms(1) j by (metis distinct_map inj_on_def queue_ok_def)
qed


lemma take_job_simps [simp]:
  "jb_id (take_job o' d j) = jb_id j" "jb_key (take_job o' d j) = jb_key j" "jb_op (take_job o' d j) = jb_op j"
  by (simp_all add: take_job_def jb_key_def)





section \<open>The queue of a run\<close>

text \<open>At most one pending job of each key, no job claimed more often than the cap allows, no id twice.\<close>

definition queue_wf :: "vec_db \<Rightarrow> bool" where
  "queue_wf db \<longleftrightarrow> queue_ok db \<and> pending_unique (vd_queue db) \<and> (\<forall>j \<in> set (vd_queue db). jb_attempts j \<le> WORKER_MAX_ATTEMPTS)"

lemma pending_unique_map:
  assumes "pending_unique q" and "\<And>j. j \<in> set q \<Longrightarrow> jb_key (f j) = jb_key j \<and> (jb_state (f j) = Pending \<longrightarrow> jb_state j = Pending)"
  shows "pending_unique (map f q)"
  using assms
proof (induction q)
  case (Cons j q)
  have tl: "pending_unique q" using Cons.prems(1) by (auto simp: pending_unique_def split: if_splits)
  have f: "jb_key (f j') = jb_key j'" "jb_state (f j') = Pending \<Longrightarrow> jb_state j' = Pending" if "j' \<in> set (j # q)" for j'
    using Cons.prems(2) [OF that] by simp_all
  have "jb_key (f j) \<notin> jb_key ` {j' \<in> set (map f q). jb_state j' = Pending}" if "jb_state (f j) = Pending"
  proof
    assume "jb_key (f j) \<in> jb_key ` {j' \<in> set (map f q). jb_state j' = Pending}"
    then obtain j' where "j' \<in> set q" "jb_key (f j) = jb_key (f j')" "jb_state (f j') = Pending" by auto
    then have "jb_key j = jb_key j'" "jb_state j' = Pending" "j' \<in> set q" using f [of j] f [of j'] by simp_all
    then show False using Cons.prems(1) f(2) [of j] that by (auto simp: pending_unique_def)
  qed
  moreover have "pending_unique (map f q)" by (rule Cons.IH [OF tl]) (use Cons.prems(2) in auto)
  ultimately show ?case by (simp add: pending_unique_def)
qed (simp add: pending_unique_def)

lemma pending_unique_filter: "pending_unique q \<Longrightarrow> pending_unique (filter P q)"
  by (induction q) (auto simp: pending_unique_def)

lemma queue_wf_map:
  assumes "queue_wf db" and "vd_queue db' = map f (vd_queue db)" and "vd_seq db' = vd_seq db"
    and "\<And>j. j \<in> set (vd_queue db) \<Longrightarrow> jb_id (f j) = jb_id j \<and> jb_key (f j) = jb_key j \<and>
      (jb_state (f j) = Pending \<longrightarrow> jb_state j = Pending) \<and> jb_attempts (f j) \<le> WORKER_MAX_ATTEMPTS"
  shows "queue_wf db'"
proof -
  have "map jb_id (map f (vd_queue db)) = map jb_id (vd_queue db)" using assms(4) by simp
  then have "queue_ok db'" using assms unfolding queue_wf_def queue_ok_def by (auto simp del: map_map)
  then show ?thesis using assms(1,2,4) pending_unique_map [of "vd_queue db" f] by (auto simp: queue_wf_def)
qed

lemma queue_wf_filter: "queue_wf db \<Longrightarrow> vd_queue db' = filter P (vd_queue db) \<Longrightarrow> vd_seq db' = vd_seq db \<Longrightarrow> queue_wf db'"
  using queue_ok_filter pending_unique_filter by (auto simp: queue_wf_def)

lemma queue_wf_same: "queue_wf db \<Longrightarrow> vd_queue db' = vd_queue db \<Longrightarrow> vd_seq db' = vd_seq db \<Longrightarrow> queue_wf db'"
  by (simp add: queue_wf_def queue_ok_def)

lemma queue_wf_enqueue:
  assumes "queue_wf db"
  shows "queue_wf (enqueue db k x)"
proof (cases "list_ex (is_pending k) (vd_queue db)")
  case True
  have "queue_ok (enqueue db k x)" using assms queue_ok_enqueue by (simp add: queue_wf_def)
  moreover have "pending_unique (vd_queue (enqueue db k x))"
    using assms True pending_unique_map [of "vd_queue db" "\<lambda>j. if is_pending k j then j\<lparr>jb_op := x\<rparr> else j"]
    by (simp add: enqueue_def queue_wf_def jb_key_def)
  moreover have "\<forall>j \<in> set (vd_queue (enqueue db k x)). jb_attempts j \<le> WORKER_MAX_ATTEMPTS"
    using assms True by (auto simp: enqueue_def queue_wf_def)
  ultimately show ?thesis by (simp add: queue_wf_def)
next
  case False
  have "queue_ok (enqueue db k x)" using assms queue_ok_enqueue by (simp add: queue_wf_def)
  then show ?thesis using assms False
    by (auto simp: queue_wf_def enqueue_def pending_unique_def list_ex_iff is_pending_def jb_key_def)
qed

lemma queue_wf_write: "queue_wf db \<Longrightarrow> queue_wf (write_target db k e)"
proof (cases rule: write_target_cases [of db k e])
  case (enq db1)
  assume "queue_wf db"
  then have "queue_wf db1" using enq queue_wf_same [of db db1] by simp
  then show ?thesis using enq(1) queue_wf_enqueue by simp
qed (simp add: queue_wf_same)

lemma queue_wf_mark_done: "queue_wf db \<Longrightarrow> queue_wf (fst (vectorizer_mark_done i owner db))"
  by (rule queue_wf_filter [of db]) (simp_all add: vectorizer_mark_done_def)

lemma queue_wf_write_items: "queue_wf db \<Longrightarrow> queue_wf (fst (write_items owner vid items db n))"
proof (induction items arbitrary: db n)
  case (Cons item items)
  obtain i pk e where it: "item = (i, pk, e)" by (cases item)
  note w = queue_wf_mark_done [OF queue_wf_write [OF Cons.prems], of i owner "VKey vid pk" "Some e"]
  show ?case using Cons.IH [OF w] by (simp add: it split_beta Let_def)
qed simp

lemma queue_wf_task:
  assumes q: "queue_wf db" and run: "run_task emb keep up locked t db w = Some (db', w', more_tasks)"
  shows "queue_wf db'"
proof (cases t)
  case ReapPurge
  have "queue_wf (fst (vectorizer_reap_orphans WORKER_MAX_ATTEMPTS db))"
    by (rule queue_wf_map [OF q, where f = "\<lambda>j. if is_orphan WORKER_MAX_ATTEMPTS (vd_now db) j
        then j\<lparr>jb_state := Failed, jb_error := Some ''lease expired at attempt cap (worker crashed before reporting)''\<rparr> else j"])
      (use q in \<open>auto simp: vectorizer_reap_orphans_def Let_def jb_key_def queue_wf_def\<close>)
  then have "queue_wf (fst (vectorizer_purge_dead_letters keep (fst (vectorizer_reap_orphans WORKER_MAX_ATTEMPTS db))))"
    by (rule queue_wf_filter) (simp_all add: vectorizer_purge_dead_letters_def Let_def)
  then show ?thesis using run ReapPurge by simp
next
  case Claim
  let ?ids = "claim_ids WORKER_BATCH WORKER_MAX_ATTEMPTS locked db"
  let ?f = "\<lambda>j. if jb_id j \<in> set ?ids then take_job (wk_owner w) (vd_now db + WORKER_LEASE_SECS) j else j"
  have "db' = db\<lparr>vd_queue := map ?f (vd_queue db)\<rparr>" using run Claim by (auto simp: vectorizer_claim_batch_def Let_def)
  moreover have "jb_attempts (?f j) \<le> WORKER_MAX_ATTEMPTS" if "j \<in> set (vd_queue db)" for j
    using claimed_jobs [of db j WORKER_BATCH WORKER_MAX_ATTEMPTS locked] that q
    by (auto simp: queue_wf_def claimable_def take_job_def)
  ultimately show ?thesis by (intro queue_wf_map [OF q, of db' ?f]) (auto simp: take_job_def jb_key_def)
next
  case (Process i k d)
  then show ?thesis using run q queue_wf_write
    by (auto simp: vectorizer_process_delete_def vectorizer_process_upsert_def split: if_splits option.splits)
next
  case (Mark i r)
  show ?thesis
  proof (cases r)
    case None
    then show ?thesis using run Mark queue_wf_mark_done [OF q, of i "wk_owner w"] by (auto split: prod.splits)
  next
    case (Some err)
    let ?f = "\<lambda>j. if owned i (wk_owner w) j then fail_job err WORKER_MAX_ATTEMPTS (vd_now db) j else j"
    have m: "db' = db\<lparr>vd_queue := map ?f (vd_queue db)\<rparr>" "pending_unique (map ?f (vd_queue db))"
      using run Mark Some by (auto simp: vectorizer_mark_failed_def Let_def split: sum.splits if_splits)
    have "map jb_id (map ?f (vd_queue db)) = map jb_id (vd_queue db)" by simp
    then have "queue_ok db'" using q m(1) unfolding queue_wf_def queue_ok_def by (auto simp del: map_map)
    then show ?thesis using q m by (auto simp: queue_wf_def fail_job_def)
  qed
next
  case (ReadGroup vid grp)
  then show ?thesis using run q by (auto split: sum.splits)
next
  case (Renew ids)
  have "queue_wf (fst (vectorizer_renew_lease ids (wk_owner w) WORKER_LEASE_SECS db))"
    by (rule queue_wf_map [OF q, where f = "\<lambda>j. if list_ex (\<lambda>i. owned i (wk_owner w) j) ids
        then j\<lparr>jb_lease := Some (vd_now db + WORKER_LEASE_SECS)\<rparr> else j"])
      (use q in \<open>auto simp: vectorizer_renew_lease_def Let_def jb_key_def queue_wf_def\<close>)
  moreover have "db' = fst (vectorizer_renew_lease ids (wk_owner w) WORKER_LEASE_SECS db)" 
    using run unfolding Renew run_task.simps by (metis option.inject prod.inject)
  ultimately show ?thesis by simp
next
  case (EmbedGroup vid items)
  then show ?thesis using run q by (auto split: if_splits)
next
  case (WriteGroup vid items)
  then show ?thesis using run q queue_wf_write_items [OF q, of "wk_owner w" vid items 0]
    by (auto simp: vectorizer_write_batch_def split: if_splits prod.splits)
next
  case Bump
  then show ?thesis using run q queue_wf_same [OF q] by (auto simp: vectorizer_bump_stats_def)
qed

lemma vec_run_queue: "vec_run emb keep calm db w lost \<Longrightarrow> queue_wf db"
proof (induction rule: vec_run.induct)
  case (start db w)
  then show ?case by (simp add: queue_wf_def queue_ok_def pending_unique_def)
next
  case (dml db w lost row k)
  then show ?case using queue_wf_enqueue queue_wf_same by (simp add: source_dml_def Let_def)
next
  case (tick db w lost t)
  then show ?case using queue_wf_same by simp
next
  case (work db w lost up locked db' w')
  then show ?case using queue_wf_task by (auto simp: worker_step_def split: list.splits)
qed

text \<open>In place the write of the worker fires the trigger it serves: every processed row leaves a pending job behind, and
  completing the processed job does not remove it. The queue of an in-place vectorizer never drains.\<close>

lemma enqueue_pending: "\<exists>j \<in> set (vd_queue (enqueue db k x)). is_pending k j"
proof (cases "list_ex (is_pending k) (vd_queue db)")
  case True
  then obtain j where j: "j \<in> set (vd_queue db)" "is_pending k j" by (auto simp: list_ex_iff)
  have "j\<lparr>jb_op := x\<rparr> \<in> set (vd_queue (enqueue db k x))" using True j by (force simp: enqueue_def)
  moreover have "is_pending k (j\<lparr>jb_op := x\<rparr>)" using j(2) by (simp add: is_pending_def jb_key_def)
  ultimately show ?thesis ..
next
  case False
  then show ?thesis by (simp add: enqueue_def is_pending_def jb_key_def)
qed

lemma in_place_never_drains:
  assumes "vectorizer_process_upsert emb up db k = Inr db'" and "in_place db (vk_vid k)" and "vd_source db k \<noteq> None"
  shows "\<exists>j \<in> set (vd_queue (fst (vectorizer_mark_done i owner db'))). is_pending k j"
proof -
  obtain c where c: "db' = write_target db k (Some (emb c))"
    using assms(1) by (auto simp: vectorizer_process_upsert_def split: if_splits option.splits)
  obtain db1 where "db' = enqueue db1 k Upsert" using assms(2,3) c by (auto simp: write_target_def target_row_def Let_def)
  then have "\<exists>j \<in> set (vd_queue db'). is_pending k j" using enqueue_pending by simp
  then show ?thesis by (auto simp: vectorizer_mark_done_def is_pending_def owned_def)
qed

section \<open>A run, event by event\<close>

datatype event = Dml vec_key "string option option" | Tick int | Work | Crash string

text \<open>The events of a run, the endpoint answering and no row locked; \<open>None\<close> when the worker ends or a time goes back.\<close>

definition event_step :: "(string \<Rightarrow> string) \<Rightarrow> nat \<Rightarrow> event \<Rightarrow> vec_db \<times> worker \<Rightarrow> (vec_db \<times> worker) option" where
  "event_step emb keep ev s = (case s of (db, w) \<Rightarrow>
     (case ev of Dml k row \<Rightarrow> Some (source_dml db k row, w)
      | Tick t \<Rightarrow> if vd_now db \<le> t then Some (db\<lparr>vd_now := t\<rparr>, w) else None
      | Work \<Rightarrow> if buried keep db (wk_tasks w) = {} then worker_step emb keep True (\<lambda>_. False) db w else None
      | Crash o' \<Rightarrow> Some (db, w\<lparr>wk_owner := o', wk_tasks := []\<rparr>)))"

fun event_run :: "(string \<Rightarrow> string) \<Rightarrow> nat \<Rightarrow> event list \<Rightarrow> vec_db \<times> worker \<Rightarrow> (vec_db \<times> worker) option" where
  "event_run emb keep [] s = Some s"
| "event_run emb keep (ev # evs) s = Option.bind (event_step emb keep ev s) (event_run emb keep evs)"

lemma event_run_run:
  assumes "vec_run emb keep False (fst s) (snd s) {}" and "event_run emb keep evs s = Some s'"
  shows "vec_run emb keep False (fst s') (snd s') {}"
  using assms
proof (induction evs arbitrary: s)
  case (Cons ev evs)
  obtain s1 where s1: "event_step emb keep ev s = Some s1" "event_run emb keep evs s1 = Some s'"
    using Cons.prems(2) by (auto simp: Option.bind_eq_Some_conv)
  obtain db w where s: "s = (db, w)" by (cases s)
  have r: "vec_run emb keep False db w {}" using Cons.prems(1) s by simp
  have "vec_run emb keep False (fst s1) (snd s1) {}"
  proof (cases ev)
    case (Dml k row)
    then show ?thesis using s1(1) s vec_run.dml [OF r] by (auto simp: event_step_def)
  next
    case (Tick t)
    then show ?thesis using s1(1) s vec_run.tick [OF r, of t] by (auto simp: event_step_def split: if_splits)
  next
    case Work
    then have b: "buried keep db (wk_tasks w) = {}" "worker_step emb keep True (\<lambda>_. False) db w = Some (fst s1, snd s1)"
      using s1(1) s by (auto simp: event_step_def split: if_splits)
    show ?thesis using vec_run.work [OF r b(2)] b(1) by simp
  next
    case (Crash o')
    then show ?thesis using s1(1) s vec_run.crash [OF r] by (auto simp: event_step_def)
  qed
  then show ?case using Cons.IH s1(2) by blast
qed simp

text \<open>The equations a run of events is evaluated with.\<close>

lemmas replay_simps = event_step_def worker_step_def source_dml_def enqueue_def Let_def in_place_def is_pending_def jb_key_def buried_def
  vectorizer_reap_orphans_def is_orphan_def kept_letters_def vectorizer_purge_dead_letters_def vectorizer_claim_batch_def claim_ids_def
  claimable_def take_job_def WORKER_BATCH_def WORKER_LEASE_SECS_def WORKER_MAX_ATTEMPTS_def dispatch_def process_one_def upsert_groups_def
  vectorizer_process_delete_def write_target_def target_row_def vectorizer_mark_done_def owned_def count_def vectorizer_bump_stats_def
  vectorizer_read_batch_def fetch_content_def vectorizer_renew_lease_def vectorizer_write_batch_def

lemma fail_job_state: "jb_state (fail_job err m now j) = (if jb_attempts j \<ge> m then Failed else Pending)"
  by (simp add: fail_job_def)

section \<open>Properties\<close>


definition row_db :: "vec_key \<Rightarrow> string option option \<Rightarrow> string option \<Rightarrow> vec_db" where
  "row_db k row e = \<lparr>vd_queue = [], vd_seq = 0, vd_now = 0, vd_cfg = (\<lambda>v. if v = vk_vid k then Some False else None),
     vd_source = (\<lambda>k'. if k' = k then row else None), vd_target = (\<lambda>k'. if k' = k then e else None), vd_rows = [k],
     vd_processed = 0, vd_failed = 0\<rparr>"

definition idle_worker :: "string \<Rightarrow> worker" where
  "idle_worker o' = \<lparr>wk_owner = o', wk_tasks = [], wk_processed = 0, wk_failed = 0\<rparr>"

lemma row_db_start: "vec_run emb keep calm (row_db k (Some (Some c)) (Some (emb c))) (idle_worker o') {}"
  by (rule vec_run.start) (auto simp: row_db_def idle_worker_def in_sync_def wanted_def fetch_content_def target_row_def in_place_def)


text \<open>C26: Without that hypothesis a live row loses its embedding for good. For every endpoint, key, text and dead-letter limit there is a run of
  the worker, from a state in sync, with one crash and no failing call, that ends with an empty queue, an idle worker, no dead letter purged and the key
  out of sync: the row is deleted, the delete claimed, the worker crashes, the row is inserted again and embedded by the restarted worker,
  and when its lease expires the old delete is claimed again and clears the embedding of the live row.\<close>

theorem vectorizer_delete_replayed:
  "\<exists>db w. vec_run emb keep False db w {} \<and> vd_queue db = [] \<and> wk_tasks w = [] \<and> vd_source db k = Some (Some c) \<and>
     target_row db k \<and> vd_target db k = None \<and> \<not> in_sync emb db k"
proof -
  let ?evs = "[Dml k None, Work, Work, Work, Crash ''b'', Dml k (Some (Some c)), Work, Work, Work, Work, Work, Work, Work, Work,
    Tick 121, Work, Work, Work, Work, Work, Work]"
  obtain vid pk where k: "k = VKey vid pk" by (cases k)
  have "\<exists>db w. event_run emb keep ?evs (row_db k (Some (Some c)) (Some (emb c)), idle_worker ''a'') = Some (db, w) \<and>
     vd_queue db = [] \<and> wk_tasks w = [] \<and> vd_source db k = Some (Some c) \<and> target_row db k \<and> vd_target db k = None"
    by (auto simp: k row_db_def idle_worker_def replay_simps)
  then obtain db w where r: "event_run emb keep ?evs (row_db k (Some (Some c)) (Some (emb c)), idle_worker ''a'') = Some (db, w)"
    and s: "vd_queue db = []" "wk_tasks w = []" "vd_source db k = Some (Some c)" "target_row db k" "vd_target db k = None" by blast
  have "vec_run emb keep False db w {}" using event_run_run [OF _ r] row_db_start by simp
  moreover have "\<not> in_sync emb db k" using s by (simp add: in_sync_def wanted_def fetch_content_def)
  ultimately show ?thesis using s by blast
qed

text \<open>C25: The queue of a run has no id twice, at most one pending job of a key and no job claimed more than five times, and a
  claim is exclusive: it takes at most \<open>batch\<close> jobs, none that is locked, dead, at the cap, or under a lease that has not expired, each becomes
  the claimer's with a full lease and one more attempt, every other job is left alone, and from then on no other worker can complete a claimed
  job: its \<open>mark_done\<close> changes nothing and reports the lost lease.\<close>

theorem vectorizer_claim_exclusive:
  assumes "vec_run emb keep calm db w lost"
    and "vectorizer_claim_batch owner batch secs WORKER_MAX_ATTEMPTS locked db = (db', js)"
  shows "queue_wf db \<and> length js \<le> batch \<and> distinct (map jb_id js) \<and>
    (\<forall>j \<in> set js. \<exists>j0 \<in> set (vd_queue db). j = take_job owner (vd_now db + secs) j0 \<and>
       claimable (vd_now db) WORKER_MAX_ATTEMPTS j0 \<and> \<not> locked (jb_id j0)) \<and>
    vd_queue db' = map (\<lambda>j0. if jb_id j0 \<in> jb_id ` set js then take_job owner (vd_now db + secs) j0 else j0) (vd_queue db) \<and>
    (\<forall>j \<in> set js. \<forall>o'. o' \<noteq> owner \<longrightarrow> vectorizer_mark_done (jb_id j) o' db' = (db', False))"
proof -
  have q: "queue_wf db" by (rule vec_run_queue [OF assms(1)])
  have d: "distinct (map jb_id (vd_queue db))" using q by (simp add: queue_wf_def queue_ok_def)
  let ?ids = "claim_ids batch WORKER_MAX_ATTEMPTS locked db"
  let ?f = "\<lambda>j. if jb_id j \<in> set ?ids then take_job owner (vd_now db + secs) j else j"
  have db': "vd_queue db' = map ?f (vd_queue db)" "db' = db\<lparr>vd_queue := map ?f (vd_queue db)\<rparr>"
    and js: "js = filter (\<lambda>j. jb_id j \<in> set ?ids) (map ?f (vd_queue db))"
    using assms(2) by (auto simp: vectorizer_claim_batch_def Let_def)
  have fm: "filter (\<lambda>j. jb_id j \<in> A) (map (\<lambda>j. if jb_id j \<in> A then take_job o' t j else j) q) =
      map (take_job o' t) (filter (\<lambda>j. jb_id j \<in> A) q)" for A o' t q
    by (induction q) auto
  have js': "js = map (take_job owner (vd_now db + secs)) (filter (\<lambda>j. jb_id j \<in> set ?ids) (vd_queue db))"
    using fm unfolding js .
  have ids: "map jb_id js = filter (\<lambda>i. i \<in> set ?ids) (map jb_id (vd_queue db))"
    unfolding js' by (simp add: filter_map comp_def)
  have dj: "distinct (map jb_id js)" unfolding ids using d by simp
  have sub: "set ?ids \<subseteq> jb_id ` set (vd_queue db)" by (auto simp: claim_ids_def dest!: in_set_takeD)
  then have im: "jb_id ` set js = set ?ids" using arg_cong [OF ids, of set] by auto
  have "length js = card (jb_id ` set js)" using distinct_card [OF dj] by simp
  also have "\<dots> \<le> length ?ids" unfolding im by (rule card_length)
  also have "\<dots> \<le> batch" by (simp add: claim_ids_def)
  finally have len: "length js \<le> batch" .
  have unique: "j = j'" if "j \<in> set (vd_queue db)" "j' \<in> set (vd_queue db)" "jb_id j = jb_id j'" for j j'
    using d that by (meson distinct_map inj_on_def)
  have ok: "claimable (vd_now db) WORKER_MAX_ATTEMPTS j \<and> \<not> locked (jb_id j)"
    if j: "j \<in> set (vd_queue db)" "jb_id j \<in> set ?ids" for j
  proof -
    obtain j' where "j' \<in> set (vd_queue db)" "jb_id j' = jb_id j" "claimable (vd_now db) WORKER_MAX_ATTEMPTS j'" "\<not> locked (jb_id j')"
      using j(2) by (auto simp: claim_ids_def dest!: in_set_takeD)
    then show ?thesis using unique [OF j(1)] by metis
  qed
  have fence: "vectorizer_mark_done (jb_id j) o' db' = (db', False)" if "j \<in> set js" "o' \<noteq> owner" for j o'
  proof -
    have "jb_id j \<in> set ?ids" using that(1) im by blast
    then have "\<not> owned (jb_id j) o' j'" if "j' \<in> set (vd_queue db')" for j'
      using that \<open>o' \<noteq> owner\<close> unfolding db'(1) by (auto simp: owned_def take_job_def split: if_splits)
    then show ?thesis by (simp add: vectorizer_mark_done_def list_ex_iff filter_id_conv)
  qed
  show ?thesis
    unfolding im using q len dj fence db'(1) ok by (auto simp: js')
qed

theorem vectorizer_claim_exclusive_witness:
  "\<exists>db db' j. vec_run (\<lambda>t. t) 1000 False db (idle_worker ''a'') {} \<and>
     vectorizer_claim_batch ''a'' 10 120 WORKER_MAX_ATTEMPTS (\<lambda>_. False) db = (db', [j]) \<and> jb_id j = 0 \<and>
     vectorizer_mark_done 0 ''b'' db' = (db', False)"
proof -
  let ?k = "VKey 1 ''7''" and ?s0 = "row_db (VKey 1 ''7'') (Some (Some ''a'')) (Some ''a'')"
  let ?db = "source_dml ?s0 ?k (Some (Some ''b''))"
  have r: "vec_run (\<lambda>t. t) 1000 False ?db (idle_worker ''a'') {}"
    by (rule vec_run.dml [OF row_db_start [of "\<lambda>t. t"]]) simp
  have "\<exists>db' j. vectorizer_claim_batch ''a'' 10 120 WORKER_MAX_ATTEMPTS (\<lambda>_. False) ?db = (db', [j]) \<and> jb_id j = 0"
    by (simp add: row_db_def replay_simps)
  then obtain db' j where c: "vectorizer_claim_batch ''a'' 10 120 WORKER_MAX_ATTEMPTS (\<lambda>_. False) ?db = (db', [j])" "jb_id j = 0" by blast
  then have "vectorizer_mark_done 0 ''b'' db' = (db', False)"
    using vectorizer_claim_exclusive [OF r c(1)] by (auto dest: spec [of _ "''b''"])
  with r c show ?thesis by blast
qed

text \<open>C27: A failing job whose row has changed since it was claimed ends the worker. In every run, marking job \<open>i\<close> as failed raises, outside
  every handler, exactly when the worker still owns it, it is below the attempt cap and its key has a pending job: putting it back to pending would
  break the unique index of pending jobs. The trigger enqueues such a job whenever the row is written while the old one is processed.\<close>

theorem vectorizer_failure_conflict:
  assumes "vec_run emb keep calm db w lost"
  shows "run_task emb keep up locked (Mark i (Some err)) db w = None \<longleftrightarrow>
    (\<exists>j \<in> set (vd_queue db). owned i (wk_owner w) j \<and> jb_attempts j < WORKER_MAX_ATTEMPTS \<and>
       (\<exists>j' \<in> set (vd_queue db). jb_key j' = jb_key j \<and> jb_state j' = Pending))"
proof -
  have q: "queue_wf db" by (rule vec_run_queue [OF assms])
  then have u: "pending_unique (vd_queue db)" by (simp add: queue_wf_def)
  let ?P = "owned i (wk_owner w)"
  let ?f = "\<lambda>j. if ?P j then fail_job err WORKER_MAX_ATTEMPTS (vd_now db) j else j"
  have r: "run_task emb keep up locked (Mark i (Some err)) db w = None \<longleftrightarrow> \<not> pending_unique (map ?f (vd_queue db))"
    by (simp add: vectorizer_mark_failed_def Let_def)
  show ?thesis
  proof (cases "\<exists>j \<in> set (vd_queue db). ?P j")
    case False
    then have "map ?f (vd_queue db) = vd_queue db" by (simp add: map_idI)
    then show ?thesis unfolding r using u False by auto
  next
    case True
    then obtain j xs ys where j: "vd_queue db = xs @ j # ys" "?P j" by (meson split_list)
    have other: "\<not> ?P j'" if "j' \<in> set (xs @ ys)" for j'
      using q j that by (auto simp: queue_wf_def queue_ok_def owned_def image_iff)
    then have m: "map ?f (vd_queue db) = xs @ fail_job err WORKER_MAX_ATTEMPTS (vd_now db) j # ys"
      using j by (simp add: map_idI)
    have p: "jb_state j = Processing" using j(2) by (simp add: owned_def)
    have xy: "distinct (map jb_key (filter (\<lambda>j. jb_state j = Pending) (xs @ ys)))"
      using u p by (simp add: pending_unique_def j(1))
    have "pending_unique (map ?f (vd_queue db)) \<longleftrightarrow>
        jb_attempts j \<ge> WORKER_MAX_ATTEMPTS \<or> (\<forall>j' \<in> set (xs @ ys). jb_state j' = Pending \<longrightarrow> jb_key j' \<noteq> jb_key j)"
      unfolding m using xy by (cases "WORKER_MAX_ATTEMPTS \<le> jb_attempts j") (auto simp: pending_unique_def fail_job_state image_iff)
    then show ?thesis unfolding r using j p other by (auto simp: not_le)
  qed
qed

theorem vectorizer_failure_conflict_witness:
  "\<exists>db w. vec_run (\<lambda>t. t) 1000 False db w {} \<and>
     run_task (\<lambda>t. t) 1000 True (\<lambda>_. False) (Mark 0 (Some ''down'')) db w = None"
proof -
  let ?k = "VKey 1 ''7''"
  let ?evs = "[Dml ?k (Some (Some ''b'')), Work, Work, Work, Dml ?k (Some (Some ''c''))]"
  let ?s0 = "(row_db ?k (Some (Some ''a'')) (Some ''a''), idle_worker ''a'')"
  have "\<exists>db w. event_run (\<lambda>t. t) 1000 ?evs ?s0 = Some (db, w) \<and>
      (\<exists>j \<in> set (vd_queue db). owned 0 (wk_owner w) j \<and> jb_attempts j < WORKER_MAX_ATTEMPTS \<and>
         (\<exists>j' \<in> set (vd_queue db). jb_key j' = jb_key j \<and> jb_state j' = Pending))"
    by (auto simp: row_db_def idle_worker_def replay_simps)
  then obtain db w where r: "event_run (\<lambda>t. t) 1000 ?evs ?s0 = Some (db, w)"
    and c: "\<exists>j \<in> set (vd_queue db). owned 0 (wk_owner w) j \<and> jb_attempts j < WORKER_MAX_ATTEMPTS \<and>
         (\<exists>j' \<in> set (vd_queue db). jb_key j' = jb_key j \<and> jb_state j' = Pending)" by blast
  have "vec_run (\<lambda>t. t) 1000 False db w {}" using event_run_run [OF _ r] row_db_start [of "\<lambda>t. t"] by simp
  then show ?thesis using vectorizer_failure_conflict c by blast
qed

declare split_paired_All [simp] split_paired_Ex [simp]

end
