(* ===== verification/Spec2Isabelle.thy ===== *)
theory Spec2Isabelle
  imports HnswAm HnswQuery IvfAm ColumnarScan GraphQuery VectorizerRun
begin

text \<open>
  The root of the development.
\<close>

end
